(* ===== verification/Prelude.thy ===== *)
theory Prelude
  imports Main "HOL-Library.AList" "HOL-Library.Char_ord" "HOL-Library.List_Lexorder"
begin

text \<open>
  Shared vocabulary of the development: Go maps as association lists, Go's zero
  values, \<open>time.Time\<close> and \<open>time.Duration\<close> as integers, slice helpers and the
  generic lemmas the component theories use.

  A Go map \<open>map[K]V\<close> is an association list. Reading a missing key of a
  \<open>map[string]int\<close> gives 0 (\<open>mint\<close>). Ranging over a map visits the list in its
  order: Go leaves that order unspecified, and the theorems hold for every list.

  \<open>time.Time\<close> is the number of nanoseconds since Go's zero time, so the zero value
  is 0 and \<open>Before\<close>/\<open>After\<close>/\<open>Sub\<close>/\<open>Add\<close> are integer comparison and
  arithmetic; \<open>time.Duration\<close> is a number of nanoseconds. Counters declared
  \<open>int\<close> are integers: they stay far below the 64-bit range.
\<close>

section \<open>Go maps\<close>

type_synonym ('k, 'v) gomap = "('k \<times> 'v) list"

definition mput :: "'k \<Rightarrow> 'v \<Rightarrow> ('k, 'v) gomap \<Rightarrow> ('k, 'v) gomap" where
  "mput k v m = AList.update k v m"

definition mdel :: "'k \<Rightarrow> ('k, 'v) gomap \<Rightarrow> ('k, 'v) gomap" where
  "mdel k m = AList.delete k m"

definition mkeys :: "('k, 'v) gomap \<Rightarrow> 'k list" where
  "mkeys m = remdups (map fst m)"

definition mint :: "('k, int) gomap \<Rightarrow> 'k \<Rightarrow> int" where
  "mint m k = (case map_of m k of Some v \<Rightarrow> v | None \<Rightarrow> 0)"

definition mlist :: "('k, 'v list) gomap \<Rightarrow> 'k \<Rightarrow> 'v list" where
  "mlist m k = (case map_of m k of Some v \<Rightarrow> v | None \<Rightarrow> [])"

named_theorems gomap \<open>lookups in updated Go maps\<close>

lemma map_of_mput [simp, gomap]: "map_of (mput k v m) = (map_of m)(k \<mapsto> v)"
  by (simp add: mput_def AList.update_conv')

lemma map_of_mdel [simp, gomap]: "map_of (mdel k m) = (map_of m)(k := None)"
  by (simp add: mdel_def AList.delete_conv')

lemma mint_mput [simp, gomap]: "mint (mput k v m) k' = (if k' = k then v else mint m k')"
  by (simp add: mint_def)

lemma mint_mdel [simp, gomap]: "mint (mdel k m) k' = (if k' = k then 0 else mint m k')"
  by (simp add: mint_def)

lemma mint_Nil [simp, gomap]: "mint [] k = 0"
  by (simp add: mint_def)

lemma mlist_mput [simp, gomap]: "mlist (mput k v m) k' = (if k' = k then v else mlist m k')"
  by (simp add: mlist_def)

lemma mlist_mdel [simp, gomap]: "mlist (mdel k m) k' = (if k' = k then [] else mlist m k')"
  by (simp add: mlist_def)

lemma mlist_Nil [simp, gomap]: "mlist [] k = []"
  by (simp add: mlist_def)

lemma set_mkeys [simp]: "set (mkeys m) = dom (map_of m)"
  by (simp add: mkeys_def dom_map_of_conv_image_fst)

lemma distinct_mkeys [simp]: "distinct (mkeys m)"
  by (simp add: mkeys_def)

lemma distinct_mput [simp]: "distinct (map fst m) \<Longrightarrow> distinct (map fst (mput k v m))"
  by (simp add: mput_def distinct_update)

lemma distinct_mdel [simp]: "distinct (map fst m) \<Longrightarrow> distinct (map fst (mdel k m))"
  by (simp add: mdel_def distinct_delete)

lemma mput_new: "k \<notin> dom (map_of m) \<Longrightarrow> mput k v m = m @ [(k, v)]"
  unfolding mput_def by (induction m) (auto split: if_splits)

section \<open>Time\<close>

type_synonym gotime = int
type_synonym duration = int

abbreviation (input) Second :: duration where
  "Second \<equiv> 1000000000"

abbreviation (input) Minute :: duration where
  "Minute \<equiv> 60 * Second"

abbreviation (input) Hour :: duration where
  "Hour \<equiv> 60 * Minute"

abbreviation (input) zeroTime :: gotime where
  "zeroTime \<equiv> 0"

section \<open>Slices\<close>

fun containsString :: "'a list \<Rightarrow> 'a \<Rightarrow> bool" where
  "containsString [] s = False"
| "containsString (x # xs) s = (if x = s then True else containsString xs s)"

lemma containsString_iff [simp]: "containsString xs s \<longleftrightarrow> s \<in> set xs"
  by (induction xs) auto

fun slicesOverlap :: "'a list \<Rightarrow> 'a list \<Rightarrow> bool" where
  "slicesOverlap [] ys = False"
| "slicesOverlap (x # xs) ys = (if containsString ys x then True else slicesOverlap xs ys)"

lemma slicesOverlap_iff [simp]: "slicesOverlap xs ys \<longleftrightarrow> set xs \<inter> set ys \<noteq> {}"
  by (induction xs) auto

lemma set_map_filter: "set (List.map_filter f xs) = {y. \<exists>x\<in>set xs. f x = Some y}"
  by (induction xs) (auto simp: List.map_filter_def)

lemma set_sort_eq [simp]: "set (sort xs) = set xs"
  by simp

end
