(* ===== verification/MatrixDSL.thy ===== *)
theory MatrixDSL
  imports Prelude
begin

text \<open>
  The matrix routing DSL, \<open>internal/matrix/dsl.go\<close>: the tokenizer, the recursive
  descent parser (\<open>parseOrExpr\<close>, \<open>parseAndExpr\<close>, \<open>parseAtom\<close>) and \<open>parseDSL\<close>.

  A rune is a \<open>char\<close> read as a code point of the Latin-1 range (0 to 255), so
  \<open>unicode.IsSpace\<close>, \<open>unicode.IsLetter\<close> and \<open>unicode.IsDigit\<close> are given by their
  Latin-1 tables. The parser's \<open>pos\<close> cursor is the list of tokens still to be read.
  The loops of \<open>parseOrExpr\<close> and \<open>parseAndExpr\<close> are the functions \<open>orLoop\<close> and
  \<open>andLoop\<close>.
\<close>

section \<open>Data\<close>

datatype token =
    TokIdent string
  | TokAnd
  | TokOr
  | TokLParen
  | TokRParen
  | TokRef string
  | TokEOF

fun tok_val :: "token \<Rightarrow> string" where
  "tok_val (TokIdent s) = s"
| "tok_val TokAnd = ''&''"
| "tok_val TokOr = ''|''"
| "tok_val TokLParen = ''(''"
| "tok_val TokRParen = '')''"
| "tok_val (TokRef s) = s"
| "tok_val TokEOF = []"

text \<open>\<open>NodeRef\<close> carries the linked expression (\<open>ref\<close>), \<open>None\<close> until \<open>Compile\<close> links it.\<close>

datatype node =
    NodeLeaf string
  | NodeRef string "node option"
  | NodeAnd "node list"
  | NodeOr "node list"

datatype dsl_error =
    ExpectedSetName nat
  | UnexpectedChar char nat
  | EmptyExpression
  | UnexpectedToken string
  | MissingParen
  | TrailingToken string

section \<open>Tokenizer\<close>

definition IsSpace :: "char \<Rightarrow> bool" where
  "IsSpace c = (let n = of_char c :: nat in n \<in> {9, 10, 11, 12, 13, 32, 133, 160})"

definition IsLetter :: "char \<Rightarrow> bool" where
  "IsLetter c = (let n = of_char c :: nat in
     65 \<le> n \<and> n \<le> 90 \<or> 97 \<le> n \<and> n \<le> 122 \<or> n = 170 \<or> n = 181 \<or> n = 186 \<or>
     192 \<le> n \<and> n \<le> 214 \<or> 216 \<le> n \<and> n \<le> 246 \<or> 248 \<le> n \<and> n \<le> 255)"

definition IsDigit :: "char \<Rightarrow> bool" where
  "IsDigit c = (let n = of_char c :: nat in 48 \<le> n \<and> n \<le> 57)"

definition isIdentChar :: "char \<Rightarrow> bool" where
  "isIdentChar ch \<longleftrightarrow> IsLetter ch \<or> IsDigit ch \<or> ch = CHR ''_'' \<or> ch = CHR ''-'' \<or> ch = CHR ''.''"

text \<open>\<open>i\<close> is the index of the first rune of the rest of the input.\<close>

function tokenize_at :: "nat \<Rightarrow> string \<Rightarrow> dsl_error + token list" where
  "tokenize_at i [] = Inr [TokEOF]"
| "tokenize_at i (ch # rest) =
     (if IsSpace ch then tokenize_at (i + 1) rest
      else if ch = CHR ''&'' then map_sum id (\<lambda>ts. TokAnd # ts) (tokenize_at (i + 1) rest)
      else if ch = CHR ''|'' then map_sum id (\<lambda>ts. TokOr # ts) (tokenize_at (i + 1) rest)
      else if ch = CHR ''('' then map_sum id (\<lambda>ts. TokLParen # ts) (tokenize_at (i + 1) rest)
      else if ch = CHR '')'' then map_sum id (\<lambda>ts. TokRParen # ts) (tokenize_at (i + 1) rest)
      else if ch = CHR ''+'' then
        (let name = takeWhile isIdentChar rest
         in if name = [] then Inl (ExpectedSetName (i + 1))
            else map_sum id (\<lambda>ts. TokRef name # ts)
                   (tokenize_at (i + 1 + length name) (dropWhile isIdentChar rest)))
      else if \<not> isIdentChar ch then Inl (UnexpectedChar ch i)
      else
        (let name = takeWhile isIdentChar (ch # rest)
         in map_sum id (\<lambda>ts. TokIdent name # ts)
              (tokenize_at (i + length name) (dropWhile isIdentChar (ch # rest)))))"
  by pat_completeness auto
termination tokenize_at
  by (relation "measure (\<lambda>(i, s). length s)") (auto simp: le_imp_less_Suc length_dropWhile_le)

declare tokenize_at.simps(2) [simp del]

definition tokenize :: "string \<Rightarrow> dsl_error + token list" where
  "tokenize input = tokenize_at 0 input"

section \<open>Parser\<close>

fun peek :: "token list \<Rightarrow> token" where
  "peek [] = TokEOF"
| "peek (t # ts) = t"

fun next_tok :: "token list \<Rightarrow> token \<times> token list" where
  "next_tok ts = (let t = peek ts in (t, if t \<noteq> TokEOF then tl ts else ts))"

function (sequential) parseOrExpr :: "token list \<Rightarrow> dsl_error + (node \<times> token list)"
  and orLoop :: "node list \<Rightarrow> token list \<Rightarrow> dsl_error + (node list \<times> token list)"
  and parseAndExpr :: "token list \<Rightarrow> dsl_error + (node \<times> token list)"
  and andLoop :: "node list \<Rightarrow> token list \<Rightarrow> dsl_error + (node list \<times> token list)"
  and parseAtom :: "token list \<Rightarrow> dsl_error + (node \<times> token list)"
where
  "parseOrExpr ts =
     (case parseAndExpr ts of
        Inl e \<Rightarrow> Inl e
      | Inr (left, ts1) \<Rightarrow>
          if peek ts1 \<noteq> TokOr then Inr (left, ts1)
          else (case orLoop [left] ts1 of
                  Inl e \<Rightarrow> Inl e
                | Inr (children, ts2) \<Rightarrow> Inr (NodeOr children, ts2)))"
| "orLoop children ts =
     (if peek ts = TokOr then
        (case parseAndExpr (snd (next_tok ts)) of
           Inl e \<Rightarrow> Inl e
         | Inr (right, ts1) \<Rightarrow> orLoop (children @ [right]) ts1)
      else Inr (children, ts))"
| "parseAndExpr ts =
     (case parseAtom ts of
        Inl e \<Rightarrow> Inl e
      | Inr (left, ts1) \<Rightarrow>
          if peek ts1 \<noteq> TokAnd then Inr (left, ts1)
          else (case andLoop [left] ts1 of
                  Inl e \<Rightarrow> Inl e
                | Inr (children, ts2) \<Rightarrow> Inr (NodeAnd children, ts2)))"
| "andLoop children ts =
     (if peek ts = TokAnd then
        (case parseAtom (snd (next_tok ts)) of
           Inl e \<Rightarrow> Inl e
         | Inr (right, ts1) \<Rightarrow> andLoop (children @ [right]) ts1)
      else Inr (children, ts))"
| "parseAtom ts =
     (case next_tok ts of
        (TokIdent s, ts1) \<Rightarrow> Inr (NodeLeaf s, ts1)
      | (TokRef s, ts1) \<Rightarrow> Inr (NodeRef s None, ts1)
      | (TokLParen, ts1) \<Rightarrow>
          (case parseOrExpr ts1 of
             Inl e \<Rightarrow> Inl e
           | Inr (root, ts2) \<Rightarrow>
               (case next_tok ts2 of
                  (TokRParen, ts3) \<Rightarrow> Inr (root, ts3)
                | _ \<Rightarrow> Inl MissingParen))
      | (t, _) \<Rightarrow> Inl (UnexpectedToken (tok_val t)))"
  by pat_completeness auto

text \<open>Every successful call consumes at least one token, which is why the parser ends.\<close>

lemma next_tok_less: "peek ts \<noteq> TokEOF \<Longrightarrow> length (snd (next_tok ts)) < length ts"
  by (cases ts) (auto simp: Let_def)

lemma next_tok_le: "length (snd (next_tok ts)) \<le> length ts"
  by (cases ts) (auto simp: Let_def)

lemma next_tok_lessD: "next_tok ts = (t, ts1) \<Longrightarrow> t \<noteq> TokEOF \<Longrightarrow> length ts1 < length ts"
  by (cases ts) (auto simp: Let_def split: if_splits)

lemma next_tok_Cons [simp]: "t \<noteq> TokEOF \<Longrightarrow> next_tok (t # ts) = (t, ts)"
  by (simp add: Let_def)

declare next_tok.simps [simp del]

abbreviation "parse_dom \<equiv> parseOrExpr_orLoop_parseAndExpr_andLoop_parseAtom_dom"

lemma parse_consumes:
  "parse_dom (Inl (Inl ts)) \<Longrightarrow> parseOrExpr ts = Inr (n, ts') \<Longrightarrow> length ts' < length ts"
  "parse_dom (Inl (Inr (cs, ts))) \<Longrightarrow> orLoop cs ts = Inr (ns, ts') \<Longrightarrow> length ts' \<le> length ts"
  "parse_dom (Inr (Inl ts)) \<Longrightarrow> parseAndExpr ts = Inr (n, ts') \<Longrightarrow> length ts' < length ts"
  "parse_dom (Inr (Inr (Inl (cs, ts)))) \<Longrightarrow> andLoop cs ts = Inr (ns, ts') \<Longrightarrow> length ts' \<le> length ts"
  "parse_dom (Inr (Inr (Inr ts))) \<Longrightarrow> parseAtom ts = Inr (n, ts') \<Longrightarrow> length ts' < length ts"
proof (induction ts and cs ts and ts and cs ts and ts
    arbitrary: n ts' and ns ts' and n ts' and ns ts' and n ts'
    rule: parseOrExpr_orLoop_parseAndExpr_andLoop_parseAtom.pinduct)
  case (1 ts)
  then show ?case
    by (fastforce simp: parseOrExpr.psimps split: sum.splits prod.splits if_splits)
next
  case (2 children ts)
  with next_tok_le[of ts] show ?case
    by (fastforce simp: orLoop.psimps split: sum.splits prod.splits if_splits)
next
  case (3 ts)
  then show ?case
    by (fastforce simp: parseAndExpr.psimps split: sum.splits prod.splits if_splits)
next
  case (4 children ts)
  with next_tok_le[of ts] show ?case
    by (fastforce simp: andLoop.psimps split: sum.splits prod.splits if_splits)
next
  case (5 ts)
  then show ?case
    by (fastforce simp: parseAtom.psimps dest: next_tok_lessD
        split: sum.splits prod.splits token.splits)
qed

termination parseOrExpr
  by (relation "measures
    [\<lambda>x. case x of Inl (Inl ts) \<Rightarrow> length ts | Inl (Inr (cs, ts)) \<Rightarrow> length ts
       | Inr (Inl ts) \<Rightarrow> length ts | Inr (Inr (Inl (cs, ts))) \<Rightarrow> length ts
       | Inr (Inr (Inr ts)) \<Rightarrow> length ts,
     \<lambda>x. case x of Inl (Inl ts) \<Rightarrow> 2 | Inl (Inr p) \<Rightarrow> 3 | Inr (Inl ts) \<Rightarrow> 1
       | Inr (Inr (Inl p)) \<Rightarrow> 2 | Inr (Inr (Inr ts)) \<Rightarrow> 0]")
    (auto dest!: parse_consumes dest: next_tok_lessD[OF sym] less_trans[OF _ next_tok_less]
       simp: next_tok_less)

declare parseOrExpr.simps [simp del] orLoop.simps [simp del] parseAndExpr.simps [simp del]
  andLoop.simps [simp del] parseAtom.simps [simp del]

definition TrimSpace :: "string \<Rightarrow> string" where
  "TrimSpace s = rev (dropWhile IsSpace (rev (dropWhile IsSpace s)))"

definition parseDSL :: "string \<Rightarrow> dsl_error + node" where
  "parseDSL input0 =
     (let input = TrimSpace input0
      in if input = [] then Inl EmptyExpression
         else (case tokenize input of
                 Inl e \<Rightarrow> Inl e
               | Inr tokens \<Rightarrow>
                   (case parseOrExpr tokens of
                      Inl e \<Rightarrow> Inl e
                    | Inr (root, rest) \<Rightarrow>
                        if peek rest \<noteq> TokEOF then Inl (TrailingToken (tok_val (peek rest)))
                        else Inr root)))"

section \<open>Well-formed expressions and their canonical text\<close>

definition ident_name :: "string \<Rightarrow> bool" where
  "ident_name s \<longleftrightarrow> s \<noteq> [] \<and> (\<forall>c \<in> set s. isIdentChar c)"

fun wf_node :: "node \<Rightarrow> bool" where
  "wf_node (NodeLeaf s) = ident_name s"
| "wf_node (NodeRef s r) = (ident_name s \<and> r = None)"
| "wf_node (NodeAnd cs) = (2 \<le> length cs \<and> list_all wf_node cs)"
| "wf_node (NodeOr cs) = (2 \<le> length cs \<and> list_all wf_node cs)"

text \<open>The canonical token list: a child that is itself an operator of the same or a lower
  precedence is put in parentheses.\<close>

fun joinToks :: "token \<Rightarrow> token list list \<Rightarrow> token list" where
  "joinToks sep [] = []"
| "joinToks sep [ts] = ts"
| "joinToks sep (ts # tss) = ts @ sep # joinToks sep tss"

fun is_Or :: "node \<Rightarrow> bool" where
  "is_Or (NodeOr cs) = True" | "is_Or _ = False"

fun is_op :: "node \<Rightarrow> bool" where
  "is_op (NodeOr cs) = True" | "is_op (NodeAnd cs) = True" | "is_op _ = False"

definition paren :: "bool \<Rightarrow> token list \<Rightarrow> token list" where
  "paren b ts = (if b then TokLParen # ts @ [TokRParen] else ts)"

fun unparse :: "node \<Rightarrow> token list" where
  "unparse (NodeLeaf s) = [TokIdent s]"
| "unparse (NodeRef s r) = [TokRef s]"
| "unparse (NodeAnd cs) = joinToks TokAnd (map (\<lambda>c. paren (is_op c) (unparse c)) cs)"
| "unparse (NodeOr cs) = joinToks TokOr (map (\<lambda>c. paren (is_Or c) (unparse c)) cs)"

fun tok_text :: "token \<Rightarrow> string" where
  "tok_text (TokRef s) = CHR ''+'' # s"
| "tok_text t = tok_val t"

definition show_node :: "node \<Rightarrow> string" where
  "show_node n = concat (map tok_text (unparse n))"

section \<open>Parsing the canonical text\<close>

lemma joinToks_Cons: "joinToks sep (ts # tss) = ts @ concat (map (\<lambda>y. sep # y) tss)"
  by (induction tss arbitrary: ts) auto

lemma orLoop_stop: "peek ts \<noteq> TokOr \<Longrightarrow> orLoop cs ts = Inr (cs, ts)"
  by (simp add: orLoop.simps)

lemma andLoop_stop: "peek ts \<noteq> TokAnd \<Longrightarrow> andLoop cs ts = Inr (cs, ts)"
  by (simp add: andLoop.simps)

lemma peek_join: "peek (concat (map (\<lambda>y. sep # y) tss) @ rest) = (if tss = [] then peek rest else sep)"
  by (cases tss) auto

lemma orLoop_children:
  assumes "\<And>c rest. c \<in> set cs \<Longrightarrow> peek rest \<noteq> TokAnd \<Longrightarrow> parseAndExpr (f c @ rest) = Inr (c, rest)"
    and "peek rest \<noteq> TokAnd" "peek rest \<noteq> TokOr"
  shows "orLoop acc (concat (map (\<lambda>y. TokOr # y) (map f cs)) @ rest) = Inr (acc @ cs, rest)"
  using assms(1)
proof (induction cs arbitrary: acc)
  case Nil
  with assms(3) show ?case by (simp add: orLoop_stop)
next
  case (Cons c cs)
  let ?tail = "concat (map (\<lambda>y. TokOr # y) (map f cs)) @ rest"
  from assms(2) have "peek ?tail \<noteq> TokAnd" by (simp only: peek_join) simp
  with Cons.prems have "parseAndExpr (f c @ ?tail) = Inr (c, ?tail)" by simp
  with Cons.IH[of "acc @ [c]"] Cons.prems show ?case by (simp add: orLoop.simps)
qed

lemma andLoop_children:
  assumes "\<And>c rest. c \<in> set cs \<Longrightarrow> parseAtom (f c @ rest) = Inr (c, rest)"
    and "peek rest \<noteq> TokAnd"
  shows "andLoop acc (concat (map (\<lambda>y. TokAnd # y) (map f cs)) @ rest) = Inr (acc @ cs, rest)"
  using assms(1)
proof (induction cs arbitrary: acc)
  case Nil
  with assms(2) show ?case by (simp add: andLoop_stop)
next
  case (Cons c cs)
  then show ?case by (simp add: andLoop.simps)
qed

lemma parseAtom_paren:
  assumes "\<And>rest. peek rest \<noteq> TokAnd \<Longrightarrow> peek rest \<noteq> TokOr \<Longrightarrow> parseOrExpr (ts @ rest) = Inr (n, rest)"
  shows "parseAtom (TokLParen # ts @ TokRParen # rest) = Inr (n, rest)"
  using assms[of "TokRParen # rest"] by (simp add: parseAtom.simps)

lemma parseAndExpr_atom:
  "parseAtom ts = Inr (n, rest) \<Longrightarrow> peek rest \<noteq> TokAnd \<Longrightarrow> parseAndExpr ts = Inr (n, rest)"
  by (simp add: parseAndExpr.simps)

lemma parseOrExpr_and:
  "parseAndExpr ts = Inr (n, rest) \<Longrightarrow> peek rest \<noteq> TokOr \<Longrightarrow> parseOrExpr ts = Inr (n, rest)"
  by (simp add: parseOrExpr.simps)

lemma parseOrExpr_children:
  assumes "\<And>c rest. c \<in> set cs \<Longrightarrow> peek rest \<noteq> TokAnd \<Longrightarrow> parseAndExpr (f c @ rest) = Inr (c, rest)"
    and "2 \<le> length cs" "peek rest \<noteq> TokAnd" "peek rest \<noteq> TokOr"
  shows "parseOrExpr (joinToks TokOr (map f cs) @ rest) = Inr (NodeOr cs, rest)"
proof -
  from assms(2) obtain c d ds where cs: "cs = c # d # ds" by (cases cs; cases "tl cs") auto
  let ?tail = "concat (map (\<lambda>y. TokOr # y) (map f (d # ds))) @ rest"
  have "parseAndExpr (f c @ ?tail) = Inr (c, ?tail)" using assms(1) cs by simp
  moreover have "orLoop [c] ?tail = Inr ([c] @ (d # ds), rest)"
    using assms cs by (intro orLoop_children) auto
  ultimately show ?thesis using cs by (simp add: joinToks_Cons parseOrExpr.simps)
qed

lemma parseAndExpr_children:
  assumes "\<And>c rest. c \<in> set cs \<Longrightarrow> parseAtom (f c @ rest) = Inr (c, rest)"
    and "2 \<le> length cs" "peek rest \<noteq> TokAnd"
  shows "parseAndExpr (joinToks TokAnd (map f cs) @ rest) = Inr (NodeAnd cs, rest)"
proof -
  from assms(2) obtain c d ds where cs: "cs = c # d # ds" by (cases cs; cases "tl cs") auto
  let ?tail = "concat (map (\<lambda>y. TokAnd # y) (map f (d # ds))) @ rest"
  have "parseAtom (f c @ ?tail) = Inr (c, ?tail)" using assms(1) cs by simp
  moreover have "andLoop [c] ?tail = Inr ([c] @ (d # ds), rest)"
    using assms cs by (intro andLoop_children) auto
  ultimately show ?thesis using cs by (simp add: joinToks_Cons parseAndExpr.simps)
qed

lemma parse_unparse:
  assumes "wf_node n"
  shows parse_unparse_atom: "parseAtom (paren (is_op n) (unparse n) @ rest) = Inr (n, rest)"
    and parse_unparse_and: "peek rest \<noteq> TokAnd \<Longrightarrow>
      parseAndExpr (paren (is_Or n) (unparse n) @ rest) = Inr (n, rest)"
    and parse_unparse_or: "peek rest \<noteq> TokAnd \<Longrightarrow> peek rest \<noteq> TokOr \<Longrightarrow>
      parseOrExpr (unparse n @ rest) = Inr (n, rest)"
  using assms
proof (induction n arbitrary: rest rule: wf_node.induct)
  case (1 s)
  { case 1 show ?case by (simp add: paren_def parseAtom.simps) }
  { case 2 then show ?case by (simp add: paren_def parseAtom.simps parseAndExpr_atom) }
  { case 3 then show ?case by (simp add: parseAtom.simps parseAndExpr_atom parseOrExpr_and) }
next
  case (2 s r)
  { case 1 then show ?case by (simp add: paren_def parseAtom.simps) }
  { case 2 then show ?case by (simp add: paren_def parseAtom.simps parseAndExpr_atom) }
  { case 3 then show ?case by (simp add: parseAtom.simps parseAndExpr_atom parseOrExpr_and) }
next
  case (3 cs)
  have and_ok: "parseAndExpr (unparse (NodeAnd cs) @ rest) = Inr (NodeAnd cs, rest)"
    if "wf_node (NodeAnd cs)" "peek rest \<noteq> TokAnd" for rest
    unfolding unparse.simps using that "3.IH"(1)
    by (intro parseAndExpr_children) (auto simp: list_all_iff)
  have or_ok: "parseOrExpr (unparse (NodeAnd cs) @ rest) = Inr (NodeAnd cs, rest)"
    if "wf_node (NodeAnd cs)" "peek rest \<noteq> TokAnd" "peek rest \<noteq> TokOr" for rest
    using and_ok[OF that(1,2)] that by (intro parseOrExpr_and) auto
  { case 1 then show ?case using or_ok by (simp add: paren_def parseAtom_paren del: unparse.simps) }
  { case 2 then show ?case using and_ok by (simp add: paren_def del: unparse.simps) }
  { case 3 then show ?case using or_ok by blast }
next
  case (4 cs)
  have or_ok: "parseOrExpr (unparse (NodeOr cs) @ rest) = Inr (NodeOr cs, rest)"
    if "wf_node (NodeOr cs)" "peek rest \<noteq> TokAnd" "peek rest \<noteq> TokOr" for rest
    unfolding unparse.simps using that "4.IH"(2)
    by (intro parseOrExpr_children) (auto simp: list_all_iff)
  have atom_ok: "parseAtom (TokLParen # unparse (NodeOr cs) @ TokRParen # rest) = Inr (NodeOr cs, rest)"
    if "wf_node (NodeOr cs)" for rest
    using or_ok that by (intro parseAtom_paren) auto
  { case 1 then show ?case using atom_ok by (simp add: paren_def del: unparse.simps) }
  { case 2 then show ?case using atom_ok by (simp add: paren_def parseAndExpr_atom del: unparse.simps) }
  { case 3 then show ?case using or_ok by blast }
qed

section \<open>Tokenizing the canonical text\<close>

lemma ident_not_space: "isIdentChar c \<Longrightarrow> \<not> IsSpace c"
  by (auto simp: isIdentChar_def IsSpace_def IsLetter_def IsDigit_def Let_def)

lemma punctuation_chars [simp]:
  "\<not> isIdentChar (CHR ''&'')" "\<not> isIdentChar (CHR ''|'')" "\<not> isIdentChar (CHR ''('')"
  "\<not> isIdentChar (CHR '')'')" "\<not> isIdentChar (CHR ''+'')"
  "\<not> IsSpace (CHR ''&'')" "\<not> IsSpace (CHR ''|'')" "\<not> IsSpace (CHR ''('')"
  "\<not> IsSpace (CHR '')'')" "\<not> IsSpace (CHR ''+'')"
  by (simp_all add: isIdentChar_def IsSpace_def IsLetter_def IsDigit_def)

fun is_word :: "token \<Rightarrow> bool" where
  "is_word (TokIdent s) = True" | "is_word (TokRef s) = True" | "is_word _ = False"

fun is_ident :: "token \<Rightarrow> bool" where
  "is_ident (TokIdent s) = True" | "is_ident _ = False"

fun tok_ok :: "token \<Rightarrow> bool" where
  "tok_ok (TokIdent s) = ident_name s"
| "tok_ok (TokRef s) = ident_name s"
| "tok_ok TokEOF = False"
| "tok_ok _ = True"

definition separable :: "token list \<Rightarrow> bool" where
  "separable ts \<longleftrightarrow> list_all tok_ok ts \<and> successively (\<lambda>t u. is_word t \<longrightarrow> \<not> is_ident u) ts"

lemma separable_Cons:
  "separable (t # ts) \<longleftrightarrow> tok_ok t \<and> separable ts \<and> (is_word t \<longrightarrow> ts \<noteq> [] \<longrightarrow> \<not> is_ident (hd ts))"
  by (cases ts) (auto simp: separable_def)

lemma separable_word_rest:
  assumes "separable (t # ts)" "is_word t"
  shows "concat (map tok_text ts) = [] \<or> \<not> isIdentChar (hd (concat (map tok_text ts)))"
proof (cases ts)
  case (Cons u us)
  with assms show ?thesis by (cases u) (auto simp: separable_Cons)
qed simp

lemma takeWhile_ident:
  assumes "\<forall>c \<in> set s. isIdentChar c" "r = [] \<or> \<not> isIdentChar (hd r)"
  shows "takeWhile isIdentChar (s @ r) = s" "dropWhile isIdentChar (s @ r) = r"
  using assms by (induction s) (cases r; auto)+

lemma tokenize_at_word:
  assumes "ident_name s" "r = [] \<or> \<not> isIdentChar (hd r)"
  shows "tokenize_at i (s @ r) = map_sum id (\<lambda>ts. TokIdent s # ts) (tokenize_at (i + length s) r)"
proof -
  from assms obtain c cs where s: "s = c # cs" and c: "isIdentChar c"
    by (cases s) (auto simp: ident_name_def)
  from c have "c \<notin> {CHR ''&'', CHR ''|'', CHR ''('', CHR '')'', CHR ''+''}"
    using punctuation_chars(1-5) by auto
  with s c assms takeWhile_ident[of s r] ident_not_space[OF c] show ?thesis
    by (simp add: tokenize_at.simps(2) ident_name_def)
qed

lemma tokenize_at_ref:
  assumes "ident_name s" "r = [] \<or> \<not> isIdentChar (hd r)"
  shows "tokenize_at i (CHR ''+'' # s @ r) =
    map_sum id (\<lambda>ts. TokRef s # ts) (tokenize_at (i + 1 + length s) r)"
  using assms takeWhile_ident[of s r] by (simp add: tokenize_at.simps(2) ident_name_def)

lemma tokenize_at_separable: "separable ts \<Longrightarrow> tokenize_at i (concat (map tok_text ts)) = Inr (ts @ [TokEOF])"
proof (induction ts arbitrary: i)
  case (Cons t ts)
  note rest = separable_word_rest[OF Cons.prems]
  from Cons show ?case
  proof (cases t)
    case (TokIdent s)
    with Cons rest show ?thesis by (simp add: separable_Cons tokenize_at_word)
  next
    case (TokRef s)
    with Cons rest show ?thesis by (simp add: separable_Cons tokenize_at_ref)
  qed (simp_all add: separable_Cons tokenize_at.simps(2))
qed simp

lemma separable_join:
  assumes "\<forall>ts \<in> set tss. separable ts" "\<not> is_word sep" "\<not> is_ident sep" "tok_ok sep"
  shows "separable (joinToks sep tss)"
  using assms
  by (induction sep tss rule: joinToks.induct)
    (auto simp: separable_def successively_append_iff successively_Cons)

lemma separable_paren: "separable ts \<Longrightarrow> separable (paren b ts)"
  by (auto simp: separable_def paren_def successively_append_iff successively_Cons)

lemma separable_unparse: "wf_node n \<Longrightarrow> separable (unparse n)"
proof (induction n rule: unparse.induct)
  case (3 cs)
  then show ?case by (auto simp: list_all_iff intro!: separable_join separable_paren)
next
  case (4 cs)
  then show ?case by (auto simp: list_all_iff intro!: separable_join separable_paren)
qed (auto simp: separable_def)

lemma tok_text_no_space: "tok_ok t \<Longrightarrow> c \<in> set (tok_text t) \<Longrightarrow> \<not> IsSpace c"
  by (cases t) (auto simp: ident_name_def ident_not_space)

lemma dropWhile_none: "\<forall>c \<in> set s. \<not> P c \<Longrightarrow> dropWhile P s = s"
  by (cases s) auto

lemma TrimSpace_id: "\<forall>c \<in> set s. \<not> IsSpace c \<Longrightarrow> TrimSpace s = s"
  by (simp add: TrimSpace_def dropWhile_none)

lemma parseOrExpr_EOF: "parseOrExpr [TokEOF] = Inl (UnexpectedToken [])"
  by (simp add: parseOrExpr.simps parseAndExpr.simps parseAtom.simps next_tok.simps)

lemma show_node_nonempty:
  assumes "wf_node n"
  shows "show_node n \<noteq> []"
proof
  assume "show_node n = []"
  moreover have "tok_ok t \<Longrightarrow> tok_text t \<noteq> []" for t
    by (cases t) (auto simp: ident_name_def)
  moreover have "\<forall>t \<in> set (unparse n). tok_ok t"
    using separable_unparse[OF assms] by (simp add: separable_def list_all_iff)
  ultimately have "unparse n = []" by (cases "unparse n") (auto simp: show_node_def)
  with parse_unparse_or[OF assms, of "[TokEOF]"] show False by (simp add: parseOrExpr_EOF)
qed

lemma show_node_no_space:
  assumes "wf_node n"
  shows "\<forall>c \<in> set (show_node n). \<not> IsSpace c"
  using separable_unparse[OF assms]
  by (auto simp: separable_def list_all_iff show_node_def dest: tok_text_no_space)

section \<open>What the parser accepts\<close>

lemma map_sum_Inr_iff: "map_sum id f x = Inr y \<longleftrightarrow> (\<exists>z. x = Inr z \<and> y = f z)"
  by (cases x) auto

definition eof_ended :: "token list \<Rightarrow> bool" where
  "eof_ended ts \<longleftrightarrow> (\<exists>us. ts = us @ [TokEOF] \<and> list_all tok_ok us)"

lemma eof_ended_Cons: "tok_ok t \<Longrightarrow> eof_ended ts \<Longrightarrow> eof_ended (t # ts)"
  unfolding eof_ended_def by (metis append_Cons list.pred_inject(2))

lemma ident_takeWhile: "takeWhile isIdentChar xs \<noteq> [] \<Longrightarrow> ident_name (takeWhile isIdentChar xs)"
  by (auto simp: ident_name_def dest: set_takeWhileD)

lemma tokenize_at_ok: "tokenize_at i s = Inr ts \<Longrightarrow> eof_ended ts"
proof (induction i s arbitrary: ts rule: tokenize_at.induct)
  case (1 i)
  then show ?case by (simp add: eof_ended_def)
next
  case (2 i ch rest)
  have word: "tok_ok (TokIdent (takeWhile isIdentChar (ch # rest)))" if "isIdentChar ch"
    using ident_takeWhile[of "ch # rest"] that by simp
  have ref: "tok_ok (TokRef (takeWhile isIdentChar rest))" if "takeWhile isIdentChar rest \<noteq> []"
    using ident_takeWhile[of rest] that by simp
  from "2.prems" show ?case
    by (auto simp del: takeWhile.simps dropWhile.simps
        simp: tokenize_at.simps(2) Let_def map_sum_Inr_iff split: if_splits
        intro!: eof_ended_Cons word ref intro: "2.IH")
qed

definition toks_ok :: "token list \<Rightarrow> bool" where
  "toks_ok ts \<longleftrightarrow> list_all (\<lambda>t. tok_ok t \<or> t = TokEOF) ts"

lemma toks_ok_next: "toks_ok ts \<Longrightarrow> next_tok ts = (t, ts1) \<Longrightarrow> toks_ok ts1 \<and> (tok_ok t \<or> t = TokEOF)"
  by (cases ts) (auto simp: toks_ok_def next_tok.simps Let_def split: if_splits)

lemma toks_ok_snd: "toks_ok ts \<Longrightarrow> toks_ok (snd (next_tok ts))"
  using toks_ok_next[of ts "fst (next_tok ts)" "snd (next_tok ts)"] by simp

lemma parse_wf:
  "parseOrExpr ts = Inr (n, ts') \<Longrightarrow> toks_ok ts \<Longrightarrow> wf_node n \<and> toks_ok ts'"
  "orLoop cs ts = Inr (ns, ts') \<Longrightarrow> toks_ok ts \<Longrightarrow> list_all wf_node cs \<Longrightarrow>
     list_all wf_node ns \<and> toks_ok ts' \<and> length cs + (if peek ts = TokOr then 1 else 0) \<le> length ns"
  "parseAndExpr ts = Inr (n, ts') \<Longrightarrow> toks_ok ts \<Longrightarrow> wf_node n \<and> toks_ok ts'"
  "andLoop cs ts = Inr (ns, ts') \<Longrightarrow> toks_ok ts \<Longrightarrow> list_all wf_node cs \<Longrightarrow>
     list_all wf_node ns \<and> toks_ok ts' \<and> length cs + (if peek ts = TokAnd then 1 else 0) \<le> length ns"
  "parseAtom ts = Inr (n, ts') \<Longrightarrow> toks_ok ts \<Longrightarrow> wf_node n \<and> toks_ok ts'"
proof (induction ts and cs ts and ts and cs ts and ts
    arbitrary: n ts' and ns ts' and n ts' and ns ts' and n ts'
    rule: parseOrExpr_orLoop_parseAndExpr_andLoop_parseAtom.induct)
  case (1 ts)
  then show ?case
    by (fastforce simp: parseOrExpr.simps[of ts] split: sum.splits prod.splits if_splits)
next
  case (2 children ts)
  then show ?case
    by (fastforce simp: orLoop.simps[of children ts] toks_ok_snd split: sum.splits prod.splits if_splits)
next
  case (3 ts)
  then show ?case
    by (fastforce simp: parseAndExpr.simps[of ts] split: sum.splits prod.splits if_splits)
next
  case (4 children ts)
  then show ?case
    by (fastforce simp: andLoop.simps[of children ts] toks_ok_snd split: sum.splits prod.splits if_splits)
next
  case (5 ts)
  then show ?case
    by (fastforce simp: parseAtom.simps[of ts] dest: toks_ok_next
        split: sum.splits prod.splits token.splits)
qed

text \<open>C1. Round trip: every well-formed expression, printed in its canonical text (operators
  with at least two children, parentheses where the precedence needs them), is parsed back to
  exactly itself: \<open>|\<close> binds weaker than \<open>&\<close>, nothing is dropped or reordered.\<close>

theorem parseDSL_show_node:
  assumes "wf_node n"
  shows "parseDSL (show_node n) = Inr n"
proof -
  have "tokenize (show_node n) = Inr (unparse n @ [TokEOF])"
    using tokenize_at_separable[OF separable_unparse[OF assms]]
    by (simp add: tokenize_def show_node_def)
  moreover have "parseOrExpr (unparse n @ [TokEOF]) = Inr (n, [TokEOF])"
    using parse_unparse_or[OF assms, of "[TokEOF]"] by simp
  ultimately show ?thesis
    using show_node_nonempty[OF assms] TrimSpace_id[OF show_node_no_space[OF assms]]
    by (simp add: parseDSL_def)
qed

theorem parseDSL_show_node_witness:
  "parseDSL (show_node (NodeOr [NodeAnd [NodeLeaf ''a'', NodeOr [NodeLeaf ''b'', NodeRef ''s'' None]], NodeLeaf ''c''])) =
     Inr (NodeOr [NodeAnd [NodeLeaf ''a'', NodeOr [NodeLeaf ''b'', NodeRef ''s'' None]], NodeLeaf ''c'']) \<and>
   show_node (NodeOr [NodeAnd [NodeLeaf ''a'', NodeOr [NodeLeaf ''b'', NodeRef ''s'' None]], NodeLeaf ''c'']) = ''a&(b|+s)|c''"
proof
  show "parseDSL (show_node (NodeOr [NodeAnd [NodeLeaf ''a'', NodeOr [NodeLeaf ''b'', NodeRef ''s'' None]], NodeLeaf ''c''])) =
     Inr (NodeOr [NodeAnd [NodeLeaf ''a'', NodeOr [NodeLeaf ''b'', NodeRef ''s'' None]], NodeLeaf ''c''])"
    by (rule parseDSL_show_node) (simp add: ident_name_def isIdentChar_def IsLetter_def IsDigit_def)
  show "show_node (NodeOr [NodeAnd [NodeLeaf ''a'', NodeOr [NodeLeaf ''b'', NodeRef ''s'' None]], NodeLeaf ''c'']) = ''a&(b|+s)|c''"
    by (simp add: show_node_def paren_def)
qed

text \<open>What the parser returns is well formed: an AND or OR has at least two children, every
  leaf and reference has a non-empty name of identifier characters, and no reference is linked
  yet.\<close>

theorem parseDSL_wf:
  assumes "parseDSL s = Inr n"
  shows "wf_node n"
proof -
  from assms obtain ts rest where ts: "tokenize (TrimSpace s) = Inr ts"
    and n: "parseOrExpr ts = Inr (n, rest)"
    by (auto simp: parseDSL_def Let_def split: if_splits sum.splits)
  from ts have "eof_ended ts" by (auto simp: tokenize_def dest: tokenize_at_ok)
  then have "toks_ok ts" by (auto simp: eof_ended_def toks_ok_def list_all_iff)
  with n show ?thesis using parse_wf(1) by blast
qed

theorem parseDSL_wf_witness:
  "parseDSL '' a & +s '' = Inr (NodeAnd [NodeLeaf ''a'', NodeRef ''s'' None]) \<and>
   wf_node (NodeAnd [NodeLeaf ''a'', NodeRef ''s'' None])"
proof -
  have "parseDSL '' a & +s '' = Inr (NodeAnd [NodeLeaf ''a'', NodeRef ''s'' None])"
    by code_simp
  with parseDSL_wf[OF this] show ?thesis by simp
qed

end
