(* ===== verification/BitMask.thy ===== *)
theory BitMask
  imports Prelude "HOL-Library.Word"
begin

unbundle bit_operations_syntax

text \<open>
  The bit masks of \<open>internal/matrix/program.go\<close>: \<open>bitMask\<close> is a slice of 64-bit words,
  bit \<open>b\<close> is bit \<open>b % 64\<close> of word \<open>b / 64\<close>. The set of bits a mask holds is \<open>bits\<close>;
  every operation is shown to be the set operation of its name. An index past the slice would
  panic in Go: the lemmas ask for indices inside the mask, which the callers establish.
\<close>

type_synonym bitMask = "64 word list"

definition has :: "bitMask \<Rightarrow> nat \<Rightarrow> bool" where
  "has m b \<longleftrightarrow> (m ! (b div 64)) AND push_bit (b mod 64) 1 \<noteq> 0"

definition subsetOf :: "bitMask \<Rightarrow> bitMask \<Rightarrow> bool" where
  "subsetOf m other \<longleftrightarrow> (\<forall>i \<in> set [0..<length m]. (m ! i) AND NOT (other ! i) = 0)"

definition unionMask :: "bitMask \<Rightarrow> bitMask \<Rightarrow> bitMask" where
  "unionMask left right = map (\<lambda>i. (left ! i) OR (right ! i)) [0..<length left]"

definition emptyMask :: "nat \<Rightarrow> bitMask" where
  "emptyMask words = replicate words 0"

definition setBit :: "bitMask \<Rightarrow> nat \<Rightarrow> bitMask" where
  "setBit m b = m[b div 64 := (m ! (b div 64)) OR push_bit (b mod 64) 1]"

definition maskWords :: "nat \<Rightarrow> nat" where
  "maskWords n = (n + 63) div 64"

section \<open>Masks as sets of bits\<close>

definition bits :: "bitMask \<Rightarrow> nat set" where
  "bits m = {b. b div 64 < length m \<and> bit (m ! (b div 64)) (b mod 64)}"

lemma has_bit: "has m b \<longleftrightarrow> bit (m ! (b div 64)) (b mod 64)"
  by (simp add: has_def bit_iff_and_push_bit_not_eq_0)

lemma has_iff: "b div 64 < length m \<Longrightarrow> has m b \<longleftrightarrow> b \<in> bits m"
  by (simp add: has_bit bits_def)

lemma bit_in_words: "b < n \<Longrightarrow> b div 64 < maskWords n"
  by (simp add: maskWords_def)

lemma bits_emptyMask [simp]: "bits (emptyMask w) = {}"
  by (auto simp: bits_def emptyMask_def)

lemma length_emptyMask [simp]: "length (emptyMask w) = w"
  by (simp add: emptyMask_def)

lemma length_setBit [simp]: "length (setBit m b) = length m"
  by (simp add: setBit_def)

lemma length_unionMask [simp]: "length (unionMask l r) = length l"
  by (simp add: unionMask_def)

lemma bits_setBit: "b div 64 < length m \<Longrightarrow> bits (setBit m b) = insert b (bits m)"
proof -
  assume b: "b div 64 < length m"
  have "(c \<in> bits (setBit m b)) = (c \<in> insert b (bits m))" for c
  proof (cases "c div 64 = b div 64")
    case True
    moreover have "c = b \<longleftrightarrow> c mod 64 = b mod 64"
      using True by (metis div_mult_mod_eq)
    moreover have "c mod 64 < 64" by simp
    ultimately show ?thesis
      using b by (auto simp: bits_def setBit_def bit_or_iff bit_exp_iff)
  next
    case False
    then show ?thesis using b by (auto simp: bits_def setBit_def)
  qed
  then show ?thesis by blast
qed

lemma bits_unionMask:
  "length l = length r \<Longrightarrow> bits (unionMask l r) = bits l \<union> bits r"
  by (auto simp: bits_def unionMask_def bit_or_iff)

lemma word_and_not_zero: "(x::64 word) AND NOT y = 0 \<longleftrightarrow> (\<forall>k < 64. bit x k \<longrightarrow> bit y k)"
  by (auto simp: bit_eq_iff bit_and_iff bit_not_iff)

lemma subsetOf_iff: "length m = length other \<Longrightarrow> subsetOf m other \<longleftrightarrow> bits m \<subseteq> bits other"
proof
  assume len: "length m = length other" and sub: "subsetOf m other"
  show "bits m \<subseteq> bits other"
  proof
    fix b assume "b \<in> bits m"
    then have b: "b div 64 < length m" "bit (m ! (b div 64)) (b mod 64)" by (auto simp: bits_def)
    with sub have "(m ! (b div 64)) AND NOT (other ! (b div 64)) = 0" by (simp add: subsetOf_def)
    moreover have "b mod 64 < 64" by simp
    ultimately have "bit (other ! (b div 64)) (b mod 64)" using b(2) word_and_not_zero by blast
    with b len show "b \<in> bits other" by (simp add: bits_def)
  qed
next
  assume len: "length m = length other" and sub: "bits m \<subseteq> bits other"
  have "(m ! i) AND NOT (other ! i) = 0" if "i < length m" for i
  proof -
    have "bit (other ! i) k" if k: "k < 64" "bit (m ! i) k" for k
    proof -
      have "i * 64 + k \<in> bits m" using k \<open>i < length m\<close> by (simp add: bits_def)
      with sub have "i * 64 + k \<in> bits other" by blast
      with k show ?thesis by (simp add: bits_def)
    qed
    then show ?thesis by (simp add: word_and_not_zero)
  qed
  then show "subsetOf m other" by (simp add: subsetOf_def)
qed

lemma bits_foldl_setBit:
  "\<forall>b \<in> set bs. b div 64 < length m \<Longrightarrow> bits (foldl setBit m bs) = set bs \<union> bits m"
  "length (foldl setBit m bs) = length m"
  by (induction bs arbitrary: m) (auto simp: bits_setBit)

end
