(* ===== verification/MatrixCompile.thy ===== *)
theory MatrixCompile
  imports MatrixDSL BitMask
begin

text \<open>
  Compilation of a matrix program, \<open>internal/matrix/program.go\<close>: \<open>Compile\<close> parses every
  definition, resolves its leaves, checks its references (\<open>walk\<close> with the resolving visitor is
  \<open>resolveNode\<close>), orders the sets with the depth-first \<open>topologicalOrder\<close>, links every
  reference to its expression and computes the support masks (\<open>computeSupport\<close>).

  Linking stores a pointer to the referenced root in each \<open>nodeRef\<close>. The model follows the
  topological order, so a reference receives the already linked expression: the tree the
  pointers unfold to. A map is an association list; the model numbers the models of the support
  registry in leaf order, where Go's map iteration numbers them in an unspecified order.
\<close>

section \<open>Data\<close>

record definition_entry =
  def_name :: string
  def_dsl :: string

record compiledSet =
  cs_name :: string
  cs_dsl :: string
  cs_root :: node
  cs_support :: bitMask

record program =
  p_sets :: "compiledSet list"
  p_modelBits :: "(string, nat) gomap"
  p_words :: nat

datatype compile_error =
    NoSets
  | InSet string dsl_error
  | UnknownVar string string
  | UndefinedSet string string
  | CircularReference string

section \<open>Resolving leaves and collecting references\<close>

fun resolveNode ::
    "(string \<Rightarrow> string option) \<Rightarrow> string list \<Rightarrow> string \<Rightarrow> string list \<Rightarrow> node
       \<Rightarrow> compile_error + (node \<times> string list)"
  and resolveNodes ::
    "(string \<Rightarrow> string option) \<Rightarrow> string list \<Rightarrow> string \<Rightarrow> string list \<Rightarrow> node list
       \<Rightarrow> compile_error + (node list \<times> string list)"
where
  "resolveNode resolve setNames d refs (NodeLeaf s) =
     (case resolve s of
        None \<Rightarrow> Inl (UnknownVar d s)
      | Some model \<Rightarrow> Inr (NodeLeaf model, refs))"
| "resolveNode resolve setNames d refs (NodeRef s r) =
     (if s \<notin> set setNames then Inl (UndefinedSet d s)
      else Inr (NodeRef s r, if s \<in> set refs then refs else refs @ [s]))"
| "resolveNode resolve setNames d refs (NodeAnd cs) =
     (case resolveNodes resolve setNames d refs cs of
        Inl e \<Rightarrow> Inl e
      | Inr (cs', refs') \<Rightarrow> Inr (NodeAnd cs', refs'))"
| "resolveNode resolve setNames d refs (NodeOr cs) =
     (case resolveNodes resolve setNames d refs cs of
        Inl e \<Rightarrow> Inl e
      | Inr (cs', refs') \<Rightarrow> Inr (NodeOr cs', refs'))"
| "resolveNodes resolve setNames d refs [] = Inr ([], refs)"
| "resolveNodes resolve setNames d refs (c # cs) =
     (case resolveNode resolve setNames d refs c of
        Inl e \<Rightarrow> Inl e
      | Inr (c', refs') \<Rightarrow>
          (case resolveNodes resolve setNames d refs' cs of
             Inl e \<Rightarrow> Inl e
           | Inr (cs', refs'') \<Rightarrow> Inr (c' # cs', refs'')))"

text \<open>The first loop of \<open>Compile\<close>: \<open>roots\<close>, \<open>dslByName\<close> and \<open>deps\<close>, by set name.\<close>

record compile_maps =
  cm_roots :: "(string, node) gomap"
  cm_dsl :: "(string, string) gomap"
  cm_deps :: "(string, string list) gomap"

fun compileDefs ::
  "(string \<Rightarrow> string option) \<Rightarrow> string list \<Rightarrow> definition_entry list \<Rightarrow> compile_maps
     \<Rightarrow> compile_error + compile_maps" where
  "compileDefs resolve setNames [] cm = Inr cm"
| "compileDefs resolve setNames (d # ds) cm =
     (case parseDSL (def_dsl d) of
        Inl e \<Rightarrow> Inl (InSet (def_name d) e)
      | Inr root \<Rightarrow>
          (case resolveNode resolve setNames (def_name d) [] root of
             Inl e \<Rightarrow> Inl e
           | Inr (root', refs) \<Rightarrow>
               compileDefs resolve setNames ds
                 (cm\<lparr>cm_roots := mput (def_name d) root' (cm_roots cm),
                     cm_dsl := mput (def_name d) (def_dsl d) (cm_dsl cm),
                     cm_deps := mput (def_name d) refs (cm_deps cm)\<rparr>)))"

section \<open>Topological order\<close>

text \<open>\<open>state\<close> is 1 while a set is on the visit stack and 2 once it is in \<open>order\<close>.\<close>

type_synonym topo = "(string, int) gomap \<times> string list"

function (sequential) visit :: "(string, string list) gomap \<Rightarrow> string \<Rightarrow> topo \<Rightarrow> compile_error + topo"
  and visitAll :: "(string, string list) gomap \<Rightarrow> string list \<Rightarrow> topo \<Rightarrow> compile_error + topo"
where
  "visit deps name (state, order) =
     (if mint state name = 1 then Inl (CircularReference name)
      else if mint state name = 2 then Inr (state, order)
      else (case visitAll deps (mlist deps name) (mput name 1 state, order) of
              Inl e \<Rightarrow> Inl e
            | Inr (state', order') \<Rightarrow> Inr (mput name 2 state', order' @ [name])))"
| "visitAll deps [] st = Inr st"
| "visitAll deps (d # ds) st =
     (case visit deps d st of
        Inl e \<Rightarrow> Inl e
      | Inr st' \<Rightarrow> visitAll deps ds st')"
  by pat_completeness auto

text \<open>A visit never resets a set to unvisited, so a nested call sees fewer unvisited sets.\<close>

abbreviation unvisited :: "(string, string list) gomap \<Rightarrow> topo \<Rightarrow> string set" where
  "unvisited deps st \<equiv> {n \<in> dom (map_of deps). mint (fst st) n \<noteq> 1 \<and> mint (fst st) n \<noteq> 2}"

lemma visit_mono:
  "visit_visitAll_dom (Inl (deps, name, st)) \<Longrightarrow> visit deps name st = Inr st' \<Longrightarrow>
     mint (fst st) n \<in> {1, 2} \<Longrightarrow> mint (fst st') n \<in> {1, 2}"
  "visit_visitAll_dom (Inr (deps, names, st)) \<Longrightarrow> visitAll deps names st = Inr st' \<Longrightarrow>
     mint (fst st) n \<in> {1, 2} \<Longrightarrow> mint (fst st') n \<in> {1, 2}"
proof (induction deps name st and deps names st arbitrary: st' and st' rule: visit_visitAll.pinduct)
  case (1 deps name state order)
  note eq = visit.psimps[OF "1.hyps"]
  show ?case
  proof (cases "mint state name = 1 \<or> mint state name = 2")
    case True
    with 1 eq show ?thesis by (auto split: if_splits)
  next
    case False
    with "1.prems"(1) eq obtain s2 o2
      where rec: "visitAll deps (mlist deps name) (mput name 1 state, order) = Inr (s2, o2)"
        and st': "st' = (mput name 2 s2, o2 @ [name])"
      by (auto split: sum.splits)
    have "mint s2 n \<in> {1, 2}" if "n \<noteq> name"
      using "1.IH"[OF _ _ rec] False "1.prems"(2) that by simp
    with st' show ?thesis by simp
  qed
next
  case (2 deps st)
  then show ?case by (simp add: visitAll.psimps)
next
  case (3 deps d ds st)
  from "3.prems"(1) obtain st1 where "visit deps d st = Inr st1" "visitAll deps ds st1 = Inr st'"
    by (auto simp: visitAll.psimps(2)[OF "3.hyps"] split: sum.splits)
  with "3.IH" "3.prems"(2) show ?case by blast
qed

termination visit
proof (relation "measures
    [\<lambda>x. case x of Inl (deps, name, st) \<Rightarrow> card (unvisited deps st)
       | Inr (deps, names, st) \<Rightarrow> card (unvisited deps st),
     \<lambda>x. case x of Inl (deps, name, st) \<Rightarrow> 1 | Inr (deps, names, st) \<Rightarrow> 2 * length names]",
    goal_cases)
  case 1
  then show ?case by simp
next
  case (2 deps name state order)
  show ?case
  proof (cases "name \<in> dom (map_of deps)")
    case True
    with 2 have "unvisited deps (mput name 1 state, order) \<subset> unvisited deps (state, order)"
      by (auto split: if_splits)
    then show ?thesis by (simp add: psubset_card_mono finite_dom_map_of)
  next
    case False
    then have "unvisited deps (mput name 1 state, order) = unvisited deps (state, order)"
      by auto
    moreover have "mlist deps name = []" using False by (simp add: mlist_def domIff)
    ultimately show ?thesis by simp
  qed
next
  case (3 deps d ds st)
  then show ?case by simp
next
  case (4 deps d ds st st')
  have "unvisited deps st' \<subseteq> unvisited deps st"
    using visit_mono(1)[OF 4(2,1)] by auto
  then have "card (unvisited deps st') \<le> card (unvisited deps st)"
    by (intro card_mono) (auto simp: finite_dom_map_of)
  then show ?case by auto
qed

declare visit.simps [simp del]

fun topoLoop :: "(string, string list) gomap \<Rightarrow> definition_entry list \<Rightarrow> topo \<Rightarrow> compile_error + topo" where
  "topoLoop deps [] st = Inr st"
| "topoLoop deps (d # ds) st =
     (if mint (fst st) (def_name d) = 0
      then (case visit deps (def_name d) st of
              Inl e \<Rightarrow> Inl e
            | Inr st' \<Rightarrow> topoLoop deps ds st')
      else topoLoop deps ds st)"

definition topologicalOrder ::
  "definition_entry list \<Rightarrow> (string, string list) gomap \<Rightarrow> compile_error + string list" where
  "topologicalOrder definitions deps = map_sum id snd (topoLoop deps definitions ([], []))"

section \<open>Linking, support masks, Compile\<close>

fun linkNode :: "(string \<rightharpoonup> node) \<Rightarrow> node \<Rightarrow> node" where
  "linkNode env (NodeLeaf s) = NodeLeaf s"
| "linkNode env (NodeRef s r) = NodeRef s (env s)"
| "linkNode env (NodeAnd cs) = NodeAnd (map (linkNode env) cs)"
| "linkNode env (NodeOr cs) = NodeOr (map (linkNode env) cs)"

fun linkRoots :: "(string, node) gomap \<Rightarrow> (string \<rightharpoonup> node) \<Rightarrow> string list \<Rightarrow> (string \<rightharpoonup> node)" where
  "linkRoots roots env [] = env"
| "linkRoots roots env (name # names) =
     linkRoots roots (env(name := map_option (linkNode env) (map_of roots name))) names"

text \<open>\<open>collect\<close>: every leaf reachable through AND, OR and references. An unlinked reference is a
  nil pointer in Go; \<open>compile_linked\<close> below shows that \<open>Compile\<close> leaves none.\<close>

fun collect :: "node \<Rightarrow> string list" where
  "collect (NodeLeaf s) = [s]"
| "collect (NodeRef s None) = []"
| "collect (NodeRef s (Some n)) = collect n"
| "collect (NodeAnd cs) = remdups (concat (map collect cs))"
| "collect (NodeOr cs) = remdups (concat (map collect cs))"

fun registerBits :: "(string, nat) gomap \<Rightarrow> string list \<Rightarrow> (string, nat) gomap" where
  "registerBits mb [] = mb"
| "registerBits mb (m # ms) =
     registerBits (if m \<in> dom (map_of mb) then mb else mput m (length mb) mb) ms"

definition computeSupport :: "compiledSet list \<Rightarrow> program" where
  "computeSupport sets =
     (let setModels = map (\<lambda>s. collect (cs_root s)) sets;
          modelBits = foldl registerBits [] setModels;
          words = maskWords (length modelBits);
          support = (\<lambda>models. foldl (\<lambda>m model. case map_of modelBits model of
                       Some b \<Rightarrow> setBit m b | None \<Rightarrow> m) (emptyMask words) models)
      in \<lparr>p_sets = map (\<lambda>s. s\<lparr>cs_support := support (collect (cs_root s))\<rparr>) sets,
          p_modelBits = modelBits, p_words = words\<rparr>)"

definition Compile ::
  "definition_entry list \<Rightarrow> (string \<Rightarrow> string option) \<Rightarrow> compile_error + program" where
  "Compile definitions resolve =
     (if definitions = [] then Inl NoSets
      else (case compileDefs resolve (map def_name definitions) definitions
                   \<lparr>cm_roots = [], cm_dsl = [], cm_deps = []\<rparr> of
              Inl e \<Rightarrow> Inl e
            | Inr cm \<Rightarrow>
                (case topologicalOrder definitions (cm_deps cm) of
                   Inl e \<Rightarrow> Inl e
                 | Inr order \<Rightarrow>
                     (let env = linkRoots (cm_roots cm) Map.empty order
                      in Inr (computeSupport
                           (map (\<lambda>name. \<lparr>cs_name = name,
                                  cs_dsl = (case map_of (cm_dsl cm) name of Some d \<Rightarrow> d | None \<Rightarrow> []),
                                  cs_root = (case env name of Some r \<Rightarrow> r | None \<Rightarrow> NodeOr []),
                                  cs_support = []\<rparr>) order))))))"

section \<open>The topological order is one, and a failure is a cycle\<close>

definition dep_rel :: "(string, string list) gomap \<Rightarrow> (string \<times> string) set" where
  "dep_rel deps = {(a, b). b \<in> set (mlist deps a)}"

definition deps_first :: "(string, string list) gomap \<Rightarrow> string list \<Rightarrow> bool" where
  "deps_first deps order \<longleftrightarrow> (\<forall>xs n ys. order = xs @ n # ys \<longrightarrow> set (mlist deps n) \<subseteq> set xs)"

definition topo_inv :: "(string, string list) gomap \<Rightarrow> string set \<Rightarrow> topo \<Rightarrow> bool" where
  "topo_inv deps N st \<longleftrightarrow>
     (\<forall>n. mint (fst st) n \<in> {0, 1, 2}) \<and> (\<forall>n. mint (fst st) n \<noteq> 0 \<longrightarrow> n \<in> N) \<and>
     distinct (snd st) \<and> set (snd st) = {n. mint (fst st) n = 2} \<and> deps_first deps (snd st)"

definition grays :: "topo \<Rightarrow> string set" where
  "grays st = {n. mint (fst st) n = 1}"

lemma deps_first_Nil [simp]: "deps_first deps []"
  by (simp add: deps_first_def)

lemma deps_first_snoc:
  "deps_first deps xs \<Longrightarrow> set (mlist deps n) \<subseteq> set xs \<Longrightarrow> deps_first deps (xs @ [n])"
  by (auto simp: deps_first_def append_eq_append_conv2 append_eq_Cons_conv Cons_eq_append_conv)

lemma topo_inv_push:
  "topo_inv deps N (state, order) \<Longrightarrow> mint state name = 0 \<Longrightarrow> name \<in> N \<Longrightarrow>
     topo_inv deps N (mput name 1 state, order)"
  by (auto simp: topo_inv_def)

lemma topo_inv_pop:
  "topo_inv deps N (state, order) \<Longrightarrow> mint state name = 1 \<Longrightarrow> set (mlist deps name) \<subseteq> set order \<Longrightarrow>
     topo_inv deps N (mput name 2 state, order @ [name])"
  by (auto simp: topo_inv_def deps_first_snoc)

lemma visit_correct:
  assumes N: "\<forall>n \<in> N. set (mlist deps n) \<subseteq> N"
  shows "topo_inv deps N st \<Longrightarrow> name \<in> N \<Longrightarrow> \<forall>g \<in> grays st. (g, name) \<in> (dep_rel deps)\<^sup>+ \<Longrightarrow>
      (case visit deps name st of
         Inl e \<Rightarrow> \<exists>n. e = CircularReference n \<and> (n, n) \<in> (dep_rel deps)\<^sup>+
       | Inr st' \<Rightarrow> topo_inv deps N st' \<and> grays st' = grays st \<and> name \<in> set (snd st') \<and> set (snd st) \<subseteq> set (snd st'))"
    and "topo_inv deps N st \<Longrightarrow> set names \<subseteq> N \<Longrightarrow>
      \<forall>g \<in> grays st. \<forall>d \<in> set names. (g, d) \<in> (dep_rel deps)\<^sup>+ \<Longrightarrow>
      (case visitAll deps names st of
         Inl e \<Rightarrow> \<exists>n. e = CircularReference n \<and> (n, n) \<in> (dep_rel deps)\<^sup>+
       | Inr st' \<Rightarrow> topo_inv deps N st' \<and> grays st' = grays st \<and> set names \<subseteq> set (snd st') \<and> set (snd st) \<subseteq> set (snd st'))"
  using N
proof (induction deps name st and deps names st rule: visit_visitAll.induct)
  case (1 deps name state order)
  consider "mint state name = 1" | "mint state name = 2" | "mint state name = 0"
    using "1.prems"(1) by (auto simp: topo_inv_def)
  then show ?case
  proof cases
    case 1
    then have "(name, name) \<in> (dep_rel deps)\<^sup>+" using "1.prems"(3) by (simp add: grays_def)
    with 1 show ?thesis by (simp add: visit.simps)
  next
    case 2
    with "1.prems"(1) have "name \<in> set order" by (simp add: topo_inv_def)
    with 2 "1.prems"(1) show ?thesis by (simp add: visit.simps)
  next
    case 3
    let ?st1 = "(mput name 1 state, order)"
    have inv1: "topo_inv deps N ?st1" using topo_inv_push 3 "1.prems" by blast
    have gr1: "grays ?st1 = insert name (grays (state, order))" by (auto simp: grays_def)
    have sub: "set (mlist deps name) \<subseteq> N" using "1.prems"(2,4) by blast
    have path: "\<forall>g \<in> grays ?st1. \<forall>d \<in> set (mlist deps name). (g, d) \<in> (dep_rel deps)\<^sup>+"
      using "1.prems"(3) gr1 by (auto simp: dep_rel_def intro: trancl_into_trancl)
    note IH = "1.IH"[OF _ _ inv1 sub path "1.prems"(4)]
    show ?thesis
    proof (cases "visitAll deps (mlist deps name) ?st1")
      case (Inl e)
      with IH 3 show ?thesis by (simp add: visit.simps)
    next
      case (Inr st2)
      obtain s2 o2 where st2: "st2 = (s2, o2)" by (cases st2)
      with IH Inr 3 have inv2: "topo_inv deps N (s2, o2)" and gr2: "grays (s2, o2) = grays ?st1"
        and sub2: "set (mlist deps name) \<subseteq> set o2" and ord2: "set order \<subseteq> set o2" by simp_all
      have "mint s2 name = 1" using gr1 gr2 by (auto simp: grays_def)
      with inv2 have "topo_inv deps N (mput name 2 s2, o2 @ [name])" using sub2 by (rule topo_inv_pop)
      moreover have "grays (mput name 2 s2, o2 @ [name]) = grays (state, order)"
        using gr1 gr2 3 by (auto simp: grays_def)
      ultimately show ?thesis using Inr 3 st2 ord2 by (auto simp: visit.simps)
    qed
  qed
next
  case (2 deps st)
  then show ?case by simp
next
  case (3 deps d ds st)
  show ?case
  proof (cases "visit deps d st")
    case (Inl e)
    with 3 show ?thesis by simp
  next
    case (Inr st1)
    with "3.IH"(1) "3.prems" have st1: "topo_inv deps N st1" "grays st1 = grays st" "d \<in> set (snd st1)"
      "set (snd st) \<subseteq> set (snd st1)" by auto
    with "3.IH"(2)[OF Inr] "3.prems" show ?thesis
      by (cases "visitAll deps ds st1") (auto simp: Inr)
  qed
qed

lemma topoLoop_correct:
  assumes "\<forall>n \<in> N. set (mlist deps n) \<subseteq> N"
  shows "topo_inv deps N st \<Longrightarrow> grays st = {} \<Longrightarrow> def_name ` set ds \<subseteq> N \<Longrightarrow>
    (case topoLoop deps ds st of
       Inl e \<Rightarrow> \<exists>n. e = CircularReference n \<and> (n, n) \<in> (dep_rel deps)\<^sup>+
     | Inr st' \<Rightarrow> topo_inv deps N st' \<and> grays st' = {} \<and> def_name ` set ds \<subseteq> set (snd st') \<and>
         set (snd st) \<subseteq> set (snd st'))"
proof (induction ds arbitrary: st)
  case (Cons d ds)
  show ?case
  proof (cases "mint (fst st) (def_name d) = 0")
    case True
    note v = visit_correct(1)[OF assms Cons.prems(1), of "def_name d"]
    show ?thesis
    proof (cases "visit deps (def_name d) st")
      case (Inl e)
      with v True Cons.prems show ?thesis by simp
    next
      case (Inr st1)
      with v Cons.prems have st1: "topo_inv deps N st1" "grays st1 = {}" "def_name d \<in> set (snd st1)"
        "set (snd st) \<subseteq> set (snd st1)" by simp_all
      with Cons.IH[OF st1(1,2)] Cons.prems(3) True Inr show ?thesis
        by (cases "topoLoop deps ds st1") auto
    qed
  next
    case False
    with Cons.prems(1,2) have "def_name d \<in> set (snd st)"
      by (auto simp: topo_inv_def grays_def)
    with False Cons.IH[OF Cons.prems(1,2)] Cons.prems(3) show ?thesis
      by (cases "topoLoop deps ds st") auto
  qed
qed simp

lemma deps_first_acyclic:
  assumes "deps_first deps order" "dep_rel deps \<subseteq> set order \<times> UNIV"
  shows "acyclic (dep_rel deps)"
proof -
  have "dep_rel deps \<subseteq> (measure (\<lambda>n. length (takeWhile (\<lambda>m. m \<noteq> n) order)))\<inverse>"
  proof
    fix p assume "p \<in> dep_rel deps"
    then obtain a b where p: "p = (a, b)" and b: "b \<in> set (mlist deps a)"
      and a: "a \<in> set order" using assms(2) by (auto simp: dep_rel_def)
    then obtain xs ys where o: "order = xs @ a # ys" and "a \<notin> set xs" by (meson split_list_first)
    with assms(1) b have "b \<in> set xs" by (auto simp: deps_first_def)
    then obtain us vs where "xs = us @ b # vs" "b \<notin> set us" by (meson split_list_first)
    with o \<open>a \<notin> set xs\<close> have "length (takeWhile (\<lambda>m. m \<noteq> b) order) < length (takeWhile (\<lambda>m. m \<noteq> a) order)"
      by (auto simp: takeWhile_append)
    with p show "p \<in> (measure (\<lambda>n. length (takeWhile (\<lambda>m. m \<noteq> n) order)))\<inverse>" by simp
  qed
  then show ?thesis by (rule acyclic_subset[rotated]) (simp add: wf_acyclic)
qed

lemma topologicalOrder_cases:
  assumes "\<forall>n \<in> def_name ` set ds. set (mlist deps n) \<subseteq> def_name ` set ds"
  shows "case topologicalOrder ds deps of
      Inl e \<Rightarrow> \<exists>n. e = CircularReference n \<and> (n, n) \<in> (dep_rel deps)\<^sup>+
    | Inr order \<Rightarrow> distinct order \<and> set order = def_name ` set ds \<and> deps_first deps order"
proof -
  let ?N = "def_name ` set ds"
  have "topo_inv deps ?N ([], [])" "grays ([], []) = {}"
    by (auto simp: topo_inv_def grays_def)
  from topoLoop_correct[OF assms this] show ?thesis
    by (cases "topoLoop deps ds ([], [])") (fastforce simp: topologicalOrder_def topo_inv_def)+
qed

text \<open>The depth-first \<open>topologicalOrder\<close> returns an order exactly when the references
  have no cycle; the order then lists every defined set once, each after all the sets it
  refers to. Otherwise it names a set that reaches itself.\<close>

theorem topologicalOrder_correct:
  assumes "dom (map_of deps) = def_name ` set ds"
    and "\<forall>n \<in> def_name ` set ds. set (mlist deps n) \<subseteq> def_name ` set ds"
  shows "(acyclic (dep_rel deps) \<longleftrightarrow> (\<exists>order. topologicalOrder ds deps = Inr order)) \<and>
    (\<forall>order. topologicalOrder ds deps = Inr order \<longrightarrow>
       distinct order \<and> set order = def_name ` set ds \<and> deps_first deps order) \<and>
    (\<forall>e. topologicalOrder ds deps = Inl e \<longrightarrow>
       (\<exists>n. e = CircularReference n \<and> (n, n) \<in> (dep_rel deps)\<^sup>+))"
proof -
  note c = topologicalOrder_cases[OF assms(2)]
  have "acyclic (dep_rel deps)" if ok: "topologicalOrder ds deps = Inr order" for order
  proof (rule deps_first_acyclic)
    from c ok show "deps_first deps order" by simp
    have "dep_rel deps \<subseteq> dom (map_of deps) \<times> UNIV"
    proof (rule subrelI)
      fix a b assume "(a, b) \<in> dep_rel deps"
      then show "(a, b) \<in> dom (map_of deps) \<times> UNIV"
        by (cases "map_of deps a") (auto simp: dep_rel_def mlist_def)
    qed
    with c ok assms(1) show "dep_rel deps \<subseteq> set order \<times> UNIV" by simp
  qed
  moreover have "\<not> acyclic (dep_rel deps)" if "topologicalOrder ds deps = Inl e" for e
    using c that by (auto simp: acyclic_def)
  ultimately show ?thesis using c by (cases "topologicalOrder ds deps") auto
qed

definition exDefs :: "definition_entry list" where
  "exDefs = [\<lparr>def_name = ''b'', def_dsl = ''+a | x''\<rparr>, \<lparr>def_name = ''a'', def_dsl = ''y''\<rparr>]"

theorem topologicalOrder_correct_witness:
  "topologicalOrder exDefs [(''b'', [''a'']), (''a'', [])] = Inr [''a'', ''b''] \<and>
   acyclic (dep_rel [(''b'', [''a'']), (''a'', [])])"
proof -
  have run: "topologicalOrder exDefs [(''b'', [''a'']), (''a'', [])] = Inr [''a'', ''b'']"
    by code_simp
  have "acyclic (dep_rel [(''b'', [''a'']), (''a'', [])]) \<longleftrightarrow>
      (\<exists>order. topologicalOrder exDefs [(''b'', [''a'']), (''a'', [])] = Inr order)"
    using topologicalOrder_correct[of "[(''b'', [''a'']), (''a'', [])]" exDefs]
    by (auto simp: exDefs_def mlist_def)
  with run show ?thesis by blast
qed

section \<open>Compiled programs\<close>

fun refs_of :: "node \<Rightarrow> string set" where
  "refs_of (NodeLeaf s) = {}"
| "refs_of (NodeRef s r) = {s}"
| "refs_of (NodeAnd cs) = \<Union> (refs_of ` set cs)"
| "refs_of (NodeOr cs) = \<Union> (refs_of ` set cs)"

fun linked :: "node \<Rightarrow> bool" where
  "linked (NodeLeaf s) = True"
| "linked (NodeRef s None) = False"
| "linked (NodeRef s (Some n)) = linked n"
| "linked (NodeAnd cs) = list_all linked cs"
| "linked (NodeOr cs) = list_all linked cs"

lemma resolveNode_refs:
  "resolveNode resolve N d refs n = Inr (n', refs') \<Longrightarrow>
     set refs' = set refs \<union> refs_of n' \<and> refs_of n' \<subseteq> set N"
  "resolveNodes resolve N d refs ns = Inr (ns', refs') \<Longrightarrow>
     set refs' = set refs \<union> \<Union> (refs_of ` set ns') \<and> \<Union> (refs_of ` set ns') \<subseteq> set N"
proof (induction resolve N d refs n and resolve N d refs ns arbitrary: n' refs' and ns' refs'
    rule: resolveNode_resolveNodes.induct)
  case (6 resolve setNames d refs c cs)
  from "6.prems" obtain c' refs1 cs' where "resolveNode resolve setNames d refs c = Inr (c', refs1)"
    "resolveNodes resolve setNames d refs1 cs = Inr (cs', refs')" "ns' = c' # cs'"
    by (auto split: sum.splits)
  with "6.IH"(1) "6.IH"(2)[of "(c', refs1)" c' refs1] show ?case by auto
next
  case (3 resolve setNames d refs cs)
  then show ?case by (fastforce split: sum.splits)
next
  case (4 resolve setNames d refs cs)
  then show ?case by (fastforce split: sum.splits)
qed (auto split: option.splits if_splits)

definition maps_ok :: "string list \<Rightarrow> compile_maps \<Rightarrow> bool" where
  "maps_ok N cm \<longleftrightarrow> dom (map_of (cm_roots cm)) = dom (map_of (cm_deps cm)) \<and>
     (\<forall>n. set (mlist (cm_deps cm) n) \<subseteq> set N) \<and>
     (\<forall>n root. map_of (cm_roots cm) n = Some root \<longrightarrow> refs_of root \<subseteq> set (mlist (cm_deps cm) n))"

lemma compileDefs_ok:
  "compileDefs resolve N ds cm = Inr cm' \<Longrightarrow> maps_ok N cm \<Longrightarrow>
     maps_ok N cm' \<and> dom (map_of (cm_deps cm')) = dom (map_of (cm_deps cm)) \<union> def_name ` set ds"
proof (induction resolve N ds cm rule: compileDefs.induct)
  case (2 resolve N d ds cm)
  then obtain root root' refs where root: "parseDSL (def_dsl d) = Inr root"
    and r: "resolveNode resolve N (def_name d) [] root = Inr (root', refs)"
    by (auto split: sum.splits)
  let ?cm1 = "cm\<lparr>cm_roots := mput (def_name d) root' (cm_roots cm),
    cm_dsl := mput (def_name d) (def_dsl d) (cm_dsl cm),
    cm_deps := mput (def_name d) refs (cm_deps cm)\<rparr>"
  have "maps_ok N ?cm1"
    using "2.prems"(2) resolveNode_refs(1)[OF r] by (auto simp: maps_ok_def)
  moreover have "dom (map_of (cm_deps ?cm1)) = insert (def_name d) (dom (map_of (cm_deps cm)))" by auto
  ultimately show ?case using "2.IH"[OF root r refl] "2.prems"(1) root r by (simp del: map_of_mput)
qed simp

lemma linkNode_linked:
  "refs_of n \<subseteq> dom env \<Longrightarrow> \<forall>s m. env s = Some m \<longrightarrow> linked m \<Longrightarrow> linked (linkNode env n)"
  by (induction env n rule: linkNode.induct) (auto simp: list_all_iff)

lemma linkRoots_linked:
  assumes "\<forall>s m. env s = Some m \<longrightarrow> linked m"
    and "\<forall>n \<in> set order. \<exists>root. map_of roots n = Some root"
    and "\<forall>xs n ys root. order = xs @ n # ys \<longrightarrow> map_of roots n = Some root \<longrightarrow> refs_of root \<subseteq> dom env \<union> set xs"
  shows "(\<forall>s m. linkRoots roots env order s = Some m \<longrightarrow> linked m) \<and>
    dom (linkRoots roots env order) = dom env \<union> set order"
  using assms
proof (induction order arbitrary: env)
  case (Cons name names)
  note prems = Cons.prems
  from prems(2) obtain root where root: "map_of roots name = Some root" by auto
  with prems(3)[rule_format, of "[]" name names root] have "refs_of root \<subseteq> dom env" by simp
  then have lk: "linked (linkNode env root)" using linkNode_linked prems(1) by blast
  let ?env1 = "env(name \<mapsto> linkNode env root)"
  have dom1: "dom env \<union> set (name # xs) = dom ?env1 \<union> set xs" for xs by auto
  have refs1: "\<forall>xs n ys root. names = xs @ n # ys \<longrightarrow> map_of roots n = Some root \<longrightarrow>
      refs_of root \<subseteq> dom ?env1 \<union> set xs"
  proof (intro allI impI)
    fix xs n ys root'
    assume "names = xs @ n # ys" "map_of roots n = Some root'"
    then have "refs_of root' \<subseteq> dom env \<union> set (name # xs)"
      using prems(3) by (metis append_Cons)
    then show "refs_of root' \<subseteq> dom ?env1 \<union> set xs" by (simp only: dom1)
  qed
  have step: "env(name := map_option (linkNode env) (map_of roots name)) = ?env1" using root by simp
  have "\<forall>s m. ?env1 s = Some m \<longrightarrow> linked m" using lk prems(1) by simp
  from Cons.IH[OF this _ refs1] prems(2) show ?case
    by (simp add: step del: fun_upd_apply)
qed auto

text \<open>A program is well formed when every set's expression is fully linked and its support mask
  is computed over the program-wide registry.\<close>

definition reg_ok :: "(string, nat) gomap \<Rightarrow> bool" where
  "reg_ok mb \<longleftrightarrow> distinct (map fst mb) \<and> map snd mb = [0..<length mb]"

lemma registerBits_ok:
  "reg_ok mb \<Longrightarrow> reg_ok (registerBits mb ms) \<and>
     dom (map_of (registerBits mb ms)) = dom (map_of mb) \<union> set ms"
proof (induction mb ms rule: registerBits.induct)
  case (2 mb m ms)
  have "reg_ok (if m \<in> dom (map_of mb) then mb else mput m (length mb) mb)"
    using "2.prems" by (auto simp: reg_ok_def mput_new dom_map_of_conv_image_fst)
  from "2.IH"[OF this] show ?case by auto
qed simp

lemma foldl_registerBits_ok:
  "reg_ok mb \<Longrightarrow> reg_ok (foldl registerBits mb mss) \<and>
     dom (map_of (foldl registerBits mb mss)) = dom (map_of mb) \<union> \<Union> (set ` set mss)"
  by (induction mss arbitrary: mb) (auto simp: registerBits_ok)

lemma reg_ok_index:
  assumes "reg_ok mb" "map_of mb m = Some b"
  shows "b < length mb" "map_of mb m' = Some b \<Longrightarrow> m' = m"
proof -
  from assms obtain i where i: "i < length mb" "mb ! i = (m, b)"
    by (meson in_set_conv_nth map_of_SomeD)
  have snd_nth: "snd (mb ! j) = j" if "j < length mb" for j
    using assms(1) that by (metis reg_ok_def nth_map nth_upt add_0)
  from i snd_nth show "b < length mb" by force
  assume "map_of mb m' = Some b"
  then obtain j where j: "j < length mb" "mb ! j = (m', b)"
    by (meson in_set_conv_nth map_of_SomeD)
  with i snd_nth[of i] snd_nth[of j] show "m' = m" by auto
qed

lemma support_bits:
  assumes "reg_ok mb" "w = maskWords (length mb)"
  shows "length m = w \<Longrightarrow>
    length (foldl (\<lambda>m model. case map_of mb model of Some b \<Rightarrow> setBit m b | None \<Rightarrow> m) m models) = w \<and>
    bits (foldl (\<lambda>m model. case map_of mb model of Some b \<Rightarrow> setBit m b | None \<Rightarrow> m) m models) =
      bits m \<union> {b. \<exists>model \<in> set models. map_of mb model = Some b}"
proof (induction models arbitrary: m)
  case (Cons model models)
  show ?case
  proof (cases "map_of mb model")
    case None
    with Cons show ?thesis by auto
  next
    case (Some b)
    then have "b div 64 < length m"
      using reg_ok_index(1)[OF assms(1) Some] assms(2) Cons.prems bit_in_words by simp
    with Cons.IH[of "setBit m b"] Cons.prems Some show ?thesis by (auto simp: bits_setBit)
  qed
qed simp

definition wf_program :: "program \<Rightarrow> bool" where
  "wf_program p \<longleftrightarrow> (\<forall>s \<in> set (p_sets p). linked (cs_root s) \<and>
     (\<forall>model. (\<exists>b. map_of (p_modelBits p) model = Some b \<and> has (cs_support s) b)
        \<longleftrightarrow> model \<in> set (collect (cs_root s))))"

lemma computeSupport_wf:
  assumes "\<forall>s \<in> set sets. linked (cs_root s)"
  shows "wf_program (computeSupport sets)"
proof -
  let ?mb = "foldl registerBits [] (map (\<lambda>s. collect (cs_root s)) sets)"
  let ?w = "maskWords (length ?mb)"
  let ?sup = "\<lambda>models. foldl (\<lambda>m model. case map_of ?mb model of Some b \<Rightarrow> setBit m b | None \<Rightarrow> m)
    (emptyMask ?w) models"
  have reg: "reg_ok ?mb" "dom (map_of ?mb) = (\<Union>s \<in> set sets. set (collect (cs_root s)))"
    using foldl_registerBits_ok[of "[]" "map (\<lambda>s. collect (cs_root s)) sets"] by (auto simp: reg_ok_def)
  have sup: "length (?sup models) = ?w" "bits (?sup models) = {b. \<exists>model \<in> set models. map_of ?mb model = Some b}"
    for models using support_bits[OF reg(1) refl, of "emptyMask ?w" models] by simp_all
  have "(\<exists>b. map_of ?mb model = Some b \<and> has (?sup (collect (cs_root s))) b) \<longleftrightarrow> model \<in> set (collect (cs_root s))"
    if "s \<in> set sets" for s model
  proof (cases "map_of ?mb model")
    case None
    with reg(2) that show ?thesis by auto
  next
    case (Some b)
    then have "b div 64 < ?w" using reg_ok_index(1)[OF reg(1)] bit_in_words by blast
    then have "has (?sup (collect (cs_root s))) b \<longleftrightarrow> b \<in> bits (?sup (collect (cs_root s)))"
      using sup(1) by (intro has_iff) simp
    also have "\<dots> \<longleftrightarrow> model \<in> set (collect (cs_root s))"
      unfolding sup(2) using Some reg_ok_index(2)[OF reg(1) Some] by blast
    finally show ?thesis using Some by simp
  qed
  with assms show ?thesis by (simp add: wf_program_def computeSupport_def Let_def)
qed

lemma Compile_wf_aux:
  assumes "Compile ds resolve = Inr p"
  shows "wf_program p \<and> distinct (map cs_name (p_sets p)) \<and> cs_name ` set (p_sets p) = def_name ` set ds"
proof -
  from assms obtain cm order where cm: "compileDefs resolve (map def_name ds) ds
      \<lparr>cm_roots = [], cm_dsl = [], cm_deps = []\<rparr> = Inr cm"
    and ord: "topologicalOrder ds (cm_deps cm) = Inr order"
    and p: "p = computeSupport (map (\<lambda>name. \<lparr>cs_name = name,
        cs_dsl = (case map_of (cm_dsl cm) name of Some d \<Rightarrow> d | None \<Rightarrow> []),
        cs_root = (case linkRoots (cm_roots cm) Map.empty order name of Some r \<Rightarrow> r | None \<Rightarrow> NodeOr []),
        cs_support = []\<rparr>) order)"
    by (auto simp: Compile_def Let_def split: if_splits sum.splits)
  have ok: "maps_ok (map def_name ds) cm" "dom (map_of (cm_deps cm)) = def_name ` set ds"
    using compileDefs_ok[OF cm] by (auto simp: maps_ok_def)
  have o: "distinct order" "set order = def_name ` set ds" "deps_first (cm_deps cm) order"
    using topologicalOrder_cases[of ds "cm_deps cm"] ord ok by (auto simp: maps_ok_def)
  have lk: "(\<forall>s m. linkRoots (cm_roots cm) Map.empty order s = Some m \<longrightarrow> linked m) \<and>
      dom (linkRoots (cm_roots cm) Map.empty order) = dom (Map.empty :: string \<rightharpoonup> node) \<union> set order"
  proof (rule linkRoots_linked)
    show "\<forall>n \<in> set order. \<exists>root. map_of (cm_roots cm) n = Some root"
      using o(2) ok by (auto simp: maps_ok_def)
    show "\<forall>xs n ys root. order = xs @ n # ys \<longrightarrow> map_of (cm_roots cm) n = Some root \<longrightarrow>
        refs_of root \<subseteq> dom (Map.empty :: string \<rightharpoonup> node) \<union> set xs"
      using o(3) ok(1) unfolding maps_ok_def deps_first_def by fastforce
  qed simp
  then have "linked (case linkRoots (cm_roots cm) Map.empty order n of Some r \<Rightarrow> r | None \<Rightarrow> NodeOr [])"
    for n by (auto split: option.splits)
  then have "wf_program p" unfolding p by (intro computeSupport_wf) auto
  moreover have "map cs_name (p_sets p) = order" unfolding p computeSupport_def by (simp add: Let_def o_def)
  ultimately show ?thesis using o by (metis list.set_map)
qed

lemma Compile_program_wf: "Compile ds resolve = Inr p \<Longrightarrow> wf_program p"
  using Compile_wf_aux by blast

text \<open>C2. What \<open>Compile\<close> accepts is a well-formed program: the sets are the defined ones, each
  once, every reference is linked to an expression (no nil \<open>ref\<close> is left to dereference), and
  a set's support mask has exactly the bits of the models its expression can mention.\<close>

theorem Compile_wf:
  assumes "Compile ds resolve = Inr p"
  shows "wf_program p \<and> distinct (map cs_name (p_sets p)) \<and> cs_name ` set (p_sets p) = def_name ` set ds"
  by (rule Compile_wf_aux[OF assms])

theorem Compile_wf_witness:
  "\<exists>p. Compile exDefs Some = Inr p \<and> wf_program p \<and> map cs_name (p_sets p) = [''a'', ''b'']"
proof -
  have run: "map_sum id (\<lambda>p. map cs_name (p_sets p)) (Compile exDefs Some) = Inr [''a'', ''b'']"
    by code_simp
  then obtain p where p: "Compile exDefs Some = Inr p"
    and names: "map cs_name (p_sets p) = [''a'', ''b'']"
    by (cases "Compile exDefs Some") auto
  from Compile_wf[OF p] have "wf_program p" by simp
  with p names show ?thesis by (intro exI[of _ p] conjI)
qed

end
