(* ===== verification/MatrixSolve.thy ===== *)
theory MatrixSolve
  imports MatrixCompile
begin

text \<open>
  The matrix solver, \<open>internal/matrix/program.go\<close>: the query-local projection
  (\<open>newEvaluator\<close>, \<open>evaluate\<close>, \<open>addToFrontier\<close>), \<open>Solve\<close>, \<open>CanContainAll\<close> and
  \<open>findContaining\<close>, and their specification: \<open>expand\<close> is the family of model sets an
  expression describes, every combination written out, which the code never builds.

  The evaluator's memo table stores for a node what \<open>evaluate\<close> returns for it and has no other
  effect, so the model evaluates the expression directly.
\<close>

section \<open>Evaluation\<close>

text \<open>\<open>WNil\<close> is the nil witness.\<close>

datatype witness = WNil | Witness string witness witness

record projectedState =
  mask :: bitMask
  witness :: witness

record evaluator =
  ev_modelBits :: "(string, nat) gomap"
  ev_words :: nat

definition newEvaluator :: "string list \<Rightarrow> evaluator" where
  "newEvaluator relevant =
     (let modelBits = registerBits [] relevant
      in \<lparr>ev_modelBits = modelBits, ev_words = maskWords (length modelBits)\<rparr>)"

definition fullMask :: "evaluator \<Rightarrow> bitMask" where
  "fullMask e = foldl setBit (emptyMask (ev_words e)) [0..<length (ev_modelBits e)]"

definition addToFrontier :: "projectedState list \<Rightarrow> projectedState \<Rightarrow> projectedState list" where
  "addToFrontier states candidate =
     (if \<exists>st \<in> set states. subsetOf (mask candidate) (mask st) then states
      else filter (\<lambda>st. \<not> subsetOf (mask st) (mask candidate)) states @ [candidate])"

definition combine :: "projectedState list \<Rightarrow> projectedState list \<Rightarrow> projectedState list" where
  "combine lefts rights =
     foldl addToFrontier []
       (concat (map (\<lambda>l. map (\<lambda>r. \<lparr>mask = unionMask (mask l) (mask r),
                                   witness = Witness [] (witness l) (witness r)\<rparr>) rights) lefts))"

fun evaluate :: "evaluator \<Rightarrow> node \<Rightarrow> projectedState list" where
  "evaluate e (NodeLeaf s) =
     [\<lparr>mask = (case map_of (ev_modelBits e) s of
                 Some b \<Rightarrow> setBit (emptyMask (ev_words e)) b
               | None \<Rightarrow> emptyMask (ev_words e)),
       witness = Witness s WNil WNil\<rparr>]"
| "evaluate e (NodeRef s None) = []"
| "evaluate e (NodeRef s (Some n)) = evaluate e n"
| "evaluate e (NodeOr cs) = foldl addToFrontier [] (concat (map (evaluate e) cs))"
| "evaluate e (NodeAnd cs) =
     foldl combine [\<lparr>mask = emptyMask (ev_words e), witness = WNil\<rparr>] (map (evaluate e) cs)"

text \<open>\<open>flattenWitness\<close>: the names of the witness tree, each once, sorted.\<close>

fun visitWitness :: "string list \<Rightarrow> witness \<Rightarrow> string list" where
  "visitWitness models WNil = models"
| "visitWitness models (Witness m l r) =
     visitWitness (visitWitness (if m \<noteq> [] \<and> m \<notin> set models then models @ [m] else models) l) r"

definition flattenWitness :: "witness \<Rightarrow> string list" where
  "flattenWitness w = sort (visitWitness [] w)"

section \<open>Queries\<close>

record decision =
  Evict :: "string list"
  TargetSet :: "string list"
  SetName :: string
  DSL :: string
  TotalCost :: int

definition evictionCost :: "(string, int) gomap \<Rightarrow> string \<Rightarrow> int" where
  "evictionCost costs model = (case map_of costs model of Some c \<Rightarrow> c | None \<Rightarrow> 1)"

definition supportsAll :: "program \<Rightarrow> compiledSet \<Rightarrow> string list \<Rightarrow> bool" where
  "supportsAll p s models \<longleftrightarrow>
     (\<forall>m \<in> set models. case map_of (p_modelBits p) m of Some b \<Rightarrow> has (cs_support s) b | None \<Rightarrow> False)"

definition containsAllIn :: "program \<Rightarrow> evaluator \<Rightarrow> bitMask \<Rightarrow> string list \<Rightarrow> compiledSet \<Rightarrow> bool" where
  "containsAllIn p e required models s \<longleftrightarrow>
     supportsAll p s models \<and> (\<exists>st \<in> set (evaluate e (cs_root s)). subsetOf required (mask st))"

definition CanContainAll :: "program \<Rightarrow> string list \<Rightarrow> bool" where
  "CanContainAll p models =
     (if models = [] then True
      else (let e = newEvaluator models
            in \<exists>s \<in> set (p_sets p). containsAllIn p e (fullMask e) models s))"

definition findContaining :: "program \<Rightarrow> string list \<Rightarrow> string \<times> string" where
  "findContaining p models =
     (if models = [] then ([], [])
      else (let e = newEvaluator models
            in case find (containsAllIn p e (fullMask e) models) (p_sets p) of
                 Some s \<Rightarrow> (cs_name s, cs_dsl s)
               | None \<Rightarrow> ([], [])))"

text \<open>Bit of a model in the evaluator; \<open>Solve\<close> only asks for models the evaluator registered.\<close>

definition evBit :: "evaluator \<Rightarrow> string \<Rightarrow> nat" where
  "evBit e m = (case map_of (ev_modelBits e) m of Some b \<Rightarrow> b | None \<Rightarrow> 0)"

definition stateCost :: "evaluator \<Rightarrow> (string, int) gomap \<Rightarrow> string list \<Rightarrow> bitMask \<Rightarrow> int" where
  "stateCost e costs running m =
     foldl (\<lambda>c model. if \<not> has m (evBit e model) then c + evictionCost costs model else c) 0 running"

text \<open>The best candidate so far: \<open>bestCost\<close>, \<open>bestSet\<close> and \<open>bestState\<close>, -1 and \<open>None\<close> at first.\<close>

type_synonym best = "int \<times> (compiledSet \<times> projectedState) option"

definition considerState ::
  "evaluator \<Rightarrow> (string, int) gomap \<Rightarrow> string list \<Rightarrow> nat \<Rightarrow> compiledSet \<Rightarrow> best \<Rightarrow> projectedState \<Rightarrow> best" where
  "considerState e costs running targetBit s best st =
     (if \<not> has (mask st) targetBit then best
      else (let cost = stateCost e costs running (mask st)
            in if fst best < 0 \<or> cost < fst best then (cost, Some (s, st)) else best))"

definition considerSet ::
  "program \<Rightarrow> evaluator \<Rightarrow> (string, int) gomap \<Rightarrow> string list \<Rightarrow> string \<Rightarrow> best \<Rightarrow> compiledSet \<Rightarrow> best" where
  "considerSet p e costs running target best s =
     (if (case map_of (p_modelBits p) target of Some b \<Rightarrow> has (cs_support s) b | None \<Rightarrow> False)
      then foldl (considerState e costs running (evBit e target) s) best (evaluate e (cs_root s))
      else best)"

definition Solve :: "program \<Rightarrow> string \<Rightarrow> string list \<Rightarrow> (string, int) gomap \<Rightarrow> decision" where
  "Solve p target running evictionCosts =
     (if containsString running target then
        (let (setName, dsl) = findContaining p running
         in \<lparr>Evict = [], TargetSet = running, SetName = setName, DSL = dsl, TotalCost = 0\<rparr>)
      else
        (let e = newEvaluator (target # running);
             (bestCost, best) = foldl (considerSet p e evictionCosts running target) (-1, None) (p_sets p)
         in case best of
              None \<Rightarrow> \<lparr>Evict = running, TargetSet = [target], SetName = [], DSL = [], TotalCost = 0\<rparr>
            | Some (s, st) \<Rightarrow>
                \<lparr>Evict = filter (\<lambda>m. \<not> has (mask st) (evBit e m)) running,
                 TargetSet = flattenWitness (witness st),
                 SetName = cs_name s, DSL = cs_dsl s, TotalCost = bestCost\<rparr>))"

section \<open>Specification: the family of sets an expression describes\<close>

fun expand :: "node \<Rightarrow> string set set" where
  "expand (NodeLeaf s) = {{s}}"
| "expand (NodeRef s None) = {}"
| "expand (NodeRef s (Some n)) = expand n"
| "expand (NodeOr cs) = \<Union> (expand ` set cs)"
| "expand (NodeAnd cs) = foldl (\<lambda>A B. {S \<union> T | S T. S \<in> A \<and> T \<in> B}) {{}} (map expand cs)"

definition proj :: "evaluator \<Rightarrow> string set \<Rightarrow> nat set" where
  "proj e S = {b. \<exists>m \<in> S. map_of (ev_modelBits e) m = Some b}"

lemma proj_Un [simp]: "proj e (S \<union> T) = proj e S \<union> proj e T"
  by (auto simp: proj_def)

lemma proj_empty [simp]: "proj e {} = {}"
  by (simp add: proj_def)

definition wf_ev :: "evaluator \<Rightarrow> bool" where
  "wf_ev e \<longleftrightarrow> reg_ok (ev_modelBits e) \<and> ev_words e = maskWords (length (ev_modelBits e))"

lemma newEvaluator_wf: "wf_ev (newEvaluator ms)"
  using registerBits_ok[of "[]" ms] by (simp add: wf_ev_def newEvaluator_def Let_def reg_ok_def)

lemma newEvaluator_dom: "dom (map_of (ev_modelBits (newEvaluator ms))) = set ms"
  using registerBits_ok[of "[]" ms] by (simp add: newEvaluator_def Let_def reg_ok_def)

lemma wf_ev_bit:
  assumes "wf_ev e" "map_of (ev_modelBits e) m = Some b"
  shows "b div 64 < ev_words e"
  using assms reg_ok_index(1) bit_in_words by (auto simp: wf_ev_def)

text \<open>The names of a witness tree.\<close>

fun wnames :: "witness \<Rightarrow> string set" where
  "wnames WNil = {}"
| "wnames (Witness m l r) = (if m \<noteq> [] then {m} else {}) \<union> wnames l \<union> wnames r"

lemma visitWitness_set: "set (visitWitness ms w) = set ms \<union> wnames w"
  by (induction ms w rule: visitWitness.induct) auto

lemma visitWitness_distinct: "distinct ms \<Longrightarrow> distinct (visitWitness ms w)"
  by (induction ms w rule: visitWitness.induct) auto

lemma flattenWitness_spec: "set (flattenWitness w) = wnames w \<and> sorted (flattenWitness w) \<and> distinct (flattenWitness w)"
  by (simp add: flattenWitness_def visitWitness_set visitWitness_distinct)

section \<open>The frontier keeps a dominating state for everything it saw\<close>

definition masks_ok :: "evaluator \<Rightarrow> projectedState list \<Rightarrow> bool" where
  "masks_ok e sts \<longleftrightarrow> (\<forall>st \<in> set sts. length (mask st) = ev_words e)"

definition covers :: "projectedState list \<Rightarrow> nat set set \<Rightarrow> bool" where
  "covers sts Bs \<longleftrightarrow> (\<forall>B \<in> Bs. \<exists>st \<in> set sts. B \<subseteq> bits (mask st))"

lemma addToFrontier_sub: "set (addToFrontier sts c) \<subseteq> insert c (set sts)"
  by (auto simp: addToFrontier_def)

lemma addToFrontier_covers:
  assumes "masks_ok e (c # sts)" "B \<subseteq> bits (mask c) \<or> (\<exists>st \<in> set sts. B \<subseteq> bits (mask st))"
  shows "\<exists>st \<in> set (addToFrontier sts c). B \<subseteq> bits (mask st)"
proof (cases "\<exists>st \<in> set sts. subsetOf (mask c) (mask st)")
  case True
  then obtain st where "st \<in> set sts" "bits (mask c) \<subseteq> bits (mask st)"
    using assms(1) by (auto simp: masks_ok_def subsetOf_iff)
  with assms(2) True show ?thesis by (auto simp: addToFrontier_def)
next
  case False
  show ?thesis
  proof (cases "B \<subseteq> bits (mask c)")
    case True
    with False show ?thesis by (auto simp: addToFrontier_def)
  next
    case notc: False
    with assms(2) obtain st where st: "st \<in> set sts" "B \<subseteq> bits (mask st)" by blast
    with notc have "\<not> bits (mask st) \<subseteq> bits (mask c)" by blast
    with assms(1) st have "\<not> subsetOf (mask st) (mask c)" by (simp add: masks_ok_def subsetOf_iff)
    with st False show ?thesis by (auto simp: addToFrontier_def)
  qed
qed

lemma foldl_frontier:
  assumes "masks_ok e (acc @ cs)"
  shows "set (foldl addToFrontier acc cs) \<subseteq> set acc \<union> set cs \<and>
    (\<forall>st \<in> set acc \<union> set cs. \<exists>st' \<in> set (foldl addToFrontier acc cs). bits (mask st) \<subseteq> bits (mask st'))"
  using assms
proof (induction cs arbitrary: acc)
  case (Cons c cs)
  have ok: "masks_ok e (addToFrontier acc c @ cs)"
    using Cons.prems addToFrontier_sub[of acc c] by (auto simp: masks_ok_def)
  have "masks_ok e (c # acc)" using Cons.prems by (auto simp: masks_ok_def)
  then have step: "\<exists>st' \<in> set (addToFrontier acc c). bits (mask st) \<subseteq> bits (mask st')"
    if "st \<in> insert c (set acc)" for st using that by (intro addToFrontier_covers) auto
  note IH = Cons.IH[OF ok]
  have "\<exists>st' \<in> set (foldl addToFrontier (addToFrontier acc c) cs). bits (mask st) \<subseteq> bits (mask st')"
    if st: "st \<in> set acc \<union> set (c # cs)" for st
  proof (cases "st \<in> set cs")
    case True
    with IH show ?thesis by blast
  next
    case False
    with st step[of st] obtain st1 where "st1 \<in> set (addToFrontier acc c)" "bits (mask st) \<subseteq> bits (mask st1)"
      by auto
    with IH obtain st2 where "st2 \<in> set (foldl addToFrontier (addToFrontier acc c) cs)"
      "bits (mask st1) \<subseteq> bits (mask st2)" by blast
    with \<open>bits (mask st) \<subseteq> bits (mask st1)\<close> show ?thesis by blast
  qed
  moreover have "set (foldl addToFrontier (addToFrontier acc c) cs) \<subseteq> set acc \<union> set (c # cs)"
    using IH addToFrontier_sub[of acc c] by auto
  ultimately show ?case by simp
qed auto

section \<open>The evaluator computes the projected family\<close>

text \<open>\<open>rep e sts F\<close>: every state of \<open>sts\<close> is the projection of a set of the family \<open>F\<close>, with that
  set as its witness, and every set of \<open>F\<close> is dominated by a state.\<close>

definition rep :: "evaluator \<Rightarrow> projectedState list \<Rightarrow> string set set \<Rightarrow> bool" where
  "rep e sts F \<longleftrightarrow> masks_ok e sts \<and>
     (\<forall>st \<in> set sts. \<exists>S \<in> F. bits (mask st) = proj e S \<and> wnames (witness st) = S - {[]}) \<and>
     (\<forall>S \<in> F. \<exists>st \<in> set sts. proj e S \<subseteq> bits (mask st))"

lemma repD:
  assumes "rep e sts F"
  shows "st \<in> set sts \<Longrightarrow> length (mask st) = ev_words e"
    "st \<in> set sts \<Longrightarrow> \<exists>S \<in> F. bits (mask st) = proj e S \<and> wnames (witness st) = S - {[]}"
    "S \<in> F \<Longrightarrow> \<exists>st \<in> set sts. proj e S \<subseteq> bits (mask st)"
  using assms by (auto simp: rep_def masks_ok_def)

lemma rep_frontier:
  assumes "rep e sts F"
  shows "rep e (foldl addToFrontier [] sts) F"
proof -
  have ok: "masks_ok e ([] @ sts)" using assms by (simp add: rep_def)
  note fr = foldl_frontier[OF ok, simplified]
  have sub: "set (foldl addToFrontier [] sts) \<subseteq> set sts" using fr by blast
  have "\<exists>st \<in> set (foldl addToFrontier [] sts). proj e S \<subseteq> bits (mask st)" if "S \<in> F" for S
  proof -
    from repD(3)[OF assms that] obtain st where "st \<in> set sts" "proj e S \<subseteq> bits (mask st)" by blast
    with fr show ?thesis by (meson order_trans)
  qed
  moreover have "masks_ok e (foldl addToFrontier [] sts)" using sub ok by (auto simp: masks_ok_def)
  ultimately show ?thesis unfolding rep_def using sub repD(2)[OF assms] by (meson subsetD)
qed

lemma rep_concat:
  assumes "\<And>c. c \<in> set cs \<Longrightarrow> rep e (f c) (g c)"
  shows "rep e (concat (map f cs)) (\<Union> (g ` set cs))"
  unfolding rep_def
proof (intro conjI ballI)
  show "masks_ok e (concat (map f cs))" using repD(1)[OF assms] by (auto simp: masks_ok_def)
next
  fix st assume "st \<in> set (concat (map f cs))"
  then obtain c where "c \<in> set cs" "st \<in> set (f c)" by auto
  from repD(2)[OF assms[OF this(1)] this(2)] \<open>c \<in> set cs\<close>
  show "\<exists>S \<in> \<Union> (g ` set cs). bits (mask st) = proj e S \<and> wnames (witness st) = S - {[]}"
    by (meson UN_I)
next
  fix S assume "S \<in> \<Union> (g ` set cs)"
  then obtain c where "c \<in> set cs" "S \<in> g c" by auto
  from repD(3)[OF assms[OF this(1)] this(2)] obtain st where "st \<in> set (f c)" "proj e S \<subseteq> bits (mask st)" by blast
  with \<open>c \<in> set cs\<close> show "\<exists>st \<in> set (concat (map f cs)). proj e S \<subseteq> bits (mask st)"
    by (intro bexI[of _ st]) auto
qed

lemma rep_combine:
  assumes l: "rep e ls A" and r: "rep e rs B"
  shows "rep e (combine ls rs) {S \<union> T | S T. S \<in> A \<and> T \<in> B}"
  unfolding combine_def
proof (rule rep_frontier)
  let ?pair = "\<lambda>l r. \<lparr>mask = unionMask (mask l) (mask r), witness = Witness [] (witness l) (witness r)\<rparr>"
  let ?prod = "concat (map (\<lambda>l. map (?pair l) rs) ls)"
  have un: "bits (mask (?pair x y)) = bits (mask x) \<union> bits (mask y)"
    if "x \<in> set ls" "y \<in> set rs" for x y
    using repD(1)[OF l that(1)] repD(1)[OF r that(2)] by (simp add: bits_unionMask)
  show "rep e ?prod {S \<union> T | S T. S \<in> A \<and> T \<in> B}"
    unfolding rep_def
  proof (intro conjI ballI)
    show "masks_ok e ?prod" using repD(1)[OF l] by (auto simp: masks_ok_def)
  next
    fix st assume "st \<in> set ?prod"
    then obtain x y where xy: "x \<in> set ls" "y \<in> set rs" "st = ?pair x y" by auto
    from repD(2)[OF l xy(1)] repD(2)[OF r xy(2)] obtain S T where
      "S \<in> A" "bits (mask x) = proj e S" "wnames (witness x) = S - {[]}"
      "T \<in> B" "bits (mask y) = proj e T" "wnames (witness y) = T - {[]}" by blast
    moreover from this un[OF xy(1,2)] have "bits (mask st) = proj e (S \<union> T)" by (simp add: xy(3))
    moreover from calculation have "wnames (witness st) = (S \<union> T) - {[]}" by (auto simp: xy(3))
    ultimately show "\<exists>U \<in> {S \<union> T | S T. S \<in> A \<and> T \<in> B}.
        bits (mask st) = proj e U \<and> wnames (witness st) = U - {[]}" by blast
  next
    fix U assume "U \<in> {S \<union> T | S T. S \<in> A \<and> T \<in> B}"
    then obtain S T where U: "S \<in> A" "T \<in> B" "U = S \<union> T" by blast
    from repD(3)[OF l U(1)] repD(3)[OF r U(2)] obtain x y where
      xy: "x \<in> set ls" "proj e S \<subseteq> bits (mask x)" "y \<in> set rs" "proj e T \<subseteq> bits (mask y)" by blast
    then have "proj e U \<subseteq> bits (mask (?pair x y))" using un[of x y] by (auto simp: U(3))
    moreover have "?pair x y \<in> set ?prod" using xy by auto
    ultimately show "\<exists>st \<in> set ?prod. proj e U \<subseteq> bits (mask st)" by blast
  qed
qed

lemma rep_foldl_combine:
  assumes "rep e acc A" "\<And>c. c \<in> set cs \<Longrightarrow> rep e (f c) (g c)"
  shows "rep e (foldl combine acc (map f cs)) (foldl (\<lambda>A B. {S \<union> T | S T. S \<in> A \<and> T \<in> B}) A (map g cs))"
  using assms by (induction cs arbitrary: acc A) (auto intro: rep_combine)

lemma evaluate_rep:
  assumes "wf_ev e"
  shows "rep e (evaluate e n) (expand n)"
proof (induction n rule: expand.induct)
  case (1 s)
  show ?case
    using wf_ev_bit[OF assms, of s]
    by (cases "map_of (ev_modelBits e) s") (auto simp: rep_def masks_ok_def proj_def bits_setBit)
next
  case (4 cs)
  then show ?case by (auto intro!: rep_frontier rep_concat)
next
  case (5 cs)
  have "rep e [\<lparr>mask = emptyMask (ev_words e), witness = WNil\<rparr>] {{}}"
    by (simp add: rep_def masks_ok_def)
  from rep_foldl_combine[OF this, of cs "evaluate e" expand] 5 show ?case by simp
qed (simp_all add: rep_def masks_ok_def)

section \<open>Support masks never hide a set\<close>

lemma foldl_union_sub:
  assumes "\<And>c S. c \<in> set cs \<Longrightarrow> S \<in> g c \<Longrightarrow> S \<subseteq> h c"
  shows "U \<in> foldl (\<lambda>A B. {S \<union> T | S T. S \<in> A \<and> T \<in> B}) A (map g cs) \<Longrightarrow>
    \<exists>S \<in> A. U \<subseteq> S \<union> \<Union> (h ` set cs)"
  using assms
proof (induction cs arbitrary: A)
  case (Cons c cs)
  from Cons.IH[of "{S \<union> T | S T. S \<in> A \<and> T \<in> g c}"] Cons.prems
  obtain S T where "S \<in> A" "T \<in> g c" "U \<subseteq> (S \<union> T) \<union> \<Union> (h ` set cs)" by auto
  moreover from this(2) Cons.prems(2) have "T \<subseteq> h c" by simp
  ultimately show ?case by (intro bexI[of _ S]) auto
qed auto

lemma expand_collect: "S \<in> expand n \<Longrightarrow> S \<subseteq> set (collect n)"
proof (induction n arbitrary: S rule: expand.induct)
  case (5 cs)
  then have "\<exists>S0 \<in> {{}}. S \<subseteq> S0 \<union> \<Union> ((\<lambda>c. set (collect c)) ` set cs)"
    by (intro foldl_union_sub[where g = expand]) auto
  then show ?case by auto
qed auto

lemma supported:
  assumes "wf_program p" "s \<in> set (p_sets p)" "S \<in> expand (cs_root s)" "m \<in> S"
  shows "case map_of (p_modelBits p) m of Some b \<Rightarrow> has (cs_support s) b | None \<Rightarrow> False"
proof -
  have "m \<in> set (collect (cs_root s))" using assms expand_collect by blast
  with assms(1,2) obtain b where "map_of (p_modelBits p) m = Some b \<and> has (cs_support s) b"
    unfolding wf_program_def by blast
  then show ?thesis by simp
qed

lemma mem_proj:
  assumes "wf_ev e" "map_of (ev_modelBits e) m = Some b"
  shows "b \<in> proj e S \<longleftrightarrow> m \<in> S"
proof
  assume "b \<in> proj e S"
  then obtain m' where "m' \<in> S" "map_of (ev_modelBits e) m' = Some b" by (auto simp: proj_def)
  moreover from this(2) have "m' = m" using assms reg_ok_index(2) by (auto simp: wf_ev_def)
  ultimately show "m \<in> S" by simp
qed (use assms in \<open>auto simp: proj_def\<close>)

lemma bits_fullMask:
  assumes "wf_ev e"
  shows "bits (fullMask e) = {b. \<exists>m. map_of (ev_modelBits e) m = Some b}" "length (fullMask e) = ev_words e"
proof -
  have reg: "reg_ok (ev_modelBits e)" and w: "ev_words e = maskWords (length (ev_modelBits e))"
    using assms by (auto simp: wf_ev_def)
  have "b < length (ev_modelBits e) \<longleftrightarrow> (\<exists>m. map_of (ev_modelBits e) m = Some b)" for b
  proof
    assume b: "b < length (ev_modelBits e)"
    then have "snd (ev_modelBits e ! b) = b" using reg by (metis reg_ok_def nth_map nth_upt add_0)
    with b reg show "\<exists>m. map_of (ev_modelBits e) m = Some b"
      by (metis reg_ok_def map_of_is_SomeI nth_mem prod.collapse)
  qed (use reg reg_ok_index(1) in blast)
  then show "bits (fullMask e) = {b. \<exists>m. map_of (ev_modelBits e) m = Some b}"
    unfolding fullMask_def by (subst bits_foldl_setBit(1)) (auto simp: w bit_in_words)
  show "length (fullMask e) = ev_words e" by (simp add: fullMask_def bits_foldl_setBit(2))
qed

lemma containsAllIn_iff:
  assumes "wf_program p" "s \<in> set (p_sets p)"
  shows "containsAllIn p (newEvaluator ms) (fullMask (newEvaluator ms)) ms s \<longleftrightarrow>
    (\<exists>S \<in> expand (cs_root s). set ms \<subseteq> S)"
proof -
  let ?e = "newEvaluator ms"
  have ev: "wf_ev ?e" by (rule newEvaluator_wf)
  have full: "bits (fullMask ?e) \<subseteq> proj ?e S \<longleftrightarrow> set ms \<subseteq> S" for S
  proof
    assume L: "bits (fullMask ?e) \<subseteq> proj ?e S"
    show "set ms \<subseteq> S"
    proof
      fix m assume "m \<in> set ms"
      then obtain b where b: "map_of (ev_modelBits ?e) m = Some b" using newEvaluator_dom[of ms] by blast
      then have "b \<in> proj ?e S" using L bits_fullMask(1)[OF ev] by blast
      with mem_proj[OF ev b] show "m \<in> S" by simp
    qed
  next
    assume "set ms \<subseteq> S"
    then show "bits (fullMask ?e) \<subseteq> proj ?e S"
      using bits_fullMask(1)[OF ev] newEvaluator_dom[of ms] unfolding proj_def
      by (auto simp: subset_iff) (metis domI)
  qed
  have sub: "subsetOf (fullMask ?e) (mask st) \<longleftrightarrow> bits (fullMask ?e) \<subseteq> bits (mask st)"
    if "st \<in> set (evaluate ?e (cs_root s))" for st
    using repD(1)[OF evaluate_rep[OF ev] that] bits_fullMask(2)[OF ev] by (intro subsetOf_iff) simp
  have "(\<exists>st \<in> set (evaluate ?e (cs_root s)). subsetOf (fullMask ?e) (mask st)) \<longleftrightarrow>
      (\<exists>S \<in> expand (cs_root s). set ms \<subseteq> S)"
  proof
    assume "\<exists>st \<in> set (evaluate ?e (cs_root s)). subsetOf (fullMask ?e) (mask st)"
    then obtain st where st: "st \<in> set (evaluate ?e (cs_root s))" "bits (fullMask ?e) \<subseteq> bits (mask st)"
      using sub by blast
    from repD(2)[OF evaluate_rep[OF ev] st(1)] obtain S where "S \<in> expand (cs_root s)"
      "bits (mask st) = proj ?e S" by blast
    with st(2) full show "\<exists>S \<in> expand (cs_root s). set ms \<subseteq> S" by auto
  next
    assume "\<exists>S \<in> expand (cs_root s). set ms \<subseteq> S"
    then obtain S where S: "S \<in> expand (cs_root s)" "set ms \<subseteq> S" by blast
    from repD(3)[OF evaluate_rep[OF ev] S(1)] obtain st where
      "st \<in> set (evaluate ?e (cs_root s))" "proj ?e S \<subseteq> bits (mask st)" by blast
    with full[of S] S(2) sub show "\<exists>st \<in> set (evaluate ?e (cs_root s)). subsetOf (fullMask ?e) (mask st)"
      by blast
  qed
  moreover have "supportsAll p s ms" if "S \<in> expand (cs_root s)" "set ms \<subseteq> S" for S
    using supported[OF assms that(1)] that(2) by (auto simp: supportsAll_def)
  ultimately show ?thesis by (auto simp: containsAllIn_def)
qed

text \<open>\<open>CanContainAll\<close> answers yes exactly when some set the program describes, among all the
  combinations its expressions expand to, contains every given model. \<open>findContaining\<close> names the
  first such set.\<close>

theorem CanContainAll_iff:
  assumes "wf_program p" "models \<noteq> []"
  shows "(CanContainAll p models \<longleftrightarrow>
       (\<exists>s \<in> set (p_sets p). \<exists>S \<in> expand (cs_root s). set models \<subseteq> S)) \<and>
     (CanContainAll p models \<longrightarrow> (\<exists>i < length (p_sets p). let s = p_sets p ! i in
        findContaining p models = (cs_name s, cs_dsl s) \<and> (\<exists>S \<in> expand (cs_root s). set models \<subseteq> S) \<and>
        (\<forall>j < i. \<forall>S \<in> expand (cs_root (p_sets p ! j)). \<not> set models \<subseteq> S)))"
proof -
  let ?e = "newEvaluator models"
  let ?P = "containsAllIn p ?e (fullMask ?e) models"
  have iff: "?P s \<longleftrightarrow> (\<exists>S \<in> expand (cs_root s). set models \<subseteq> S)" if "s \<in> set (p_sets p)" for s
    by (rule containsAllIn_iff[OF assms(1) that])
  have can: "CanContainAll p models \<longleftrightarrow> (\<exists>s \<in> set (p_sets p). ?P s)"
    using assms(2) by (simp add: CanContainAll_def Let_def)
  have "\<exists>i < length (p_sets p). let s = p_sets p ! i in findContaining p models = (cs_name s, cs_dsl s) \<and>
      (\<exists>S \<in> expand (cs_root s). set models \<subseteq> S) \<and>
      (\<forall>j < i. \<forall>S \<in> expand (cs_root (p_sets p ! j)). \<not> set models \<subseteq> S)"
    if ex: "\<exists>s \<in> set (p_sets p). ?P s"
  proof -
    from ex obtain s where s: "find ?P (p_sets p) = Some s" by (metis find_None_iff not_Some_eq)
    then obtain i where i: "i < length (p_sets p)" "?P (p_sets p ! i)" "s = p_sets p ! i"
      "\<forall>j < i. \<not> ?P (p_sets p ! j)" by (auto simp: find_Some_iff)
    moreover have "findContaining p models = (cs_name s, cs_dsl s)"
      using s assms(2) by (simp add: findContaining_def Let_def)
    ultimately show ?thesis using iff by (intro exI[of _ i]) (auto simp: Let_def)
  qed
  with can iff show ?thesis by blast
qed

section \<open>The best state\<close>

text \<open>The selection loop of \<open>Solve\<close> is an argmin over the candidates with the target.\<close>

lemma foldl_argmin:
  fixes k :: "'c \<Rightarrow> int" and b0 :: "int \<times> 'c option"
  assumes "\<And>c. c \<in> set cs \<Longrightarrow> P c \<Longrightarrow> 0 \<le> k c"
    and step: "\<And>b c. f b c = (if \<not> P c then b else if fst b < 0 \<or> k c < fst b then (k c, Some c) else b)"
    and "b0 = (-1, None) \<or> (\<exists>c. b0 = (k c, Some c) \<and> 0 \<le> k c)"
  shows "(foldl f b0 cs = b0 \<and> (\<forall>c \<in> set cs. P c \<longrightarrow> 0 \<le> fst b0 \<and> fst b0 \<le> k c)) \<or>
    (\<exists>c \<in> set cs. P c \<and> foldl f b0 cs = (k c, Some c) \<and> (fst b0 < 0 \<or> k c \<le> fst b0) \<and>
      (\<forall>c' \<in> set cs. P c' \<longrightarrow> k c \<le> k c'))"
  using assms(1,3)
proof (induction cs arbitrary: b0)
  case (Cons c cs)
  show ?case
  proof (cases "P c \<and> (fst b0 < 0 \<or> k c < fst b0)")
    case True
    then have f: "f b0 c = (k c, Some c)" by (simp add: step)
    have "0 \<le> k c" using Cons.prems(1)[of c] True by simp
    then have "(foldl f (f b0 c) cs = f b0 c \<and> (\<forall>x \<in> set cs. P x \<longrightarrow> 0 \<le> fst (f b0 c) \<and> fst (f b0 c) \<le> k x)) \<or>
      (\<exists>x \<in> set cs. P x \<and> foldl f (f b0 c) cs = (k x, Some x) \<and> (fst (f b0 c) < 0 \<or> k x \<le> fst (f b0 c)) \<and>
        (\<forall>c' \<in> set cs. P c' \<longrightarrow> k x \<le> k c'))"
      using Cons.prems(1) f by (intro Cons.IH) auto
    then show ?thesis
    proof
      assume "foldl f (f b0 c) cs = f b0 c \<and> (\<forall>x \<in> set cs. P x \<longrightarrow> 0 \<le> fst (f b0 c) \<and> fst (f b0 c) \<le> k x)"
      with True f show ?thesis by (intro disjI2 bexI[of _ c]) auto
    next
      assume "\<exists>x \<in> set cs. P x \<and> foldl f (f b0 c) cs = (k x, Some x) \<and>
        (fst (f b0 c) < 0 \<or> k x \<le> fst (f b0 c)) \<and> (\<forall>c' \<in> set cs. P c' \<longrightarrow> k x \<le> k c')"
      then obtain x where "x \<in> set cs" "P x" "foldl f (f b0 c) cs = (k x, Some x)" "k x \<le> k c"
        "\<forall>c' \<in> set cs. P c' \<longrightarrow> k x \<le> k c'" using \<open>0 \<le> k c\<close> f by auto
      with True show ?thesis by (intro disjI2 bexI[of _ x]) auto
    qed
  next
    case False
    then have f: "f b0 c = b0" by (auto simp: step)
    have c: "P c \<Longrightarrow> 0 \<le> fst b0 \<and> fst b0 \<le> k c" using False by auto
    have "(foldl f b0 cs = b0 \<and> (\<forall>x \<in> set cs. P x \<longrightarrow> 0 \<le> fst b0 \<and> fst b0 \<le> k x)) \<or>
      (\<exists>x \<in> set cs. P x \<and> foldl f b0 cs = (k x, Some x) \<and> (fst b0 < 0 \<or> k x \<le> fst b0) \<and>
        (\<forall>c' \<in> set cs. P c' \<longrightarrow> k x \<le> k c'))"
      using Cons.prems by (intro Cons.IH) auto
    then show ?thesis
    proof
      assume "foldl f b0 cs = b0 \<and> (\<forall>x \<in> set cs. P x \<longrightarrow> 0 \<le> fst b0 \<and> fst b0 \<le> k x)"
      with c f show ?thesis by (intro disjI1) simp
    next
      assume "\<exists>x \<in> set cs. P x \<and> foldl f b0 cs = (k x, Some x) \<and> (fst b0 < 0 \<or> k x \<le> fst b0) \<and>
        (\<forall>c' \<in> set cs. P c' \<longrightarrow> k x \<le> k c')"
      then obtain x where "x \<in> set cs" "P x" "foldl f b0 cs = (k x, Some x)" "fst b0 < 0 \<or> k x \<le> fst b0"
        "\<forall>c' \<in> set cs. P c' \<longrightarrow> k x \<le> k c'" by blast
      with c f show ?thesis by (intro disjI2 bexI[of _ x]) auto
    qed
  qed
qed simp

text \<open>What keeping a set costs: the eviction costs of the running models outside it.\<close>

definition keepCost :: "(string, int) gomap \<Rightarrow> string list \<Rightarrow> string set \<Rightarrow> int" where
  "keepCost costs running S = (\<Sum>m \<leftarrow> filter (\<lambda>m. m \<notin> S) running. evictionCost costs m)"

lemma keepCost_mono:
  assumes "\<forall>m \<in> set running. 0 \<le> evictionCost costs m" "\<forall>m \<in> set running. m \<in> S \<longrightarrow> m \<in> T"
  shows "keepCost costs running T \<le> keepCost costs running S"
  using assms unfolding keepCost_def by (induction running) auto

lemma keepCost_nonneg:
  "\<forall>m \<in> set running. 0 \<le> evictionCost costs m \<Longrightarrow> 0 \<le> keepCost costs running S"
  unfolding keepCost_def by (induction running) auto

lemma stateCost_sum:
  assumes "\<forall>m \<in> set running. has k (evBit e m) \<longleftrightarrow> m \<in> S"
  shows "stateCost e costs running k = keepCost costs running S"
proof -
  have "foldl (\<lambda>c model. if \<not> has k (evBit e model) then c + evictionCost costs model else c) a running =
      a + keepCost costs running S" for a
    using assms unfolding keepCost_def by (induction running arbitrary: a) auto
  then show ?thesis by (simp add: stateCost_def)
qed

text \<open>The candidates of \<open>Solve\<close>: the states of every set whose support has the target.\<close>

definition candidates :: "program \<Rightarrow> evaluator \<Rightarrow> string \<Rightarrow> (compiledSet \<times> projectedState) list" where
  "candidates p e target =
     concat (map (\<lambda>s. map (Pair s) (evaluate e (cs_root s)))
       (filter (\<lambda>s. case map_of (p_modelBits p) target of Some b \<Rightarrow> has (cs_support s) b | None \<Rightarrow> False)
          (p_sets p)))"

lemma foldl_considerSet:
  "foldl (considerSet p e costs running target) b ss =
   foldl (\<lambda>b (s, st). considerState e costs running (evBit e target) s b st) b
     (concat (map (\<lambda>s. map (Pair s) (evaluate e (cs_root s)))
       (filter (\<lambda>s. case map_of (p_modelBits p) target of Some b \<Rightarrow> has (cs_support s) b | None \<Rightarrow> False) ss)))"
  by (induction ss arbitrary: b) (auto simp: considerSet_def foldl_map)

lemma state_has:
  assumes "rep e sts F" "wf_ev e" "st \<in> set sts" "m \<in> dom (map_of (ev_modelBits e))"
  shows "has (mask st) (evBit e m) \<longleftrightarrow> evBit e m \<in> bits (mask st)"
    "evBit e m \<in> proj e S \<longleftrightarrow> m \<in> S"
proof -
  from assms(4) obtain b where b: "map_of (ev_modelBits e) m = Some b" by blast
  show "has (mask st) (evBit e m) \<longleftrightarrow> evBit e m \<in> bits (mask st)"
    using has_iff[of b "mask st"] wf_ev_bit[OF assms(2) b] repD(1)[OF assms(1,3)] b by (simp add: evBit_def)
  show "evBit e m \<in> proj e S \<longleftrightarrow> m \<in> S" using mem_proj[OF assms(2) b] b by (simp add: evBit_def)
qed

text \<open>Every candidate state stands for a described set, and every described set with the target is
  represented by a candidate that keeps at least as many running models.\<close>

lemma candidates_sound:
  assumes "(s, st) \<in> set (candidates p (newEvaluator (target # running)) target)"
  obtains S where "s \<in> set (p_sets p)" "S \<in> expand (cs_root s)" "wnames (witness st) = S - {[]}"
    "\<forall>m \<in> set (target # running). has (mask st) (evBit (newEvaluator (target # running)) m) \<longleftrightarrow> m \<in> S"
proof -
  let ?e = "newEvaluator (target # running)"
  have s: "s \<in> set (p_sets p)" "st \<in> set (evaluate ?e (cs_root s))"
    using assms by (auto simp: candidates_def)
  note r = evaluate_rep[OF newEvaluator_wf[of "target # running"], of "cs_root s"]
  from repD(2)[OF r s(2)] obtain S where S: "S \<in> expand (cs_root s)"
    "bits (mask st) = proj ?e S" "wnames (witness st) = S - {[]}" by blast
  have "has (mask st) (evBit ?e m) \<longleftrightarrow> m \<in> S" if "m \<in> set (target # running)" for m
    using state_has[OF r newEvaluator_wf s(2), of m] that S(2) newEvaluator_dom[of "target # running"] by auto
  with s S that show ?thesis by blast
qed

lemma candidates_complete:
  assumes "wf_program p" "s \<in> set (p_sets p)" "S \<in> expand (cs_root s)" "target \<in> S"
  obtains st where "(s, st) \<in> set (candidates p (newEvaluator (target # running)) target)"
    "\<forall>m \<in> set (target # running). m \<in> S \<longrightarrow> has (mask st) (evBit (newEvaluator (target # running)) m)"
proof -
  let ?e = "newEvaluator (target # running)"
  note r = evaluate_rep[OF newEvaluator_wf[of "target # running"], of "cs_root s"]
  from repD(3)[OF r assms(3)] obtain st where
    st: "st \<in> set (evaluate ?e (cs_root s))" "proj ?e S \<subseteq> bits (mask st)" by blast
  have "has (mask st) (evBit ?e m)" if "m \<in> set (target # running)" "m \<in> S" for m
    using state_has[OF r newEvaluator_wf st(1), of m] that st(2) newEvaluator_dom[of "target # running"] by auto
  moreover have "(s, st) \<in> set (candidates p ?e target)"
    using st(1) assms(2) supported[OF assms] by (auto simp: candidates_def)
  ultimately show ?thesis using that by blast
qed

text \<open>The best candidate of the selection loop, as \<open>Solve\<close> reads it.\<close>

lemma best_candidate:
  fixes target :: string and p :: program
  assumes "\<forall>m \<in> set running. 0 \<le> evictionCost costs m"
  defines "e \<equiv> newEvaluator (target # running)"
  defines "best \<equiv> foldl (considerSet p e costs running target) (-1, None) (p_sets p)"
  shows "(best = (-1, None) \<and> (\<forall>(s, st) \<in> set (candidates p e target). \<not> has (mask st) (evBit e target))) \<or>
    (\<exists>(s, st) \<in> set (candidates p e target). has (mask st) (evBit e target) \<and>
       best = (stateCost e costs running (mask st), Some (s, st)) \<and>
       (\<forall>(s', st') \<in> set (candidates p e target). has (mask st') (evBit e target) \<longrightarrow>
          stateCost e costs running (mask st) \<le> stateCost e costs running (mask st')))"
proof -
  let ?k = "\<lambda>(s :: compiledSet, st). stateCost e costs running (mask st)"
  let ?P = "\<lambda>(s :: compiledSet, st). has (mask st) (evBit e target)"
  let ?f = "\<lambda>b (s, st). considerState e costs running (evBit e target) s b st"
  have nonneg: "0 \<le> ?k c" if "c \<in> set (candidates p e target)" for c
  proof -
    obtain s st where c: "c = (s, st)" by (cases c)
    from that have "(s, st) \<in> set (candidates p (newEvaluator (target # running)) target)"
      by (simp add: c e_def)
    from candidates_sound[OF this] obtain S where
      "\<forall>m \<in> set (target # running). has (mask st) (evBit e m) \<longleftrightarrow> m \<in> S" unfolding e_def by metis
    then show ?thesis using stateCost_sum[of running "mask st" e S] keepCost_nonneg[OF assms(1)] c by simp
  qed
  have "best = foldl ?f (-1, None) (candidates p e target)"
    unfolding best_def candidates_def by (rule foldl_considerSet)
  moreover have "(foldl ?f (-1, None) (candidates p e target) = (-1, None) \<and>
      (\<forall>c \<in> set (candidates p e target). ?P c \<longrightarrow> 0 \<le> fst (-1 :: int, None :: (compiledSet \<times> projectedState) option) \<and>
         fst (-1 :: int, None :: (compiledSet \<times> projectedState) option) \<le> ?k c)) \<or>
    (\<exists>c \<in> set (candidates p e target). ?P c \<and> foldl ?f (-1, None) (candidates p e target) = (?k c, Some c) \<and>
      (fst (-1 :: int, None :: (compiledSet \<times> projectedState) option) < 0 \<or>
         ?k c \<le> fst (-1 :: int, None :: (compiledSet \<times> projectedState) option)) \<and>
      (\<forall>c' \<in> set (candidates p e target). ?P c' \<longrightarrow> ?k c \<le> ?k c'))"
    by (rule foldl_argmin) (auto simp: nonneg considerState_def Let_def split: prod.splits dest: nonneg)
  ultimately consider
      (none) "best = (-1, None)" "\<forall>c \<in> set (candidates p e target). \<not> ?P c"
    | (some) s st where "(s, st) \<in> set (candidates p e target)" "?P (s, st)" "best = (?k (s, st), Some (s, st))"
        "\<forall>c' \<in> set (candidates p e target). ?P c' \<longrightarrow> ?k (s, st) \<le> ?k c'"
    by (metis fst_conv neg_0_le_iff_le not_one_le_zero surj_pair)
  then show ?thesis
  proof cases
    case none
    then show ?thesis by (intro disjI1) auto
  next
    case some
    then show ?thesis by (intro disjI2 bexI[of _ "(s, st)"]) auto
  qed
qed

lemma Solve_best:
  assumes "wf_program p" "target \<notin> set running" "\<forall>m \<in> set running. 0 \<le> evictionCost costs m"
  defines "d \<equiv> Solve p target running costs"
  shows "(\<exists>s \<in> set (p_sets p). \<exists>S \<in> expand (cs_root s). target \<in> S \<and>
       Evict d = filter (\<lambda>m. m \<notin> S) running \<and> SetName d = cs_name s \<and> DSL d = cs_dsl s \<and>
       set (TargetSet d) = S - {[]} \<and> sorted (TargetSet d) \<and> distinct (TargetSet d) \<and>
       TotalCost d = keepCost costs running S \<and>
       (\<forall>s' \<in> set (p_sets p). \<forall>S' \<in> expand (cs_root s'). target \<in> S' \<longrightarrow>
          TotalCost d \<le> keepCost costs running S')) \<or>
     ((\<forall>s \<in> set (p_sets p). \<forall>S \<in> expand (cs_root s). target \<notin> S) \<and>
      d = \<lparr>Evict = running, TargetSet = [target], SetName = [], DSL = [], TotalCost = 0\<rparr>)"
proof -
  let ?e = "newEvaluator (target # running)"
  let ?best = "foldl (considerSet p ?e costs running target) (-1, None) (p_sets p)"
  from best_candidate[OF assms(3), where target = target and p = p] show ?thesis
  proof
    assume none: "?best = (-1, None) \<and>
      (\<forall>(s, st) \<in> set (candidates p ?e target). \<not> has (mask st) (evBit ?e target))"
    have "target \<notin> S" if in_p: "s \<in> set (p_sets p)" "S \<in> expand (cs_root s)" for s S
    proof
      assume "target \<in> S"
      obtain st where st: "(s, st) \<in> set (candidates p ?e target)"
        "\<forall>m \<in> set (target # running). m \<in> S \<longrightarrow> has (mask st) (evBit ?e m)"
        by (rule candidates_complete[OF assms(1) in_p \<open>target \<in> S\<close>])
      from st(2) \<open>target \<in> S\<close> have "has (mask st) (evBit ?e target)" by simp
      with none st(1) show False by blast
    qed
    with none assms(2) show ?thesis by (intro disjI2) (auto simp: d_def Solve_def Let_def)
  next
    assume "\<exists>(s, st) \<in> set (candidates p ?e target). has (mask st) (evBit ?e target) \<and>
       ?best = (stateCost ?e costs running (mask st), Some (s, st)) \<and>
       (\<forall>(s', st') \<in> set (candidates p ?e target). has (mask st') (evBit ?e target) \<longrightarrow>
          stateCost ?e costs running (mask st) \<le> stateCost ?e costs running (mask st'))"
    then obtain s st where c: "(s, st) \<in> set (candidates p ?e target)" "has (mask st) (evBit ?e target)"
      "?best = (stateCost ?e costs running (mask st), Some (s, st))"
      and min: "\<And>s' st'. (s', st') \<in> set (candidates p ?e target) \<Longrightarrow> has (mask st') (evBit ?e target) \<Longrightarrow>
          stateCost ?e costs running (mask st) \<le> stateCost ?e costs running (mask st')"
      by blast
    obtain S where S: "s \<in> set (p_sets p)" "S \<in> expand (cs_root s)"
      "wnames (witness st) = S - {[]}" "\<forall>m \<in> set (target # running). has (mask st) (evBit ?e m) \<longleftrightarrow> m \<in> S"
      by (rule candidates_sound[OF c(1)])
    have cost: "stateCost ?e costs running (mask st) = keepCost costs running S"
      using S(4) by (intro stateCost_sum) simp
    have d: "d = \<lparr>Evict = filter (\<lambda>m. m \<notin> S) running, TargetSet = flattenWitness (witness st),
        SetName = cs_name s, DSL = cs_dsl s, TotalCost = keepCost costs running S\<rparr>"
      using assms(2) c(3) cost S(4) by (auto simp: d_def Solve_def Let_def intro!: filter_cong)
    have "keepCost costs running S \<le> keepCost costs running S'"
      if in_p: "s' \<in> set (p_sets p)" "S' \<in> expand (cs_root s')" "target \<in> S'" for s' S'
    proof -
      obtain st' where st': "(s', st') \<in> set (candidates p ?e target)"
        "\<forall>m \<in> set (target # running). m \<in> S' \<longrightarrow> has (mask st') (evBit ?e m)"
        by (rule candidates_complete[OF assms(1) in_p])
      obtain T where T: "\<forall>m \<in> set (target # running). has (mask st') (evBit ?e m) \<longleftrightarrow> m \<in> T"
        by (rule candidates_sound[OF st'(1)])
      have "keepCost costs running S \<le> keepCost costs running T"
        using min[OF st'(1)] st'(2) in_p(3) cost stateCost_sum[of running "mask st'" ?e T costs] T by simp
      also have "\<dots> \<le> keepCost costs running S'"
        using T st'(2) assms(3) by (intro keepCost_mono) auto
      finally show ?thesis .
    qed
    moreover have "target \<in> S" using S(4) c(2) by simp
    ultimately show ?thesis
      using S flattenWitness_spec[of "witness st"] by (intro disjI1 bexI[of _ s] bexI[of _ S]) (simp_all add: d)
  qed
qed

text \<open>C3. \<open>Solve\<close> is optimal. For a target that is not running and eviction costs that are not
  negative: when some set the program describes contains the target, the decision evicts exactly
  the running models outside such a set \<open>S\<close>, names the set's definition, reports \<open>S\<close> and its cost,
  and no described set with the target keeps the running models more cheaply. When no described
  set contains the target, everything running is evicted and the target runs alone.\<close>

theorem Solve_optimal:
  assumes "wf_program p" "target \<notin> set running" "\<forall>m \<in> set running. 0 \<le> evictionCost costs m"
  defines "d \<equiv> Solve p target running costs"
  shows "(\<exists>s \<in> set (p_sets p). \<exists>S \<in> expand (cs_root s). target \<in> S \<and>
       Evict d = filter (\<lambda>m. m \<notin> S) running \<and> SetName d = cs_name s \<and> DSL d = cs_dsl s \<and>
       set (TargetSet d) = S - {[]} \<and> sorted (TargetSet d) \<and> distinct (TargetSet d) \<and>
       TotalCost d = keepCost costs running S \<and>
       (\<forall>s' \<in> set (p_sets p). \<forall>S' \<in> expand (cs_root s'). target \<in> S' \<longrightarrow>
          TotalCost d \<le> keepCost costs running S')) \<or>
     ((\<forall>s \<in> set (p_sets p). \<forall>S \<in> expand (cs_root s). target \<notin> S) \<and>
      d = \<lparr>Evict = running, TargetSet = [target], SetName = [], DSL = [], TotalCost = 0\<rparr>)"
  unfolding d_def by (rule Solve_best[OF assms(1-3)])

text \<open>The running example: \<open>g\<close> and \<open>h\<close> next to either \<open>m\<close> or \<open>n\<close>, and \<open>x\<close> alone.\<close>

definition exMatrix :: "definition_entry list" where
  "exMatrix = [\<lparr>def_name = ''big'', def_dsl = ''x''\<rparr>, \<lparr>def_name = ''day'', def_dsl = ''g & h & (m | n)''\<rparr>]"

theorem Solve_optimal_witness:
  "\<exists>p. Compile exMatrix Some = Inr p \<and> wf_program p \<and>
     Evict (Solve p ''n'' [''m'', ''g''] [(''g'', 30)]) = [''m''] \<and>
     keepCost [(''g'', 30)] [''m'', ''g''] {''g'', ''h'', ''n''} = 1 \<and>
     (\<exists>s \<in> set (p_sets p). \<exists>S \<in> expand (cs_root s). ''n'' \<in> S \<and>
        Evict (Solve p ''n'' [''m'', ''g''] [(''g'', 30)]) = filter (\<lambda>m. m \<notin> S) [''m'', ''g''])"
proof -
  have run: "map_sum id (\<lambda>p. Evict (Solve p ''n'' [''m'', ''g''] [(''g'', 30)])) (Compile exMatrix Some) = Inr [''m'']"
    by code_simp
  then obtain p where p: "Compile exMatrix Some = Inr p"
    and ev: "Evict (Solve p ''n'' [''m'', ''g''] [(''g'', 30)]) = [''m'']"
    by (cases "Compile exMatrix Some") auto
  have wf: "wf_program p" by (rule Compile_program_wf[OF p])
  have "''n'' \<notin> set [''m'', ''g'']" "\<forall>m \<in> set [''m'', ''g'']. 0 \<le> evictionCost [(''g'', 30)] m"
    by (simp_all add: evictionCost_def)
  from Solve_optimal[OF wf this] ev
  have "\<exists>s \<in> set (p_sets p). \<exists>S \<in> expand (cs_root s). ''n'' \<in> S \<and>
        Evict (Solve p ''n'' [''m'', ''g''] [(''g'', 30)]) = filter (\<lambda>m. m \<notin> S) [''m'', ''g'']"
    by (elim disjE conjE) (blast, simp)
  with p wf ev show ?thesis by (intro exI[of _ p]) (simp add: keepCost_def evictionCost_def)
qed

theorem CanContainAll_iff_witness:
  "\<exists>p. Compile exMatrix Some = Inr p \<and> wf_program p \<and> CanContainAll p [''g'', ''n''] \<and>
     (\<exists>s \<in> set (p_sets p). \<exists>S \<in> expand (cs_root s). set [''g'', ''n''] \<subseteq> S)"
proof -
  have run: "map_sum id (\<lambda>p. CanContainAll p [''g'', ''n'']) (Compile exMatrix Some) = Inr True"
    by code_simp
  then obtain p where p: "Compile exMatrix Some = Inr p" and can: "CanContainAll p [''g'', ''n'']"
    by (cases "Compile exMatrix Some") auto
  have wf: "wf_program p" by (rule Compile_program_wf[OF p])
  have "[''g'', ''n''] \<noteq> []" by simp
  from conjunct1[OF CanContainAll_iff[OF wf this]] can
  have "\<exists>s \<in> set (p_sets p). \<exists>S \<in> expand (cs_root s). set [''g'', ''n''] \<subseteq> S" by (rule iffD1)
  with p wf can show ?thesis by (intro exI[of _ p]) simp
qed

end
