(* ===== verification/MatrixConfig.thy ===== *)
theory MatrixConfig
  imports MatrixSolve
begin

text \<open>
  The matrix block of the configuration, \<open>internal/config/matrix.go\<close>: validation and
  compilation (\<open>ValidateMatrix\<close>), identifier resolution and the resolved eviction costs. The
  model table is only asked for its keys. Decoding the YAML node (\<open>UnmarshalYAML\<close>) belongs to
  the yaml package.
\<close>

record SetEntry =
  se_Name :: string
  se_DSL :: string

record MatrixConfig =
  Var :: "(string, string) gomap"
  EvictCosts :: "(string, int) gomap"
  Sets :: "SetEntry list"

datatype matrix_error =
    NoMatrixSets
  | BadVarKey string
  | UnknownVarModel string string
  | BadEvictCost string int
  | UnknownEvictKey string
  | CompileError compile_error

text \<open>\<open>varKeyPattern\<close>, the regular expression \<open>^[a-zA-Z0-9.-]{1,32}$\<close>.\<close>

definition varKeyPattern :: "string \<Rightarrow> bool" where
  "varKeyPattern s \<longleftrightarrow> 1 \<le> length s \<and> length s \<le> 32 \<and>
     (\<forall>c \<in> set s. (CHR ''a'' \<le> c \<and> c \<le> CHR ''z'') \<or> (CHR ''A'' \<le> c \<and> c \<le> CHR ''Z'') \<or>
        (CHR ''0'' \<le> c \<and> c \<le> CHR ''9'') \<or> c = CHR ''.'' \<or> c = CHR ''-'')"

definition resolveMatrixModel ::
  "string \<Rightarrow> (string, string) gomap \<Rightarrow> (string, 'm) gomap \<Rightarrow> string option" where
  "resolveMatrixModel ident vars models =
     (case map_of vars ident of
        Some modelName \<Rightarrow> Some modelName
      | None \<Rightarrow> if ident \<in> dom (map_of models) then Some ident else None)"

fun checkVars :: "(string, 'm) gomap \<Rightarrow> (string, string) gomap \<Rightarrow> matrix_error option" where
  "checkVars models [] = None"
| "checkVars models ((ident, modelName) # vs) =
     (if \<not> varKeyPattern ident then Some (BadVarKey ident)
      else if modelName \<notin> dom (map_of models) then Some (UnknownVarModel ident modelName)
      else checkVars models vs)"

fun checkCosts ::
  "(string, string) gomap \<Rightarrow> (string, 'm) gomap \<Rightarrow> (string, int) gomap \<Rightarrow> matrix_error option" where
  "checkCosts vars models [] = None"
| "checkCosts vars models ((key, cost) # cs) =
     (if cost \<le> 0 then Some (BadEvictCost key cost)
      else if resolveMatrixModel key vars models = None then Some (UnknownEvictKey key)
      else checkCosts vars models cs)"

definition ValidateMatrix :: "MatrixConfig \<Rightarrow> (string, 'm) gomap \<Rightarrow> matrix_error + program" where
  "ValidateMatrix matrix models =
     (if Sets matrix = [] then Inl NoMatrixSets
      else (case checkVars models (Var matrix) of
         Some err \<Rightarrow> Inl err
       | None \<Rightarrow>
      (case checkCosts (Var matrix) models (EvictCosts matrix) of
         Some err \<Rightarrow> Inl err
       | None \<Rightarrow>
      (case Compile (map (\<lambda>entry. \<lparr>def_name = se_Name entry, def_dsl = se_DSL entry\<rparr>) (Sets matrix))
              (\<lambda>ident. resolveMatrixModel ident (Var matrix) models) of
         Inl err \<Rightarrow> Inl (CompileError err)
       | Inr program \<Rightarrow> Inr program))))"

definition ResolvedEvictCosts :: "MatrixConfig \<Rightarrow> (string, int) gomap" where
  "ResolvedEvictCosts m =
     foldl (\<lambda>costs (key, cost). case map_of (Var m) key of
              Some realName \<Rightarrow> mput realName cost costs
            | None \<Rightarrow> mput key cost costs) [] (EvictCosts m)"

section \<open>What resolution puts into a compiled program\<close>

fun leaves :: "node \<Rightarrow> string set" where
  "leaves (NodeLeaf s) = {s}"
| "leaves (NodeRef s r) = {}"
| "leaves (NodeAnd cs) = \<Union> (leaves ` set cs)"
| "leaves (NodeOr cs) = \<Union> (leaves ` set cs)"

lemma resolveNode_leaves:
  "resolveNode resolve names d refs n = Inr (n', refs') \<Longrightarrow> leaves n' \<subseteq> ran resolve"
  "resolveNodes resolve names d refs ns = Inr (ns', refs') \<Longrightarrow> \<Union> (leaves ` set ns') \<subseteq> ran resolve"
  by (induction resolve names d refs n and resolve names d refs ns arbitrary: n' refs' and ns' refs'
      rule: resolveNode_resolveNodes.induct)
    (auto split: option.splits if_splits sum.splits prod.splits intro: ranI, blast+)

lemma compileDefs_leaves:
  assumes "compileDefs resolve names ds cm = Inr cm'"
    and "\<And>s r. map_of (cm_roots cm) s = Some r \<Longrightarrow> leaves r \<subseteq> ran resolve"
  shows "map_of (cm_roots cm') s = Some r \<Longrightarrow> leaves r \<subseteq> ran resolve"
  using assms
proof (induction resolve names ds cm arbitrary: s r rule: compileDefs.induct)
  case (2 resolve names d ds cm)
  from "2.prems"(2) obtain root root' refs where
    root: "parseDSL (def_dsl d) = Inr root" "resolveNode resolve names (def_name d) [] root = Inr (root', refs)"
    and rest: "compileDefs resolve names ds
      (cm\<lparr>cm_roots := mput (def_name d) root' (cm_roots cm),
          cm_dsl := mput (def_name d) (def_dsl d) (cm_dsl cm),
          cm_deps := mput (def_name d) refs (cm_deps cm)\<rparr>) = Inr cm'"
    by (auto split: sum.splits prod.splits)
  show ?case
    by (rule "2.IH"[OF root(1) root(2) refl "2.prems"(1) rest])
      (use "2.prems"(3) resolveNode_leaves(1)[OF root(2)] in \<open>auto split: if_splits\<close>)
qed auto

lemma collect_linkNode:
  "(\<And>s r. env s = Some r \<Longrightarrow> set (collect r) \<subseteq> L) \<Longrightarrow> leaves n \<subseteq> L \<Longrightarrow> set (collect (linkNode env n)) \<subseteq> L"
proof (induction env n rule: linkNode.induct)
  case (2 env s r)
  then show ?case by (cases "env s") auto
qed (simp_all add: UN_subset_iff)

lemma collect_linkRoots:
  assumes "\<And>s r. env s = Some r \<Longrightarrow> set (collect r) \<subseteq> L" "\<And>s r. map_of roots s = Some r \<Longrightarrow> leaves r \<subseteq> L"
  shows "linkRoots roots env names s = Some r \<Longrightarrow> set (collect r) \<subseteq> L"
  using assms
proof (induction names arbitrary: env)
  case (Cons name names)
  let ?env1 = "env(name := map_option (linkNode env) (map_of roots name))"
  have "set (collect r) \<subseteq> L" if e1: "?env1 s = Some r" for s r
  proof (cases "s = name")
    case True
    with e1 obtain root where "map_of roots name = Some root" "r = linkNode env root" by auto
    with Cons.prems(2,3) collect_linkNode[of env L root] show ?thesis by blast
  next
    case False
    with e1 Cons.prems(2) show ?thesis by simp
  qed
  moreover from Cons.prems(1) have "linkRoots roots ?env1 names s = Some r" by simp
  ultimately show ?case using Cons.IH[of ?env1] Cons.prems(3) by blast
qed simp

lemma Compile_leaves:
  assumes "Compile ds resolve = Inr p" "s \<in> set (p_sets p)" "S \<in> expand (cs_root s)"
  shows "S \<subseteq> ran resolve"
proof -
  from assms(1) obtain cm order where cm: "compileDefs resolve (map def_name ds) ds
      \<lparr>cm_roots = [], cm_dsl = [], cm_deps = []\<rparr> = Inr cm"
    and p: "p = computeSupport (map (\<lambda>name. \<lparr>cs_name = name,
        cs_dsl = (case map_of (cm_dsl cm) name of Some d \<Rightarrow> d | None \<Rightarrow> []),
        cs_root = (case linkRoots (cm_roots cm) Map.empty order name of Some r \<Rightarrow> r | None \<Rightarrow> NodeOr []),
        cs_support = []\<rparr>) order)"
    by (auto simp: Compile_def Let_def split: if_splits sum.splits)
  from assms(2) obtain name where
    root: "cs_root s = (case linkRoots (cm_roots cm) Map.empty order name of Some r \<Rightarrow> r | None \<Rightarrow> NodeOr [])"
    unfolding p computeSupport_def by (auto simp: Let_def)
  have "leaves r \<subseteq> ran resolve" if "map_of (cm_roots cm) s = Some r" for s r
    using compileDefs_leaves[OF cm _ that] by simp
  then have "set (collect r) \<subseteq> ran resolve" if "linkRoots (cm_roots cm) Map.empty order s = Some r" for s r
    using collect_linkRoots[of Map.empty "ran resolve" "cm_roots cm"] that by fastforce
  then have "set (collect (cs_root s)) \<subseteq> ran resolve" unfolding root by (auto split: option.splits)
  with expand_collect[OF assms(3)] show ?thesis by blast
qed

section \<open>What validation guarantees the solver\<close>

lemma checkVars_ok: "checkVars models vs = None \<Longrightarrow> map_of vs k = Some m \<Longrightarrow> m \<in> dom (map_of models)"
  by (induction models vs rule: checkVars.induct) (auto split: if_splits)

lemma checkCosts_pos: "checkCosts vars models cs = None \<Longrightarrow> (k, c) \<in> set cs \<Longrightarrow> 0 < c"
  by (induction vars models cs rule: checkCosts.induct) (auto split: if_splits)

text \<open>The resolved table as a function: the last entry of the iteration order that resolves to a
  name decides its cost.\<close>

abbreviation resolvedKey :: "MatrixConfig \<Rightarrow> string \<Rightarrow> string" where
  "resolvedKey m key \<equiv> (case map_of (Var m) key of Some realName \<Rightarrow> realName | None \<Rightarrow> key)"

lemma ResolvedEvictCosts_map_of:
  "map_of (ResolvedEvictCosts m) = map_of (rev (map (\<lambda>(k, c). (resolvedKey m k, c)) (EvictCosts m)))"
proof -
  have "map_of (foldl (\<lambda>costs (key, cost). case map_of (Var m) key of
              Some realName \<Rightarrow> mput realName cost costs
            | None \<Rightarrow> mput key cost costs) acc es) =
      map_of acc ++ map_of (rev (map (\<lambda>(k, c). (resolvedKey m k, c)) es))" for acc es
    by (induction es arbitrary: acc) (auto simp: map_add_upd split: option.splits)
  from this[of "[]" "EvictCosts m"] show ?thesis by (simp add: ResolvedEvictCosts_def)
qed

lemma ValidateMatrix_cases:
  assumes "ValidateMatrix matrix models = Inr p"
  shows "checkVars models (Var matrix) = None" "checkCosts (Var matrix) models (EvictCosts matrix) = None"
    "Compile (map (\<lambda>entry. \<lparr>def_name = se_Name entry, def_dsl = se_DSL entry\<rparr>) (Sets matrix))
       (\<lambda>ident. resolveMatrixModel ident (Var matrix) models) = Inr p"
  using assms by (auto simp: ValidateMatrix_def split: if_splits option.splits sum.splits)

lemma Validated_costs_pos:
  assumes "ValidateMatrix matrix models = Inr p"
  shows "0 < evictionCost (ResolvedEvictCosts matrix) m"
proof (cases "map_of (ResolvedEvictCosts matrix) m")
  case (Some c)
  then have "(m, c) \<in> set (map (\<lambda>(k, c). (resolvedKey matrix k, c)) (EvictCosts matrix))"
    unfolding ResolvedEvictCosts_map_of using map_of_SomeD by fastforce
  with checkCosts_pos[OF ValidateMatrix_cases(2)[OF assms]] Some show ?thesis
    by (auto simp: evictionCost_def)
qed (simp add: evictionCost_def)

lemma Validated_models:
  assumes "ValidateMatrix matrix models = Inr p" "s \<in> set (p_sets p)" "S \<in> expand (cs_root s)"
  shows "S \<subseteq> dom (map_of models)"
proof
  fix m assume "m \<in> S"
  with Compile_leaves[OF ValidateMatrix_cases(3)[OF assms(1)] assms(2,3)]
  obtain i where "resolveMatrixModel i (Var matrix) models = Some m" by (auto simp: ran_def)
  then show "m \<in> dom (map_of models)"
    using checkVars_ok[OF ValidateMatrix_cases(1)[OF assms(1)], of i m]
    by (auto simp: resolveMatrixModel_def split: option.splits if_splits)
qed

lemma Validated_wf: "ValidateMatrix matrix models = Inr p \<Longrightarrow> wf_program p"
  using Compile_program_wf ValidateMatrix_cases(3) by blast

text \<open>C4. A matrix configuration that passes \<open>ValidateMatrix\<close> gives the solver what it relies on:
  the program is well formed, every model of every set it describes is a configured model, and
  every eviction cost, resolved or defaulted, is positive.\<close>

theorem ValidateMatrix_sound:
  assumes "ValidateMatrix matrix models = Inr p"
  shows "wf_program p \<and> (\<forall>s \<in> set (p_sets p). \<forall>S \<in> expand (cs_root s). S \<subseteq> dom (map_of models)) \<and>
    (\<forall>m. 0 < evictionCost (ResolvedEvictCosts matrix) m)"
  using Validated_wf Validated_models Validated_costs_pos assms by blast

definition exMatrixConfig :: MatrixConfig where
  "exMatrixConfig = \<lparr>Var = [(''g'', ''gemma''), (''m'', ''mistral'')], EvictCosts = [(''g'', 30)],
     Sets = [\<lparr>se_Name = ''day'', se_DSL = ''g & m''\<rparr>, \<lparr>se_Name = ''big'', se_DSL = ''llama | +day''\<rparr>]\<rparr>"

theorem ValidateMatrix_sound_witness:
  "\<exists>p. ValidateMatrix exMatrixConfig [(''gemma'', ()), (''mistral'', ()), (''llama'', ())] = Inr p \<and>
     wf_program p \<and> (\<forall>m. 0 < evictionCost (ResolvedEvictCosts exMatrixConfig) m)"
proof -
  have "map_sum id (\<lambda>p. ()) (ValidateMatrix exMatrixConfig [(''gemma'', ()), (''mistral'', ()), (''llama'', ())])
      = Inr ()" by code_simp
  then obtain p where p: "ValidateMatrix exMatrixConfig [(''gemma'', ()), (''mistral'', ()), (''llama'', ())] = Inr p"
    by (cases "ValidateMatrix exMatrixConfig [(''gemma'', ()), (''mistral'', ()), (''llama'', ())]") auto
  from ValidateMatrix_sound[OF p] p show ?thesis by blast
qed

text \<open>Validation accepts a configuration that names one model twice in \<open>evict_costs\<close>, once by a
  variable and once by its own name; its resolved cost is then the one the map iteration reaches
  last. Two orders of the same Go map, which the language leaves open, resolve to different costs.\<close>

theorem ResolvedEvictCosts_order_dependent:
  "\<exists>cfg cfg' :: MatrixConfig. Var cfg = Var cfg' \<and> Sets cfg = Sets cfg' \<and>
     distinct (map fst (EvictCosts cfg)) \<and> map_of (EvictCosts cfg) = map_of (EvictCosts cfg') \<and>
     (\<exists>p. ValidateMatrix cfg [(''m'', ())] = Inr p) \<and> (\<exists>p. ValidateMatrix cfg' [(''m'', ())] = Inr p) \<and>
     evictionCost (ResolvedEvictCosts cfg) ''m'' = 50 \<and> evictionCost (ResolvedEvictCosts cfg') ''m'' = 5"
proof -
  let ?c = "\<lambda>es. \<lparr>Var = [(''a'', ''m'')], EvictCosts = es, Sets = [\<lparr>se_Name = ''s'', se_DSL = ''a''\<rparr>]\<rparr>"
  let ?e1 = "[(''a'', 5), (''m'', 50)] :: (string, int) gomap"
  let ?e2 = "[(''m'', 50), (''a'', 5)] :: (string, int) gomap"
  have "map_sum id (\<lambda>p. ()) (ValidateMatrix (?c ?e1) [(''m'', ())]) = Inr ()"
    "map_sum id (\<lambda>p. ()) (ValidateMatrix (?c ?e2) [(''m'', ())]) = Inr ()" by code_simp+
  then have "\<exists>p. ValidateMatrix (?c ?e1) [(''m'', ())] = Inr p" "\<exists>p. ValidateMatrix (?c ?e2) [(''m'', ())] = Inr p"
    by (cases "ValidateMatrix (?c ?e1) [(''m'', ())]"; cases "ValidateMatrix (?c ?e2) [(''m'', ())]"; simp)+
  moreover have "evictionCost (ResolvedEvictCosts (?c ?e1)) ''m'' = 50"
    "evictionCost (ResolvedEvictCosts (?c ?e2)) ''m'' = 5" by code_simp+
  ultimately show ?thesis by (intro exI[of _ "?c ?e1"] exI[of _ "?c ?e2"]) auto
qed

end
