(* ===== verification/Swapper.thy ===== *)
theory Swapper
  imports MatrixConfig
begin

text \<open>
  The eviction planners of \<open>internal/router\<close> behind the scheduler's \<open>Swapper\<close> interface
  (\<open>scheduler.go\<close>): the group router (\<open>group.go\<close>) and the matrix router (\<open>matrix.go\<close>,
  \<open>matrix_solver.go\<close>). The locale \<open>swapper\<close> states what the scheduler relies on; both planners
  are shown to provide it.
\<close>

section \<open>The contract\<close>

text \<open>A plan never evicts its own target, evicts only what runs, and settles: once the planned
  models are gone, the same target needs no further eviction.\<close>

locale swapper =
  fixes EvictionFor :: "string \<Rightarrow> string list \<Rightarrow> string list"
  assumes not_target: "target \<notin> set (EvictionFor target running)"
    and only_running: "set (EvictionFor target running) \<subseteq> set running"
    and settles: "EvictionFor target (filter (\<lambda>m. m \<notin> set (EvictionFor target running)) running) = []"
begin

lemma nothing_running: "EvictionFor target [] = []"
  using only_running[of target "[]"] by simp

lemma alone: "EvictionFor target [target] = []"
  using only_running[of target "[target]"] not_target[of target "[target]"]
  by (cases "EvictionFor target [target]") auto

lemma survivors_kept:
  "m \<in> set running \<Longrightarrow> m \<notin> set (EvictionFor target running) \<Longrightarrow>
     m \<in> set (filter (\<lambda>m. m \<notin> set (EvictionFor target running)) running)"
  by simp

end

section \<open>The group planner\<close>

record GroupConfig =
  gSwap :: bool
  gExclusive :: bool
  gPersistent :: bool
  gMembers :: "string list"

definition zeroGroup :: GroupConfig where
  "zeroGroup = \<lparr>gSwap = False, gExclusive = False, gPersistent = False, gMembers = []\<rparr>"

record groupSwapper =
  groups :: "(string, GroupConfig) gomap"
  modelToGroup :: "(string, string) gomap"

datatype group_error = InMultipleGroups string string string

text \<open>The member loop of \<open>NewGroup\<close>, over the groups in the map's iteration order.\<close>

fun addMembers :: "string \<Rightarrow> string list \<Rightarrow> (string, string) gomap \<Rightarrow> group_error + (string, string) gomap" where
  "addMembers gid [] m2g = Inr m2g"
| "addMembers gid (mid # mids) m2g =
     (case map_of m2g mid of
        Some existing \<Rightarrow> Inl (InMultipleGroups mid existing gid)
      | None \<Rightarrow> addMembers gid mids (mput mid gid m2g))"

fun addGroups :: "(string, GroupConfig) gomap \<Rightarrow> (string, string) gomap \<Rightarrow> group_error + (string, string) gomap" where
  "addGroups [] m2g = Inr m2g"
| "addGroups ((gid, gcfg) # gs) m2g =
     (case addMembers gid (gMembers gcfg) m2g of
        Inl err \<Rightarrow> Inl err
      | Inr m2g' \<Rightarrow> addGroups gs m2g')"

definition newGroupSwapper :: "(string, GroupConfig) gomap \<Rightarrow> group_error + groupSwapper" where
  "newGroupSwapper gs = map_sum id (\<lambda>m2g. \<lparr>groups = gs, modelToGroup = m2g\<rparr>) (addGroups gs [])"

text \<open>A missing key reads as the zero value: the empty group name, the zero group.\<close>

definition groupOf :: "groupSwapper \<Rightarrow> string \<Rightarrow> string" where
  "groupOf p m = (case map_of (modelToGroup p) m of Some g \<Rightarrow> g | None \<Rightarrow> [])"

definition groupCfg :: "groupSwapper \<Rightarrow> string \<Rightarrow> GroupConfig" where
  "groupCfg p g = (case map_of (groups p) g of Some c \<Rightarrow> c | None \<Rightarrow> zeroGroup)"

text \<open>\<open>consider\<close>, the closure of \<open>EvictionFor\<close>; \<open>seen\<close> holds exactly the members of \<open>result\<close>, so
  the model keeps the one list.\<close>

definition considerMember :: "groupSwapper \<Rightarrow> string \<Rightarrow> string list \<Rightarrow> string \<Rightarrow> string list" where
  "considerMember p target result mID =
     (let tg = groupOf p target; tgCfg = groupCfg p tg; og = groupOf p mID in
      if mID = target then result
      else if mID \<in> set result then result
      else if og = tg \<and> gSwap tgCfg then result @ [mID]
      else if og \<noteq> tg \<and> gExclusive tgCfg then
        (if \<not> gPersistent (groupCfg p og) then result @ [mID] else result)
      else result)"

definition groupEvictionFor :: "groupSwapper \<Rightarrow> string \<Rightarrow> string list \<Rightarrow> string list" where
  "groupEvictionFor p target running = foldl (considerMember p target) [] running"

text \<open>Which running model the group rules push out.\<close>

definition groupEvicts :: "groupSwapper \<Rightarrow> string \<Rightarrow> string \<Rightarrow> bool" where
  "groupEvicts p target m \<longleftrightarrow> m \<noteq> target \<and>
     (if groupOf p m = groupOf p target then gSwap (groupCfg p (groupOf p target))
      else gExclusive (groupCfg p (groupOf p target)) \<and> \<not> gPersistent (groupCfg p (groupOf p m)))"

lemma considerMember_set:
  "set (considerMember p t res m) = set res \<union> (if groupEvicts p t m then {m} else {})"
  by (auto simp: considerMember_def groupEvicts_def Let_def)

lemma considerMember_distinct: "distinct res \<Longrightarrow> distinct (considerMember p t res m)"
  by (auto simp: considerMember_def Let_def)

lemma groupEvictionFor_set: "set (groupEvictionFor p t running) = {m \<in> set running. groupEvicts p t m}"
proof -
  have "set (foldl (considerMember p t) res running) = set res \<union> {m \<in> set running. groupEvicts p t m}" for res
    by (induction running arbitrary: res) (auto simp: considerMember_set)
  then show ?thesis by (simp add: groupEvictionFor_def)
qed

lemma groupEvictionFor_distinct: "distinct (groupEvictionFor p t running)"
proof -
  have "distinct res \<Longrightarrow> distinct (foldl (considerMember p t) res running)" for res
    by (induction running arbitrary: res) (auto simp: considerMember_distinct)
  then show ?thesis by (simp add: groupEvictionFor_def)
qed

lemma set_empty_filter: "set xs = {} \<Longrightarrow> xs = []"
  by simp

interpretation group: swapper "groupEvictionFor p" for p
proof
  show "t \<notin> set (groupEvictionFor p t r)" for t r
    by (simp add: groupEvictionFor_set groupEvicts_def)
  show "set (groupEvictionFor p t r) \<subseteq> set r" for t r
    by (auto simp: groupEvictionFor_set)
  show "groupEvictionFor p t (filter (\<lambda>m. m \<notin> set (groupEvictionFor p t r)) r) = []" for t r
    by (rule set_empty_filter) (auto simp: groupEvictionFor_set)
qed

text \<open>Membership after \<open>NewGroup\<close>.\<close>

lemma addMembers_map:
  "addMembers gid ms m2g = Inr m2g' \<Longrightarrow> distinct ms \<and> set ms \<inter> dom (map_of m2g) = {} \<and>
     map_of m2g' = (\<lambda>m. if m \<in> set ms then Some gid else map_of m2g m)"
  by (induction gid ms m2g arbitrary: m2g' rule: addMembers.induct)
    (auto split: option.splits simp: fun_eq_iff dom_def)

lemma addGroups_mono:
  "addGroups gs m2g = Inr m2g' \<Longrightarrow> map_of m2g m = Some g \<Longrightarrow> map_of m2g' m = Some g"
proof (induction gs m2g arbitrary: m2g' rule: addGroups.induct)
  case (2 gid gcfg gs m2g)
  from "2.prems"(1) obtain m1 where m1: "addMembers gid (gMembers gcfg) m2g = Inr m1" "addGroups gs m1 = Inr m2g'"
    by (auto split: sum.splits)
  have "m \<notin> set (gMembers gcfg)" using addMembers_map[OF m1(1)] "2.prems"(2) by auto
  then have "map_of m1 m = Some g" using addMembers_map[OF m1(1)] "2.prems"(2) by simp
  with "2.IH"[OF m1] show ?case by simp
qed simp

lemma addGroups_map:
  assumes "addGroups gs m2g = Inr m2g'" "distinct (map fst gs)"
  shows "map_of m2g' m = Some g \<longleftrightarrow>
    map_of m2g m = Some g \<or> (\<exists>cfg. map_of gs g = Some cfg \<and> m \<in> set (gMembers cfg))"
  using assms
proof (induction gs m2g arbitrary: m2g' rule: addGroups.induct)
  case (2 gid gcfg gs m2g)
  from "2.prems"(1) obtain m1 where m1: "addMembers gid (gMembers gcfg) m2g = Inr m1" "addGroups gs m1 = Inr m2g'"
    by (auto split: sum.splits)
  have fresh: "map_of gs gid = None" using "2.prems"(2) by (simp add: map_of_eq_None_iff)
  have "map_of m2g' m = Some g \<longleftrightarrow>
      map_of m1 m = Some g \<or> (\<exists>cfg. map_of gs g = Some cfg \<and> m \<in> set (gMembers cfg))"
    using "2.IH"[OF m1] "2.prems"(2) by simp
  moreover have "map_of m1 m = Some g \<longleftrightarrow> (m \<in> set (gMembers gcfg) \<and> g = gid) \<or> map_of m2g m = Some g"
    using addMembers_map[OF m1(1)] by auto
  ultimately show ?case using fresh by auto
qed simp

lemma addMembers_error:
  "(\<exists>e. addMembers gid ms m2g = Inl e) \<longleftrightarrow> \<not> (distinct ms \<and> set ms \<inter> dom (map_of m2g) = {})"
  by (induction gid ms m2g rule: addMembers.induct) (auto split: option.splits simp: dom_def)

lemma addGroups_error:
  "(\<exists>e. addGroups gs m2g = Inl e) \<longleftrightarrow>
     \<not> (distinct (concat (map (gMembers \<circ> snd) gs)) \<and> set (concat (map (gMembers \<circ> snd) gs)) \<inter> dom (map_of m2g) = {})"
proof (induction gs m2g rule: addGroups.induct)
  case (2 gid gcfg gs m2g)
  show ?case
  proof (cases "addMembers gid (gMembers gcfg) m2g")
    case (Inl e)
    then have "\<not> (distinct (gMembers gcfg) \<and> set (gMembers gcfg) \<inter> dom (map_of m2g) = {})"
      using addMembers_error by blast
    with Inl show ?thesis by auto
  next
    case (Inr m1)
    note m = addMembers_map[OF Inr]
    then have "dom (map_of m1) = set (gMembers gcfg) \<union> dom (map_of m2g)" by (auto simp: dom_def)
    with "2.IH"[OF Inr] m Inr show ?thesis by auto
  qed
qed simp

lemma newGroup_groupOf:
  assumes "newGroupSwapper gs = Inr p" "distinct (map fst gs)" "map_of gs [] = None"
    and "map_of gs g = Some cfg"
  shows "groupOf p m = g \<longleftrightarrow> m \<in> set (gMembers cfg)" "groupCfg p g = cfg"
proof -
  from assms(1) obtain m2g where m2g: "addGroups gs [] = Inr m2g" and p: "p = \<lparr>groups = gs, modelToGroup = m2g\<rparr>"
    unfolding newGroupSwapper_def by (cases "addGroups gs []") auto
  have "g \<noteq> []" using assms(3,4) by auto
  then have "groupOf p m = g \<longleftrightarrow> map_of m2g m = Some g" by (auto simp: groupOf_def p split: option.splits)
  with addGroups_map[OF m2g assms(2)] assms(4) show "groupOf p m = g \<longleftrightarrow> m \<in> set (gMembers cfg)" by simp
  show "groupCfg p g = cfg" using assms(4) by (simp add: groupCfg_def p)
qed

text \<open>C5. The group planner, for a configuration \<open>NewGroup\<close> accepts and a target that is a member
  of group \<open>T\<close>: it evicts exactly the running siblings when \<open>T\<close> swaps, and the running models of
  other groups when \<open>T\<close> is exclusive, except members of a persistent group; each at most once.\<close>

theorem groupEvictionFor_rules:
  assumes "newGroupSwapper gs = Inr p" "distinct (map fst gs)" "map_of gs [] = None"
    and "map_of gs tg = Some T" "target \<in> set (gMembers T)"
  shows "distinct (groupEvictionFor p target running) \<and>
    (m \<in> set (groupEvictionFor p target running) \<longleftrightarrow>
       m \<in> set running \<and> m \<noteq> target \<and>
       (if m \<in> set (gMembers T) then gSwap T
        else gExclusive T \<and>
          \<not> (\<exists>g cfg. map_of gs g = Some cfg \<and> m \<in> set (gMembers cfg) \<and> gPersistent cfg)))"
proof -
  note of = newGroup_groupOf[OF assms(1-3)]
  have tg: "groupOf p target = tg" "groupCfg p tg = T" using of[OF assms(4)] assms(5) by auto
  have other: "gPersistent (groupCfg p (groupOf p m)) \<longleftrightarrow>
      (\<exists>g cfg. map_of gs g = Some cfg \<and> m \<in> set (gMembers cfg) \<and> gPersistent cfg)"
  proof (cases "map_of gs (groupOf p m)")
    case None
    then have "groupCfg p (groupOf p m) = zeroGroup"
      using assms(1) unfolding newGroupSwapper_def groupCfg_def by (cases "addGroups gs []") auto
    moreover have "\<not> (map_of gs g = Some cfg \<and> m \<in> set (gMembers cfg))" for g cfg
      using of(1)[of g cfg m] None by auto
    ultimately show ?thesis by (auto simp: zeroGroup_def)
  next
    case (Some cfg)
    have "g = groupOf p m" if "map_of gs g = Some c" "m \<in> set (gMembers c)" for g c
      using of(1)[OF that(1), of m] that(2) by simp
    with of[OF Some] Some show ?thesis by (metis option.inject)
  qed
  show ?thesis using tg of(1)[OF assms(4), of m] other groupEvictionFor_distinct
    by (auto simp: groupEvictionFor_set groupEvicts_def)
qed

definition exGroups :: "(string, GroupConfig) gomap" where
  "exGroups = [(''fast'', \<lparr>gSwap = True, gExclusive = True, gPersistent = False, gMembers = [''a'', ''b'']\<rparr>),
     (''keep'', \<lparr>gSwap = False, gExclusive = False, gPersistent = True, gMembers = [''e'']\<rparr>)]"

theorem groupEvictionFor_rules_witness:
  "\<exists>p. newGroupSwapper exGroups = Inr p \<and> ''b'' \<in> set (groupEvictionFor p ''a'' [''e'', ''b'']) \<and>
     ''e'' \<notin> set (groupEvictionFor p ''a'' [''e'', ''b''])"
proof -
  obtain p where p: "newGroupSwapper exGroups = Inr p"
    by (cases "newGroupSwapper exGroups") (auto simp: newGroupSwapper_def exGroups_def)
  have hyps: "distinct (map fst exGroups)" "map_of exGroups [] = None"
    "map_of exGroups ''fast'' = Some \<lparr>gSwap = True, gExclusive = True, gPersistent = False, gMembers = [''a'', ''b'']\<rparr>"
    "''a'' \<in> set (gMembers \<lparr>gSwap = True, gExclusive = True, gPersistent = False, gMembers = [''a'', ''b'']\<rparr>)"
    by (simp_all add: exGroups_def)
  have keep: "\<exists>g cfg. map_of exGroups g = Some cfg \<and> ''e'' \<in> set (gMembers cfg) \<and> gPersistent cfg"
    by (rule exI[of _ "''keep''"]) (simp add: exGroups_def)
  from groupEvictionFor_rules[OF p hyps, of "[''e'', ''b'']" "''b''"]
    groupEvictionFor_rules[OF p hyps, of "[''e'', ''b'']" "''e''"] keep p
  show ?thesis by (intro exI[of _ p]) simp
qed

text \<open>\<open>NewGroup\<close> refuses a configuration exactly when some model is listed twice, in two groups
  or within one.\<close>

theorem newGroupSwapper_error:
  "(\<exists>e. newGroupSwapper gs = Inl e) \<longleftrightarrow> \<not> distinct (concat (map (gMembers \<circ> snd) gs))"
  using addGroups_error[of gs "[]"] unfolding newGroupSwapper_def
  by (cases "addGroups gs []") auto

section \<open>The matrix planner\<close>

record matrixSolver =
  ms_program :: program
  ms_evictCosts :: "(string, int) gomap"

definition solverSolve :: "matrixSolver \<Rightarrow> string \<Rightarrow> string list \<Rightarrow> decision" where
  "solverSolve s requestedModel runningModels =
     Solve (ms_program s) requestedModel runningModels (ms_evictCosts s)"

text \<open>The one-entry decision cache: \<open>lastTarget\<close>, \<open>lastRunning\<close>, \<open>lastResult\<close> and \<open>lastValid\<close>.\<close>

record matrixSwapper =
  solver :: matrixSolver
  lastTarget :: string
  lastRunning :: "string list"
  lastResult :: decision
  lastValid :: bool

definition zeroDecision :: decision where
  "zeroDecision = \<lparr>Evict = [], TargetSet = [], SetName = [], DSL = [], TotalCost = 0\<rparr>"

definition newMatrixSwapper :: "MatrixConfig \<Rightarrow> (string, 'm) gomap \<Rightarrow> matrix_error + matrixSwapper" where
  "newMatrixSwapper mtx models =
     map_sum id (\<lambda>p. \<lparr>solver = \<lparr>ms_program = p, ms_evictCosts = ResolvedEvictCosts mtx\<rparr>,
                      lastTarget = [], lastRunning = [], lastResult = zeroDecision, lastValid = False\<rparr>)
       (ValidateMatrix mtx models)"

definition solve :: "matrixSwapper \<Rightarrow> string \<Rightarrow> string list \<Rightarrow> decision \<times> matrixSwapper" where
  "solve p target running =
     (if lastValid p \<and> lastTarget p = target \<and> lastRunning p = running then (lastResult p, p)
      else (let result = solverSolve (solver p) target running
            in (result, p\<lparr>lastTarget := target, lastRunning := running, lastResult := result, lastValid := True\<rparr>)))"

definition matrixEvictionFor :: "matrixSwapper \<Rightarrow> string \<Rightarrow> string list \<Rightarrow> string list \<times> matrixSwapper" where
  "matrixEvictionFor p target running = (let (r, p') = solve p target running in (Evict r, p'))"

datatype matrix_log = InfoEvict decision | InfoStarting string | DebugAlready string string string

definition matrixOnSwapStart :: "matrixSwapper \<Rightarrow> string \<Rightarrow> string list \<Rightarrow> matrix_log \<times> matrixSwapper" where
  "matrixOnSwapStart p target running =
     (let (result, p') = solve p target running in
      (if Evict result \<noteq> [] then InfoEvict result
       else if running = [] then InfoStarting target
       else DebugAlready target (SetName result) (DSL result), p'))"

text \<open>Coherence of the cache: a valid entry is what the solver would answer now. Every operation
  keeps it, so the cached planner is the solver, whatever calls came before.\<close>

definition coherent :: "matrixSwapper \<Rightarrow> bool" where
  "coherent p \<longleftrightarrow> (lastValid p \<longrightarrow> lastResult p = solverSolve (solver p) (lastTarget p) (lastRunning p))"

lemma solve_coherent:
  "coherent p \<Longrightarrow> fst (solve p t r) = solverSolve (solver p) t r \<and>
     coherent (snd (solve p t r)) \<and> solver (snd (solve p t r)) = solver p"
  by (auto simp: solve_def coherent_def Let_def)

text \<open>The calls the scheduler makes, in any order.\<close>

datatype planner_call = CallEvictionFor string "string list" | CallOnSwapStart string "string list"

fun runCall :: "matrixSwapper \<Rightarrow> planner_call \<Rightarrow> matrixSwapper" where
  "runCall p (CallEvictionFor t r) = snd (matrixEvictionFor p t r)"
| "runCall p (CallOnSwapStart t r) = snd (matrixOnSwapStart p t r)"

lemma runCall_coherent: "coherent p \<Longrightarrow> coherent (runCall p c) \<and> solver (runCall p c) = solver p"
  by (cases c) (auto simp: matrixEvictionFor_def matrixOnSwapStart_def Let_def case_prod_beta dest: solve_coherent)

lemma runCalls_coherent:
  "coherent p \<Longrightarrow> coherent (foldl runCall p cs) \<and> solver (foldl runCall p cs) = solver p"
  by (induction cs arbitrary: p) (auto simp: runCall_coherent)

text \<open>C6. The matrix planner's decision cache is transparent: after any sequence of calls, \<open>EvictionFor\<close>
  answers what the uncached solver answers for the same target and running set.\<close>

theorem matrixSwapper_cache_transparent:
  assumes "newMatrixSwapper mtx models = Inr p"
  shows "fst (matrixEvictionFor (foldl runCall p calls) target running) =
    Evict (Solve (ms_program (solver p)) target running (ResolvedEvictCosts mtx))"
proof -
  from assms obtain prog where p: "p = \<lparr>solver = \<lparr>ms_program = prog, ms_evictCosts = ResolvedEvictCosts mtx\<rparr>,
      lastTarget = [], lastRunning = [], lastResult = zeroDecision, lastValid = False\<rparr>"
    unfolding newMatrixSwapper_def by (cases "ValidateMatrix mtx models") auto
  then have "coherent p" by (simp add: coherent_def)
  from runCalls_coherent[OF this, of calls] solve_coherent[of "foldl runCall p calls" target running]
  show ?thesis by (simp add: matrixEvictionFor_def solverSolve_def p case_prod_beta)
qed

theorem matrixSwapper_cache_transparent_witness:
  "\<exists>p. newMatrixSwapper exMatrixConfig [(''gemma'', ()), (''mistral'', ()), (''llama'', ())] = Inr p \<and>
     fst (matrixEvictionFor (foldl runCall p [CallEvictionFor ''llama'' [''gemma''], CallOnSwapStart ''llama'' [''gemma'']])
       ''llama'' [''gemma'', ''mistral'']) =
     Evict (Solve (ms_program (solver p)) ''llama'' [''gemma'', ''mistral''] (ResolvedEvictCosts exMatrixConfig))"
proof -
  have "map_sum id (\<lambda>p. ()) (newMatrixSwapper exMatrixConfig [(''gemma'', ()), (''mistral'', ()), (''llama'', ())])
      = Inr ()" by code_simp
  then obtain p where p: "newMatrixSwapper exMatrixConfig [(''gemma'', ()), (''mistral'', ()), (''llama'', ())] = Inr p"
    by (cases "newMatrixSwapper exMatrixConfig [(''gemma'', ()), (''mistral'', ()), (''llama'', ())]") auto
  from matrixSwapper_cache_transparent[OF p] p show ?thesis by blast
qed

text \<open>The matrix planner as the scheduler sees it: the solver of a configuration that passed
  validation. A configuration that did not pass has no planner.\<close>

definition matrixPlan :: "MatrixConfig \<Rightarrow> (string, 'm) gomap \<Rightarrow> string \<Rightarrow> string list \<Rightarrow> string list" where
  "matrixPlan mtx models target running =
     (case newMatrixSwapper mtx models of
        Inl e \<Rightarrow> []
      | Inr p \<Rightarrow> fst (matrixEvictionFor p target running))"

lemma matrixPlan_Solve:
  "ValidateMatrix mtx models = Inr p \<Longrightarrow>
     matrixPlan mtx models t r = Evict (Solve p t r (ResolvedEvictCosts mtx))"
  by (simp add: matrixPlan_def newMatrixSwapper_def matrixEvictionFor_def solve_def solverSolve_def Let_def)

lemma matrixPlan_refused: "ValidateMatrix mtx models = Inl e \<Longrightarrow> matrixPlan mtx models t r = []"
  by (simp add: matrixPlan_def newMatrixSwapper_def)

lemma Solve_running: "t \<in> set r \<Longrightarrow> Evict (Solve p t r costs) = []"
  by (simp add: Solve_def split: prod.splits)

text \<open>The two shapes of a plan for a target that is not running.\<close>

lemma Solve_evicts:
  assumes "wf_program p" "t \<notin> set r" "\<And>m. 0 < evictionCost costs m"
  obtains (keep) s S where "s \<in> set (p_sets p)" "S \<in> expand (cs_root s)" "t \<in> S"
      "Evict (Solve p t r costs) = filter (\<lambda>m. m \<notin> S) r"
      "\<And>s' S'. s' \<in> set (p_sets p) \<Longrightarrow> S' \<in> expand (cs_root s') \<Longrightarrow> t \<in> S' \<Longrightarrow>
         keepCost costs r S \<le> keepCost costs r S'"
  | (alone) "\<And>s S. s \<in> set (p_sets p) \<Longrightarrow> S \<in> expand (cs_root s) \<Longrightarrow> t \<notin> S" "Evict (Solve p t r costs) = r"
proof -
  have "\<forall>m \<in> set r. 0 \<le> evictionCost costs m" using assms(3) less_imp_le by blast
  from Solve_best[OF assms(1,2) this] show ?thesis
  proof (elim disjE bexE conjE)
    fix s S assume "s \<in> set (p_sets p)" "S \<in> expand (cs_root s)" "t \<in> S"
      "Evict (Solve p t r costs) = filter (\<lambda>m. m \<notin> S) r" "TotalCost (Solve p t r costs) = keepCost costs r S"
      "\<forall>s' \<in> set (p_sets p). \<forall>S' \<in> expand (cs_root s'). t \<in> S' \<longrightarrow>
          TotalCost (Solve p t r costs) \<le> keepCost costs r S'"
    then show ?thesis by (intro keep[of s S]) auto
  next
    assume "\<forall>s \<in> set (p_sets p). \<forall>S \<in> expand (cs_root s). t \<notin> S"
      "Solve p t r costs = \<lparr>Evict = r, TargetSet = [t], SetName = [], DSL = [], TotalCost = 0\<rparr>"
    then show ?thesis by (intro alone) auto
  qed
qed

lemma Solve_sub: "wf_program p \<Longrightarrow> (\<And>m. 0 < evictionCost costs m) \<Longrightarrow> set (Evict (Solve p t r costs)) \<subseteq> set r"
  by (cases "t \<in> set r") (auto simp: Solve_running elim!: Solve_evicts)

lemma keepCost_pos:
  assumes "\<And>m. 0 < evictionCost costs m" "keepCost costs r S \<le> 0"
  shows "filter (\<lambda>m. m \<notin> S) r = []"
proof (rule ccontr)
  assume "filter (\<lambda>m. m \<notin> S) r \<noteq> []"
  then obtain m ms where f: "filter (\<lambda>m. m \<notin> S) r = m # ms" by (cases "filter (\<lambda>m. m \<notin> S) r") auto
  have "0 \<le> (\<Sum>m \<leftarrow> ms. evictionCost costs m)" using assms(1) by (intro sum_list_nonneg) (auto intro: less_imp_le)
  with assms(1)[of m] have "0 < keepCost costs r S" by (simp add: keepCost_def f)
  with assms(2) show False by simp
qed

lemma Solve_settles:
  assumes "wf_program p" "\<And>m. 0 < evictionCost costs m"
  shows "Evict (Solve p t (filter (\<lambda>m. m \<notin> set (Evict (Solve p t r costs))) r) costs) = []"
proof (cases "t \<in> set r")
  case False
  show ?thesis
  proof (cases rule: Solve_evicts[OF assms(1) False assms(2), case_names keep alone])
    case (keep s S)
    let ?r = "filter (\<lambda>m. m \<notin> set (Evict (Solve p t r costs))) r"
    have r: "?r = filter (\<lambda>m. m \<in> S) r" unfolding keep(4) by (rule filter_cong) auto
    have zero: "keepCost costs ?r S = 0" by (simp add: keepCost_def r filter_False)
    have nr: "t \<notin> set ?r" using False by simp
    show ?thesis
    proof (cases rule: Solve_evicts[OF assms(1) nr assms(2), case_names keep alone])
      case (keep s2 S2)
      with zero \<open>s \<in> set (p_sets p)\<close> \<open>S \<in> expand (cs_root s)\<close> \<open>t \<in> S\<close>
      have "keepCost costs ?r S2 \<le> 0" by metis
      from keepCost_pos[OF assms(2) this] show ?thesis by (subst keep(4))
    next
      case alone
      with keep(1-3) show ?thesis by blast
    qed
  next
    case alone
    then have "filter (\<lambda>m. m \<notin> set (Evict (Solve p t r costs))) r = []" by (simp add: filter_empty_conv)
    moreover have "Evict (Solve p t [] costs) = []" using Solve_sub[OF assms, of t "[]"] by simp
    ultimately show ?thesis by (simp only:)
  qed
qed (simp add: Solve_running)

interpretation matrix: swapper "matrixPlan mtx models" for mtx models
proof (unfold_locales, goal_cases)
  case (1 t r)
  show ?case
  proof (cases "ValidateMatrix mtx models")
    case (Inr p)
    then show ?thesis
    proof (cases "t \<in> set r")
      case False
      then show ?thesis
        using Solve_sub[OF Validated_wf[OF Inr] Validated_costs_pos[OF Inr], of t r]
        by (auto simp: matrixPlan_Solve[OF Inr])
    qed (simp add: matrixPlan_Solve[OF Inr] Solve_running)
  qed (simp add: matrixPlan_refused)
next
  case (2 t r)
  show ?case
  proof (cases "ValidateMatrix mtx models")
    case (Inr p)
    show ?thesis unfolding matrixPlan_Solve[OF Inr]
      by (rule Solve_sub[OF Validated_wf[OF Inr] Validated_costs_pos[OF Inr]])
  qed (simp add: matrixPlan_refused)
next
  case (3 t r)
  show ?case
  proof (cases "ValidateMatrix mtx models")
    case (Inr p)
    show ?thesis unfolding matrixPlan_Solve[OF Inr]
      by (rule Solve_settles[OF Validated_wf[OF Inr] Validated_costs_pos[OF Inr]])
  qed (simp add: matrixPlan_refused)
qed

end
