(* ===== verification/Scheduler.thy ===== *)
theory Scheduler
  imports Swapper "HOL-Library.Product_Lexorder"
begin

text \<open>
  The data of the request scheduler, \<open>internal/router/scheduler\<close>: requests, events, the \<open>FIFO\<close>
  record and the \<open>Effects\<close> it acts through (\<open>scheduler.go\<close>, \<open>fifo.go\<close>, \<open>kvwarm.go\<close>), the
  tiers and the preemption rule (\<open>internal/swaputil/tier.go\<close>, \<open>preempt.go\<close>), and \<open>NewFIFO\<close>.

  Channels, contexts and callbacks are identities (natural numbers). The scheduler runs on one
  goroutine, the run loop of \<open>base.go\<close>: a handler is a function from state to state, and the
  clock, the process states and which callers have left are read as they are when it runs. The
  \<open>Effects\<close> record is the router behind the interface: process states, the clock, the callers that
  will not take an admission or a grant, the penalty gates that say held, the log of what the
  scheduler did, and the queue position each caller was last told. Log lines and the metadata
  mirrored to the UI are not modelled.
\<close>

section \<open>Tiers\<close>

record Tier =
  tName :: string
  Rank :: int
  Preempts :: bool
  Preemptible :: bool

definition DefaultTier :: Tier where
  "DefaultTier = \<lparr>tName = ''default'', Rank = 0, Preempts = False, Preemptible = False\<rparr>"

definition CanPreempt :: "Tier \<Rightarrow> Tier \<Rightarrow> bool" where
  "CanPreempt victim arrival =
     (if Rank victim \<ge> Rank arrival then False else Preemptible victim \<or> Preempts arrival)"

section \<open>Requests and events\<close>

datatype ProcessState = StateStopped | StateStarting | StateReady | StateStopping | StateShutdown

datatype park = NotParked | ParkCap | ParkKV | ParkBusy | ParkCooldown | ParkLoading | ParkRank
  | ParkSwapCollision | ParkPenalized | ParkKVWarm

datatype sched_error = ErrModelNotFound | ErrModelNotLoaded | ErrUnloaded | ErrOther string

text \<open>\<open>Ctx\<close>, \<open>Respond\<close> and \<open>Preempted\<close> are identities; \<open>Admit\<close> and \<open>PenaltyGate\<close> say whether the
  channel or callback is set; \<open>Preempt\<close> is the caller its callback cancels. The empty
  \<open>waitingForUntil\<close> is \<open>None\<close>. \<open>ReplayWanted\<close> and \<open>PositionCh\<close> are never read here.\<close>

record HandlerReq =
  Model :: string
  Ctx :: nat
  Admit :: bool
  Respond :: nat
  EstimatedTokens :: int
  Session :: string
  rTier :: Tier
  ConcurrencyExempt :: bool
  SlotCooldownOff :: bool
  StatusRead :: bool
  PenaltyGate :: bool
  parkReason :: park
  waitingForSession :: string
  waitingForUntil :: "gotime option"
  Preempted :: "nat option"
  Preempt :: "nat option"
  arrivalSeq :: nat

record SwapDone =
  sd_ModelID :: string
  sd_Err :: "sched_error option"

record ServeDoneEvent =
  ev_ModelID :: string
  ev_StatusRead :: bool
  ev_Looping :: bool
  ev_EstimatedTokens :: int
  ev_Ctx :: nat
  ev_Session :: string
  ev_Tier :: Tier
  ev_SlotCooldownOff :: bool
  ev_Holder :: "nat option"
  ev_CapReleaseOnly :: bool
  ev_CapReleased :: bool

section \<open>Effects\<close>

datatype effect =
    Admitted nat "sched_error option"
  | Served HandlerReq string
  | Failed nat sched_error
  | SwapStarted string "string list"
  | StoppedProcesses "string list"
  | Booted nat

record Effects =
  processes :: "(string, ProcessState) gomap"
  clock :: gotime
  notAdmitting :: "nat list"
  walkedAway :: "nat list"
  heldGates :: "nat list"
  elog :: "effect list"
  positions :: "(nat, nat) gomap"

definition ModelState :: "Effects \<Rightarrow> string \<Rightarrow> ProcessState option" where
  "ModelState e modelID = map_of (processes e) modelID"

definition RunningModels :: "Effects \<Rightarrow> string list" where
  "RunningModels e =
     filter (\<lambda>id. case map_of (processes e) id of
         Some st \<Rightarrow> st \<noteq> StateStopped \<and> st \<noteq> StateShutdown | None \<Rightarrow> False) (mkeys (processes e))"

definition logE :: "effect \<Rightarrow> Effects \<Rightarrow> Effects" where
  "logE x e = e\<lparr>elog := elog e @ [x]\<rparr>"

definition StartSwap :: "string \<Rightarrow> string list \<Rightarrow> Effects \<Rightarrow> Effects" where
  "StartSwap modelID evict e = logE (SwapStarted modelID evict) e"

text \<open>\<open>grant\<close>: the unbuffered send lands only on a caller that still receives.\<close>

definition GrantError :: "HandlerReq \<Rightarrow> sched_error \<Rightarrow> Effects \<Rightarrow> Effects" where
  "GrantError req err e = (if Respond req \<in> set (walkedAway e) then e else logE (Failed (Respond req) err) e)"

definition GrantServe :: "HandlerReq \<Rightarrow> string \<Rightarrow> Effects \<Rightarrow> bool \<times> Effects" where
  "GrantServe req modelID e =
     (if Respond req \<in> set (walkedAway e) then (False, e) else (True, logE (Served req modelID) e))"

definition StopProcesses :: "string list \<Rightarrow> Effects \<Rightarrow> Effects" where
  "StopProcesses ids e =
     logE (StoppedProcesses ids)
       (e\<lparr>processes := map (\<lambda>(id, st). (id, if id \<in> set ids \<and> st \<noteq> StateShutdown then StateStopped else st))
             (processes e)\<rparr>)"

section \<open>The FIFO record\<close>

record FifoConfig =
  Priority :: "(string, int) gomap"
  KVPoolTokens :: "(string, int) gomap"
  DecodeRetentionSeconds :: int

record ModelConfig =
  ConcurrencyLimit :: int
  SwapGraceSeconds :: int
  MaxParallelLargePrefill :: int

record grantedReq =
  g_tier :: Tier
  g_preempt :: "nat option"
  g_id :: "nat option"

record activeSwap =
  as_modelID :: string
  as_evict :: "string list"
  as_waiters :: "HandlerReq list"

record kvResident =
  kr_session :: string
  kr_tokens :: int
  kr_busy :: int
  kr_lastEnd :: gotime
  kr_warmUntil :: gotime
  kr_tierRank :: int

record ModelCapacity =
  mcap_Model :: string
  mcap_Granted :: int
  mcap_Limit :: int
  mcap_Queued :: int

record Cooldown =
  EvicteeModel :: string
  NextModel :: string
  Waiting :: int
  RemainingSeconds :: int

record FIFO =
  cfg :: FifoConfig
  effects :: Effects
  limits :: "(string, int) gomap"
  active :: "(string, activeSwap) gomap"
  inFlight :: "(string, int) gomap"
  queued :: "HandlerReq list"
  penalized :: "HandlerReq list"
  holdOnlyWhenContended :: bool
  granted :: "(string, grantedReq list) gomap"
  kvInFlight :: "(string, int) gomap"
  kvLargeInFlight :: "(string, int) gomap"
  kvLargeOrder :: "(string, nat list) gomap"
  kvLargeByID :: "(string, (nat, HandlerReq) gomap) gomap"
  kvResidents :: "(string, (string, kvResident) gomap) gomap"
  maxLarge :: "(string, int) gomap"
  slotCount :: "(string, int) gomap"
  grace :: "(string, duration) gomap"
  idleSince :: "(string, gotime) gomap"
  cooldownForced :: bool
  graceExpiredForced :: bool
  capacity :: "ModelCapacity list option"
  cooldown :: "Cooldown option"
  nextArrivalSeq :: nat
  lastServedTier :: "(string, Tier) gomap"

definition defaultConcurrencyLimit :: int where
  "defaultConcurrencyLimit = 10"

definition largePrefillThreshold :: int where
  "largePrefillThreshold = 8192"

definition MODEL_CONFIG_DEFAULT_MAX_PARALLEL_LARGE_PREFILL :: int where
  "MODEL_CONFIG_DEFAULT_MAX_PARALLEL_LARGE_PREFILL = 1"

definition kvResidentForget :: duration where
  "kvResidentForget = Hour"

text \<open>The model loop of \<open>NewFIFO\<close>: each table as the loop fills it.\<close>

definition NewFIFO :: "FifoConfig \<Rightarrow> (string, ModelConfig) gomap \<Rightarrow> Effects \<Rightarrow> FIFO" where
  "NewFIFO c models eff =
     \<lparr>cfg = c, effects = eff,
      limits = map (\<lambda>(id, mc). (id, if ConcurrencyLimit mc > 0 then ConcurrencyLimit mc else defaultConcurrencyLimit)) models,
      active = [], inFlight = [], queued = [], penalized = [], holdOnlyWhenContended = True,
      granted = [], kvInFlight = [], kvLargeInFlight = [], kvLargeOrder = [], kvLargeByID = [], kvResidents = [],
      maxLarge = map (\<lambda>(id, mc). (id, MaxParallelLargePrefill mc)) models,
      slotCount = map (\<lambda>(id, mc). (id, ConcurrencyLimit mc)) (filter (\<lambda>(id, mc). ConcurrencyLimit mc > 0) models),
      grace = map (\<lambda>(id, mc). (id, SwapGraceSeconds mc * Second)) (filter (\<lambda>(id, mc). SwapGraceSeconds mc > 0) models),
      idleSince = [], cooldownForced = False, graceExpiredForced = False,
      capacity = None, cooldown = None, nextArrivalSeq = 0, lastServedTier = []\<rparr>"

definition SetHoldOnlyWhenContended :: "bool \<Rightarrow> FIFO \<Rightarrow> FIFO" where
  "SetHoldOnlyWhenContended on s = s\<lparr>holdOnlyWhenContended := on\<rparr>"

text \<open>\<open>New\<close>: the scheduler named by the configuration.\<close>

definition New :: "string \<Rightarrow> bool \<Rightarrow> FifoConfig \<Rightarrow> (string, ModelConfig) gomap \<Rightarrow> Effects \<Rightarrow> string + FIFO" where
  "New configured contended c models eff =
     (let u = (if configured = [] then ''fifo'' else configured) in
      if u = ''fifo'' then Inr (SetHoldOnlyWhenContended contended (NewFIFO c models eff))
      else Inl (''unsupported scheduler type: '' @ u))"

abbreviation now :: "FIFO \<Rightarrow> gotime" where
  "now s \<equiv> clock (effects s)"

abbreviation upd_effects :: "(Effects \<Rightarrow> Effects) \<Rightarrow> FIFO \<Rightarrow> FIFO" where
  "upd_effects f s \<equiv> s\<lparr>effects := f (effects s)\<rparr>"

end
