(* ===== verification/Fifo.thy ===== *)
theory Fifo
  imports Scheduler
begin

text \<open>
  The operations of the FIFO scheduler, in the order of use: the helpers of \<open>fifo.go\<close>, the
  KV-slot cooldown of \<open>kvwarm.go\<close>, the snapshots of \<open>grace.go\<close> and \<open>capacity.go\<close>, granting,
  queueing, draining and the event handlers. \<open>plan\<close> is the planner's \<open>EvictionFor\<close>. A handler
  maps the \<open>FIFO\<close> state to the state it leaves.
\<close>

section \<open>Marks on a request\<close>

definition markWaitingFor :: "string \<Rightarrow> gotime option \<Rightarrow> HandlerReq \<Rightarrow> HandlerReq" where
  "markWaitingFor session until req =
     (if waitingForSession req = session \<and> waitingForUntil req = until then req
      else req\<lparr>waitingForSession := session, waitingForUntil := until\<rparr>)"

definition markParked :: "park \<Rightarrow> HandlerReq \<Rightarrow> HandlerReq" where
  "markParked reason req =
     (if parkReason req = reason then req
      else (let req' = req\<lparr>parkReason := reason\<rparr>
            in if reason = NotParked then markWaitingFor [] None req' else req'))"

definition clearParked :: "HandlerReq \<Rightarrow> HandlerReq" where
  "clearParked req = markParked NotParked req"

section \<open>Admission, capacity and the KV pool\<close>

definition sendAdmission :: "HandlerReq \<Rightarrow> sched_error option \<Rightarrow> FIFO \<Rightarrow> bool \<times> FIFO" where
  "sendAdmission req err s =
     (if \<not> Admit req then (True, s)
      else if Respond req \<in> set (notAdmitting (effects s)) then (False, s)
      else (True, upd_effects (logE (Admitted (Respond req) err)) s))"

definition admit :: "HandlerReq \<Rightarrow> FIFO \<Rightarrow> bool \<times> FIFO" where
  "admit req s = sendAdmission req None s"

definition rejectAdmission :: "HandlerReq \<Rightarrow> sched_error \<Rightarrow> FIFO \<Rightarrow> FIFO" where
  "rejectAdmission req err s = snd (sendAdmission req (Some err) s)"

definition limit :: "FIFO \<Rightarrow> string \<Rightarrow> int" where
  "limit s modelID = (case map_of (limits s) modelID of Some l \<Rightarrow> l | None \<Rightarrow> defaultConcurrencyLimit)"

definition atCapacity :: "FIFO \<Rightarrow> HandlerReq \<Rightarrow> bool" where
  "atCapacity s req =
     (if ConcurrencyExempt req then False else mint (inFlight s) (Model req) \<ge> limit s (Model req))"

definition maxLargeFor :: "FIFO \<Rightarrow> string \<Rightarrow> int" where
  "maxLargeFor s model = (case map_of (maxLarge s) model of
     Some n \<Rightarrow> n | None \<Rightarrow> MODEL_CONFIG_DEFAULT_MAX_PARALLEL_LARGE_PREFILL)"

definition kvAdmit :: "FIFO \<Rightarrow> string \<Rightarrow> int \<Rightarrow> bool" where
  "kvAdmit s model estimate =
     (let pool = mint (KVPoolTokens (cfg s)) model; inflight = mint (kvInFlight s) model; n = maxLargeFor s model in
      if pool \<le> 0 then True
      else if inflight \<le> 0 then True
      else if n > 0 \<and> estimate \<ge> largePrefillThreshold \<and> mint (kvLargeInFlight s) model \<ge> n then False
      else inflight + estimate \<le> pool)"

definition kvWaitingSession :: "FIFO \<Rightarrow> string \<Rightarrow> string" where
  "kvWaitingSession s model =
     (case List.map_filter (map_of (mlist (kvLargeByID s) model)) (mlist (kvLargeOrder s) model) of
        r # rs \<Rightarrow> Session r
      | [] \<Rightarrow> [])"

definition releaseKV :: "string \<Rightarrow> int \<Rightarrow> nat \<Rightarrow> FIFO \<Rightarrow> bool \<times> FIFO" where
  "releaseKV model estimate ctx s =
     (if estimate \<le> 0 \<or> mint (kvInFlight s) model \<le> 0 then (False, s)
      else (True, s\<lparr>
        kvInFlight := mput model (max 0 (mint (kvInFlight s) model - estimate)) (kvInFlight s),
        kvLargeInFlight := (if estimate \<ge> largePrefillThreshold \<and> mint (kvLargeInFlight s) model > 0
           then mput model (mint (kvLargeInFlight s) model - 1) (kvLargeInFlight s) else kvLargeInFlight s),
        kvLargeOrder := (case map_of (kvLargeOrder s) model of
           Some ids \<Rightarrow> mput model (remove1 ctx ids) (kvLargeOrder s) | None \<Rightarrow> kvLargeOrder s),
        kvLargeByID := (case map_of (kvLargeByID s) model of
           Some m \<Rightarrow> mput model (mdel ctx m) (kvLargeByID s) | None \<Rightarrow> kvLargeByID s)\<rparr>))"

section \<open>Swap collisions\<close>

definition activeTargets :: "(string, activeSwap) gomap \<Rightarrow> string \<Rightarrow> string list" where
  "activeTargets act exclude = filter (\<lambda>id. id \<noteq> exclude) (mkeys act)"

definition runningSet :: "FIFO \<Rightarrow> string \<Rightarrow> string list" where
  "runningSet s excludeActive =
     sort (remdups (RunningModels (effects s) @ activeTargets (active s) excludeActive))"

definition collidesWith :: "string \<Rightarrow> string list \<Rightarrow> (string, activeSwap) gomap \<Rightarrow> bool" where
  "collidesWith target evict act \<longleftrightarrow>
     (\<exists>(id, sw) \<in> set act. id \<noteq> target \<and>
        (containsString evict id \<or> containsString (as_evict sw) target \<or> slicesOverlap evict (as_evict sw)))"

definition conflictsWithInFlight :: "string list \<Rightarrow> (string, int) gomap \<Rightarrow> bool" where
  "conflictsWithInFlight evict inFl \<longleftrightarrow> (\<exists>m \<in> set evict. mint inFl m > 0)"

definition beingEvicted :: "FIFO \<Rightarrow> string \<Rightarrow> bool" where
  "beingEvicted s model \<longleftrightarrow> (\<exists>(id, sw) \<in> set (active s). containsString (as_evict sw) model)"

section \<open>Preemption\<close>

text \<open>The loops of \<open>tryPreempt\<close>: \<open>booted\<close> counts the callbacks run; once a positive limit is
  reached at the head of the inner loop the function returns.\<close>

fun preemptVictims :: "Tier \<Rightarrow> int \<Rightarrow> grantedReq list \<Rightarrow> int \<times> nat list \<Rightarrow> bool \<times> int \<times> nat list" where
  "preemptVictims t lim [] (booted, bs) = (False, booted, bs)"
| "preemptVictims t lim (v # vs) (booted, bs) =
     (if lim > 0 \<and> booted \<ge> lim then (True, booted, bs)
      else if \<not> CanPreempt (g_tier v) t then preemptVictims t lim vs (booted, bs)
      else (case g_preempt v of
              Some b \<Rightarrow> preemptVictims t lim vs (booted + 1, bs @ [b])
            | None \<Rightarrow> preemptVictims t lim vs (booted, bs)))"

fun preemptModels ::
  "(string, grantedReq list) gomap \<Rightarrow> Tier \<Rightarrow> int \<Rightarrow> string list \<Rightarrow> int \<times> nat list \<Rightarrow> bool \<times> nat list" where
  "preemptModels gr t lim [] (booted, bs) = (booted > 0, bs)"
| "preemptModels gr t lim (m # ms) (booted, bs) =
     (if mlist gr m = [] then preemptModels gr t lim ms (booted, bs)
      else (case preemptVictims t lim (mlist gr m) (booted, bs) of
              (True, booted', bs') \<Rightarrow> (True, bs')
            | (False, booted', bs') \<Rightarrow> preemptModels gr t lim ms (booted', bs')))"

definition tryPreempt :: "HandlerReq \<Rightarrow> string list \<Rightarrow> int \<Rightarrow> FIFO \<Rightarrow> bool \<times> FIFO" where
  "tryPreempt req evict lim s =
     (let (ok, bs) = preemptModels (granted s) (rTier req) lim evict (0, [])
      in (ok, upd_effects (\<lambda>e. foldl (\<lambda>e b. logE (Booted b) e) e bs) s))"

fun dropFirst :: "nat option \<Rightarrow> grantedReq list \<Rightarrow> grantedReq list" where
  "dropFirst i [] = []"
| "dropFirst i (e # es) = (if g_id e = i then es else e # dropFirst i es)"

definition dropGranted :: "string \<Rightarrow> nat option \<Rightarrow> FIFO \<Rightarrow> FIFO" where
  "dropGranted model i s =
     (let g = mlist (granted s) model in
      if g = [] then s
      else if i \<noteq> None \<and> (\<forall>e \<in> set g. g_id e \<noteq> i) then s
      else (let g' = (if i = None then butlast g else dropFirst i g)
            in s\<lparr>granted := (if g' = [] then mdel model (granted s) else mput model g' (granted s))\<rparr>))"

section \<open>Slot cooldown\<close>

definition sessionRoot :: "string \<Rightarrow> string" where
  "sessionRoot session = takeWhile (\<lambda>c. c \<noteq> CHR ''/'') session"

definition shortSession :: "string \<Rightarrow> string" where
  "shortSession session =
     (if session = [] then ''(none)''
      else (let root = sessionRoot session; short = (if length root > 8 then take 8 root else root)
            in if root \<noteq> session then short @ ''/sub'' else short))"

definition kvWarmCooling :: "kvResident \<Rightarrow> gotime \<Rightarrow> bool" where
  "kvWarmCooling r t \<longleftrightarrow> kr_busy r = 0 \<and> t < kr_warmUntil r"

definition kvWarmSorted :: "FIFO \<Rightarrow> string \<Rightarrow> kvResident list" where
  "kvWarmSorted s model = sort_key (\<lambda>r. (kr_lastEnd r, kr_session r)) (map snd (mlist (kvResidents s) model))"

text \<open>The residents that count against a request: cooling, of another session, and not to be
  overridden by a preempting tier of higher rank.\<close>

definition kvWarmCounts :: "HandlerReq \<Rightarrow> gotime \<Rightarrow> kvResident \<Rightarrow> bool" where
  "kvWarmCounts req t r \<longleftrightarrow>
     \<not> (Session req \<noteq> [] \<and> sessionRoot (kr_session r) = sessionRoot (Session req)) \<and>
     kvWarmCooling r t \<and> \<not> (Preempts (rTier req) \<and> Rank (rTier req) > kr_tierRank r)"

definition pickBlocker :: "kvResident option \<Rightarrow> kvResident \<Rightarrow> kvResident option" where
  "pickBlocker blocker r =
     (case blocker of None \<Rightarrow> Some r | Some b \<Rightarrow> if kr_tokens r > kr_tokens b then Some r else Some b)"

definition kvWarmBlocker :: "FIFO \<Rightarrow> HandlerReq \<Rightarrow> kvResident option" where
  "kvWarmBlocker s req =
     (if StatusRead req \<or> ConcurrencyExempt req then None
      else (let rs = filter (kvWarmCounts req (now s)) (kvWarmSorted s (Model req));
                cooling = int (length rs); warm = (\<Sum>r \<leftarrow> rs. kr_tokens r);
                blocker = foldl pickBlocker None rs;
                pool = mint (KVPoolTokens (cfg s)) (Model req); slots = mint (slotCount s) (Model req)
            in if blocker = None then None
               else if pool > 0 \<and> mint (kvInFlight s) (Model req) + warm + EstimatedTokens req > pool then blocker
               else if slots > 0 \<and> mint (inFlight s) (Model req) + cooling \<ge> slots then blocker
               else None))"

fun displaceLoop :: "int \<Rightarrow> int \<Rightarrow> int \<Rightarrow> int \<Rightarrow> kvResident list \<Rightarrow> (string, kvResident) gomap \<Rightarrow> (string, kvResident) gomap" where
  "displaceLoop pool slots tokens count [] rs = rs"
| "displaceLoop pool slots tokens count (r # idle) rs =
     (if \<not> (pool > 0 \<and> tokens > pool) \<and> \<not> (slots > 0 \<and> count > slots) then rs
      else displaceLoop pool slots (tokens - kr_tokens r) (count - 1) idle (mdel (kr_session r) rs))"

definition kvWarmDisplace :: "string \<Rightarrow> FIFO \<Rightarrow> FIFO" where
  "kvWarmDisplace modelID s =
     (let idle = filter (\<lambda>r. kr_busy r = 0) (kvWarmSorted s modelID);
          tokens = mint (kvInFlight s) modelID + (\<Sum>r \<leftarrow> idle. kr_tokens r);
          count = mint (inFlight s) modelID + int (length idle)
      in case map_of (kvResidents s) modelID of
           None \<Rightarrow> s
         | Some rs \<Rightarrow> s\<lparr>kvResidents := mput modelID
              (displaceLoop (mint (KVPoolTokens (cfg s)) modelID) (mint (slotCount s) modelID) tokens count idle rs)
              (kvResidents s)\<rparr>)"

definition newResident :: "string \<Rightarrow> kvResident" where
  "newResident session = \<lparr>kr_session = session, kr_tokens = 0, kr_busy = 0, kr_lastEnd = zeroTime,
     kr_warmUntil = zeroTime, kr_tierRank = 0\<rparr>"

definition kvWarmOnGrant :: "HandlerReq \<Rightarrow> string \<Rightarrow> FIFO \<Rightarrow> FIFO" where
  "kvWarmOnGrant req modelID s =
     (if mint (grace s) modelID \<le> 0 \<or> StatusRead req \<or> ConcurrencyExempt req then s
      else kvWarmDisplace modelID
        (if Session req = [] then s
         else (let rs = mlist (kvResidents s) modelID;
                   r = (case map_of rs (Session req) of Some r \<Rightarrow> r | None \<Rightarrow> newResident (Session req));
                   r' = r\<lparr>kr_busy := kr_busy r + 1, kr_tokens := EstimatedTokens req, kr_tierRank := Rank (rTier req)\<rparr>
               in s\<lparr>kvResidents := mput modelID (mput (Session req) r' rs) (kvResidents s)\<rparr>)))"

definition cooldownDelay :: "FIFO \<Rightarrow> duration" where
  "cooldownDelay s = DecodeRetentionSeconds (cfg s) * Second"

definition kvWarmOnDone :: "ServeDoneEvent \<Rightarrow> FIFO \<Rightarrow> FIFO" where
  "kvWarmOnDone ev s =
     (let g = mint (grace s) (ev_ModelID ev); rs = mlist (kvResidents s) (ev_ModelID ev);
          put = (\<lambda>r. s\<lparr>kvResidents := mput (ev_ModelID ev) (mput (ev_Session ev) r rs) (kvResidents s)\<rparr>) in
      if ev_Session ev = [] \<or> g \<le> 0 then s
      else (case map_of rs (ev_Session ev) of
         None \<Rightarrow> s
       | Some r0 \<Rightarrow>
           (let r = (if kr_busy r0 > 0 then r0\<lparr>kr_busy := kr_busy r0 - 1\<rparr> else r0) in
            if kr_busy r > 0 then put r
            else if ev_SlotCooldownOff ev then put r
            else (let r1 = r\<lparr>kr_tokens := ev_EstimatedTokens ev, kr_lastEnd := now s, kr_tierRank := Rank (ev_Tier ev)\<rparr>
                  in put (if \<not> ev_Looping ev then r1\<lparr>kr_warmUntil := now s + (cooldownDelay s + g)\<rparr> else r1)))))"

definition EndSlotCooldown :: "string \<Rightarrow> FIFO \<Rightarrow> FIFO" where
  "EndSlotCooldown session s =
     s\<lparr>kvResidents := map (\<lambda>(m, rs). (m,
        case map_of rs session of
          Some r \<Rightarrow> if kvWarmCooling r (now s) then mput session (r\<lparr>kr_warmUntil := zeroTime\<rparr>) rs else rs
        | None \<Rightarrow> rs)) (kvResidents s)\<rparr>"

definition kvWarmEndCooldowns :: "FIFO \<Rightarrow> FIFO" where
  "kvWarmEndCooldowns s =
     s\<lparr>kvResidents := map (\<lambda>(m, rs). (m, map (\<lambda>(k, r). (k, r\<lparr>kr_warmUntil := zeroTime\<rparr>)) rs)) (kvResidents s)\<rparr>"

definition kvWarmPrune :: "FIFO \<Rightarrow> FIFO" where
  "kvWarmPrune s =
     s\<lparr>kvResidents := filter (\<lambda>(m, rs). rs \<noteq> [])
        (map (\<lambda>(m, rs). (m, filter (\<lambda>(k, r). \<not> (kr_busy r = 0 \<and> \<not> kvWarmCooling r (now s) \<and>
            kr_lastEnd r \<noteq> zeroTime \<and> now s - kr_lastEnd r > kvResidentForget)) rs)) (kvResidents s))\<rparr>"

definition kvWarmForget :: "string list \<Rightarrow> FIFO \<Rightarrow> FIFO" where
  "kvWarmForget models s = s\<lparr>kvResidents := foldl (\<lambda>rs m. mdel m rs) (kvResidents s) models\<rparr>"

definition SlotWarmUntil :: "FIFO \<Rightarrow> (string, gotime) gomap" where
  "SlotWarmUntil s =
     foldl (\<lambda>latest r. if kvWarmCooling r (now s) \<and> kr_warmUntil r > mint latest (kr_session r)
                       then mput (kr_session r) (kr_warmUntil r) latest else latest) []
       (concat (map (kvWarmSorted s) (sort (mkeys (kvResidents s)))))"

section \<open>Swap grace\<close>

definition withinGrace :: "FIFO \<Rightarrow> string list \<Rightarrow> bool" where
  "withinGrace s evict \<longleftrightarrow>
     (\<exists>m \<in> set evict. mint (grace s) m > 0 \<and>
        (case map_of (idleSince s) m of Some since \<Rightarrow> now s - since < mint (grace s) m | None \<Rightarrow> False))"

definition consumeForced :: "FIFO \<Rightarrow> bool \<times> FIFO" where
  "consumeForced s = (cooldownForced s, s\<lparr>cooldownForced := False\<rparr>)"

definition consumeGraceExpiredForced :: "FIFO \<Rightarrow> bool \<times> FIFO" where
  "consumeGraceExpiredForced s = (graceExpiredForced s, s\<lparr>graceExpiredForced := False\<rparr>)"

definition deferredByGrace :: "HandlerReq \<Rightarrow> string list \<Rightarrow> FIFO \<Rightarrow> bool \<times> FIFO" where
  "deferredByGrace req evict s =
     (if \<not> withinGrace s evict then (False, s)
      else (let (forced, s1) = consumeForced s in
            if forced then (False, s1)
            else (\<not> (\<exists>m \<in> set evict. case map_of (lastServedTier s) m of
                        Some st \<Rightarrow> Rank st < Rank (rTier req) \<and> Preempts (rTier req) | None \<Rightarrow> False), s1)))"

definition graceUntil :: "FIFO \<Rightarrow> string list \<Rightarrow> gotime" where
  "graceUntil s evict =
     foldl (\<lambda>until m. if mint (grace s) m \<le> 0 then until
        else (case map_of (idleSince s) m of
           None \<Rightarrow> until
         | Some since \<Rightarrow> if now s - since \<ge> mint (grace s) m then until
             else if since + mint (grace s) m > until then since + mint (grace s) m else until)) zeroTime evict"

definition markGraceParked :: "FIFO \<Rightarrow> string list \<Rightarrow> HandlerReq \<Rightarrow> HandlerReq" where
  "markGraceParked s evict req =
     (if \<exists>m \<in> set evict. case map_of (idleSince s) m of Some since \<Rightarrow> now s < since | None \<Rightarrow> False
      then markWaitingFor [] None (markParked ParkBusy req)
      else markWaitingFor [] (Some (graceUntil s evict)) (markParked ParkCooldown req))"

definition expireForcedGrace :: "FIFO \<Rightarrow> FIFO" where
  "expireForcedGrace s =
     (let (forced, s1) = consumeGraceExpiredForced s in
      if \<not> forced then s1
      else (let s2 = kvWarmEndCooldowns s1 in
        s2\<lparr>idleSince := filter (\<lambda>(id, since).
             mint (grace s2) id \<le> 0 \<or> mint (inFlight s2) id > 0 \<or> beingEvicted s2 id \<or>
             \<not> now s2 - since < mint (grace s2) id) (idleSince s2)\<rparr>))"

definition FinishCooldown :: "FIFO \<Rightarrow> FIFO" where
  "FinishCooldown s = s\<lparr>cooldownForced := True, graceExpiredForced := True\<rparr>"

section \<open>Snapshots\<close>

text \<open>\<open>Duration.Round\<close> to the second, half away from zero.\<close>

definition roundSeconds :: "duration \<Rightarrow> int" where
  "roundSeconds d = (if d \<ge> 0 then (d + Second div 2) div Second else - ((Second div 2 - d) div Second))"

definition coolingEvictee :: "FIFO \<Rightarrow> string \<Rightarrow> bool" where
  "coolingEvictee s ev \<longleftrightarrow> mint (grace s) ev > 0 \<and> mint (inFlight s) ev \<le> 0 \<and>
     (case map_of (idleSince s) ev of
        Some since \<Rightarrow> \<not> now s < since \<and> mint (grace s) ev - (now s - since) > 0 | None \<Rightarrow> False)"

definition graceRemaining :: "FIFO \<Rightarrow> string \<Rightarrow> duration" where
  "graceRemaining s ev = mint (grace s) ev - (now s - mint (idleSince s) ev)"

definition cooldownSnapshotWaiting :: "(string \<Rightarrow> string list \<Rightarrow> string list) \<Rightarrow> FIFO \<Rightarrow> Cooldown option" where
  "cooldownSnapshotWaiting plan s =
     foldl (\<lambda>acc q. case find (coolingEvictee s) (plan (Model q) (runningSet s (Model q))) of
              None \<Rightarrow> acc
            | Some ev \<Rightarrow>
                (let c = (case acc of Some c \<Rightarrow> c
                   | None \<Rightarrow> \<lparr>EvicteeModel = ev, NextModel = Model q, Waiting = 0,
                             RemainingSeconds = roundSeconds (graceRemaining s ev)\<rparr>)
                 in Some (if EvicteeModel c = ev then c\<lparr>Waiting := Waiting c + 1\<rparr> else c)))
       None (queued s)"

definition cooldownSnapshotIdle :: "FIFO \<Rightarrow> Cooldown option" where
  "cooldownSnapshotIdle s =
     map_option (\<lambda>id. \<lparr>EvicteeModel = id, NextModel = [], Waiting = 0,
         RemainingSeconds = roundSeconds (graceRemaining s id)\<rparr>)
       (find (\<lambda>id. coolingEvictee s id \<and> \<not> beingEvicted s id) (sort (mkeys (idleSince s))))"

definition cooldownSnapshot :: "(string \<Rightarrow> string list \<Rightarrow> string list) \<Rightarrow> FIFO \<Rightarrow> Cooldown option" where
  "cooldownSnapshot plan s =
     (case cooldownSnapshotWaiting plan s of Some c \<Rightarrow> Some c | None \<Rightarrow> cooldownSnapshotIdle s)"

definition capacitySnapshot :: "FIFO \<Rightarrow> ModelCapacity list" where
  "capacitySnapshot s =
     map (\<lambda>m. \<lparr>mcap_Model = m, mcap_Granted = mint (inFlight s) m, mcap_Limit = limit s m,
               mcap_Queued = int (length (filter (\<lambda>q. Model q = m) (queued s)))\<rparr>)
       (remdups (map fst (inFlight s) @ map Model (queued s)))"

definition publishCapacity :: "FIFO \<Rightarrow> FIFO" where
  "publishCapacity s = s\<lparr>capacity := Some (capacitySnapshot s)\<rparr>"

definition publishGrace :: "(string \<Rightarrow> string list \<Rightarrow> string list) \<Rightarrow> FIFO \<Rightarrow> FIFO" where
  "publishGrace plan s = s\<lparr>cooldown := cooldownSnapshot plan s\<rparr>"

abbreviation publish :: "(string \<Rightarrow> string list \<Rightarrow> string list) \<Rightarrow> FIFO \<Rightarrow> FIFO" where
  "publish plan s \<equiv> publishGrace plan (publishCapacity s)"

text \<open>Every queued caller is told its one-based position; a stale unread position is replaced.\<close>

definition broadcastQueuePositions :: "HandlerReq list \<Rightarrow> FIFO \<Rightarrow> FIFO" where
  "broadcastQueuePositions q s =
     upd_effects (\<lambda>e. e\<lparr>positions := foldl (\<lambda>ps (i, req). mput (Respond req) (i + 1) ps) (positions e)
        (enumerate 0 q)\<rparr>) s"

section \<open>Granting, swapping and queueing\<close>

type_synonym planner = "string \<Rightarrow> string list \<Rightarrow> string list"

definition reserveKV :: "HandlerReq \<Rightarrow> string \<Rightarrow> FIFO \<Rightarrow> FIFO" where
  "reserveKV req modelID s =
     (if EstimatedTokens req \<le> 0 then s
      else (let s1 = s\<lparr>kvInFlight := mput modelID (mint (kvInFlight s) modelID + EstimatedTokens req) (kvInFlight s)\<rparr>
            in if EstimatedTokens req < largePrefillThreshold then s1
               else s1\<lparr>
                 kvLargeInFlight := mput modelID (mint (kvLargeInFlight s) modelID + 1) (kvLargeInFlight s),
                 kvLargeOrder := mput modelID (mlist (kvLargeOrder s) modelID @ [Ctx req]) (kvLargeOrder s),
                 kvLargeByID := mput modelID (mput (Ctx req) req (mlist (kvLargeByID s) modelID)) (kvLargeByID s)\<rparr>))"

definition grantHandler :: "planner \<Rightarrow> HandlerReq \<Rightarrow> string \<Rightarrow> FIFO \<Rightarrow> FIFO" where
  "grantHandler plan req0 modelID s =
     (let req = clearParked req0; (took, e) = GrantServe req modelID (effects s); s = s\<lparr>effects := e\<rparr> in
      if \<not> took then s
      else if StatusRead req then s
      else (let s1 = s\<lparr>inFlight := mput modelID (mint (inFlight s) modelID + 1) (inFlight s)\<rparr>;
                s2 = kvWarmOnGrant req modelID (reserveKV req modelID s1);
                s3 = (if Preempt req = None then s2
                      else s2\<lparr>granted := mput modelID (mlist (granted s2) modelID @
                             [\<lparr>g_tier = rTier req, g_preempt = Preempt req, g_id = Preempted req\<rparr>]) (granted s2)\<rparr>);
                s4 = s3\<lparr>lastServedTier := mput modelID (rTier req) (lastServedTier s3)\<rparr>
            in publish plan s4))"

definition startSwap :: "HandlerReq \<Rightarrow> string list \<Rightarrow> FIFO \<Rightarrow> FIFO" where
  "startSwap initial evict s =
     (let s1 = kvWarmForget evict (kvWarmForget [Model initial] s);
          s2 = s1\<lparr>active := mput (Model initial)
                 \<lparr>as_modelID = Model initial, as_evict = evict, as_waiters = [initial]\<rparr> (active s1)\<rparr>
      in upd_effects (StartSwap (Model initial) evict) s2)"

text \<open>Where \<open>enqueue\<close> inserts: before the first entry that \<open>req\<close> goes ahead of.\<close>

definition goesAhead :: "FifoConfig \<Rightarrow> HandlerReq \<Rightarrow> HandlerReq \<Rightarrow> bool" where
  "goesAhead c req q \<longleftrightarrow>
     Rank (rTier q) < Rank (rTier req) \<or>
     (Rank (rTier q) = Rank (rTier req) \<and>
       (mint (Priority c) (Model q) < mint (Priority c) (Model req) \<or>
        (mint (Priority c) (Model q) = mint (Priority c) (Model req) \<and> arrivalSeq q > arrivalSeq req)))"

fun insertQueued :: "FifoConfig \<Rightarrow> HandlerReq \<Rightarrow> HandlerReq list \<Rightarrow> HandlerReq list" where
  "insertQueued c req [] = [req]"
| "insertQueued c req (q # qs) = (if goesAhead c req q then req # q # qs else q # insertQueued c req qs)"

definition enqueue :: "planner \<Rightarrow> HandlerReq \<Rightarrow> FIFO \<Rightarrow> FIFO" where
  "enqueue plan req s =
     (let s1 = s\<lparr>queued := insertQueued (cfg s) req (queued s)\<rparr>
      in publish plan (broadcastQueuePositions (queued s1) s1))"

definition blockedByRankBarrier :: "FIFO \<Rightarrow> HandlerReq \<Rightarrow> bool" where
  "blockedByRankBarrier s req \<longleftrightarrow>
     (\<exists>q \<in> set (queued s). Respond q \<noteq> Respond req \<and> Rank (rTier q) > Rank (rTier req))"

definition joinSwap :: "HandlerReq \<Rightarrow> activeSwap \<Rightarrow> FIFO \<Rightarrow> FIFO" where
  "joinSwap req sw s = s\<lparr>active := mput (Model req) (sw\<lparr>as_waiters := as_waiters sw @ [req]\<rparr>) (active s)\<rparr>"

section \<open>The loop guard's penalty\<close>

definition contended :: "FIFO \<Rightarrow> bool" where
  "contended s \<longleftrightarrow> queued s \<noteq> [] \<or> active s \<noteq> []"

definition penaltyHeldUnder :: "FIFO \<Rightarrow> HandlerReq \<Rightarrow> bool \<Rightarrow> bool" where
  "penaltyHeldUnder s req cont =
     (if \<not> PenaltyGate req \<or> StatusRead req \<or> ConcurrencyExempt req then False
      else if Respond req \<notin> set (heldGates (effects s)) then False
      else if holdOnlyWhenContended s \<and> \<not> cont then False
      else True)"

definition penaltyHeld :: "FIFO \<Rightarrow> HandlerReq \<Rightarrow> bool" where
  "penaltyHeld s req = penaltyHeldUnder s req (contended s)"

definition releasePenalized :: "planner \<Rightarrow> FIFO \<Rightarrow> FIFO" where
  "releasePenalized plan s =
     (let cont = contended s; (kept, s') = foldl (\<lambda>(kept, s) req.
            if penaltyHeldUnder s req cont then (kept @ [req], s) else (kept, enqueue plan req s))
          ([], s) (penalized s)
      in s'\<lparr>penalized := kept\<rparr>)"

section \<open>Draining the queue\<close>

text \<open>\<open>stick\<close> keeps a request and raises the barrier to its rank.\<close>

type_synonym drain = "FIFO \<times> HandlerReq list \<times> int option"

definition stick :: "HandlerReq \<Rightarrow> FIFO \<Rightarrow> HandlerReq list \<Rightarrow> int option \<Rightarrow> drain" where
  "stick req s remaining barrier =
     (s, remaining @ [req],
      case barrier of None \<Rightarrow> Some (Rank (rTier req))
      | Some b \<Rightarrow> Some (if Rank (rTier req) > b then Rank (rTier req) else b))"

definition barred :: "int option \<Rightarrow> HandlerReq \<Rightarrow> bool" where
  "barred barrier req = (case barrier of Some b \<Rightarrow> Rank (rTier req) < b | None \<Rightarrow> False)"

definition drainStep :: "planner \<Rightarrow> drain \<Rightarrow> HandlerReq \<Rightarrow> drain" where
  "drainStep plan d req =
     (case d of (s, remaining, barrier) \<Rightarrow>
      if barred barrier req then (s, remaining @ [markParked ParkRank req], barrier)
      else (case ModelState (effects s) (Model req) of
        None \<Rightarrow> (upd_effects (GrantError req ErrModelNotFound) s, remaining, barrier)
      | Some state \<Rightarrow>
      (case map_of (active s) (Model req) of
        Some sw \<Rightarrow> (joinSwap (markParked ParkLoading req) sw s, remaining, barrier)
      | None \<Rightarrow>
      (let evict = plan (Model req) (runningSet s (Model req)) in
       if atCapacity s req then
         stick (markParked ParkCap req) (snd (tryPreempt req [Model req] 1 s)) remaining barrier
       else if state = StateReady \<and> evict = [] \<and> \<not> collidesWith (Model req) evict (active s) then
         (if \<not> kvAdmit s (Model req) (EstimatedTokens req) then
            stick (markWaitingFor (kvWaitingSession s (Model req)) None (markParked ParkKV req))
              (snd (tryPreempt req [Model req] 1 s)) remaining barrier
          else (case kvWarmBlocker s req of
            Some r \<Rightarrow> stick (markWaitingFor (kr_session r) (Some (kr_warmUntil r)) (markParked ParkKVWarm req)) s remaining barrier
          | None \<Rightarrow> (grantHandler plan req (Model req) s, remaining, barrier)))
       else if collidesWith (Model req) evict (active s) then
         stick (markParked ParkSwapCollision req) s remaining barrier
       else if conflictsWithInFlight evict (inFlight s) then
         stick (markParked ParkBusy req) (snd (tryPreempt req evict 0 s)) remaining barrier
       else (case deferredByGrace req evict s of
          (True, s1) \<Rightarrow> stick (markGraceParked s1 evict req) s1 remaining barrier
        | (False, s1) \<Rightarrow> (startSwap (markParked ParkLoading req) evict s1, remaining, barrier))))))"

definition drainQueue :: "planner \<Rightarrow> FIFO \<Rightarrow> FIFO" where
  "drainQueue plan s =
     (if queued s = [] then s
      else (case foldl (drainStep plan) (s, [], None) (queued s) of
        (s1, remaining, _) \<Rightarrow>
          (let s2 = kvWarmPrune (s1\<lparr>queued := remaining\<rparr>)
           in publish plan (broadcastQueuePositions (queued s2) s2))))"

section \<open>Event handlers\<close>

definition OnRequest :: "planner \<Rightarrow> HandlerReq \<Rightarrow> FIFO \<Rightarrow> FIFO" where
  "OnRequest plan req0 s0 =
     (case ModelState (effects s0) (Model req0) of
        None \<Rightarrow> rejectAdmission req0 ErrModelNotFound s0
      | Some state \<Rightarrow>
      if StatusRead req0 \<and> state \<noteq> StateReady \<and> map_of (active s0) (Model req0) = None
      then rejectAdmission req0 ErrModelNotLoaded s0
      else (case admit req0 s0 of
        (False, s1) \<Rightarrow> s1
      | (True, s1) \<Rightarrow>
      (let s = s1\<lparr>nextArrivalSeq := nextArrivalSeq s1 + 1\<rparr>;
           req = req0\<lparr>arrivalSeq := nextArrivalSeq s\<rparr> in
       if penaltyHeld s req then
         publish plan (s\<lparr>penalized := penalized s @ [markParked ParkPenalized req]\<rparr>)
       else if blockedByRankBarrier s req then enqueue plan (markParked ParkRank req) s
       else (case map_of (active s) (Model req) of
         Some sw \<Rightarrow> joinSwap (markParked ParkLoading req) sw s
       | None \<Rightarrow>
       (let evict = plan (Model req) (runningSet s (Model req)) in
        if atCapacity s req then
          enqueue plan (markParked ParkCap req) (snd (tryPreempt req [Model req] 1 s))
        else if state = StateReady \<and> evict = [] \<and> \<not> collidesWith (Model req) evict (active s) then
          (if \<not> kvAdmit s (Model req) (EstimatedTokens req) then
             enqueue plan (markWaitingFor (kvWaitingSession s (Model req)) None (markParked ParkKV req))
               (snd (tryPreempt req [Model req] 1 s))
           else (case kvWarmBlocker s req of
             Some r \<Rightarrow> enqueue plan (markWaitingFor (kr_session r) (Some (kr_warmUntil r)) (markParked ParkKVWarm req)) s
           | None \<Rightarrow> grantHandler plan req (Model req) s))
        else if collidesWith (Model req) evict (active s) then
          enqueue plan (markParked ParkSwapCollision req) s
        else if conflictsWithInFlight evict (inFlight s) then
          enqueue plan (markParked ParkBusy req) (snd (tryPreempt req evict 0 s))
        else (case deferredByGrace req evict s of
           (True, s2) \<Rightarrow> enqueue plan (markGraceParked s2 evict req) s2
         | (False, s2) \<Rightarrow> publish plan (startSwap (markParked ParkLoading req) evict s2)))))))"

definition OnCancel :: "planner \<Rightarrow> HandlerReq \<Rightarrow> FIFO \<Rightarrow> FIFO" where
  "OnCancel plan req s =
     (let gone = (\<lambda>q. Respond q = Respond req);
          s1 = (if queued s = [] then s else publish plan (s\<lparr>queued := filter (\<lambda>q. \<not> gone q) (queued s)\<rparr>));
          s2 = s1\<lparr>penalized := filter (\<lambda>q. \<not> gone q) (penalized s1)\<rparr>;
          s3 = s2\<lparr>active := map (\<lambda>(id, sw). (id, sw\<lparr>as_waiters := filter (\<lambda>q. \<not> gone q) (as_waiters sw)\<rparr>)) (active s2)\<rparr>;
          removed = ((\<exists>q \<in> set (queued s). gone q) \<or> (\<exists>q \<in> set (penalized s). gone q) \<or>
                     (\<exists>(id, sw) \<in> set (active s). \<exists>q \<in> set (as_waiters sw). gone q))
      in if removed then broadcastQueuePositions (queued s3) s3 else s3)"

definition swapWaiter :: "planner \<Rightarrow> SwapDone \<Rightarrow> FIFO \<Rightarrow> HandlerReq \<Rightarrow> FIFO" where
  "swapWaiter plan ev s w =
     (case sd_Err ev of
        Some err \<Rightarrow> upd_effects (GrantError w err) s
      | None \<Rightarrow>
          if atCapacity s w then enqueue plan (markParked ParkCap w) s
          else if \<not> kvAdmit s (Model w) (EstimatedTokens w) then enqueue plan (markParked ParkKV w) s
          else grantHandler plan w (sd_ModelID ev) s)"

definition OnSwapDone :: "planner \<Rightarrow> SwapDone \<Rightarrow> FIFO \<Rightarrow> FIFO" where
  "OnSwapDone plan ev s =
     (case map_of (active s) (sd_ModelID ev) of
        None \<Rightarrow> s
      | Some sw \<Rightarrow>
          (let s1 = s\<lparr>active := mdel (sd_ModelID ev) (active s)\<rparr>;
               s2 = (if sd_Err ev = None then s1\<lparr>idleSince := mput (sd_ModelID ev) (now s1) (idleSince s1)\<rparr> else s1)
           in drainQueue plan (foldl (swapWaiter plan ev) s2 (as_waiters sw))))"

definition OnServeDone :: "planner \<Rightarrow> ServeDoneEvent \<Rightarrow> FIFO \<Rightarrow> FIFO" where
  "OnServeDone plan ev s =
     (let m = ev_ModelID ev in
      if ev_StatusRead ev then s
      else if ev_CapReleaseOnly ev then
        drainQueue plan (publishCapacity
          (if mint (inFlight s) m > 0 then s\<lparr>inFlight := mput m (mint (inFlight s) m - 1) (inFlight s)\<rparr> else s))
      else
        (let s1 = (if \<not> ev_CapReleased ev then s\<lparr>inFlight := mput m (mint (inFlight s) m - 1) (inFlight s)\<rparr> else s);
             s2 = dropGranted m (ev_Holder ev) s1;
             wentIdle = (mint (inFlight s2) m \<le> 0);
             s3 = (if \<not> wentIdle then s2
                   else (let s2 = s2\<lparr>inFlight := mdel m (inFlight s2)\<rparr> in
                     if \<not> ev_Looping ev then s2\<lparr>idleSince := mput m (now s2 + cooldownDelay s2) (idleSince s2)\<rparr>
                     else if map_of (idleSince s2) m = None then s2\<lparr>idleSince := mput m (now s2) (idleSince s2)\<rparr>
                     else s2));
             (kvReleased, s4) = releaseKV m (ev_EstimatedTokens ev) (ev_Ctx ev) s3;
             s5 = publish plan (kvWarmOnDone ev s4)
         in if wentIdle \<or> kvReleased \<or> queued s5 \<noteq> [] then drainQueue plan s5 else s5))"

definition OnTick :: "planner \<Rightarrow> FIFO \<Rightarrow> FIFO" where
  "OnTick plan s =
     (let s1 = releasePenalized plan s;
          s2 = (if queued s1 = [] then snd (consumeForced (expireForcedGrace (snd (consumeForced s1))))
                else (case consumeGraceExpiredForced s1 of
                        (forced, s2) \<Rightarrow> if forced then kvWarmEndCooldowns s2 else s2))
      in publishGrace plan (drainQueue plan s2))"

definition unloadWaiters :: "string list \<Rightarrow> FIFO \<Rightarrow> FIFO" where
  "unloadWaiters targets s =
     foldl (\<lambda>s id. case map_of (active s) id of
        None \<Rightarrow> s
      | Some sw \<Rightarrow>
          (upd_effects (\<lambda>e. foldl (\<lambda>e w. GrantError w ErrUnloaded e) e (as_waiters sw)) s)\<lparr>active := mdel id (active s)\<rparr>)
       s (remdups targets)"

definition OnUnload :: "planner \<Rightarrow> string list \<Rightarrow> FIFO \<Rightarrow> FIFO" where
  "OnUnload plan targets s =
     (let hit = (\<lambda>w. Model w \<in> set targets);
          s1 = unloadWaiters targets (kvWarmForget targets s);
          fail = (\<lambda>ws. upd_effects (\<lambda>e. foldl (\<lambda>e w. GrantError w ErrUnloaded e) e (filter hit ws)));
          s2 = (if queued s1 = [] then s1
                else publish plan ((fail (queued s1) s1)\<lparr>queued := filter (\<lambda>w. \<not> hit w) (queued s1)\<rparr>));
          s3 = (fail (penalized s2) s2)\<lparr>penalized := filter (\<lambda>w. \<not> hit w) (penalized s2)\<rparr>
      in drainQueue plan (upd_effects (StopProcesses targets) s3))"

definition OnShutdown :: "sched_error \<Rightarrow> FIFO \<Rightarrow> FIFO" where
  "OnShutdown err s =
     upd_effects (\<lambda>e. foldl (\<lambda>e w. GrantError w err e) e
        (concat (map (as_waiters \<circ> snd) (active s)) @ queued s @ penalized s)) s"

end
