(* ===== verification/FifoQueue.thy ===== *)
theory FifoQueue
  imports Fifo "HOL-Library.Multiset"
begin

text \<open>
  How the scheduler's operations act on its state: the frame facts of the helpers (collected in
  \<open>fifo_frame\<close>), the queue order (rank, then priority, then arrival), and the decision the
  scheduler takes for one request, which \<open>OnRequest\<close> and \<open>drainQueue\<close> share (\<open>attempt\<close>).
\<close>

section \<open>Frame facts\<close>

named_theorems fifo_frame \<open>what an operation of the scheduler leaves alone\<close>

text \<open>A request keeps everything but its marks.\<close>

definition unmarked :: "HandlerReq \<Rightarrow> HandlerReq" where
  "unmarked r = r\<lparr>parkReason := NotParked, waitingForSession := [], waitingForUntil := None\<rparr>"

definition same_req :: "HandlerReq \<Rightarrow> HandlerReq \<Rightarrow> bool" where
  "same_req r q \<longleftrightarrow> unmarked r = unmarked q"

lemma same_req_refl [simp]: "same_req r r"
  by (simp add: same_req_def)

lemma unmarked_marks:
  "unmarked (markWaitingFor ses u q) = unmarked q" "unmarked (markParked p q) = unmarked q"
  by (simp_all add: unmarked_def markWaitingFor_def markParked_def Let_def)

lemma same_req_marks [simp]:
  "same_req (markWaitingFor ses u q) q" "same_req (markParked p q) q" "same_req (clearParked q) q"
  "same_req (markWaitingFor ses u (markParked p q)) q" "same_req (markGraceParked s ev q) q"
  by (simp_all add: same_req_def unmarked_marks clearParked_def markGraceParked_def)

lemma unmarked_keeps:
  "Model (unmarked q) = Model q" "Respond (unmarked q) = Respond q" "rTier (unmarked q) = rTier q"
  "arrivalSeq (unmarked q) = arrivalSeq q" "EstimatedTokens (unmarked q) = EstimatedTokens q"
  "ConcurrencyExempt (unmarked q) = ConcurrencyExempt q" "StatusRead (unmarked q) = StatusRead q"
  "Session (unmarked q) = Session q" "Ctx (unmarked q) = Ctx q" "Preempt (unmarked q) = Preempt q"
  "Preempted (unmarked q) = Preempted q" "PenaltyGate (unmarked q) = PenaltyGate q"
  "SlotCooldownOff (unmarked q) = SlotCooldownOff q"
  by (simp_all add: unmarked_def)

lemma same_reqD:
  assumes "same_req r q"
  shows "Model r = Model q" "Respond r = Respond q" "rTier r = rTier q" "arrivalSeq r = arrivalSeq q"
    "EstimatedTokens r = EstimatedTokens q" "ConcurrencyExempt r = ConcurrencyExempt q"
    "StatusRead r = StatusRead q" "Session r = Session q" "Ctx r = Ctx q" "Preempt r = Preempt q"
    "Preempted r = Preempted q" "PenaltyGate r = PenaltyGate q" "SlotCooldownOff r = SlotCooldownOff q"
  using assms unfolding same_req_def by (metis unmarked_keeps)+

lemmas marks_keep [simp] =
  same_req_marks(1)[THEN same_reqD(1)] same_req_marks(1)[THEN same_reqD(2)] same_req_marks(1)[THEN same_reqD(3)]
  same_req_marks(1)[THEN same_reqD(4)] same_req_marks(1)[THEN same_reqD(5)] same_req_marks(1)[THEN same_reqD(6)]
  same_req_marks(1)[THEN same_reqD(7)] same_req_marks(1)[THEN same_reqD(8)] same_req_marks(1)[THEN same_reqD(10)]
  same_req_marks(2)[THEN same_reqD(1)] same_req_marks(2)[THEN same_reqD(2)] same_req_marks(2)[THEN same_reqD(3)]
  same_req_marks(2)[THEN same_reqD(4)] same_req_marks(2)[THEN same_reqD(5)] same_req_marks(2)[THEN same_reqD(6)]
  same_req_marks(2)[THEN same_reqD(7)] same_req_marks(2)[THEN same_reqD(8)] same_req_marks(2)[THEN same_reqD(10)]
  same_req_marks(3)[THEN same_reqD(1)] same_req_marks(3)[THEN same_reqD(2)] same_req_marks(3)[THEN same_reqD(3)]
  same_req_marks(3)[THEN same_reqD(4)] same_req_marks(3)[THEN same_reqD(5)] same_req_marks(3)[THEN same_reqD(6)]
  same_req_marks(3)[THEN same_reqD(7)] same_req_marks(3)[THEN same_reqD(8)] same_req_marks(3)[THEN same_reqD(10)]
  same_req_marks(5)[THEN same_reqD(1)] same_req_marks(5)[THEN same_reqD(2)] same_req_marks(5)[THEN same_reqD(3)]
  same_req_marks(5)[THEN same_reqD(4)] same_req_marks(5)[THEN same_reqD(5)] same_req_marks(5)[THEN same_reqD(6)]
  same_req_marks(5)[THEN same_reqD(7)] same_req_marks(5)[THEN same_reqD(8)] same_req_marks(5)[THEN same_reqD(10)]

text \<open>The part of the state that the safety arguments read. Two states agree on it when only
  bookkeeping for later decisions differs.\<close>

lemma publish_frame [fifo_frame]:
  "queued (publishCapacity s) = queued s" "queued (publishGrace plan s) = queued s"
  "penalized (publishCapacity s) = penalized s" "penalized (publishGrace plan s) = penalized s"
  "active (publishCapacity s) = active s" "active (publishGrace plan s) = active s"
  "inFlight (publishCapacity s) = inFlight s" "inFlight (publishGrace plan s) = inFlight s"
  "effects (publishCapacity s) = effects s" "effects (publishGrace plan s) = effects s"
  "cfg (publishCapacity s) = cfg s" "cfg (publishGrace plan s) = cfg s"
  "limits (publishCapacity s) = limits s" "limits (publishGrace plan s) = limits s"
  "kvInFlight (publishCapacity s) = kvInFlight s" "kvInFlight (publishGrace plan s) = kvInFlight s"
  "nextArrivalSeq (publishCapacity s) = nextArrivalSeq s" "nextArrivalSeq (publishGrace plan s) = nextArrivalSeq s"
  "capacity (publishGrace plan s) = capacity s"
  by (simp_all add: publishCapacity_def publishGrace_def)

lemma kvWarm_frame [fifo_frame]:
  "queued (kvWarmOnGrant r m s) = queued s" "penalized (kvWarmOnGrant r m s) = penalized s"
  "active (kvWarmOnGrant r m s) = active s" "inFlight (kvWarmOnGrant r m s) = inFlight s"
  "effects (kvWarmOnGrant r m s) = effects s" "cfg (kvWarmOnGrant r m s) = cfg s"
  "limits (kvWarmOnGrant r m s) = limits s" "kvInFlight (kvWarmOnGrant r m s) = kvInFlight s"
  "nextArrivalSeq (kvWarmOnGrant r m s) = nextArrivalSeq s" "granted (kvWarmOnGrant r m s) = granted s"
  "capacity (kvWarmOnGrant r m s) = capacity s"
  by (simp_all add: kvWarmOnGrant_def kvWarmDisplace_def Let_def split: option.splits)

lemma reserve_frame [fifo_frame]:
  "queued (reserveKV r m s) = queued s" "penalized (reserveKV r m s) = penalized s"
  "active (reserveKV r m s) = active s" "inFlight (reserveKV r m s) = inFlight s"
  "effects (reserveKV r m s) = effects s" "cfg (reserveKV r m s) = cfg s"
  "limits (reserveKV r m s) = limits s" "nextArrivalSeq (reserveKV r m s) = nextArrivalSeq s"
  "granted (reserveKV r m s) = granted s" "capacity (reserveKV r m s) = capacity s"
  by (simp_all add: reserveKV_def Let_def)

lemma grantHandler_frame [fifo_frame]:
  "queued (grantHandler plan r m s) = queued s" "penalized (grantHandler plan r m s) = penalized s"
  "active (grantHandler plan r m s) = active s" "cfg (grantHandler plan r m s) = cfg s"
  "limits (grantHandler plan r m s) = limits s" "nextArrivalSeq (grantHandler plan r m s) = nextArrivalSeq s"
  by (simp_all add: grantHandler_def Let_def fifo_frame split: prod.splits)

lemma grantHandler_inFlight:
  "inFlight (grantHandler plan r m s) =
     (if Respond r \<in> set (walkedAway (effects s)) \<or> StatusRead r then inFlight s
      else mput m (mint (inFlight s) m + 1) (inFlight s))"
  by (simp add: grantHandler_def Let_def fifo_frame GrantServe_def)

lemma grantHandler_effects:
  "effects (grantHandler plan r m s) =
     (if Respond r \<in> set (walkedAway (effects s)) then effects s
      else logE (Served (clearParked r) m) (effects s))"
  by (simp add: grantHandler_def Let_def fifo_frame GrantServe_def)

lemma forget_frame [fifo_frame]:
  "queued (kvWarmForget ms s) = queued s" "penalized (kvWarmForget ms s) = penalized s"
  "active (kvWarmForget ms s) = active s" "inFlight (kvWarmForget ms s) = inFlight s"
  "effects (kvWarmForget ms s) = effects s" "cfg (kvWarmForget ms s) = cfg s"
  "limits (kvWarmForget ms s) = limits s" "nextArrivalSeq (kvWarmForget ms s) = nextArrivalSeq s"
  "kvInFlight (kvWarmForget ms s) = kvInFlight s" "capacity (kvWarmForget ms s) = capacity s"
  by (simp_all add: kvWarmForget_def)

lemma startSwap_frame [fifo_frame]:
  "queued (startSwap r ev s) = queued s" "penalized (startSwap r ev s) = penalized s"
  "inFlight (startSwap r ev s) = inFlight s" "cfg (startSwap r ev s) = cfg s"
  "limits (startSwap r ev s) = limits s" "nextArrivalSeq (startSwap r ev s) = nextArrivalSeq s"
  "kvInFlight (startSwap r ev s) = kvInFlight s" "capacity (startSwap r ev s) = capacity s"
  "active (startSwap r ev s) = mput (Model r) \<lparr>as_modelID = Model r, as_evict = ev, as_waiters = [r]\<rparr> (active s)"
  "effects (startSwap r ev s) = logE (SwapStarted (Model r) ev) (effects s)"
  by (simp_all add: startSwap_def Let_def fifo_frame StartSwap_def)

lemma joinSwap_frame [fifo_frame]:
  "queued (joinSwap r sw s) = queued s" "penalized (joinSwap r sw s) = penalized s"
  "inFlight (joinSwap r sw s) = inFlight s" "cfg (joinSwap r sw s) = cfg s"
  "limits (joinSwap r sw s) = limits s" "nextArrivalSeq (joinSwap r sw s) = nextArrivalSeq s"
  "kvInFlight (joinSwap r sw s) = kvInFlight s" "effects (joinSwap r sw s) = effects s"
  "capacity (joinSwap r sw s) = capacity s"
  by (simp_all add: joinSwap_def)

lemma broadcast_frame [fifo_frame]:
  "queued (broadcastQueuePositions q s) = queued s" "penalized (broadcastQueuePositions q s) = penalized s"
  "active (broadcastQueuePositions q s) = active s" "inFlight (broadcastQueuePositions q s) = inFlight s"
  "cfg (broadcastQueuePositions q s) = cfg s" "limits (broadcastQueuePositions q s) = limits s"
  "nextArrivalSeq (broadcastQueuePositions q s) = nextArrivalSeq s"
  "kvInFlight (broadcastQueuePositions q s) = kvInFlight s"
  "elog (effects (broadcastQueuePositions q s)) = elog (effects s)"
  "walkedAway (effects (broadcastQueuePositions q s)) = walkedAway (effects s)"
  "processes (effects (broadcastQueuePositions q s)) = processes (effects s)"
  "heldGates (effects (broadcastQueuePositions q s)) = heldGates (effects s)"
  "capacity (broadcastQueuePositions q s) = capacity s"
  by (simp_all add: broadcastQueuePositions_def)

lemma prune_frame [fifo_frame]:
  "queued (kvWarmPrune s) = queued s" "penalized (kvWarmPrune s) = penalized s"
  "active (kvWarmPrune s) = active s" "inFlight (kvWarmPrune s) = inFlight s"
  "effects (kvWarmPrune s) = effects s" "cfg (kvWarmPrune s) = cfg s" "limits (kvWarmPrune s) = limits s"
  "nextArrivalSeq (kvWarmPrune s) = nextArrivalSeq s" "kvInFlight (kvWarmPrune s) = kvInFlight s"
  "capacity (kvWarmPrune s) = capacity s"
  by (simp_all add: kvWarmPrune_def)

lemma enqueue_frame [fifo_frame]:
  "queued (enqueue plan r s) = insertQueued (cfg s) r (queued s)" "penalized (enqueue plan r s) = penalized s"
  "active (enqueue plan r s) = active s" "inFlight (enqueue plan r s) = inFlight s"
  "cfg (enqueue plan r s) = cfg s" "limits (enqueue plan r s) = limits s"
  "nextArrivalSeq (enqueue plan r s) = nextArrivalSeq s" "kvInFlight (enqueue plan r s) = kvInFlight s"
  "elog (effects (enqueue plan r s)) = elog (effects s)"
  "walkedAway (effects (enqueue plan r s)) = walkedAway (effects s)"
  "processes (effects (enqueue plan r s)) = processes (effects s)"
  "heldGates (effects (enqueue plan r s)) = heldGates (effects s)"
  by (simp_all add: enqueue_def Let_def fifo_frame)

lemma logE_simps [simp]:
  "elog (logE x e) = elog e @ [x]" "walkedAway (logE x e) = walkedAway e" "processes (logE x e) = processes e"
  "clock (logE x e) = clock e" "positions (logE x e) = positions e" "heldGates (logE x e) = heldGates e"
  by (simp_all add: logE_def)

lemma serveDone_frame [fifo_frame]:
  "queued (dropGranted m i s) = queued s" "penalized (dropGranted m i s) = penalized s"
  "active (dropGranted m i s) = active s" "inFlight (dropGranted m i s) = inFlight s"
  "effects (dropGranted m i s) = effects s" "cfg (dropGranted m i s) = cfg s" "limits (dropGranted m i s) = limits s"
  "nextArrivalSeq (dropGranted m i s) = nextArrivalSeq s" "kvInFlight (dropGranted m i s) = kvInFlight s"
  "queued (snd (releaseKV m est c s)) = queued s" "penalized (snd (releaseKV m est c s)) = penalized s"
  "active (snd (releaseKV m est c s)) = active s" "inFlight (snd (releaseKV m est c s)) = inFlight s"
  "effects (snd (releaseKV m est c s)) = effects s" "cfg (snd (releaseKV m est c s)) = cfg s"
  "limits (snd (releaseKV m est c s)) = limits s"
  "nextArrivalSeq (snd (releaseKV m est c s)) = nextArrivalSeq s"
  "queued (kvWarmOnDone ev s) = queued s" "penalized (kvWarmOnDone ev s) = penalized s"
  "active (kvWarmOnDone ev s) = active s" "inFlight (kvWarmOnDone ev s) = inFlight s"
  "effects (kvWarmOnDone ev s) = effects s" "cfg (kvWarmOnDone ev s) = cfg s" "limits (kvWarmOnDone ev s) = limits s"
  "nextArrivalSeq (kvWarmOnDone ev s) = nextArrivalSeq s" "kvInFlight (kvWarmOnDone ev s) = kvInFlight s"
  by (simp_all add: dropGranted_def releaseKV_def kvWarmOnDone_def Let_def split: option.split)

text \<open>\<open>OnServeDone\<close> ends in one state, \<open>afterServe\<close>, which it may then drain.\<close>

definition idleAfter :: "ServeDoneEvent \<Rightarrow> FIFO \<Rightarrow> FIFO" where
  "idleAfter ev s =
     (let m = ev_ModelID ev in
      if \<not> mint (inFlight s) m \<le> 0 then s
      else (let s2 = s\<lparr>inFlight := mdel m (inFlight s)\<rparr> in
        if \<not> ev_Looping ev then s2\<lparr>idleSince := mput m (now s2 + cooldownDelay s2) (idleSince s2)\<rparr>
        else if map_of (idleSince s2) m = None then s2\<lparr>idleSince := mput m (now s2) (idleSince s2)\<rparr>
        else s2))"

definition unserved :: "ServeDoneEvent \<Rightarrow> FIFO \<Rightarrow> FIFO" where
  "unserved ev s = dropGranted (ev_ModelID ev) (ev_Holder ev)
     (if \<not> ev_CapReleased ev
      then s\<lparr>inFlight := mput (ev_ModelID ev) (mint (inFlight s) (ev_ModelID ev) - 1) (inFlight s)\<rparr> else s)"

definition afterServe :: "planner \<Rightarrow> ServeDoneEvent \<Rightarrow> FIFO \<Rightarrow> FIFO" where
  "afterServe plan ev s = publish plan (kvWarmOnDone ev
     (snd (releaseKV (ev_ModelID ev) (ev_EstimatedTokens ev) (ev_Ctx ev) (idleAfter ev (unserved ev s)))))"

definition capReleased :: "string \<Rightarrow> FIFO \<Rightarrow> FIFO" where
  "capReleased m s = publishCapacity
     (if mint (inFlight s) m > 0 then s\<lparr>inFlight := mput m (mint (inFlight s) m - 1) (inFlight s)\<rparr> else s)"

lemma OnServeDone_cases:
  obtains (status) "ev_StatusRead ev" "OnServeDone plan ev s = s"
  | (cap) "\<not> ev_StatusRead ev" "ev_CapReleaseOnly ev"
      "OnServeDone plan ev s = drainQueue plan (capReleased (ev_ModelID ev) s)"
  | (drained) "\<not> ev_StatusRead ev" "\<not> ev_CapReleaseOnly ev" "OnServeDone plan ev s = drainQueue plan (afterServe plan ev s)"
  | (settled) "\<not> ev_StatusRead ev" "\<not> ev_CapReleaseOnly ev" "OnServeDone plan ev s = afterServe plan ev s"
      "queued s = []" "0 < mint (inFlight (unserved ev s)) (ev_ModelID ev)"
proof -
  let ?m = "ev_ModelID ev"
  obtain kv s4 where r: "releaseKV ?m (ev_EstimatedTokens ev) (ev_Ctx ev) (idleAfter ev (unserved ev s)) = (kv, s4)"
    by fastforce
  have eq: "OnServeDone plan ev s =
      (if ev_StatusRead ev then s
       else if ev_CapReleaseOnly ev then drainQueue plan (capReleased ?m s)
       else if mint (inFlight (unserved ev s)) ?m \<le> 0 \<or> kv \<or> queued (afterServe plan ev s) \<noteq> []
         then drainQueue plan (afterServe plan ev s) else afterServe plan ev s)"
    unfolding OnServeDone_def Let_def unserved_def[symmetric] idleAfter_def[unfolded Let_def, symmetric]
      r prod.case afterServe_def capReleased_def snd_conv by (rule refl)
  have q: "queued (afterServe plan ev s) = queued s"
    by (simp add: afterServe_def idleAfter_def unserved_def fifo_frame Let_def)
  show ?thesis
    using eq q status cap drained settled by (auto split: if_splits)
qed

section \<open>The queue order\<close>

text \<open>Higher rank first, then higher priority, then earlier arrival.\<close>

definition qkey :: "FifoConfig \<Rightarrow> HandlerReq \<Rightarrow> int \<times> int \<times> nat" where
  "qkey c q = (- Rank (rTier q), - mint (Priority c) (Model q), arrivalSeq q)"

lemma goesAhead_key: "goesAhead c r q \<longleftrightarrow> qkey c r < qkey c q"
  by (auto simp: goesAhead_def qkey_def less_prod_def)

lemma qkey_same [simp]: "same_req r q \<Longrightarrow> qkey c r = qkey c q"
  by (simp add: qkey_def same_reqD)

definition queue_ok :: "FifoConfig \<Rightarrow> HandlerReq list \<Rightarrow> bool" where
  "queue_ok c q \<longleftrightarrow> sorted (map (qkey c) q)"

lemma set_insertQueued [simp]: "set (insertQueued c r q) = insert r (set q)"
  by (induction q) auto

lemma mset_insertQueued: "mset (insertQueued c r q) = add_mset r (mset q)"
  by (induction q) auto

lemma insertQueued_sorted: "queue_ok c q \<Longrightarrow> queue_ok c (insertQueued c r q)"
  unfolding queue_ok_def by (induction q) (auto simp: goesAhead_key not_less)

section \<open>The decision for one request\<close>

text \<open>States that differ only by preemption callbacks run and the one-shot flag consumed.\<close>

definition quiet :: "FIFO \<Rightarrow> FIFO \<Rightarrow> bool" where
  "quiet s s' \<longleftrightarrow> (\<exists>bs c. s' = s\<lparr>effects := (effects s)\<lparr>elog := elog (effects s) @ map Booted bs\<rparr>, cooldownForced := c\<rparr>)"

lemma quiet_refl [simp]: "quiet s s"
  unfolding quiet_def by (intro exI[of _ "[]"] exI[of _ "cooldownForced s"]) simp

lemma quietD:
  assumes "quiet s s'"
  shows "queued s' = queued s" "penalized s' = penalized s" "active s' = active s" "inFlight s' = inFlight s"
    "cfg s' = cfg s" "limits s' = limits s" "nextArrivalSeq s' = nextArrivalSeq s" "kvInFlight s' = kvInFlight s"
    "walkedAway (effects s') = walkedAway (effects s)" "processes (effects s') = processes (effects s)"
    "positions (effects s') = positions (effects s)" "capacity s' = capacity s"
    "\<exists>bs. elog (effects s') = elog (effects s) @ map Booted bs"
  using assms by (auto simp: quiet_def)

lemma foldl_logE: "foldl (\<lambda>e b. logE (f b) e) e bs = e\<lparr>elog := elog e @ map f bs\<rparr>"
  by (induction bs arbitrary: e) (simp_all add: logE_def)

lemma tryPreempt_quiet [simp]: "quiet s (snd (tryPreempt req ev lim s))"
proof -
  obtain ok bs where "preemptModels (granted s) (rTier req) lim ev (0, []) = (ok, bs)" by fastforce
  then show ?thesis unfolding tryPreempt_def quiet_def
    by (intro exI[of _ bs] exI[of _ "cooldownForced s"]) (simp add: foldl_logE)
qed

lemma deferred_quiet: "deferredByGrace req ev s = (b, s') \<Longrightarrow> quiet s s'"
  unfolding deferredByGrace_def quiet_def consumeForced_def
  by (intro exI[of _ "[]"] exI[of _ "cooldownForced s'"]) (auto split: if_splits)

datatype outcome = Parked HandlerReq FIFO | Handled FIFO | Started FIFO

definition attempt :: "planner \<Rightarrow> ProcessState \<Rightarrow> HandlerReq \<Rightarrow> FIFO \<Rightarrow> outcome" where
  "attempt plan state req s =
     (case map_of (active s) (Model req) of
        Some sw \<Rightarrow> Handled (joinSwap (markParked ParkLoading req) sw s)
      | None \<Rightarrow>
      (let evict = plan (Model req) (runningSet s (Model req)) in
       if atCapacity s req then Parked (markParked ParkCap req) (snd (tryPreempt req [Model req] 1 s))
       else if state = StateReady \<and> evict = [] \<and> \<not> collidesWith (Model req) evict (active s) then
         (if \<not> kvAdmit s (Model req) (EstimatedTokens req) then
            Parked (markWaitingFor (kvWaitingSession s (Model req)) None (markParked ParkKV req))
              (snd (tryPreempt req [Model req] 1 s))
          else (case kvWarmBlocker s req of
            Some r \<Rightarrow> Parked (markWaitingFor (kr_session r) (Some (kr_warmUntil r)) (markParked ParkKVWarm req)) s
          | None \<Rightarrow> Handled (grantHandler plan req (Model req) s)))
       else if collidesWith (Model req) evict (active s) then Parked (markParked ParkSwapCollision req) s
       else if conflictsWithInFlight evict (inFlight s) then
         Parked (markParked ParkBusy req) (snd (tryPreempt req evict 0 s))
       else (case deferredByGrace req evict s of
          (True, s1) \<Rightarrow> Parked (markGraceParked s1 evict req) s1
        | (False, s1) \<Rightarrow> Started (startSwap (markParked ParkLoading req) evict s1))))"

text \<open>The decision tree with its three kinds of leaves continued by \<open>f\<close>, \<open>g\<close> and \<open>h\<close>.\<close>

lemma attempt_case:
  "(case attempt plan state req s of Parked r s' \<Rightarrow> f r s' | Handled s' \<Rightarrow> g s' | Started s' \<Rightarrow> h s') =
     (case map_of (active s) (Model req) of
        Some sw \<Rightarrow> g (joinSwap (markParked ParkLoading req) sw s)
      | None \<Rightarrow>
      (let evict = plan (Model req) (runningSet s (Model req)) in
       if atCapacity s req then f (markParked ParkCap req) (snd (tryPreempt req [Model req] 1 s))
       else if state = StateReady \<and> evict = [] \<and> \<not> collidesWith (Model req) evict (active s) then
         (if \<not> kvAdmit s (Model req) (EstimatedTokens req) then
            f (markWaitingFor (kvWaitingSession s (Model req)) None (markParked ParkKV req))
              (snd (tryPreempt req [Model req] 1 s))
          else (case kvWarmBlocker s req of
            Some r \<Rightarrow> f (markWaitingFor (kr_session r) (Some (kr_warmUntil r)) (markParked ParkKVWarm req)) s
          | None \<Rightarrow> g (grantHandler plan req (Model req) s)))
       else if collidesWith (Model req) evict (active s) then f (markParked ParkSwapCollision req) s
       else if conflictsWithInFlight evict (inFlight s) then
         f (markParked ParkBusy req) (snd (tryPreempt req evict 0 s))
       else (case deferredByGrace req evict s of
          (True, s1) \<Rightarrow> f (markGraceParked s1 evict req) s1
        | (False, s1) \<Rightarrow> h (startSwap (markParked ParkLoading req) evict s1))))"
  unfolding attempt_def Let_def if_distrib[of "case_outcome f g h"] option.case_distrib[of "case_outcome f g h"]
    prod.case_distrib[of "case_outcome f g h"] bool.case_distrib[of "case_outcome f g h"] outcome.case
  by (rule refl)

lemma drainStep_attempt:
  "drainStep plan (s, remaining, barrier) req =
     (if barred barrier req then (s, remaining @ [markParked ParkRank req], barrier)
      else (case ModelState (effects s) (Model req) of
        None \<Rightarrow> (upd_effects (GrantError req ErrModelNotFound) s, remaining, barrier)
      | Some state \<Rightarrow> (case attempt plan state req s of
            Parked r s' \<Rightarrow> stick r s' remaining barrier
          | Handled s' \<Rightarrow> (s', remaining, barrier)
          | Started s' \<Rightarrow> (s', remaining, barrier))))"
  unfolding drainStep_def attempt_case prod.case by (rule refl)

lemma OnRequest_attempt:
  "OnRequest plan req0 s0 =
     (case ModelState (effects s0) (Model req0) of
        None \<Rightarrow> rejectAdmission req0 ErrModelNotFound s0
      | Some state \<Rightarrow>
      if StatusRead req0 \<and> state \<noteq> StateReady \<and> map_of (active s0) (Model req0) = None
      then rejectAdmission req0 ErrModelNotLoaded s0
      else (case admit req0 s0 of
        (False, s1) \<Rightarrow> s1
      | (True, s1) \<Rightarrow>
      (let s = s1\<lparr>nextArrivalSeq := nextArrivalSeq s1 + 1\<rparr>; req = req0\<lparr>arrivalSeq := nextArrivalSeq s\<rparr> in
       if penaltyHeld s req then publish plan (s\<lparr>penalized := penalized s @ [markParked ParkPenalized req]\<rparr>)
       else if blockedByRankBarrier s req then enqueue plan (markParked ParkRank req) s
       else (case attempt plan state req s of
            Parked r s' \<Rightarrow> enqueue plan r s'
          | Handled s' \<Rightarrow> s'
          | Started s' \<Rightarrow> publish plan s'))))"
  unfolding OnRequest_def attempt_case by (rule refl)

text \<open>What \<open>OnRequest\<close> does once the request is admitted and numbered.\<close>

definition admitted :: "planner \<Rightarrow> ProcessState \<Rightarrow> HandlerReq \<Rightarrow> FIFO \<Rightarrow> FIFO" where
  "admitted plan state req s =
     (if penaltyHeld s req then publish plan (s\<lparr>penalized := penalized s @ [markParked ParkPenalized req]\<rparr>)
      else if blockedByRankBarrier s req then enqueue plan (markParked ParkRank req) s
      else (case attempt plan state req s of
           Parked r s' \<Rightarrow> enqueue plan r s'
         | Handled s' \<Rightarrow> s'
         | Started s' \<Rightarrow> publish plan s'))"

abbreviation numbered :: "HandlerReq \<Rightarrow> FIFO \<Rightarrow> HandlerReq" where
  "numbered req s \<equiv> req\<lparr>arrivalSeq := nextArrivalSeq s + 1\<rparr>"

abbreviation counted :: "FIFO \<Rightarrow> FIFO" where
  "counted s \<equiv> s\<lparr>nextArrivalSeq := nextArrivalSeq s + 1\<rparr>"

lemma OnRequest_admitted:
  "OnRequest plan req s =
     (case ModelState (effects s) (Model req) of
        None \<Rightarrow> snd (sendAdmission req (Some ErrModelNotFound) s)
      | Some state \<Rightarrow>
      if StatusRead req \<and> state \<noteq> StateReady \<and> map_of (active s) (Model req) = None
      then snd (sendAdmission req (Some ErrModelNotLoaded) s)
      else (case sendAdmission req None s of
        (ok, s1) \<Rightarrow> if ok then admitted plan state (numbered req s1) (counted s1) else s1))"
  unfolding OnRequest_attempt admitted_def Let_def rejectAdmission_def admit_def
  by (simp split: option.split prod.split bool.split)

text \<open>The three ways a request call ends: refused with an answer on the admission channel, the
  caller gone before its admission, or admitted.\<close>

lemma OnRequest_cases:
  obtains (refused) err where "OnRequest plan req s = snd (sendAdmission req (Some err) s)"
      "(ModelState (effects s) (Model req) = None \<and> err = ErrModelNotFound) \<or>
       (StatusRead req \<and> ModelState (effects s) (Model req) \<noteq> Some StateReady \<and>
         map_of (active s) (Model req) = None \<and> err = ErrModelNotLoaded)"
  | (left) s1 where "sendAdmission req None s = (False, s1)" "OnRequest plan req s = s1"
  | (admit) state s1 where "ModelState (effects s) (Model req) = Some state"
      "sendAdmission req None s = (True, s1)"
      "\<not> (StatusRead req \<and> state \<noteq> StateReady \<and> map_of (active s) (Model req) = None)"
      "OnRequest plan req s = admitted plan state (numbered req s1) (counted s1)"
proof (cases "ModelState (effects s) (Model req)")
  case None
  then show ?thesis by (intro refused[of ErrModelNotFound]) (simp_all add: OnRequest_admitted)
next
  case (Some state)
  show ?thesis
  proof (cases "StatusRead req \<and> state \<noteq> StateReady \<and> map_of (active s) (Model req) = None")
    case True
    with Some show ?thesis by (intro refused[of ErrModelNotLoaded]) (simp_all add: OnRequest_admitted)
  next
    case False
    obtain ok s1 where adm: "sendAdmission req None s = (ok, s1)" by fastforce
    have eq: "OnRequest plan req s = (if ok then admitted plan state (numbered req s1) (counted s1) else s1)"
      unfolding OnRequest_admitted Some option.case adm prod.case by (simp only: False if_False)
    show ?thesis
    proof (cases ok)
      case True
      with eq adm Some False show ?thesis by (intro admit[of state s1]) simp_all
    next
      case notok: False
      with eq adm show ?thesis by (intro left[of s1]) simp_all
    qed
  qed
qed

lemma sendAdmission_frame [fifo_frame]:
  "queued (snd (sendAdmission r err s)) = queued s" "penalized (snd (sendAdmission r err s)) = penalized s"
  "active (snd (sendAdmission r err s)) = active s" "inFlight (snd (sendAdmission r err s)) = inFlight s"
  "cfg (snd (sendAdmission r err s)) = cfg s" "limits (snd (sendAdmission r err s)) = limits s"
  "kvInFlight (snd (sendAdmission r err s)) = kvInFlight s" "capacity (snd (sendAdmission r err s)) = capacity s"
  "nextArrivalSeq (snd (sendAdmission r err s)) = nextArrivalSeq s"
  "walkedAway (effects (snd (sendAdmission r err s))) = walkedAway (effects s)"
  "processes (effects (snd (sendAdmission r err s))) = processes (effects s)"
  "positions (effects (snd (sendAdmission r err s))) = positions (effects s)"
  "heldGates (effects (snd (sendAdmission r err s))) = heldGates (effects s)"
  by (simp_all add: sendAdmission_def)

lemma attempt_parked:
  assumes "attempt plan state req s = Parked r s'"
  shows "same_req r req" "quiet s s'"
  using assms unfolding attempt_def Let_def
  by (auto split: option.splits if_splits prod.splits bool.splits intro: deferred_quiet)

lemma attempt_handled:
  assumes "attempt plan state req s = Handled s'"
  obtains (join) sw where "map_of (active s) (Model req) = Some sw" "s' = joinSwap (markParked ParkLoading req) sw s"
  | (grant) "map_of (active s) (Model req) = None" "\<not> atCapacity s req" "state = StateReady"
      "plan (Model req) (runningSet s (Model req)) = []" "\<not> collidesWith (Model req) [] (active s)"
      "kvAdmit s (Model req) (EstimatedTokens req)" "kvWarmBlocker s req = None"
      "s' = grantHandler plan req (Model req) s"
  using assms unfolding attempt_def Let_def
  by (auto split: option.splits if_splits prod.splits bool.splits)

lemma attempt_started:
  assumes "attempt plan state req s = Started s'"
  shows "\<exists>s1. map_of (active s) (Model req) = None \<and> \<not> atCapacity s req \<and>
    \<not> collidesWith (Model req) (plan (Model req) (runningSet s (Model req))) (active s) \<and>
    \<not> conflictsWithInFlight (plan (Model req) (runningSet s (Model req))) (inFlight s) \<and>
    deferredByGrace req (plan (Model req) (runningSet s (Model req))) s = (False, s1) \<and> quiet s s1 \<and>
    s' = startSwap (markParked ParkLoading req) (plan (Model req) (runningSet s (Model req))) s1"
  using assms unfolding attempt_def Let_def
  by (auto split: option.splits if_splits prod.splits bool.splits intro: deferred_quiet)

end
