(* ===== verification/FifoSafety.thy ===== *)
theory FifoSafety
  imports FifoQueue
begin

text \<open>
  The scheduler as a state machine: one event at a time (\<open>base.go\<close>, \<open>run\<close>), the reachable states,
  and the invariants that hold in all of them: the queue is sorted, and the swaps under way never
  interfere with each other or with requests being served.
\<close>

section \<open>The run loop\<close>

text \<open>The cases of the \<open>select\<close> in \<open>run\<close>, the two calls other goroutines make on the scheduler, and
  \<open>EvWorld\<close>: between two events process states, the clock, the callers and the penalty gates change.\<close>

datatype event =
    EvRequest HandlerReq
  | EvCancel HandlerReq
  | EvSwapDone SwapDone
  | EvServeDone ServeDoneEvent
  | EvTick
  | EvUnload "string list"
  | EvFinishCooldown
  | EvEndSlotCooldown string
  | EvWorld Effects

fun handle :: "planner \<Rightarrow> event \<Rightarrow> FIFO \<Rightarrow> FIFO" where
  "handle plan (EvRequest r) s = OnRequest plan r s"
| "handle plan (EvCancel r) s = OnCancel plan r s"
| "handle plan (EvSwapDone ev) s = OnSwapDone plan ev s"
| "handle plan (EvServeDone ev) s = OnServeDone plan ev s"
| "handle plan EvTick s = OnTick plan s"
| "handle plan (EvUnload ts) s = OnUnload plan ts s"
| "handle plan EvFinishCooldown s = FinishCooldown s"
| "handle plan (EvEndSlotCooldown ses) s = EndSlotCooldown ses s"
| "handle plan (EvWorld e) s =
     s\<lparr>effects := e\<lparr>elog := elog (effects s), positions := positions (effects s)\<rparr>\<rparr>"

inductive reach :: "planner \<Rightarrow> FifoConfig \<Rightarrow> (string, ModelConfig) gomap \<Rightarrow> FIFO \<Rightarrow> bool"
  for plan c models where
  init: "reach plan c models (NewFIFO c models eff)"
| step: "reach plan c models s \<Longrightarrow> reach plan c models (handle plan ev s)"

text \<open>The planner of a router: \<open>router.go\<close> builds a group or a matrix router.\<close>

datatype router = GroupRouter groupSwapper | MatrixRouter MatrixConfig "(string, ModelConfig) gomap"

fun plannerOf :: "router \<Rightarrow> planner" where
  "plannerOf (GroupRouter g) = groupEvictionFor g"
| "plannerOf (MatrixRouter mtx models) = matrixPlan mtx models"

interpretation router: swapper "plannerOf r" for r
  by (cases r) (simp_all add: group.swapper_axioms matrix.swapper_axioms)

section \<open>Swaps under way\<close>

text \<open>Every active swap is filed under its target, does not evict its target, and its waiters ask for
  it; nobody is being served by a model it evicts; and two swaps share no evicted model and do
  not evict each other's target.\<close>

definition swap_ok :: "(string, int) gomap \<Rightarrow> string \<Rightarrow> activeSwap \<Rightarrow> bool" where
  "swap_ok infl m sw \<longleftrightarrow> as_modelID sw = m \<and> m \<notin> set (as_evict sw) \<and>
     (\<forall>w \<in> set (as_waiters sw). Model w = m) \<and> (\<forall>v \<in> set (as_evict sw). mint infl v \<le> 0)"

definition compatible :: "string \<Rightarrow> activeSwap \<Rightarrow> string \<Rightarrow> activeSwap \<Rightarrow> bool" where
  "compatible m sw m' sw' \<longleftrightarrow> m' \<notin> set (as_evict sw) \<and> m \<notin> set (as_evict sw') \<and>
     set (as_evict sw) \<inter> set (as_evict sw') = {}"

definition swaps_ok :: "(string, activeSwap) gomap \<Rightarrow> (string, int) gomap \<Rightarrow> bool" where
  "swaps_ok act infl \<longleftrightarrow> distinct (map fst act) \<and>
     (\<forall>m sw. map_of act m = Some sw \<longrightarrow> swap_ok infl m sw) \<and>
     (\<forall>m sw m' sw'. map_of act m = Some sw \<longrightarrow> map_of act m' = Some sw' \<longrightarrow> m \<noteq> m' \<longrightarrow> compatible m sw m' sw')"

lemma swaps_okD:
  assumes "swaps_ok act infl"
  shows "distinct (map fst act)" "map_of act m = Some sw \<Longrightarrow> swap_ok infl m sw"
    "map_of act m = Some sw \<Longrightarrow> map_of act m' = Some sw' \<Longrightarrow> m \<noteq> m' \<Longrightarrow> compatible m sw m' sw'"
  using assms unfolding swaps_ok_def by blast+

lemma swaps_okI:
  assumes "distinct (map fst act)" "\<And>m sw. map_of act m = Some sw \<Longrightarrow> swap_ok infl m sw"
    "\<And>m sw m' sw'. map_of act m = Some sw \<Longrightarrow> map_of act m' = Some sw' \<Longrightarrow> m \<noteq> m' \<Longrightarrow> compatible m sw m' sw'"
  shows "swaps_ok act infl"
  unfolding swaps_ok_def using assms by blast

lemma swaps_ok_Nil [simp]: "swaps_ok [] infl"
  by (simp add: swaps_ok_def)

lemma not_collides:
  assumes "\<not> collidesWith m ev act" "distinct (map fst act)" "map_of act m' = Some sw" "m' \<noteq> m"
  shows "compatible m' sw m \<lparr>as_modelID = m, as_evict = ev, as_waiters = ws\<rparr>"
proof -
  have "(m', sw) \<in> set act" using assms(3) by (rule map_of_SomeD)
  with assms(1,4) show ?thesis unfolding collidesWith_def compatible_def
    by (auto simp: disjoint_iff)
qed

lemma compatible_sym: "compatible m sw m' sw' \<Longrightarrow> compatible m' sw' m sw"
  by (auto simp: compatible_def)

lemma swaps_ok_start:
  assumes ok: "swaps_ok act infl" and new: "map_of act m = None"
    and free: "\<not> collidesWith m ev act" "\<not> conflictsWithInFlight ev infl" "m \<notin> set ev"
    and ws: "\<forall>w \<in> set ws. Model w = m"
  shows "swaps_ok (mput m \<lparr>as_modelID = m, as_evict = ev, as_waiters = ws\<rparr> act) infl"
proof (rule swaps_okI)
  show "distinct (map fst (mput m \<lparr>as_modelID = m, as_evict = ev, as_waiters = ws\<rparr> act))"
    using swaps_okD(1)[OF ok] by simp
next
  fix m1 sw1 assume "map_of (mput m \<lparr>as_modelID = m, as_evict = ev, as_waiters = ws\<rparr> act) m1 = Some sw1"
  then show "swap_ok infl m1 sw1" using swaps_okD(2)[OF ok] free ws
    by (auto simp: swap_ok_def conflictsWithInFlight_def not_less split: if_splits)
next
  fix m1 sw1 m2 sw2
  assume l: "map_of (mput m \<lparr>as_modelID = m, as_evict = ev, as_waiters = ws\<rparr> act) m1 = Some sw1"
    "map_of (mput m \<lparr>as_modelID = m, as_evict = ev, as_waiters = ws\<rparr> act) m2 = Some sw2" "m1 \<noteq> m2"
  note nc = not_collides[OF free(1) swaps_okD(1)[OF ok], where ws = ws]
  consider "m1 = m" | "m2 = m" | "m1 \<noteq> m" "m2 \<noteq> m" by blast
  then show "compatible m1 sw1 m2 sw2"
  proof cases
    case 1
    with l have "sw1 = \<lparr>as_modelID = m, as_evict = ev, as_waiters = ws\<rparr>" "map_of act m2 = Some sw2" by auto
    with nc[of m2 sw2] l 1 show ?thesis using compatible_sym by simp
  next
    case 2
    with l have "sw2 = \<lparr>as_modelID = m, as_evict = ev, as_waiters = ws\<rparr>" "map_of act m1 = Some sw1" by auto
    with nc[of m1 sw1] l 2 show ?thesis by simp
  next
    case 3
    with l swaps_okD(3)[OF ok] show ?thesis by simp
  qed
qed

text \<open>Changing waiters only.\<close>

lemma swaps_ok_waiters:
  assumes ok: "swaps_ok act infl" and keys: "distinct (map fst act')"
    and same: "\<And>m sw'. map_of act' m = Some sw' \<Longrightarrow> \<exists>sw. map_of act m = Some sw \<and> as_modelID sw' = as_modelID sw \<and>
        as_evict sw' = as_evict sw \<and> (\<forall>w \<in> set (as_waiters sw'). Model w = m)"
  shows "swaps_ok act' infl"
proof (rule swaps_okI)
  show "distinct (map fst act')" by (rule keys)
next
  fix m sw' assume "map_of act' m = Some sw'"
  with same obtain sw where "map_of act m = Some sw" "as_modelID sw' = as_modelID sw" "as_evict sw' = as_evict sw"
    "\<forall>w \<in> set (as_waiters sw'). Model w = m" by blast
  with swaps_okD(2)[OF ok] show "swap_ok infl m sw'" by (auto simp: swap_ok_def)
next
  fix m sw m' sw' assume a: "map_of act' m = Some sw" "map_of act' m' = Some sw'" "m \<noteq> m'"
  from same[OF a(1)] same[OF a(2)] obtain s1 s2 where "map_of act m = Some s1" "as_evict sw = as_evict s1"
    "map_of act m' = Some s2" "as_evict sw' = as_evict s2" by blast
  with swaps_okD(3)[OF ok] a(3) show "compatible m sw m' sw'" unfolding compatible_def by metis
qed

lemma swaps_ok_join:
  assumes "swaps_ok act infl" "map_of act (Model r) = Some sw"
  shows "swaps_ok (mput (Model r) (sw\<lparr>as_waiters := as_waiters sw @ [r]\<rparr>) act) infl"
  using swaps_okD(1)[OF assms(1)] swaps_okD(2)[OF assms(1)] assms(2)
  by (intro swaps_ok_waiters[OF assms(1)]) (auto simp: swap_ok_def simp del: map_of_eq_Some_iff split: if_splits)

lemma swaps_ok_filter:
  assumes "swaps_ok act infl"
  shows "swaps_ok (map (\<lambda>(id, sw). (id, sw\<lparr>as_waiters := filter P (as_waiters sw)\<rparr>)) act) infl"
proof (rule swaps_ok_waiters[OF assms])
  show "distinct (map fst (map (\<lambda>(id, sw). (id, sw\<lparr>as_waiters := filter P (as_waiters sw)\<rparr>)) act))"
    using swaps_okD(1)[OF assms] by (simp add: o_def case_prod_unfold)
next
  fix m sw' assume "map_of (map (\<lambda>(id, sw). (id, sw\<lparr>as_waiters := filter P (as_waiters sw)\<rparr>)) act) m = Some sw'"
  then obtain sw where "map_of act m = Some sw" "sw' = sw\<lparr>as_waiters := filter P (as_waiters sw)\<rparr>"
    by (auto simp: map_of_map[where f = "\<lambda>sw. sw\<lparr>as_waiters := filter P (as_waiters sw)\<rparr>"])
  with swaps_okD(2)[OF assms] show "\<exists>sw. map_of act m = Some sw \<and> as_modelID sw' = as_modelID sw \<and>
      as_evict sw' = as_evict sw \<and> (\<forall>w \<in> set (as_waiters sw'). Model w = m)"
    by (auto simp: swap_ok_def)
qed

lemma swaps_ok_del: "swaps_ok act infl \<Longrightarrow> swaps_ok (mdel m act) infl"
  by (auto simp: swaps_ok_def split: if_splits)

lemma swaps_ok_infl:
  assumes "swaps_ok act infl" "\<And>m sw v. map_of act m = Some sw \<Longrightarrow> v \<in> set (as_evict sw) \<Longrightarrow> mint infl' v \<le> 0"
  shows "swaps_ok act infl'"
  using assms unfolding swaps_ok_def swap_ok_def by blast

text \<open>A request may be granted on a model no swap evicts.\<close>

lemma swaps_ok_grant:
  assumes "swaps_ok act infl" "\<And>m' sw. map_of act m' = Some sw \<Longrightarrow> m \<notin> set (as_evict sw)"
  shows "swaps_ok act (mput m x infl)"
proof (rule swaps_ok_infl[OF assms(1)])
  fix m' sw v assume "map_of act m' = Some sw" "v \<in> set (as_evict sw)"
  with assms(2) swaps_okD(2)[OF assms(1)] show "mint (mput m x infl) v \<le> 0" by (auto simp: swap_ok_def)
qed

section \<open>The invariant and the operations\<close>

definition fifo_inv :: "FIFO \<Rightarrow> bool" where
  "fifo_inv s \<longleftrightarrow> queue_ok (cfg s) (queued s) \<and> swaps_ok (active s) (inFlight s)"

lemma inv_cong:
  "fifo_inv s \<Longrightarrow> queued s' = queued s \<Longrightarrow> cfg s' = cfg s \<Longrightarrow> active s' = active s \<Longrightarrow> inFlight s' = inFlight s \<Longrightarrow> fifo_inv s'"
  by (simp add: fifo_inv_def)

lemma inv_quiet:
  assumes "fifo_inv s" "quiet s s'"
  shows "fifo_inv s'"
  using assms(1) by (simp add: fifo_inv_def quietD[OF assms(2)])

lemma inv_enqueue: "fifo_inv s \<Longrightarrow> fifo_inv (enqueue plan r s)"
  by (simp add: fifo_inv_def fifo_frame insertQueued_sorted)

lemma inv_grant:
  assumes "fifo_inv s" "\<And>m' sw. map_of (active s) m' = Some sw \<Longrightarrow> m \<notin> set (as_evict sw)"
  shows "fifo_inv (grantHandler plan r m s)"
  using assms swaps_ok_grant by (simp add: fifo_inv_def fifo_frame grantHandler_inFlight)

context swapper
begin

lemma attempt_inv:
  assumes inv: "fifo_inv s"
  shows "attempt EvictionFor state req s = Parked r s' \<Longrightarrow> fifo_inv s' \<and> queued s' = queued s \<and> cfg s' = cfg s"
    "attempt EvictionFor state req s = Handled s' \<Longrightarrow> fifo_inv s' \<and> queued s' = queued s \<and> cfg s' = cfg s"
    "attempt EvictionFor state req s = Started s' \<Longrightarrow> fifo_inv s' \<and> queued s' = queued s \<and> cfg s' = cfg s"
proof -
  assume "attempt EvictionFor state req s = Parked r s'"
  then have "quiet s s'" by (rule attempt_parked)
  with inv show "fifo_inv s' \<and> queued s' = queued s \<and> cfg s' = cfg s" by (simp add: inv_quiet quietD)
next
  assume "attempt EvictionFor state req s = Handled s'"
  then show "fifo_inv s' \<and> queued s' = queued s \<and> cfg s' = cfg s"
  proof (cases rule: attempt_handled)
    case (join sw)
    with inv swaps_ok_join[of "active s" "inFlight s" "markParked ParkLoading req" sw]
    show ?thesis by (simp add: fifo_inv_def fifo_frame) (simp add: joinSwap_def)
  next
    case grant
    have "Model req \<notin> set (as_evict sw)" if "map_of (active s) m' = Some sw" for m' sw
    proof -
      have "m' \<noteq> Model req" using that grant(1) by auto
      moreover have "(m', sw) \<in> set (active s)" using that by (rule map_of_SomeD)
      ultimately show ?thesis using grant(5) by (auto simp: collidesWith_def)
    qed
    with inv inv_grant grant(8) show ?thesis by (simp add: fifo_frame)
  qed
next
  assume "attempt EvictionFor state req s = Started s'"
  from attempt_started[OF this] obtain s1 where a: "map_of (active s) (Model req) = None"
    "\<not> collidesWith (Model req) (EvictionFor (Model req) (runningSet s (Model req))) (active s)"
    "\<not> conflictsWithInFlight (EvictionFor (Model req) (runningSet s (Model req))) (inFlight s)"
    "quiet s s1" "s' = startSwap (markParked ParkLoading req) (EvictionFor (Model req) (runningSet s (Model req))) s1"
    by blast
  have "swaps_ok (active s') (inFlight s')"
    using swaps_ok_start[OF _ a(1-3) not_target, of "[markParked ParkLoading req]"] inv
    by (simp add: a(5) fifo_frame quietD[OF a(4)] fifo_inv_def)
  with inv show "fifo_inv s' \<and> queued s' = queued s \<and> cfg s' = cfg s"
    by (simp add: a(5) fifo_frame quietD[OF a(4)] fifo_inv_def)
qed

section \<open>Draining keeps the invariant\<close>

lemma queue_ok_drop: "queue_ok c (xs @ y # ys) \<Longrightarrow> queue_ok c (xs @ ys)"
  by (auto simp: queue_ok_def sorted_append)

lemma queue_ok_same: "queue_ok c (xs @ y # ys) \<Longrightarrow> same_req y' y \<Longrightarrow> queue_ok c ((xs @ [y']) @ ys)"
  by (simp add: queue_ok_def)

definition drain_inv :: "FifoConfig \<Rightarrow> drain \<Rightarrow> HandlerReq list \<Rightarrow> bool" where
  "drain_inv c d ps \<longleftrightarrow> (case d of (s, remaining, barrier) \<Rightarrow>
     fifo_inv s \<and> cfg s = c \<and> queue_ok c (remaining @ ps))"

lemma drainStep_inv:
  assumes d: "drain_inv c d (req # ps)"
  shows "drain_inv c (drainStep EvictionFor d req) ps"
proof -
  obtain s remaining barrier where d_eq: "d = (s, remaining, barrier)" by (cases d)
  have i: "fifo_inv s" "cfg s = c" and q: "queue_ok c (remaining @ req # ps)"
    using d by (auto simp: drain_inv_def d_eq)
  note dr = queue_ok_drop[OF q] and same = queue_ok_same[OF q]
  show ?thesis
  proof (cases "barred barrier req")
    case True
    with i same[of "markParked ParkRank req"] show ?thesis by (simp add: d_eq drainStep_attempt drain_inv_def)
  next
    case nb: False
    show ?thesis
    proof (cases "ModelState (effects s) (Model req)")
      case None
      with nb i dr show ?thesis by (simp add: d_eq drainStep_attempt drain_inv_def fifo_inv_def)
    next
      case (Some state)
      show ?thesis
      proof (cases "attempt EvictionFor state req s")
        case (Parked r s')
        with attempt_inv(1)[OF i(1) Parked] attempt_parked(1)[OF Parked] i same Some nb
        show ?thesis by (simp add: d_eq drainStep_attempt drain_inv_def stick_def)
      next
        case (Handled s')
        with attempt_inv(2)[OF i(1) Handled] i dr Some nb
        show ?thesis by (simp add: d_eq drainStep_attempt drain_inv_def)
      next
        case (Started s')
        with attempt_inv(3)[OF i(1) Started] i dr Some nb
        show ?thesis by (simp add: d_eq drainStep_attempt drain_inv_def)
      qed
    qed
  qed
qed

lemma drain_fold_inv:
  assumes "drain_inv c d ps"
  shows "drain_inv c (foldl (drainStep EvictionFor) d ps) []"
  using assms(1) by (induction ps arbitrary: d) (simp_all add: drainStep_inv)

lemma drainQueue_inv:
  assumes "fifo_inv s"
  shows "fifo_inv (drainQueue EvictionFor s)"
proof (cases "queued s = []")
  case False
  obtain s1 remaining b where f: "foldl (drainStep EvictionFor) (s, [], None) (queued s) = (s1, remaining, b)"
    by (cases "foldl (drainStep EvictionFor) (s, [], None) (queued s)")
  have "drain_inv (cfg s) (s, [], None) (queued s)" using assms(1) by (simp add: drain_inv_def fifo_inv_def)
  from drain_fold_inv[OF this] have "fifo_inv s1" "cfg s1 = cfg s" "queue_ok (cfg s) remaining"
    by (auto simp: f drain_inv_def)
  then show ?thesis using False by (simp add: drainQueue_def f fifo_inv_def fifo_frame Let_def)
qed (simp add: drainQueue_def assms)

section \<open>Every event keeps the invariant\<close>

lemma admitted_inv:
  assumes i: "fifo_inv s"
  shows "fifo_inv (admitted EvictionFor state req s)"
proof -
  have "fifo_inv (case attempt EvictionFor state req s of Parked r s' \<Rightarrow> enqueue EvictionFor r s'
      | Handled s' \<Rightarrow> s' | Started s' \<Rightarrow> publish EvictionFor s')"
  proof (cases "attempt EvictionFor state req s")
    case (Parked r s')
    with attempt_inv(1)[OF i Parked] inv_enqueue show ?thesis by simp
  next
    case (Handled s')
    with attempt_inv(2)[OF i Handled] show ?thesis by simp
  next
    case (Started s')
    with attempt_inv(3)[OF i Started] show ?thesis by (auto simp: fifo_inv_def fifo_frame)
  qed
  moreover have "fifo_inv (publish EvictionFor (s\<lparr>penalized := penalized s @ [markParked ParkPenalized req]\<rparr>))"
    using i by (simp add: fifo_inv_def fifo_frame)
  ultimately show ?thesis using inv_enqueue[OF i] by (simp add: admitted_def)
qed

lemma OnRequest_inv:
  assumes i: "fifo_inv s"
  shows "fifo_inv (OnRequest EvictionFor req s)"
proof -
  have send: "fifo_inv (snd (sendAdmission req err s))" for err
    using i by (simp add: fifo_inv_def fifo_frame)
  show ?thesis
  proof (cases rule: OnRequest_cases[of EvictionFor req s, case_names refused left admit])
    case (refused err)
    with send show ?thesis by simp
  next
    case (left s1)
    with send[of None] show ?thesis by simp
  next
    case (admit state s1)
    with send[of None] have "fifo_inv (counted s1)" by (simp add: fifo_inv_def)
    with admit admitted_inv show ?thesis by simp
  qed
qed

lemma OnCancel_inv: "fifo_inv s \<Longrightarrow> fifo_inv (OnCancel EvictionFor req s)"
proof -
  assume i: "fifo_inv s"
  then have "queue_ok (cfg s) (filter P (queued s))" for P
    unfolding fifo_inv_def queue_ok_def by (simp add: sorted_filter)
  moreover have "queued s = [] \<Longrightarrow> queue_ok (cfg s) []" by (simp add: queue_ok_def)
  ultimately show ?thesis using i swaps_ok_filter
    by (simp add: OnCancel_def Let_def fifo_inv_def fifo_frame)
qed

lemma swapWaiter_inv:
  assumes "fifo_inv s" "\<And>m' sw. map_of (active s) m' = Some sw \<Longrightarrow> sd_ModelID ev \<notin> set (as_evict sw)"
  shows "fifo_inv (swapWaiter EvictionFor ev s w) \<and> active (swapWaiter EvictionFor ev s w) = active s"
proof (cases "sd_Err ev")
  case None
  with assms(1) inv_enqueue inv_grant[OF assms(1), of "sd_ModelID ev"] assms(2)
  show ?thesis by (simp add: swapWaiter_def fifo_frame)
next
  case (Some err)
  with assms show ?thesis by (simp add: swapWaiter_def fifo_inv_def)
qed

lemma foldl_swapWaiter_inv:
  assumes "fifo_inv s" "\<And>m' sw. map_of (active s) m' = Some sw \<Longrightarrow> sd_ModelID ev \<notin> set (as_evict sw)"
  shows "fifo_inv (foldl (swapWaiter EvictionFor ev) s ws)"
  using assms
proof (induction ws arbitrary: s)
  case (Cons w ws)
  have "fifo_inv (swapWaiter EvictionFor ev s w)" "active (swapWaiter EvictionFor ev s w) = active s"
    using swapWaiter_inv[of s ev w] Cons.prems by blast+
  with Cons.IH[of "swapWaiter EvictionFor ev s w"] Cons.prems(2) show ?case by simp
qed simp

lemma OnSwapDone_inv:
  assumes i: "fifo_inv s"
  shows "fifo_inv (OnSwapDone EvictionFor ev s)"
proof (cases "map_of (active s) (sd_ModelID ev)")
  case (Some sw)
  let ?s1 = "s\<lparr>active := mdel (sd_ModelID ev) (active s)\<rparr>"
  let ?s2 = "if sd_Err ev = None then ?s1\<lparr>idleSince := mput (sd_ModelID ev) (now ?s1) (idleSince ?s1)\<rparr> else ?s1"
  have ok: "swaps_ok (active s) (inFlight s)" using i by (simp add: fifo_inv_def)
  have "fifo_inv ?s2" using i swaps_ok_del by (simp add: fifo_inv_def)
  moreover have "sd_ModelID ev \<notin> set (as_evict sw')" if "map_of (active ?s2) m' = Some sw'" for m' sw'
    using that swaps_okD(3)[OF ok _ Some, of m' sw'] by (auto simp: compatible_def split: if_splits)
  ultimately have "fifo_inv (foldl (swapWaiter EvictionFor ev) ?s2 (as_waiters sw))"
    by (rule foldl_swapWaiter_inv)
  with drainQueue_inv Some show ?thesis by (simp add: OnSwapDone_def Let_def)
qed (simp add: OnSwapDone_def i)

lemma inv_less_busy:
  assumes "fifo_inv s" "queued s' = queued s" "cfg s' = cfg s" "active s' = active s"
    "\<And>v. mint (inFlight s) v \<le> 0 \<Longrightarrow> mint (inFlight s') v \<le> 0"
  shows "fifo_inv s'"
  using assms unfolding fifo_inv_def swaps_ok_def swap_ok_def by auto

lemma unserved_inFlight:
  "mint (inFlight (unserved ev s)) v =
     (if v = ev_ModelID ev \<and> \<not> ev_CapReleased ev then mint (inFlight s) v - 1 else mint (inFlight s) v)"
  by (simp add: unserved_def fifo_frame)

lemma afterServe_frame:
  "queued (afterServe plan ev s) = queued s" "cfg (afterServe plan ev s) = cfg s"
  "active (afterServe plan ev s) = active s" "penalized (afterServe plan ev s) = penalized s"
  "effects (afterServe plan ev s) = effects s" "limits (afterServe plan ev s) = limits s"
  "nextArrivalSeq (afterServe plan ev s) = nextArrivalSeq s"
  "mint (inFlight (afterServe plan ev s)) v =
     (if v = ev_ModelID ev then max 0 (mint (inFlight (unserved ev s)) v) else mint (inFlight s) v)"
  by (auto simp: afterServe_def idleAfter_def fifo_frame Let_def unserved_inFlight) (auto simp: unserved_def fifo_frame)

lemma capReleased_frame:
  "queued (capReleased m s) = queued s" "cfg (capReleased m s) = cfg s"
  "active (capReleased m s) = active s" "penalized (capReleased m s) = penalized s"
  "effects (capReleased m s) = effects s" "limits (capReleased m s) = limits s"
  "nextArrivalSeq (capReleased m s) = nextArrivalSeq s"
  "mint (inFlight (capReleased m s)) v =
     (if v = m \<and> 0 < mint (inFlight s) m then mint (inFlight s) v - 1 else mint (inFlight s) v)"
  by (simp_all add: capReleased_def fifo_frame)

lemma OnServeDone_inv:
  assumes i: "fifo_inv s"
  shows "fifo_inv (OnServeDone EvictionFor ev s)"
proof -
  have "fifo_inv (capReleased (ev_ModelID ev) s)"
    by (rule inv_less_busy[OF i]) (auto simp: capReleased_frame)
  moreover have "fifo_inv (afterServe EvictionFor ev s)"
    by (rule inv_less_busy[OF i]) (auto simp: afterServe_frame unserved_inFlight split: if_splits)
  ultimately show ?thesis using i drainQueue_inv
    by (cases rule: OnServeDone_cases[of ev EvictionFor s, case_names status cap drained settled]) simp_all
qed

lemma releasePenalized_fold:
  assumes "fifo_inv s"
  shows "fifo_inv (snd (foldl (\<lambda>(kept, s) req. if penaltyHeldUnder s req cont then (kept @ [req], s)
      else (kept, enqueue EvictionFor req s)) (kept, s) ps))"
  using assms by (induction ps arbitrary: kept s) (auto simp: inv_enqueue)

lemma OnTick_inv:
  assumes i: "fifo_inv s"
  shows "fifo_inv (OnTick EvictionFor s)"
proof -
  have "fifo_inv (releasePenalized EvictionFor s)"
    using releasePenalized_fold[OF i, of "contended s" "[]" "penalized s"]
    by (simp add: releasePenalized_def Let_def fifo_inv_def case_prod_beta)
  moreover have "fifo_inv (snd (consumeForced (expireForcedGrace (snd (consumeForced s1)))))" if "fifo_inv s1" for s1
    using that by (simp add: consumeForced_def expireForcedGrace_def consumeGraceExpiredForced_def
        kvWarmEndCooldowns_def Let_def fifo_inv_def)
  moreover have "fifo_inv (case consumeGraceExpiredForced s1 of (forced, s2) \<Rightarrow> if forced then kvWarmEndCooldowns s2 else s2)"
    if "fifo_inv s1" for s1
    using that by (simp add: consumeGraceExpiredForced_def kvWarmEndCooldowns_def fifo_inv_def)
  ultimately have "fifo_inv (drainQueue EvictionFor (if queued (releasePenalized EvictionFor s) = []
      then snd (consumeForced (expireForcedGrace (snd (consumeForced (releasePenalized EvictionFor s)))))
      else (case consumeGraceExpiredForced (releasePenalized EvictionFor s) of
        (forced, s2) \<Rightarrow> if forced then kvWarmEndCooldowns s2 else s2)))"
    by (intro drainQueue_inv) simp
  then show ?thesis unfolding OnTick_def Let_def by (simp add: fifo_inv_def fifo_frame)
qed

lemma unloadWaiters_inv: "fifo_inv s \<Longrightarrow> fifo_inv (unloadWaiters ts s)"
proof -
  have "fifo_inv s \<Longrightarrow> fifo_inv (foldl (\<lambda>s id. case map_of (active s) id of None \<Rightarrow> s
      | Some sw \<Rightarrow> (upd_effects (\<lambda>e. foldl (\<lambda>e w. GrantError w ErrUnloaded e) e (as_waiters sw)) s)\<lparr>active := mdel id (active s)\<rparr>) s ids)"
    for ids s
  proof (induction ids arbitrary: s)
    case (Cons id ids)
    show ?case
    proof (cases "map_of (active s) id")
      case None
      with Cons show ?thesis by simp
    next
      case (Some sw)
      with Cons.prems swaps_ok_del show ?thesis by simp (intro Cons.IH, simp add: fifo_inv_def)
    qed
  qed simp
  then show "fifo_inv s \<Longrightarrow> fifo_inv (unloadWaiters ts s)" by (simp add: unloadWaiters_def)
qed

lemma queue_ok_filter: "queue_ok c q \<Longrightarrow> queue_ok c (filter P q)"
  by (simp add: queue_ok_def sorted_filter)

lemma OnUnload_inv:
  assumes i: "fifo_inv s"
  shows "fifo_inv (OnUnload EvictionFor ts s)"
proof -
  have "fifo_inv (kvWarmForget ts s)" using i by (simp add: fifo_inv_def fifo_frame)
  then have u: "fifo_inv (unloadWaiters ts (kvWarmForget ts s))" by (rule unloadWaiters_inv)
  then show ?thesis unfolding OnUnload_def Let_def
    by (intro drainQueue_inv) (auto simp: fifo_inv_def fifo_frame queue_ok_filter)
qed

lemma handle_inv:
  assumes i: "fifo_inv s"
  shows "fifo_inv (handle EvictionFor ev s)"
proof (cases ev)
  case (EvRequest r)
  show ?thesis unfolding EvRequest handle.simps by (rule OnRequest_inv[OF i])
next
  case (EvCancel r)
  show ?thesis unfolding EvCancel handle.simps by (rule OnCancel_inv[OF i])
next
  case (EvSwapDone e)
  show ?thesis unfolding EvSwapDone handle.simps by (rule OnSwapDone_inv[OF i])
next
  case (EvServeDone e)
  show ?thesis unfolding EvServeDone handle.simps by (rule OnServeDone_inv[OF i])
next
  case EvTick
  show ?thesis unfolding EvTick handle.simps by (rule OnTick_inv[OF i])
next
  case (EvUnload ts)
  show ?thesis unfolding EvUnload handle.simps by (rule OnUnload_inv[OF i])
next
  case EvFinishCooldown
  then show ?thesis using i by (simp add: FinishCooldown_def fifo_inv_def)
next
  case (EvEndSlotCooldown ses)
  then show ?thesis using i by (simp add: EndSlotCooldown_def fifo_inv_def)
next
  case (EvWorld e)
  then show ?thesis using i by (simp add: fifo_inv_def)
qed

lemma reach_inv: "reach EvictionFor c models s \<Longrightarrow> fifo_inv s"
  by (induction rule: reach.induct)
    (auto simp: handle_inv, simp add: NewFIFO_def fifo_inv_def queue_ok_def)

end

section \<open>Properties of every reachable state\<close>

text \<open>The running example: two models of one swapping group, \<open>a\<close> loaded and idle, a request for
  \<open>b\<close>.\<close>

definition exReq :: "nat \<Rightarrow> string \<Rightarrow> int \<Rightarrow> HandlerReq" where
  "exReq i m rank = \<lparr>Model = m, Ctx = i, Admit = True, Respond = i, EstimatedTokens = 0, Session = [],
     rTier = \<lparr>tName = ''t'', Rank = rank, Preempts = False, Preemptible = True\<rparr>, ConcurrencyExempt = False,
     SlotCooldownOff = False, StatusRead = False, PenaltyGate = False, parkReason = NotParked,
     waitingForSession = [], waitingForUntil = None, Preempted = Some i, Preempt = Some i, arrivalSeq = 0\<rparr>"

definition exModels :: "(string, ModelConfig) gomap" where
  "exModels = [(''a'', \<lparr>ConcurrencyLimit = 1, SwapGraceSeconds = 0, MaxParallelLargePrefill = 1\<rparr>),
     (''b'', \<lparr>ConcurrencyLimit = 0, SwapGraceSeconds = 5, MaxParallelLargePrefill = 1\<rparr>)]"

definition exCfg :: FifoConfig where
  "exCfg = \<lparr>Priority = [(''b'', 3)], KVPoolTokens = [], DecodeRetentionSeconds = 0\<rparr>"

definition exEffects :: Effects where
  "exEffects = \<lparr>processes = [(''a'', StateReady), (''b'', StateStopped)], clock = 1000 * Second,
     notAdmitting = [], walkedAway = [], heldGates = [], elog = [], positions = []\<rparr>"

definition exGroup :: groupSwapper where
  "exGroup = \<lparr>groups = [(''g'', \<lparr>gSwap = True, gExclusive = True, gPersistent = False, gMembers = [''a'', ''b'']\<rparr>)],
     modelToGroup = [(''a'', ''g''), (''b'', ''g'')]\<rparr>"

abbreviation exPlan :: planner where
  "exPlan \<equiv> plannerOf (GroupRouter exGroup)"

lemma reach_events: "reach plan c models s \<Longrightarrow> reach plan c models (foldl (\<lambda>s ev. handle plan ev s) s evs)"
  by (induction evs arbitrary: s) (auto intro: reach.step)

abbreviation exRun :: "event list \<Rightarrow> FIFO" where
  "exRun evs \<equiv> foldl (\<lambda>s ev. handle exPlan ev s) (NewFIFO exCfg exModels exEffects) evs"

lemma exRun_reach: "reach exPlan exCfg exModels (exRun evs)"
  by (rule reach_events) (rule reach.init)

text \<open>C7. Swaps never disturb each other or a request being served. In every reachable state, under
  either planner, an active swap does not evict its own target, no model it evicts has a request in
  flight, and two active swaps neither evict each other's target nor share an evicted model.\<close>

theorem swaps_never_disturb:
  assumes "reach (plannerOf r) c models s" "map_of (active s) m = Some sw"
  shows "m \<notin> set (as_evict sw) \<and> (\<forall>v \<in> set (as_evict sw). mint (inFlight s) v \<le> 0) \<and>
    (\<forall>w \<in> set (as_waiters sw). Model w = m) \<and>
    (\<forall>m' sw'. map_of (active s) m' = Some sw' \<and> m' \<noteq> m \<longrightarrow>
       m' \<notin> set (as_evict sw) \<and> set (as_evict sw) \<inter> set (as_evict sw') = {})"
proof -
  have ok: "swaps_ok (active s) (inFlight s)" using router.reach_inv[OF assms(1)] by (simp add: fifo_inv_def)
  have "m' \<notin> set (as_evict sw) \<and> set (as_evict sw) \<inter> set (as_evict sw') = {}"
    if "map_of (active s) m' = Some sw'" "m' \<noteq> m" for m' sw'
    using swaps_okD(3)[OF ok assms(2) that(1)] that(2) by (simp add: compatible_def)
  moreover have "swap_ok (inFlight s) m sw" by (rule swaps_okD(2)[OF ok assms(2)])
  ultimately show ?thesis unfolding swap_ok_def by blast
qed

theorem swaps_never_disturb_witness:
  "\<exists>sw. map_of (active (exRun [EvRequest (exReq 1 ''b'' 0)])) ''b'' = Some sw \<and> as_evict sw = [''a''] \<and>
     (\<forall>v \<in> set (as_evict sw). mint (inFlight (exRun [EvRequest (exReq 1 ''b'' 0)])) v \<le> 0)"
proof -
  have "map_option as_evict (map_of (active (exRun [EvRequest (exReq 1 ''b'' 0)])) ''b'') = Some [''a'']"
    by code_simp
  then obtain sw where sw: "map_of (active (exRun [EvRequest (exReq 1 ''b'' 0)])) ''b'' = Some sw" "as_evict sw = [''a'']"
    by blast
  from swaps_never_disturb[OF exRun_reach sw(1)] sw show ?thesis by blast
qed

text \<open>The queue is always served in order: in every reachable state it is sorted by rank, highest
  first, within a rank by model priority, and within a priority by arrival.\<close>

theorem queue_always_sorted:
  assumes "reach (plannerOf r) c models s" "i < j" "j < length (queued s)"
  shows "\<not> goesAhead (cfg s) (queued s ! j) (queued s ! i)"
proof -
  have "sorted (map (qkey (cfg s)) (queued s))"
    using router.reach_inv[OF assms(1)] by (simp add: fifo_inv_def queue_ok_def)
  then have "qkey (cfg s) (queued s ! i) \<le> qkey (cfg s) (queued s ! j)"
    using assms(2,3) by (simp add: sorted_iff_nth_mono_less)
  then show ?thesis by (simp add: goesAhead_key)
qed

theorem queue_always_sorted_witness:
  "map Respond (queued (exRun [EvRequest (exReq 1 ''a'' 0), EvRequest (exReq 2 ''a'' 0), EvRequest (exReq 3 ''b'' 1)])) = [3, 2] \<and>
   \<not> goesAhead exCfg (exReq 2 ''a'' 0) (exReq 3 ''b'' 1) \<and>
   \<not> goesAhead (cfg (exRun [EvRequest (exReq 1 ''a'' 0), EvRequest (exReq 2 ''a'' 0), EvRequest (exReq 3 ''b'' 1)]))
      (queued (exRun [EvRequest (exReq 1 ''a'' 0), EvRequest (exReq 2 ''a'' 0), EvRequest (exReq 3 ''b'' 1)]) ! 1)
      (queued (exRun [EvRequest (exReq 1 ''a'' 0), EvRequest (exReq 2 ''a'' 0), EvRequest (exReq 3 ''b'' 1)]) ! 0)"
proof -
  let ?s = "exRun [EvRequest (exReq 1 ''a'' 0), EvRequest (exReq 2 ''a'' 0), EvRequest (exReq 3 ''b'' 1)]"
  have q: "map Respond (queued ?s) = [3, 2]" by code_simp
  then have "1 < length (queued ?s)" by (metis length_map length_Cons lessI list.size(3) One_nat_def)
  from queue_always_sorted[OF exRun_reach _ this, of 0] q show ?thesis
    by (simp add: goesAhead_def exReq_def)
qed

end
