(* ===== verification/FifoConserve.thy ===== *)
theory FifoConserve
  imports FifoSafety
begin

text \<open>
  Conservation of requests. The books of the scheduler are the callers it holds (queued, penalized
  or waiting on a swap) and the answers it has given. Every event but an arrival and a
  cancellation leaves the books as they are, for every caller that has not walked away: no request is
  lost, and none is answered twice.
\<close>

section \<open>The books\<close>

definition waiting :: "(string, activeSwap) gomap \<Rightarrow> HandlerReq list" where
  "waiting act = concat (map (as_waiters \<circ> snd) act)"

fun answerOf :: "effect \<Rightarrow> nat list" where
  "answerOf (Served r m) = [Respond r]"
| "answerOf (Failed i err) = [i]"
| "answerOf _ = []"

definition answers :: "effect list \<Rightarrow> nat multiset" where
  "answers l = mset (concat (map answerOf l))"

text \<open>The books with \<open>q\<close> in place of the queue: what \<open>drainQueue\<close> works on.\<close>

definition booksQ :: "HandlerReq list \<Rightarrow> FIFO \<Rightarrow> nat multiset" where
  "booksQ q s = image_mset Respond (mset q + mset (penalized s) + mset (waiting (active s))) + answers (elog (effects s))"

abbreviation books :: "FIFO \<Rightarrow> nat multiset" where
  "books s \<equiv> booksQ (queued s) s"

definition held :: "FIFO \<Rightarrow> nat multiset" where
  "held s = image_mset Respond (mset (queued s) + mset (penalized s) + mset (waiting (active s)))"

lemma books_held: "books s = held s + answers (elog (effects s))"
  by (simp add: booksQ_def held_def)

text \<open>Two books agree on the callers outside \<open>W\<close>.\<close>

definition agree :: "nat set \<Rightarrow> nat multiset \<Rightarrow> nat multiset \<Rightarrow> bool" where
  "agree W A B \<longleftrightarrow> (\<forall>x. x \<notin> W \<longrightarrow> count A x = count B x)"

lemma agree_refl [simp]: "agree W A A"
  by (simp add: agree_def)

lemma agree_trans: "agree W A B \<Longrightarrow> agree W B C \<Longrightarrow> agree W A C"
  by (simp add: agree_def)

lemma agree_sym: "agree W A B \<Longrightarrow> agree W B A"
  by (simp add: agree_def)

lemma agree_add: "agree W A B \<Longrightarrow> agree W (A + C) (B + C)"
  by (simp add: agree_def)

lemma agree_skip: "x \<in> W \<Longrightarrow> agree W A (add_mset x A)"
  by (simp add: agree_def)

abbreviation gone :: "FIFO \<Rightarrow> nat set" where
  "gone s \<equiv> set (walkedAway (effects s))"

lemma answers_snoc [simp]:
  "answers (l @ l') = answers l + answers l'" "answers [] = {#}"
  "answers [Served r m] = {#Respond r#}" "answers [Failed i e] = {#i#}"
  "answers [SwapStarted m ev] = {#}" "answers [StoppedProcesses ms] = {#}" "answers [Booted b] = {#}"
  "answers [Admitted i e2] = {#}" "answers (map Booted bs) = {#}"
  by (auto simp: answers_def o_def)

lemma waiting_new: "map_of act k = None \<Longrightarrow> waiting (mput k sw act) = waiting act @ as_waiters sw"
  by (subst mput_new) (auto simp: waiting_def map_of_eq_None_iff dom_map_of_conv_image_fst)

lemma waiting_del:
  assumes "distinct (map fst act)" "map_of act k = Some sw"
  shows "mset (waiting act) = mset (as_waiters sw) + mset (waiting (mdel k act))"
  using assms
proof (induction act)
  case (Cons p act)
  obtain k' sw' where p: "p = (k', sw')" by (cases p)
  show ?case
  proof (cases "k' = k")
    case True
    with Cons.prems p have "sw' = sw" "k \<notin> fst ` set act" by auto
    then have "mdel k (p # act) = act" using True p by (simp add: mdel_def AList.delete_idem)
    with \<open>sw' = sw\<close> show ?thesis by (simp add: waiting_def p)
  next
    case False
    with Cons p show ?thesis by (simp add: waiting_def mdel_def)
  qed
qed simp

lemma waiting_upd:
  assumes "distinct (map fst act)" "map_of act k = Some sw"
  shows "mset (waiting (mput k sw' act)) + mset (as_waiters sw) = mset (waiting act) + mset (as_waiters sw')"
  using assms
proof (induction act)
  case (Cons p act)
  obtain k' sw1 where p: "p = (k', sw1)" by (cases p)
  show ?case
  proof (cases "k' = k")
    case True
    with Cons.prems p show ?thesis by (simp add: waiting_def mput_def)
  next
    case False
    with Cons p have "mset (waiting (mput k sw' act)) + mset (as_waiters sw) = mset (waiting act) + mset (as_waiters sw')"
      by simp
    with False p show ?thesis by (simp add: waiting_def mput_def)
  qed
qed simp

section \<open>One request\<close>

lemma books_grant:
  "agree (gone s) (booksQ q (grantHandler plan r m s)) (add_mset (Respond r) (booksQ q s)) \<and>
     gone (grantHandler plan r m s) = gone s"
  by (simp add: booksQ_def fifo_frame grantHandler_effects agree_skip)

lemma books_fail:
  "agree (gone s) (booksQ q (upd_effects (GrantError r err) s)) (add_mset (Respond r) (booksQ q s)) \<and>
     gone (upd_effects (GrantError r err) s) = gone s"
  by (simp add: booksQ_def GrantError_def agree_skip)

lemma books_join:
  assumes "distinct (map fst (active s))" "map_of (active s) (Model r) = Some sw"
  shows "booksQ q (joinSwap r sw s) = add_mset (Respond r) (booksQ q s)"
proof -
  have "mset (waiting (mput (Model r) (sw\<lparr>as_waiters := as_waiters sw @ [r]\<rparr>) (active s))) + mset (as_waiters sw) =
      mset (waiting (active s)) + mset (as_waiters sw @ [r])"
    using waiting_upd[OF assms, of "sw\<lparr>as_waiters := as_waiters sw @ [r]\<rparr>"] by simp
  then have "mset (waiting (active (joinSwap r sw s))) = add_mset r (mset (waiting (active s)))"
    by (simp add: joinSwap_def)
  then show ?thesis by (simp add: booksQ_def joinSwap_frame)
qed

lemma books_start:
  assumes "map_of (active s) (Model r) = None"
  shows "booksQ q (startSwap r ev s) = add_mset (Respond r) (booksQ q s)"
  using waiting_new[OF assms] by (simp add: booksQ_def startSwap_frame)

lemma books_quiet:
  assumes "quiet s s'"
  shows "booksQ q s' = booksQ q s" "gone s' = gone s"
  using quietD(13)[OF assms] by (auto simp: booksQ_def quietD(2,3,9)[OF assms])

lemma attempt_books:
  assumes i: "fifo_inv s"
  shows "attempt plan state req s = Parked r s' \<Longrightarrow>
      Respond r = Respond req \<and> booksQ q s' = booksQ q s \<and> gone s' = gone s"
    "attempt plan state req s = Handled s' \<Longrightarrow>
      agree (gone s) (booksQ q s') (add_mset (Respond req) (booksQ q s)) \<and> gone s' = gone s"
    "attempt plan state req s = Started s' \<Longrightarrow>
      agree (gone s) (booksQ q s') (add_mset (Respond req) (booksQ q s)) \<and> gone s' = gone s"
proof -
  assume p: "attempt plan state req s = Parked r s'"
  show "Respond r = Respond req \<and> booksQ q s' = booksQ q s \<and> gone s' = gone s"
    using attempt_parked[OF p] books_quiet same_reqD(2) by blast
next
  have keys: "distinct (map fst (active s))" using i by (simp add: fifo_inv_def swaps_ok_def)
  assume "attempt plan state req s = Handled s'"
  then show "agree (gone s) (booksQ q s') (add_mset (Respond req) (booksQ q s)) \<and> gone s' = gone s"
  proof (cases rule: attempt_handled)
    case (join sw)
    then have "booksQ q s' = add_mset (Respond req) (booksQ q s)"
      using books_join[OF keys, of "markParked ParkLoading req" sw] by simp
    with join show ?thesis by (simp add: joinSwap_frame)
  next
    case grant
    then show ?thesis using books_grant by simp
  qed
next
  assume "attempt plan state req s = Started s'"
  from attempt_started[OF this] obtain s1 where a: "map_of (active s) (Model req) = None" "quiet s s1"
    "s' = startSwap (markParked ParkLoading req) (plan (Model req) (runningSet s (Model req))) s1" by blast
  have "booksQ q s' = add_mset (Respond req) (booksQ q s)"
    unfolding a(3) using books_start[of s1 "markParked ParkLoading req"] a(1) quietD(3)[OF a(2)] books_quiet[OF a(2)]
    by simp
  moreover have "gone s' = gone s" using books_quiet(2)[OF a(2)] by (simp add: a(3) startSwap_frame)
  ultimately show "agree (gone s) (booksQ q s') (add_mset (Respond req) (booksQ q s)) \<and> gone s' = gone s" by simp
qed

section \<open>Draining\<close>

definition drain_books :: "nat set \<Rightarrow> nat multiset \<Rightarrow> drain \<Rightarrow> HandlerReq list \<Rightarrow> bool" where
  "drain_books W B d ps \<longleftrightarrow> (case d of (s, remaining, barrier) \<Rightarrow>
     gone s = W \<and> agree W (booksQ (remaining @ ps) s) B)"

lemma booksQ_add: "booksQ (q @ r # q') s = add_mset (Respond r) (booksQ (q @ q') s)"
  by (simp add: booksQ_def)

context swapper
begin

lemma drainStep_books:
  assumes inv: "drain_inv c d (req # ps)" and b: "drain_books W B d (req # ps)"
  shows "drain_books W B (drainStep EvictionFor d req) ps"
proof -
  obtain s remaining barrier where d: "d = (s, remaining, barrier)" by (cases d)
  have i: "fifo_inv s" using inv by (simp add: d drain_inv_def)
  have W: "gone s = W" and ag: "agree W (add_mset (Respond req) (booksQ (remaining @ ps) s)) B"
    using b by (auto simp: d drain_books_def booksQ_add)
  have leave: "agree W (booksQ (remaining @ ps) s') B"
    if "agree (gone s) (booksQ (remaining @ ps) s') (add_mset (Respond req) (booksQ (remaining @ ps) s))" for s'
    using agree_trans[OF that[unfolded W] ag] .
  have stay: "agree W (booksQ ((remaining @ [r]) @ ps) s') B"
    if "Respond r = Respond req" "booksQ (remaining @ ps) s' = booksQ (remaining @ ps) s" for r s'
    using ag that by (simp add: booksQ_add)
  show ?thesis
  proof (cases "barred barrier req")
    case True
    with W stay[of "markParked ParkRank req" s] show ?thesis by (simp add: d drainStep_attempt drain_books_def)
  next
    case nb: False
    show ?thesis
    proof (cases "ModelState (effects s) (Model req)")
      case None
      with nb W leave[OF conjunct1[OF books_fail]] books_fail[of s] show ?thesis
        by (simp add: d drainStep_attempt drain_books_def)
    next
      case (Some state)
      show ?thesis
      proof (cases "attempt EvictionFor state req s")
        case (Parked r s')
        from attempt_books(1)[OF i Parked] W nb Some Parked stay[of r s'] show ?thesis
          by (simp add: d drainStep_attempt drain_books_def stick_def)
      next
        case (Handled s')
        from attempt_books(2)[OF i Handled] W nb Some Handled leave[of s'] show ?thesis
          by (simp add: d drainStep_attempt drain_books_def)
      next
        case (Started s')
        from attempt_books(3)[OF i Started] W nb Some Started leave[of s'] show ?thesis
          by (simp add: d drainStep_attempt drain_books_def)
      qed
    qed
  qed
qed

lemma drain_fold_books:
  "drain_inv c d ps \<Longrightarrow> drain_books W B d ps \<Longrightarrow> drain_books W B (foldl (drainStep EvictionFor) d ps) []"
  by (induction ps arbitrary: d) (simp_all add: drainStep_inv drainStep_books)

lemma drainQueue_books:
  assumes "fifo_inv s"
  shows "agree (gone s) (books (drainQueue EvictionFor s)) (books s)" "gone (drainQueue EvictionFor s) = gone s"
proof -
  obtain s1 remaining b where f: "foldl (drainStep EvictionFor) (s, [], None) (queued s) = (s1, remaining, b)"
    by (cases "foldl (drainStep EvictionFor) (s, [], None) (queued s)")
  have "drain_inv (cfg s) (s, [], None) (queued s)" using assms by (simp add: drain_inv_def fifo_inv_def)
  from drain_fold_books[OF this, of "gone s" "books s"] have
    "gone s1 = gone s" "agree (gone s) (booksQ remaining s1) (books s)" by (auto simp: f drain_books_def)
  then show "agree (gone s) (books (drainQueue EvictionFor s)) (books s)" "gone (drainQueue EvictionFor s) = gone s"
    by (simp_all add: drainQueue_def f Let_def booksQ_def fifo_frame)
qed

end

section \<open>Every event\<close>

text \<open>Whether \<open>OnRequest\<close> takes the request on: its model is known, it is not a status read of an
  unloaded model, and its admission was received.\<close>

definition accepted :: "FIFO \<Rightarrow> HandlerReq \<Rightarrow> bool" where
  "accepted s req \<longleftrightarrow> (case ModelState (effects s) (Model req) of
      None \<Rightarrow> False
    | Some state \<Rightarrow> \<not> (StatusRead req \<and> state \<noteq> StateReady \<and> map_of (active s) (Model req) = None) \<and>
        fst (sendAdmission req None s))"

lemma sendAdmission_books: "booksQ q (snd (sendAdmission r err s)) = booksQ q s"
  by (simp add: booksQ_def sendAdmission_def)

lemma enqueue_books: "books (enqueue plan r s) = add_mset (Respond r) (books s)"
  by (simp add: booksQ_def fifo_frame mset_insertQueued)

lemma enqueue_booksQ: "booksQ (insertQueued c r q) (enqueue plan r s) = add_mset (Respond r) (booksQ q s)"
  by (simp add: booksQ_def fifo_frame mset_insertQueued)

lemma publish_books: "booksQ q (publish plan s) = booksQ q s"
  by (simp add: booksQ_def fifo_frame)

context swapper
begin

lemma admitted_books:
  assumes i: "fifo_inv s"
  shows "agree (gone s) (books (admitted EvictionFor state req s)) (add_mset (Respond req) (books s)) \<and>
    gone (admitted EvictionFor state req s) = gone s"
proof -
  have att: "agree (gone s) (books (case attempt EvictionFor state req s of Parked r s' \<Rightarrow> enqueue EvictionFor r s'
      | Handled s' \<Rightarrow> s' | Started s' \<Rightarrow> publish EvictionFor s')) (add_mset (Respond req) (books s)) \<and>
    gone (case attempt EvictionFor state req s of Parked r s' \<Rightarrow> enqueue EvictionFor r s'
      | Handled s' \<Rightarrow> s' | Started s' \<Rightarrow> publish EvictionFor s') = gone s"
  proof (cases "attempt EvictionFor state req s")
    case (Parked r s')
    with attempt_books(1)[OF i Parked, of "queued s"] attempt_inv(1)[OF i Parked] show ?thesis
      by (simp add: enqueue_booksQ enqueue_frame)
  next
    case (Handled s')
    with attempt_books(2)[OF i Handled, of "queued s"] attempt_inv(2)[OF i Handled] show ?thesis by simp
  next
    case (Started s')
    with attempt_books(3)[OF i Started, of "queued s"] attempt_inv(3)[OF i Started] show ?thesis
      by (simp add: publish_books fifo_frame)
  qed
  have pen: "books (publish EvictionFor (s\<lparr>penalized := penalized s @ [markParked ParkPenalized req]\<rparr>)) =
      add_mset (Respond req) (books s)" by (simp add: booksQ_def fifo_frame)
  show ?thesis
  proof (cases "penaltyHeld s req")
    case True
    with pen show ?thesis by (simp add: admitted_def fifo_frame)
  next
    case False
    with att show ?thesis by (simp add: admitted_def enqueue_booksQ enqueue_frame)
  qed
qed

lemma OnRequest_books:
  assumes i: "fifo_inv s"
  shows "agree (gone s) (books (OnRequest EvictionFor req s))
      (if accepted s req then add_mset (Respond req) (books s) else books s) \<and>
    gone (OnRequest EvictionFor req s) = gone s"
proof (cases rule: OnRequest_cases[of EvictionFor req s, case_names refused left admit])
  case (refused err)
  then have "\<not> accepted s req" by (auto simp: accepted_def split: option.splits)
  with refused show ?thesis by (simp add: sendAdmission_books fifo_frame)
next
  case (left s1)
  then have "\<not> accepted s req" "s1 = snd (sendAdmission req None s)" by (auto simp: accepted_def split: option.splits)
  with left show ?thesis by (simp add: sendAdmission_books fifo_frame)
next
  case (admit state s1)
  have s1: "s1 = snd (sendAdmission req None s)" using admit by simp
  then have "fifo_inv (counted s1)" using i by (simp add: fifo_inv_def fifo_frame)
  from admitted_books[OF this, of state "numbered req s1"]
  have "agree (gone s1) (books (OnRequest EvictionFor req s)) (add_mset (Respond req) (books s1)) \<and>
      gone (OnRequest EvictionFor req s) = gone s1"
    by (simp add: admit booksQ_def)
  moreover have "accepted s req" using admit by (simp add: accepted_def)
  ultimately show ?thesis using s1 by (simp add: sendAdmission_books fifo_frame)
qed

lemma swapWaiter_books:
  "agree (gone s) (books (swapWaiter plan ev s w)) (add_mset (Respond w) (books s)) \<and>
     gone (swapWaiter plan ev s w) = gone s"
proof (cases "sd_Err ev")
  case None
  then show ?thesis using books_grant[of s "queued s" plan w "sd_ModelID ev"]
    by (simp add: swapWaiter_def enqueue_booksQ enqueue_frame grantHandler_frame)
next
  case (Some err)
  then show ?thesis using books_fail[of s "queued s" w err] by (simp add: swapWaiter_def)
qed

lemma foldl_swapWaiter_books:
  "agree (gone s) (books (foldl (swapWaiter plan ev) s ws)) (image_mset Respond (mset ws) + books s) \<and>
     gone (foldl (swapWaiter plan ev) s ws) = gone s"
proof (induction ws arbitrary: s)
  case (Cons w ws)
  from Cons.IH[of "swapWaiter plan ev s w"] swapWaiter_books[of s plan ev w]
  show ?case by (auto simp: agree_def)
qed simp

lemma OnSwapDone_books:
  assumes i: "fifo_inv s"
  shows "agree (gone s) (books (OnSwapDone EvictionFor ev s)) (books s) \<and> gone (OnSwapDone EvictionFor ev s) = gone s"
proof (cases "map_of (active s) (sd_ModelID ev)")
  case (Some sw)
  let ?s1 = "s\<lparr>active := mdel (sd_ModelID ev) (active s)\<rparr>"
  let ?s2 = "if sd_Err ev = None then ?s1\<lparr>idleSince := mput (sd_ModelID ev) (now ?s1) (idleSince ?s1)\<rparr> else ?s1"
  let ?s3 = "foldl (swapWaiter EvictionFor ev) ?s2 (as_waiters sw)"
  have ok: "swaps_ok (active s) (inFlight s)" using i by (simp add: fifo_inv_def)
  have "fifo_inv ?s2" using i swaps_ok_del by (simp add: fifo_inv_def)
  moreover have "sd_ModelID ev \<notin> set (as_evict sw')" if "map_of (active ?s2) m' = Some sw'" for m' sw'
    using that swaps_okD(3)[OF ok _ Some, of m' sw'] by (auto simp: compatible_def split: if_splits)
  ultimately have i3: "fifo_inv ?s3" by (rule foldl_swapWaiter_inv)
  have "image_mset Respond (mset (as_waiters sw)) + books ?s2 = books s"
    using waiting_del[OF swaps_okD(1)[OF ok] Some] by (simp add: booksQ_def)
  moreover have "gone ?s2 = gone s" by simp
  ultimately have b3: "agree (gone s) (books ?s3) (books s)" "gone ?s3 = gone s"
    using foldl_swapWaiter_books[of ?s2 EvictionFor ev "as_waiters sw"] by simp_all
  have eq: "OnSwapDone EvictionFor ev s = drainQueue EvictionFor ?s3"
    by (simp only: OnSwapDone_def Some option.case Let_def)
  show ?thesis unfolding eq using agree_trans[OF drainQueue_books(1)[OF i3, unfolded b3(2)] b3(1)]
      drainQueue_books(2)[OF i3] b3(2) by simp
qed (simp add: OnSwapDone_def)

lemma OnServeDone_books:
  assumes i: "fifo_inv s"
  shows "agree (gone s) (books (OnServeDone EvictionFor ev s)) (books s) \<and> gone (OnServeDone EvictionFor ev s) = gone s"
proof -
  let ?c = "capReleased (ev_ModelID ev) s" and ?a = "afterServe EvictionFor ev s"
  have ci: "fifo_inv ?c" by (rule inv_less_busy[OF i]) (auto simp: capReleased_frame)
  have ai: "fifo_inv ?a" by (rule inv_less_busy[OF i]) (auto simp: afterServe_frame unserved_inFlight split: if_splits)
  have "books ?c = books s" "gone ?c = gone s" "books ?a = books s" "gone ?a = gone s"
    by (simp_all add: booksQ_def capReleased_frame afterServe_frame)
  then show ?thesis using drainQueue_books[OF ci] drainQueue_books[OF ai]
    by (cases rule: OnServeDone_cases[of ev EvictionFor s, case_names status cap drained settled]) simp_all
qed

lemma releasePenalized_books:
  "books (releasePenalized plan s) = books s" "gone (releasePenalized plan s) = gone s"
proof -
  let ?f = "\<lambda>(kept, t) req. if penaltyHeldUnder t req (contended s) then (kept @ [req], t) else (kept, enqueue plan req t)"
  have step: "image_mset Respond (mset (queued (snd r)) + mset (fst r) + mset (waiting (active (snd r)))) +
        answers (elog (effects (snd r))) =
      image_mset Respond (mset (queued t) + mset kept + mset ps + mset (waiting (active t))) + answers (elog (effects t)) \<and>
      gone (snd r) = gone t"
    if "foldl ?f (kept, t) ps = r" for kept t ps r
    using that
  proof (induction ps arbitrary: kept t)
    case (Cons p ps)
    then show ?case
      by (cases "penaltyHeldUnder t p (contended s)") (auto simp: enqueue_frame mset_insertQueued)
  qed auto
  obtain kept t where r: "foldl ?f ([], s) (penalized s) = (kept, t)" by fastforce
  from step[OF r] show "books (releasePenalized plan s) = books s" "gone (releasePenalized plan s) = gone s"
    by (simp_all add: releasePenalized_def Let_def r booksQ_def)
qed

lemma OnTick_books:
  assumes i: "fifo_inv s"
  shows "agree (gone s) (books (OnTick EvictionFor s)) (books s) \<and> gone (OnTick EvictionFor s) = gone s"
proof -
  let ?s1 = "releasePenalized EvictionFor s"
  let ?s2 = "if queued ?s1 = [] then snd (consumeForced (expireForcedGrace (snd (consumeForced ?s1))))
    else (case consumeGraceExpiredForced ?s1 of (forced, s2) \<Rightarrow> if forced then kvWarmEndCooldowns s2 else s2)"
  have i1: "fifo_inv ?s1" using releasePenalized_fold[OF i, of "contended s" "[]" "penalized s"]
    by (simp add: releasePenalized_def Let_def fifo_inv_def case_prod_beta)
  have fr: "queued ?s2 = queued ?s1" "penalized ?s2 = penalized ?s1" "active ?s2 = active ?s1" "effects ?s2 = effects ?s1"
    "cfg ?s2 = cfg ?s1" "inFlight ?s2 = inFlight ?s1"
    by (simp_all add: consumeForced_def expireForcedGrace_def consumeGraceExpiredForced_def kvWarmEndCooldowns_def Let_def)
  have i2: "fifo_inv ?s2" by (rule inv_cong[OF i1 fr(1,5,3,6)])
  have "books ?s2 = books s" "gone ?s2 = gone s"
    using releasePenalized_books[of EvictionFor s] by (simp_all add: booksQ_def fr)
  with drainQueue_books[OF i2] have d: "agree (gone s) (books (drainQueue EvictionFor ?s2)) (books s)"
    "gone (drainQueue EvictionFor ?s2) = gone s" by simp_all
  have eq: "OnTick EvictionFor s = publishGrace EvictionFor (drainQueue EvictionFor ?s2)"
    unfolding OnTick_def Let_def by (rule refl)
  show ?thesis unfolding eq using d by (simp add: booksQ_def publish_frame)
qed

lemma fails_books:
  "agree (gone s) (booksQ q (upd_effects (\<lambda>e. foldl (\<lambda>e w. GrantError w err e) e ws) s))
      (image_mset Respond (mset ws) + booksQ q s) \<and>
    gone (upd_effects (\<lambda>e. foldl (\<lambda>e w. GrantError w err e) e ws) s) = gone s"
proof (induction ws arbitrary: s)
  case (Cons w ws)
  from Cons.IH[of "upd_effects (GrantError w err) s"] books_fail[of s q w err]
  show ?case by (auto simp: agree_def)
qed simp

lemma unloadWaiters_books:
  assumes "fifo_inv s"
  shows "agree (gone s) (books (unloadWaiters ts s)) (books s) \<and> gone (unloadWaiters ts s) = gone s"
proof -
  let ?f = "\<lambda>s id. case map_of (active s) id of None \<Rightarrow> s
      | Some sw \<Rightarrow> (upd_effects (\<lambda>e. foldl (\<lambda>e w. GrantError w ErrUnloaded e) e (as_waiters sw)) s)\<lparr>active := mdel id (active s)\<rparr>"
  have "agree (gone s) (books (foldl ?f s ids)) (books s) \<and> gone (foldl ?f s ids) = gone s"
    if "distinct (map fst (active s))" for ids s
    using that
  proof (induction ids arbitrary: s)
    case (Cons id ids)
    show ?case
    proof (cases "map_of (active s) id")
      case None
      with Cons show ?thesis by simp
    next
      case (Some sw)
      have "agree (gone s) (books (?f s id)) (books s)" "gone (?f s id) = gone s"
        using fails_books[of s "queued s" ErrUnloaded "as_waiters sw"] waiting_del[OF Cons.prems Some] Some
        by (auto simp: booksQ_def agree_def)
      moreover have "distinct (map fst (active (?f s id)))" using Cons.prems Some by simp
      ultimately show ?thesis using Cons.IH[of "?f s id"] by (auto intro: agree_trans)
    qed
  qed simp
  then show ?thesis using assms by (simp add: unloadWaiters_def fifo_inv_def swaps_ok_def)
qed

lemma booksQ_split:
  "image_mset Respond (mset (filter P q)) + booksQ (filter (\<lambda>x. \<not> P x) q) s = booksQ q s"
  by (induction q) (simp_all add: booksQ_def)

lemma booksQ_split_pen:
  "image_mset Respond (mset (filter P (penalized s))) + booksQ q (s\<lparr>penalized := filter (\<lambda>x. \<not> P x) (penalized s)\<rparr>) = booksQ q s"
proof -
  have "image_mset Respond (mset (filter P ps)) + image_mset Respond (mset (filter (\<lambda>x. \<not> P x) ps)) = image_mset Respond (mset ps)"
    for ps by (induction ps) simp_all
  then show ?thesis by (simp add: booksQ_def ac_simps)
qed

lemma unload_penalized_books:
  fixes err :: sched_error
  defines "fail \<equiv> \<lambda>P s. upd_effects (\<lambda>e. foldl (\<lambda>e w. GrantError w err e) e (filter P (penalized s))) s"
  shows "agree (gone s) (books ((fail P s)\<lparr>penalized := filter (\<lambda>w. \<not> P w) (penalized s)\<rparr>)) (books s) \<and>
    gone ((fail P s)\<lparr>penalized := filter (\<lambda>w. \<not> P w) (penalized s)\<rparr>) = gone s"
proof -
  let ?s = "s\<lparr>penalized := filter (\<lambda>w. \<not> P w) (penalized s)\<rparr>"
  have eq: "(fail P s)\<lparr>penalized := filter (\<lambda>w. \<not> P w) (penalized s)\<rparr> =
      upd_effects (\<lambda>e. foldl (\<lambda>e w. GrantError w err e) e (filter P (penalized s))) ?s"
    by (simp add: fail_def)
  have "books ?s + image_mset Respond (mset (filter P (penalized s))) = books s"
    using booksQ_split_pen[of P s "queued s"] by (simp add: add.commute)
  then show ?thesis unfolding eq
    using fails_books[of ?s "queued s" err "filter P (penalized s)"] by (simp add: add.commute)
qed

lemma OnUnload_books:
  assumes i: "fifo_inv s"
  shows "agree (gone s) (books (OnUnload EvictionFor ts s)) (books s) \<and> gone (OnUnload EvictionFor ts s) = gone s"
proof -
  let ?hit = "\<lambda>w. Model w \<in> set ts"
  let ?fail = "\<lambda>ws. upd_effects (\<lambda>e. foldl (\<lambda>e w. GrantError w ErrUnloaded e) e (filter ?hit ws))"
  let ?s0 = "kvWarmForget ts s"
  let ?s1 = "unloadWaiters ts ?s0"
  let ?s2 = "if queued ?s1 = [] then ?s1
    else publish EvictionFor ((?fail (queued ?s1) ?s1)\<lparr>queued := filter (\<lambda>w. \<not> ?hit w) (queued ?s1)\<rparr>)"
  let ?s3 = "(?fail (penalized ?s2) ?s2)\<lparr>penalized := filter (\<lambda>w. \<not> ?hit w) (penalized ?s2)\<rparr>"
  let ?s4 = "upd_effects (StopProcesses ts) ?s3"
  have i0: "fifo_inv ?s0" using i by (simp add: fifo_inv_def fifo_frame)
  have i1: "fifo_inv ?s1" by (rule unloadWaiters_inv[OF i0])
  have b1: "agree (gone s) (books ?s1) (books s)" "gone ?s1 = gone s"
    using unloadWaiters_books[OF i0, of ts] by (simp_all add: booksQ_def forget_frame)
  have b2: "agree (gone s) (books ?s2) (books ?s1)" "gone ?s2 = gone s"
  proof -
    have "agree (gone s) (booksQ (filter (\<lambda>w. \<not> ?hit w) (queued ?s1)) (?fail (queued ?s1) ?s1)) (books ?s1) \<and>
        gone (?fail (queued ?s1) ?s1) = gone s"
      using fails_books[of ?s1 "filter (\<lambda>w. \<not> ?hit w) (queued ?s1)" ErrUnloaded "filter ?hit (queued ?s1)"]
      unfolding booksQ_split b1(2) .
    then show "agree (gone s) (books ?s2) (books ?s1)" "gone ?s2 = gone s"
      using b1(2) by (simp_all add: publish_frame publish_books) (simp_all add: booksQ_def)
  qed
  have b3: "agree (gone s) (books ?s3) (books ?s2)" "gone ?s3 = gone s"
    using unload_penalized_books[where s = ?s2 and err = ErrUnloaded and P = ?hit] unfolding b2(2) by (blast dest: conjunct1 conjunct2)+
  have b4: "books ?s4 = books ?s3" "gone ?s4 = gone ?s3" by (simp_all add: booksQ_def StopProcesses_def)
  have i2: "fifo_inv ?s2" using i1 by (auto simp: fifo_inv_def fifo_frame queue_ok_filter)
  have i4: "fifo_inv ?s4" by (rule inv_cong[OF i2]) simp_all
  have eq: "OnUnload EvictionFor ts s = drainQueue EvictionFor ?s4"
    unfolding OnUnload_def Let_def by (rule refl)
  have "agree (gone s) (books ?s4) (books s)" unfolding b4(1)
    by (rule agree_trans[OF b3(1) agree_trans[OF b2(1) b1(1)]])
  moreover have "gone ?s4 = gone s" unfolding b4(2) by (rule b3(2))
  ultimately show ?thesis unfolding eq
    using agree_trans[OF drainQueue_books(1)[OF i4]] drainQueue_books(2)[OF i4] by simp
qed

lemma OnCancel_books:
  "agree (insert (Respond req) (gone s)) (books (OnCancel plan req s)) (books s) \<and>
     count (held (OnCancel plan req s)) (Respond req) = 0 \<and> gone (OnCancel plan req s) = gone s \<and>
     elog (effects (OnCancel plan req s)) = elog (effects s)"
proof -
  let ?P = "\<lambda>q. Respond q \<noteq> Respond req"
  have w: "waiting (map (\<lambda>(id, sw). (id, sw\<lparr>as_waiters := filter ?P (as_waiters sw)\<rparr>)) act) = filter ?P (waiting act)"
    for act by (induction act) (auto simp: waiting_def)
  have cnt: "count (image_mset Respond (filter_mset ?P M)) x = (if x = Respond req then 0 else count (image_mset Respond M) x)"
    for M x by (induction M) auto
  have fr: "queued (OnCancel plan req s) = filter ?P (queued s)" "penalized (OnCancel plan req s) = filter ?P (penalized s)"
    "active (OnCancel plan req s) = map (\<lambda>(id, sw). (id, sw\<lparr>as_waiters := filter ?P (as_waiters sw)\<rparr>)) (active s)"
    "elog (effects (OnCancel plan req s)) = elog (effects s)" "gone (OnCancel plan req s) = gone s"
    by (simp_all add: OnCancel_def Let_def fifo_frame)
  show ?thesis unfolding booksQ_def held_def fr by (simp add: agree_def w mset_filter cnt)
qed

end

section \<open>Runs\<close>

text \<open>How often a caller is accepted along a run, and that it neither walks away nor is cancelled.\<close>

fun acceptedIn :: "planner \<Rightarrow> FIFO \<Rightarrow> event list \<Rightarrow> nat \<Rightarrow> nat" where
  "acceptedIn plan s [] x = 0"
| "acceptedIn plan s (ev # evs) x =
     (case ev of EvRequest r \<Rightarrow> if accepted s r \<and> Respond r = x then 1 else 0 | _ \<Rightarrow> 0) +
     acceptedIn plan (handle plan ev s) evs x"

fun staysIn :: "planner \<Rightarrow> FIFO \<Rightarrow> event list \<Rightarrow> nat \<Rightarrow> bool" where
  "staysIn plan s [] x = (x \<notin> gone s)"
| "staysIn plan s (ev # evs) x =
     (x \<notin> gone s \<and> (case ev of EvCancel r \<Rightarrow> Respond r \<noteq> x | _ \<Rightarrow> True) \<and> staysIn plan (handle plan ev s) evs x)"

context swapper
begin

lemma handle_books:
  assumes i: "fifo_inv s" and x: "x \<notin> gone s" "case ev of EvCancel r \<Rightarrow> Respond r \<noteq> x | _ \<Rightarrow> True"
  shows "count (books (handle EvictionFor ev s)) x =
    (case ev of EvRequest r \<Rightarrow> if accepted s r \<and> Respond r = x then 1 else 0 | _ \<Rightarrow> 0) + count (books s) x"
proof (cases ev)
  case (EvRequest r)
  from OnRequest_books[OF i, of r] x(1) show ?thesis by (auto simp: EvRequest agree_def)
next
  case (EvCancel r)
  from OnCancel_books[of r s EvictionFor] x show ?thesis by (auto simp: EvCancel agree_def)
next
  case (EvSwapDone e)
  from OnSwapDone_books[OF i, of e] x(1) show ?thesis by (auto simp: EvSwapDone agree_def)
next
  case (EvServeDone e)
  from OnServeDone_books[OF i, of e] x(1) show ?thesis by (auto simp: EvServeDone agree_def)
next
  case EvTick
  from OnTick_books[OF i] x(1) show ?thesis by (auto simp: EvTick agree_def)
next
  case (EvUnload ts)
  from OnUnload_books[OF i, of ts] x(1) show ?thesis by (auto simp: EvUnload agree_def)
next
  case EvFinishCooldown
  then show ?thesis by (simp add: FinishCooldown_def booksQ_def)
next
  case (EvEndSlotCooldown ses)
  then show ?thesis by (simp add: EndSlotCooldown_def booksQ_def)
next
  case (EvWorld e)
  then show ?thesis by (simp add: booksQ_def)
qed

lemma run_books:
  assumes "fifo_inv s" "staysIn EvictionFor s evs x"
  shows "count (books (foldl (\<lambda>s ev. handle EvictionFor ev s) s evs)) x = count (books s) x + acceptedIn EvictionFor s evs x"
  using assms
proof (induction evs arbitrary: s)
  case (Cons ev evs)
  have "count (books (handle EvictionFor ev s)) x =
      (case ev of EvRequest r \<Rightarrow> if accepted s r \<and> Respond r = x then 1 else 0 | _ \<Rightarrow> 0) + count (books s) x"
    using Cons.prems by (intro handle_books) auto
  with Cons.IH[OF handle_inv[OF Cons.prems(1)]] Cons.prems(2) show ?case by simp
qed simp

end

text \<open>C8. No request is lost and none is answered twice. Along any run of the scheduler, for a caller
  that neither walks away nor is cancelled, the number of its requests held (queued, penalized or
  waiting on a swap) plus the answers given to it grows by exactly the number of its requests
  accepted.\<close>

theorem every_request_accounted:
  assumes "reach (plannerOf r) c models s" "staysIn (plannerOf r) s evs x"
  defines "s' \<equiv> foldl (\<lambda>s ev. handle (plannerOf r) ev s) s evs"
  shows "count (held s') x + count (answers (elog (effects s'))) x =
    count (held s) x + count (answers (elog (effects s))) x + acceptedIn (plannerOf r) s evs x"
  using router.run_books[OF router.reach_inv[OF assms(1)] assms(2)] by (simp add: s'_def books_held)

theorem every_request_accounted_witness:
  "count (held (exRun [EvRequest (exReq 1 ''a'' 0), EvRequest (exReq 2 ''b'' 0)])) 2 = 1 \<and>
   count (answers (elog (effects (exRun [EvRequest (exReq 1 ''a'' 0), EvRequest (exReq 2 ''b'' 0)])))) 1 = 1"
proof -
  let ?evs = "[EvRequest (exReq 1 ''a'' 0), EvRequest (exReq 2 ''b'' 0)]"
  have st: "staysIn exPlan (exRun []) ?evs 1" "staysIn exPlan (exRun []) ?evs 2" by code_simp+
  have acc: "acceptedIn exPlan (exRun []) ?evs 1 = 1" "acceptedIn exPlan (exRun []) ?evs 2 = 1" by code_simp+
  have h: "map Respond (queued (exRun ?evs) @ penalized (exRun ?evs) @ waiting (active (exRun ?evs))) = [2]"
    by code_simp
  have "held (exRun ?evs) = mset (map Respond (queued (exRun ?evs) @ penalized (exRun ?evs) @ waiting (active (exRun ?evs))))"
    by (simp add: held_def)
  then have held: "held (exRun ?evs) = {#2#}" by (simp only: h) simp
  have init: "held (exRun []) = {#}" "answers (elog (effects (exRun []))) = {#}"
    by (simp_all add: held_def NewFIFO_def waiting_def exEffects_def)
  from every_request_accounted[OF exRun_reach[of "[]"] st(1)] acc(1) held init
  have "count (answers (elog (effects (exRun ?evs)))) 1 = 1" by simp
  with held show ?thesis by simp
qed

end
