(* ===== verification/FifoFair.thy ===== *)
theory FifoFair
  imports FifoConserve
begin

text \<open>
  Who goes first and who is moved aside: the rank barrier (no request passes a queued one of higher
  rank), progress of the head of the queue, preemption, and what cancellation, unloading and
  shutdown do to the requests the scheduler holds.
\<close>

section \<open>The rank barrier\<close>

definition barrier_ok :: "HandlerReq list \<Rightarrow> int option \<Rightarrow> bool" where
  "barrier_ok remaining barrier \<longleftrightarrow> (case barrier of None \<Rightarrow> remaining = []
     | Some b \<Rightarrow> (\<forall>q \<in> set remaining. Rank (rTier q) \<le> b))"

text \<open>Of the requests handled so far (\<open>seen\<close>), each is kept or ranks no lower than any that is kept.\<close>

definition fair :: "HandlerReq list \<Rightarrow> drain \<Rightarrow> bool" where
  "fair seen d \<longleftrightarrow> (case d of (s, remaining, barrier) \<Rightarrow> barrier_ok remaining barrier \<and>
     (\<forall>l \<in> set seen. Respond l \<in> Respond ` set remaining \<or> (\<forall>q \<in> set remaining. Rank (rTier q) \<le> Rank (rTier l))))"

lemma drainStep_kinds:
  obtains (barred) "barred barrier req" "drainStep plan (s, remaining, barrier) req = (s, remaining @ [markParked ParkRank req], barrier)"
  | (stuck) r s' where "\<not> barred barrier req" "same_req r req" "drainStep plan (s, remaining, barrier) req = stick r s' remaining barrier"
  | (left) s' where "\<not> barred barrier req" "drainStep plan (s, remaining, barrier) req = (s', remaining, barrier)"
proof (cases "barred barrier req")
  case True
  then show ?thesis by (intro barred) (simp_all add: drainStep_attempt)
next
  case nb: False
  show ?thesis
  proof (cases "ModelState (effects s) (Model req)")
    case None
    with nb show ?thesis by (intro left) (simp_all add: drainStep_attempt)
  next
    case (Some state)
    show ?thesis
    proof (cases "attempt plan state req s")
      case (Parked r s')
      with attempt_parked(1)[OF Parked] nb Some show ?thesis by (intro stuck) (simp_all add: drainStep_attempt)
    next
      case (Handled s')
      with nb Some show ?thesis by (intro left) (simp_all add: drainStep_attempt)
    next
      case (Started s')
      with nb Some show ?thesis by (intro left) (simp_all add: drainStep_attempt)
    qed
  qed
qed

lemma fair_keep:
  assumes f: "fair seen (s, remaining, barrier)" and low: "\<forall>l \<in> set seen. Rank (rTier req) \<le> Rank (rTier l)"
    and r: "same_req r req" and b: "barrier_ok (remaining @ [r]) barrier'"
  shows "fair (seen @ [req]) (s', remaining @ [r], barrier')"
proof -
  have "Respond l \<in> Respond ` set (remaining @ [r]) \<or> (\<forall>q \<in> set (remaining @ [r]). Rank (rTier q) \<le> Rank (rTier l))"
    if "l \<in> set (seen @ [req])" for l
  proof (cases "l = req")
    case True
    then show ?thesis using same_reqD(2)[OF r] by simp
  next
    case False
    with that have l: "l \<in> set seen" by simp
    with f low same_reqD(3)[OF r] show ?thesis by (auto simp: fair_def)
  qed
  with b show ?thesis by (auto simp: fair_def)
qed

lemma fair_step:
  assumes f: "fair seen d" and low: "\<forall>l \<in> set seen. Rank (rTier req) \<le> Rank (rTier l)"
  shows "fair (seen @ [req]) (drainStep plan d req)"
proof -
  obtain s remaining barrier where d: "d = (s, remaining, barrier)" by (cases d)
  note f = f[unfolded d]
  have bok: "barrier_ok remaining barrier" using f by (simp add: fair_def)
  show ?thesis
  proof (cases rule: drainStep_kinds[of barrier req plan s remaining, case_names barred stuck left])
    case barred
    then have "barrier_ok (remaining @ [markParked ParkRank req]) barrier"
      using bok by (auto simp: barred_def barrier_ok_def split: option.splits)
    from fair_keep[OF f low _ this, of s] barred show ?thesis by (simp add: d)
  next
    case (stuck r s')
    let ?b = "case barrier of None \<Rightarrow> Some (Rank (rTier r)) | Some b \<Rightarrow> Some (if Rank (rTier r) > b then Rank (rTier r) else b)"
    have "barrier_ok (remaining @ [r]) ?b" using bok by (auto simp: barrier_ok_def split: option.splits)
    from fair_keep[OF f low stuck(2) this, of s'] stuck show ?thesis by (simp add: d stick_def)
  next
    case (left s')
    have "\<forall>q \<in> set remaining. Rank (rTier q) \<le> Rank (rTier req)"
      using bok left(1) by (auto simp: barred_def barrier_ok_def split: option.splits)
    with f left show ?thesis by (auto simp: d fair_def)
  qed
qed

lemma fair_fold:
  assumes "fair seen d" "sorted (map (\<lambda>q. - Rank (rTier q)) (seen @ ps))"
  shows "fair (seen @ ps) (foldl (drainStep plan) d ps)"
  using assms
proof (induction ps arbitrary: seen d)
  case (Cons p ps)
  have "\<forall>l \<in> set seen. Rank (rTier p) \<le> Rank (rTier l)" using Cons.prems(2) by (auto simp: sorted_append)
  with Cons.IH[of "seen @ [p]"] fair_step[OF Cons.prems(1)] Cons.prems(2) show ?case by simp
qed simp

lemma queue_ok_rank: "queue_ok c q \<Longrightarrow> sorted (map (\<lambda>q. - Rank (rTier q)) q)"
  unfolding queue_ok_def sorted_map by (rule sorted_wrt_mono_rel) (auto simp: qkey_def less_eq_prod_def)

text \<open>C9. The rank barrier. When a reachable state's queue is drained, a request that leaves the queue
  (served, made to wait for its swap, or answered) ranks at least as high as every request left in it:
  nothing passes a queued request of higher rank.\<close>

theorem drain_respects_rank:
  assumes "reach (plannerOf r) c models s"
    and "q \<in> set (queued (drainQueue (plannerOf r) s))"
    and "l \<in> set (queued s)" "Respond l \<notin> Respond ` set (queued (drainQueue (plannerOf r) s))"
  shows "Rank (rTier q) \<le> Rank (rTier l)"
proof (cases "queued s = []")
  case False
  obtain s1 remaining b where f: "foldl (drainStep (plannerOf r)) (s, [], None) (queued s) = (s1, remaining, b)"
    by (cases "foldl (drainStep (plannerOf r)) (s, [], None) (queued s)")
  have rem: "queued (drainQueue (plannerOf r) s) = remaining" using False by (simp add: drainQueue_def f Let_def fifo_frame)
  have "queue_ok (cfg s) (queued s)" using router.reach_inv[OF assms(1)] by (simp add: fifo_inv_def)
  then have "sorted (map (\<lambda>q. - Rank (rTier q)) (queued s))" by (rule queue_ok_rank)
  moreover have "fair [] (s, [], None)" by (simp add: fair_def barrier_ok_def)
  ultimately have "fair (queued s) (s1, remaining, b)" using fair_fold[of "[]" "(s, [], None)" "queued s" "plannerOf r"] by (simp add: f)
  with assms(2-4) rem show ?thesis by (auto simp: fair_def)
qed (use assms(3) in simp)

text \<open>Two queued requests of rank 1; the process of \<open>b\<close> has disappeared, \<open>a\<close> is full.\<close>

abbreviation exFair :: FIFO where
  "exFair \<equiv> exRun [EvRequest (exReq 1 ''a'' 0), EvRequest (exReq 2 ''a'' 1), EvRequest (exReq 3 ''b'' 1),
     EvWorld (exEffects\<lparr>processes := [(''a'', StateReady)]\<rparr>)]"

lemma map_hd: "map f xs = y # ys \<Longrightarrow> hd xs \<in> set xs \<and> f (hd xs) = y"
  by (cases xs) auto

theorem drain_respects_rank_witness:
  "map Respond (queued exFair) = [3, 2] \<and> map Respond (queued (drainQueue exPlan exFair)) = [2] \<and>
   Rank (rTier (hd (queued (drainQueue exPlan exFair)))) \<le> Rank (rTier (hd (queued exFair)))"
proof -
  have q: "map Respond (queued exFair) = [3, 2]" by code_simp
  have d: "map Respond (queued (drainQueue exPlan exFair)) = [2]" by code_simp
  note hq = map_hd[OF q] and hd = map_hd[OF d]
  have "Respond ` set (queued (drainQueue exPlan exFair)) = {2}"
    using arg_cong[OF d, of set] by simp
  then have "Respond (hd (queued exFair)) \<notin> Respond ` set (queued (drainQueue exPlan exFair))"
    unfolding conjunct2[OF hq] by simp
  from drain_respects_rank[OF exRun_reach conjunct1[OF hd] conjunct1[OF hq] this]
  have "Rank (rTier (hd (queued (drainQueue exPlan exFair)))) \<le> Rank (rTier (hd (queued exFair)))" .
  with q d show ?thesis by (intro conjI)
qed

section \<open>Arrivals behind a higher rank\<close>

text \<open>An arrival never overtakes. When a queued request of another caller has a higher rank,
  \<open>OnRequest\<close> serves nothing and starts no swap: the only thing it tells anyone is the admission, and
  an admitted request is queued or penalized.\<close>

theorem arrival_respects_rank:
  assumes "q \<in> set (queued s)" "Respond q \<noteq> Respond req" "Rank (rTier q) > Rank (rTier req)"
  shows "(\<exists>l. set l \<subseteq> range (Admitted (Respond req)) \<and>
       elog (effects (OnRequest plan req s)) = elog (effects s) @ l) \<and>
     active (OnRequest plan req s) = active s \<and> inFlight (OnRequest plan req s) = inFlight s \<and>
     (accepted s req \<longrightarrow> (\<exists>r. Respond r = Respond req \<and> Model r = Model req \<and>
        (queued (OnRequest plan req s) = insertQueued (cfg s) r (queued s) \<or>
         penalized (OnRequest plan req s) = penalized s @ [r])))"
proof -
  have adm: "\<exists>l. set l \<subseteq> range (Admitted (Respond req)) \<and>
      elog (effects (snd (sendAdmission req err s))) = elog (effects s) @ l" for err
    by (cases "Admit req \<and> Respond req \<notin> set (notAdmitting (effects s))")
      (auto simp: sendAdmission_def intro: exI[of _ "[Admitted (Respond req) err]"])
  show ?thesis
  proof (cases rule: OnRequest_cases[of plan req s, case_names refused left admit])
    case (refused err)
    then have "\<not> accepted s req" by (auto simp: accepted_def split: option.splits)
    with refused adm show ?thesis by (simp add: sendAdmission_frame)
  next
    case (left s1)
    then have "\<not> accepted s req" "s1 = snd (sendAdmission req None s)" by (auto simp: accepted_def split: option.splits)
    with left adm show ?thesis by (simp add: sendAdmission_frame)
  next
    case (admit state s1)
    have s1: "s1 = snd (sendAdmission req None s)" using admit(2) by simp
    have "blockedByRankBarrier (counted s1) (numbered req s1)"
      using assms by (auto simp: blockedByRankBarrier_def s1 sendAdmission_frame)
    then have "OnRequest plan req s =
        (if penaltyHeld (counted s1) (numbered req s1)
         then publish plan ((counted s1)\<lparr>penalized := penalized (counted s1) @ [markParked ParkPenalized (numbered req s1)]\<rparr>)
         else enqueue plan (markParked ParkRank (numbered req s1)) (counted s1))"
      unfolding admit(4) admitted_def by simp
    moreover have "(\<exists>l. set l \<subseteq> range (Admitted (Respond req)) \<and> elog (effects s') = elog (effects s) @ l) \<and>
        active s' = active s \<and> inFlight s' = inFlight s \<and>
        (\<exists>r. Respond r = Respond req \<and> Model r = Model req \<and>
          (queued s' = insertQueued (cfg s) r (queued s) \<or> penalized s' = penalized s @ [r]))"
      if "s' = publish plan ((counted s1)\<lparr>penalized := penalized (counted s1) @ [markParked ParkPenalized (numbered req s1)]\<rparr>)
        \<or> s' = enqueue plan (markParked ParkRank (numbered req s1)) (counted s1)" for s'
      using that
    proof
      assume "s' = publish plan ((counted s1)\<lparr>penalized := penalized (counted s1) @ [markParked ParkPenalized (numbered req s1)]\<rparr>)"
      then show ?thesis using adm[of None] unfolding s1
        by (intro conjI exI[of _ "markParked ParkPenalized (numbered req s1)"])
          (simp_all add: publish_frame sendAdmission_frame s1)
    next
      assume "s' = enqueue plan (markParked ParkRank (numbered req s1)) (counted s1)"
      then show ?thesis using adm[of None] unfolding s1
        by (intro conjI exI[of _ "markParked ParkRank (numbered req s1)"])
          (simp_all add: enqueue_frame sendAdmission_frame s1)
    qed
    ultimately show ?thesis by presburger
  qed
qed

theorem arrival_respects_rank_witness:
  "let s = exRun [EvRequest (exReq 1 ''a'' 0), EvRequest (exReq 2 ''a'' 1)] in
     map Respond (queued s) = [2] \<and> accepted s (exReq 3 ''b'' 0) \<and>
     active (OnRequest exPlan (exReq 3 ''b'' 0) s) = active s \<and>
     inFlight (OnRequest exPlan (exReq 3 ''b'' 0) s) = inFlight s"
proof -
  let ?s = "exRun [EvRequest (exReq 1 ''a'' 0), EvRequest (exReq 2 ''a'' 1)]"
  have q: "map (\<lambda>q. (Respond q, Rank (rTier q))) (queued ?s) = [(2, 1)]" by code_simp
  have r: "map Respond (queued ?s) = [2]" by code_simp
  have acc: "accepted ?s (exReq 3 ''b'' 0)" by code_simp
  note h = map_hd[OF q]
  have "Respond (hd (queued ?s)) \<noteq> Respond (exReq 3 ''b'' 0)" "Rank (rTier (hd (queued ?s))) > Rank (rTier (exReq 3 ''b'' 0))"
    using conjunct2[OF h] by (simp_all add: exReq_def)
  from arrival_respects_rank[OF conjunct1[OF h] this, of exPlan] r acc show ?thesis
    unfolding Let_def by (intro conjI) blast+
qed

section \<open>Progress\<close>

lemma attempt_log:
  "attempt plan state req s = Parked r s' \<Longrightarrow> \<exists>l. elog (effects s') = elog (effects s) @ l"
  "attempt plan state req s = Handled s' \<Longrightarrow> \<exists>l. elog (effects s') = elog (effects s) @ l"
  "attempt plan state req s = Started s' \<Longrightarrow> \<exists>l. elog (effects s') = elog (effects s) @ l"
proof -
  assume "attempt plan state req s = Parked r s'"
  from quietD(13)[OF attempt_parked(2)[OF this]] show "\<exists>l. elog (effects s') = elog (effects s) @ l" by blast
next
  assume "attempt plan state req s = Handled s'"
  then show "\<exists>l. elog (effects s') = elog (effects s) @ l"
    by (cases rule: attempt_handled) (auto simp: joinSwap_frame grantHandler_effects)
next
  assume "attempt plan state req s = Started s'"
  from attempt_started[OF this] obtain s1 where "quiet s s1"
    "s' = startSwap (markParked ParkLoading req) (plan (Model req) (runningSet s (Model req))) s1" by blast
  with quietD(13)[OF \<open>quiet s s1\<close>] show "\<exists>l. elog (effects s') = elog (effects s) @ l" by (auto simp: startSwap_frame)
qed

lemma drainStep_log:
  "\<exists>l. elog (effects (fst (drainStep plan d req))) = elog (effects (fst d)) @ l"
proof -
  obtain s remaining barrier where d: "d = (s, remaining, barrier)" by (cases d)
  show ?thesis
  proof (cases "barred barrier req")
    case True
    then show ?thesis by (simp add: d drainStep_attempt)
  next
    case nb: False
    show ?thesis
    proof (cases "ModelState (effects s) (Model req)")
      case None
      with nb show ?thesis by (simp add: d drainStep_attempt GrantError_def)
    next
      case (Some state)
      with nb attempt_log[of plan state req s] show ?thesis
        by (cases "attempt plan state req s") (simp_all add: d drainStep_attempt stick_def)
    qed
  qed
qed

lemma drain_fold_log: "\<exists>l. elog (effects (fst (foldl (drainStep plan) d ps))) = elog (effects (fst d)) @ l"
proof (induction ps arbitrary: d)
  case (Cons p ps)
  obtain l where "elog (effects (fst (drainStep plan d p))) = elog (effects (fst d)) @ l" using drainStep_log by blast
  with Cons[of "drainStep plan d p"] show ?case by auto
qed simp

lemma drainQueue_head:
  assumes "queued s = q # qs"
  shows "\<exists>l. elog (effects (drainQueue plan s)) = elog (effects (fst (drainStep plan (s, [], None) q))) @ l"
proof -
  obtain s1 remaining b where f: "foldl (drainStep plan) (s, [], None) (queued s) = (s1, remaining, b)"
    by (cases "foldl (drainStep plan) (s, [], None) (queued s)")
  with assms have "foldl (drainStep plan) (drainStep plan (s, [], None) q) qs = (s1, remaining, b)" by simp
  with drain_fold_log[of plan "drainStep plan (s, [], None) q" qs]
  show ?thesis using assms by (simp add: drainQueue_def f Let_def fifo_frame)
qed



section \<open>Preemption\<close>

text \<open>The victims of a model that an arrival may boot.\<close>

definition victims :: "Tier \<Rightarrow> grantedReq list \<Rightarrow> nat list" where
  "victims t gs = List.map_filter g_preempt (filter (\<lambda>v. CanPreempt (g_tier v) t) gs)"

lemma victims_simps [simp]:
  "victims t [] = []"
  "victims t (v # vs) = (case g_preempt v of Some b \<Rightarrow> if CanPreempt (g_tier v) t then b # victims t vs else victims t vs
     | None \<Rightarrow> victims t vs)"
  by (simp_all add: victims_def List.map_filter_simps split: option.split)

lemma preemptVictims_spec:
  assumes "preemptVictims t lim vs (booted, bs) = (stop, booted', bs')" "0 < lim \<Longrightarrow> booted \<le> lim"
  shows "\<exists>new rest. victims t vs = new @ rest \<and> bs' = bs @ new \<and> booted' = booted + int (length new) \<and>
    (0 < lim \<longrightarrow> booted' \<le> lim) \<and> (stop \<longrightarrow> 0 < lim \<and> booted' = lim) \<and> (\<not> stop \<longrightarrow> rest = [])"
  using assms
proof (induction vs arbitrary: booted bs)
  case (Cons v vs)
  show ?case
  proof (cases "lim > 0 \<and> booted \<ge> lim")
    case True
    with Cons.prems have "stop" "booted' = booted" "bs' = bs" "booted = lim" by auto
    with True show ?thesis by (intro exI[of _ "[]"] exI[of _ "victims t (v # vs)"]) simp
  next
    case nl: False
    show ?thesis
    proof (cases "CanPreempt (g_tier v) t \<and> g_preempt v \<noteq> None")
      case True
      then obtain b where b: "g_preempt v = Some b" by blast
      from Cons.prems(1) nl True b have "preemptVictims t lim vs (booted + 1, bs @ [b]) = (stop, booted', bs')" by auto
      moreover have "0 < lim \<Longrightarrow> booted + 1 \<le> lim" using nl by auto
      ultimately obtain new rest where IH: "victims t vs = new @ rest" "bs' = (bs @ [b]) @ new"
        "booted' = booted + 1 + int (length new)" "0 < lim \<longrightarrow> booted' \<le> lim" "stop \<longrightarrow> 0 < lim \<and> booted' = lim"
        "\<not> stop \<longrightarrow> rest = []" using Cons.IH by blast
      with True b show ?thesis by (intro exI[of _ "b # new"] exI[of _ rest]) auto
    next
      case False
      then have "preemptVictims t lim vs (booted, bs) = (stop, booted', bs')" "victims t (v # vs) = victims t vs"
        using Cons.prems(1) nl by (auto split: option.splits if_splits)
      with Cons.IH Cons.prems(2) show ?thesis by metis
    qed
  qed
qed auto

lemma preemptModels_spec:
  assumes "preemptModels gr t lim ms (booted, bs) = (ok, bs')" "0 < lim \<Longrightarrow> booted \<le> lim" "booted = int (length bs)"
  shows "\<exists>new rest. concat (map (\<lambda>m. victims t (mlist gr m)) ms) = new @ rest \<and> bs' = bs @ new \<and>
    (0 < lim \<longrightarrow> int (length bs') \<le> lim) \<and> (ok \<longleftrightarrow> bs' \<noteq> []) \<and> (rest \<noteq> [] \<longrightarrow> 0 < lim \<and> int (length bs') = lim)"
  using assms
proof (induction ms arbitrary: booted bs)
  case (Cons m ms)
  show ?case
  proof (cases "mlist gr m = []")
    case True
    with Cons show ?thesis by simp
  next
    case False
    obtain stop booted1 bs1 where v: "preemptVictims t lim (mlist gr m) (booted, bs) = (stop, booted1, bs1)"
      by (cases "preemptVictims t lim (mlist gr m) (booted, bs)")
    from preemptVictims_spec[OF v Cons.prems(2)] obtain new rest where n: "victims t (mlist gr m) = new @ rest"
      "bs1 = bs @ new" "booted1 = booted + int (length new)" "0 < lim \<longrightarrow> booted1 \<le> lim"
      "stop \<longrightarrow> 0 < lim \<and> booted1 = lim" "\<not> stop \<longrightarrow> rest = []" by blast
    show ?thesis
    proof (cases stop)
      case True
      then have "ok" "bs' = bs1" using Cons.prems(1) False v by auto
      moreover have "int (length bs1) = lim" "0 < lim" using n Cons.prems(3) True by auto
      ultimately show ?thesis using n
        by (intro exI[of _ new] exI[of _ "rest @ concat (map (\<lambda>m. victims t (mlist gr m)) ms)"]) auto
    next
      case ns: False
      then have "preemptModels gr t lim ms (booted1, bs1) = (ok, bs')" using Cons.prems(1) False v by auto
      moreover have "0 < lim \<Longrightarrow> booted1 \<le> lim" "booted1 = int (length bs1)" using n Cons.prems(3) by auto
      ultimately obtain new2 rest2 where "concat (map (\<lambda>m. victims t (mlist gr m)) ms) = new2 @ rest2"
        "bs' = bs1 @ new2" "0 < lim \<longrightarrow> int (length bs') \<le> lim" "ok \<longleftrightarrow> bs' \<noteq> []"
        "rest2 \<noteq> [] \<longrightarrow> 0 < lim \<and> int (length bs') = lim" using Cons.IH by blast
      with n ns show ?thesis by (intro exI[of _ "new @ new2"] exI[of _ rest2]) auto
    qed
  qed
qed auto

text \<open>Preemption is exact. \<open>tryPreempt\<close> runs the callbacks of the served requests on the given
  models that rank strictly below the arrival and are preemptible or face a preempting tier, in
  order, all of them or, with a positive limit, the first so many; it changes nothing else that a
  later decision reads, and reports whether it booted anyone.\<close>

theorem tryPreempt_exact:
  defines "eligible \<equiv> \<lambda>s req ms. concat (map (\<lambda>m. victims (rTier req) (mlist (granted s) m)) ms)"
  shows "\<exists>bs. snd (tryPreempt req ms lim s) = upd_effects (\<lambda>e. e\<lparr>elog := elog e @ map Booted bs\<rparr>) s \<and>
    bs = (if 0 < lim then take (nat lim) (eligible s req ms) else eligible s req ms) \<and>
    (fst (tryPreempt req ms lim s) \<longleftrightarrow> bs \<noteq> [])"
proof -
  obtain ok bs where p: "preemptModels (granted s) (rTier req) lim ms (0, []) = (ok, bs)" by fastforce
  from preemptModels_spec[OF p] obtain rest where r: "eligible s req ms = bs @ rest" "0 < lim \<longrightarrow> int (length bs) \<le> lim"
    "ok \<longleftrightarrow> bs \<noteq> []" "rest \<noteq> [] \<longrightarrow> 0 < lim \<and> int (length bs) = lim" by (auto simp: eligible_def)
  have "bs = (if 0 < lim then take (nat lim) (eligible s req ms) else eligible s req ms)"
    using r by (cases "rest = []") (auto simp: take_all)
  with r(3) show ?thesis by (intro exI[of _ bs]) (simp add: tryPreempt_def p foldl_logE)
qed

section \<open>Unloading, shutdown and cancellation\<close>

definition all_held :: "(HandlerReq \<Rightarrow> bool) \<Rightarrow> FIFO \<Rightarrow> bool" where
  "all_held P s \<longleftrightarrow> (\<forall>w \<in> set (queued s) \<union> set (penalized s) \<union> set (waiting (active s)). P w)"

lemma waiting_join:
  assumes "distinct (map fst act)" "map_of act k = Some sw"
  shows "set (waiting (mput k (sw\<lparr>as_waiters := as_waiters sw @ [r]\<rparr>) act)) = insert r (set (waiting act))"
proof -
  from waiting_upd[OF assms, of "sw\<lparr>as_waiters := as_waiters sw @ [r]\<rparr>"]
  have "mset (waiting (mput k (sw\<lparr>as_waiters := as_waiters sw @ [r]\<rparr>) act)) = add_mset r (mset (waiting act))" by simp
  from arg_cong[OF this, of set_mset] show ?thesis by simp
qed

text \<open>\<open>P\<close> of the waiters is kept by a decision about a request with \<open>P\<close>.\<close>

lemma attempt_waiting:
  assumes i: "fifo_inv s"
  shows "attempt plan state req s = Parked r s' \<Longrightarrow> set (waiting (active s')) = set (waiting (active s)) \<and> penalized s' = penalized s"
    "attempt plan state req s = Handled s' \<Longrightarrow>
       set (waiting (active s')) \<subseteq> insert (markParked ParkLoading req) (set (waiting (active s))) \<and> penalized s' = penalized s"
    "attempt plan state req s = Started s' \<Longrightarrow>
       set (waiting (active s')) \<subseteq> insert (markParked ParkLoading req) (set (waiting (active s))) \<and> penalized s' = penalized s"
proof -
  assume "attempt plan state req s = Parked r s'"
  from quietD(2,3)[OF attempt_parked(2)[OF this]]
  show "set (waiting (active s')) = set (waiting (active s)) \<and> penalized s' = penalized s" by simp
next
  have keys: "distinct (map fst (active s))" using i by (simp add: fifo_inv_def swaps_ok_def)
  assume "attempt plan state req s = Handled s'"
  then show "set (waiting (active s')) \<subseteq> insert (markParked ParkLoading req) (set (waiting (active s))) \<and> penalized s' = penalized s"
  proof (cases rule: attempt_handled)
    case (join sw)
    with waiting_join[OF keys join(1), of "markParked ParkLoading req"] show ?thesis
      by (simp add: joinSwap_frame) (simp add: joinSwap_def)
  qed (auto simp: fifo_frame)
next
  assume "attempt plan state req s = Started s'"
  from attempt_started[OF this] obtain s1 where a: "map_of (active s) (Model req) = None" "quiet s s1"
    "s' = startSwap (markParked ParkLoading req) (plan (Model req) (runningSet s (Model req))) s1" by blast
  from waiting_new[of "active s" "Model req"] a quietD(2,3)[OF a(2)]
  show "set (waiting (active s')) \<subseteq> insert (markParked ParkLoading req) (set (waiting (active s))) \<and> penalized s' = penalized s"
    by (simp add: startSwap_frame)
qed

text \<open>Draining hands on only what it found: with \<open>P\<close> for everyone held, and models outside \<open>ts\<close>
  for the queue, no new swap has a target in \<open>ts\<close>.\<close>

definition keeps :: "(HandlerReq \<Rightarrow> bool) \<Rightarrow> string set \<Rightarrow> FIFO \<Rightarrow> HandlerReq list \<Rightarrow> bool" where
  "keeps P ts s ws \<longleftrightarrow> (\<forall>w \<in> set ws \<union> set (penalized s) \<union> set (waiting (active s)). P w) \<and>
     dom (map_of (active s)) \<inter> ts = {}"

lemma attempt_dom:
  "attempt plan state req s = Parked r s' \<Longrightarrow> dom (map_of (active s')) = dom (map_of (active s))"
  "attempt plan state req s = Handled s' \<Longrightarrow> dom (map_of (active s')) \<subseteq> dom (map_of (active s))"
  "attempt plan state req s = Started s' \<Longrightarrow> dom (map_of (active s')) = insert (Model req) (dom (map_of (active s)))"
proof -
  assume "attempt plan state req s = Parked r s'"
  from quietD(3)[OF attempt_parked(2)[OF this]] show "dom (map_of (active s')) = dom (map_of (active s))" by simp
next
  assume "attempt plan state req s = Handled s'"
  then show "dom (map_of (active s')) \<subseteq> dom (map_of (active s))"
    by (cases rule: attempt_handled) (auto simp: joinSwap_def grantHandler_frame split: if_splits)
next
  assume "attempt plan state req s = Started s'"
  from attempt_started[OF this] obtain s1 where "quiet s s1"
    "s' = startSwap (markParked ParkLoading req) (plan (Model req) (runningSet s (Model req))) s1" by blast
  then show "dom (map_of (active s')) = insert (Model req) (dom (map_of (active s)))"
    using quietD(3)[OF \<open>quiet s s1\<close>] by (auto simp: startSwap_frame)
qed

context swapper
begin

lemma drain_fold_keeps:
  assumes "drain_inv c d ps" "keeps P ts (fst d) (fst (snd d) @ ps)" "\<forall>w \<in> set ps. Model w \<notin> ts"
    and P: "\<And>r q. same_req r q \<Longrightarrow> P q \<Longrightarrow> P r"
  shows "keeps P ts (fst (foldl (drainStep EvictionFor) d ps)) (fst (snd (foldl (drainStep EvictionFor) d ps)))"
  using assms(1-3)
proof (induction ps arbitrary: d)
  case (Cons req ps)
  obtain s remaining barrier where d: "d = (s, remaining, barrier)" by (cases d)
  have i: "fifo_inv s" using Cons.prems(1) by (simp add: d drain_inv_def)
  have k: "keeps P ts s (remaining @ req # ps)" and m: "Model req \<notin> ts" using Cons.prems(2,3) by (simp_all add: d)
  have Pr: "P r" if "same_req r req" for r using P[OF that] k by (simp add: keeps_def)
  have "keeps P ts (fst (drainStep EvictionFor d req)) (fst (snd (drainStep EvictionFor d req)) @ ps)"
  proof (cases "barred barrier req")
    case True
    with k Pr show ?thesis by (simp add: d drainStep_attempt keeps_def)
  next
    case nb: False
    show ?thesis
    proof (cases "ModelState (effects s) (Model req)")
      case None
      with nb k show ?thesis by (simp add: d drainStep_attempt keeps_def)
    next
      case (Some state)
      show ?thesis
      proof (cases "attempt EvictionFor state req s")
        case (Parked r s')
        from attempt_waiting(1)[OF i Parked] attempt_dom(1)[OF Parked] Pr[OF attempt_parked(1)[OF Parked]] k nb Some Parked
        show ?thesis by (simp add: d drainStep_attempt stick_def keeps_def)
      next
        case (Handled s')
        from attempt_waiting(2)[OF i Handled] attempt_dom(2)[OF Handled] Pr[of "markParked ParkLoading req"] k nb Some Handled
        show ?thesis unfolding keeps_def by (simp add: d drainStep_attempt) blast
      next
        case (Started s')
        from attempt_waiting(3)[OF i Started] attempt_dom(3)[OF Started] Pr[of "markParked ParkLoading req"] k m nb Some Started
        show ?thesis by (auto simp: d drainStep_attempt keeps_def)
      qed
    qed
  qed
  with Cons.IH[OF drainStep_inv[OF Cons.prems(1)]] Cons.prems(3) show ?case by simp
qed simp

lemma drainQueue_keeps:
  assumes "fifo_inv s" "keeps P ts s (queued s)" "\<forall>w \<in> set (queued s). Model w \<notin> ts"
    and "\<And>r q. same_req r q \<Longrightarrow> P q \<Longrightarrow> P r"
  shows "keeps P ts (drainQueue EvictionFor s) (queued (drainQueue EvictionFor s))"
proof -
  obtain s1 remaining b where f: "foldl (drainStep EvictionFor) (s, [], None) (queued s) = (s1, remaining, b)"
    by (cases "foldl (drainStep EvictionFor) (s, [], None) (queued s)")
  have "drain_inv (cfg s) (s, [], None) (queued s)" using assms(1) by (simp add: drain_inv_def fifo_inv_def)
  from drain_fold_keeps[OF this _ assms(3,4)] assms(2) have "keeps P ts s1 remaining" by (simp add: f)
  with assms(2) show ?thesis by (simp add: drainQueue_def f Let_def keeps_def fifo_frame)
qed

end

lemma waiting_map_of: "distinct (map fst act) \<Longrightarrow> w \<in> set (waiting act) \<longleftrightarrow> (\<exists>m sw. map_of act m = Some sw \<and> w \<in> set (as_waiters sw))"
  by (auto simp: waiting_def) (metis map_of_is_SomeI prod.collapse, metis map_of_SomeD snd_conv)

lemma unloadWaiters_dom: "dom (map_of (active (unloadWaiters ts s))) = dom (map_of (active s)) - set ts \<and>
  queued (unloadWaiters ts s) = queued s \<and> penalized (unloadWaiters ts s) = penalized s"
proof -
  let ?f = "\<lambda>s id. case map_of (active s) id of None \<Rightarrow> s
      | Some sw \<Rightarrow> (upd_effects (\<lambda>e. foldl (\<lambda>e w. GrantError w ErrUnloaded e) e (as_waiters sw)) s)\<lparr>active := mdel id (active s)\<rparr>"
  have "dom (map_of (active (foldl ?f s ids))) = dom (map_of (active s)) - set ids \<and>
      queued (foldl ?f s ids) = queued s \<and> penalized (foldl ?f s ids) = penalized s" for ids s
  proof (induction ids arbitrary: s)
    case (Cons id ids)
    have "dom (map_of (active (?f s id))) = dom (map_of (active s)) - {id} \<and> queued (?f s id) = queued s \<and> penalized (?f s id) = penalized s"
      by (auto split: option.split)
    with Cons[of "?f s id"] show ?case by auto
  qed simp
  then show ?thesis by (simp add: unloadWaiters_def)
qed

text \<open>The state \<open>OnUnload\<close> drains.\<close>

definition unloadReady :: "planner \<Rightarrow> string list \<Rightarrow> FIFO \<Rightarrow> FIFO" where
  "unloadReady plan targets s =
     (let hit = (\<lambda>w. Model w \<in> set targets);
          s1 = unloadWaiters targets (kvWarmForget targets s);
          fail = (\<lambda>ws. upd_effects (\<lambda>e. foldl (\<lambda>e w. GrantError w ErrUnloaded e) e (filter hit ws)));
          s2 = (if queued s1 = [] then s1
                else publish plan ((fail (queued s1) s1)\<lparr>queued := filter (\<lambda>w. \<not> hit w) (queued s1)\<rparr>));
          s3 = (fail (penalized s2) s2)\<lparr>penalized := filter (\<lambda>w. \<not> hit w) (penalized s2)\<rparr>
      in upd_effects (StopProcesses targets) s3)"

lemma OnUnload_ready: "OnUnload plan ts s = drainQueue plan (unloadReady plan ts s)"
  by (simp only: OnUnload_def unloadReady_def Let_def)

lemma unloadReady_frame:
  "queued (unloadReady plan ts s) = filter (\<lambda>w. Model w \<notin> set ts) (queued s)"
  "penalized (unloadReady plan ts s) = filter (\<lambda>w. Model w \<notin> set ts) (penalized s)"
  "active (unloadReady plan ts s) = active (unloadWaiters ts (kvWarmForget ts s))"
  "cfg (unloadReady plan ts s) = cfg (unloadWaiters ts (kvWarmForget ts s))"
  "inFlight (unloadReady plan ts s) = inFlight (unloadWaiters ts (kvWarmForget ts s))"
  using unloadWaiters_dom[of ts "kvWarmForget ts s"]
  by (auto simp: unloadReady_def Let_def fifo_frame)

lemma unloadReady_inv:
  assumes "fifo_inv s"
  shows "fifo_inv (unloadReady plan ts s)"
proof -
  have "fifo_inv (kvWarmForget ts s)" using assms by (simp add: fifo_inv_def fifo_frame)
  then have "fifo_inv (unloadWaiters ts (kvWarmForget ts s))" by (rule router.unloadWaiters_inv)
  moreover have "queued (unloadWaiters ts (kvWarmForget ts s)) = queued s"
    using unloadWaiters_dom[of ts "kvWarmForget ts s"] by (simp add: fifo_frame)
  ultimately show ?thesis by (simp add: fifo_inv_def unloadReady_frame router.queue_ok_filter)
qed

text \<open>Unloading leaves nothing behind. After \<open>OnUnload\<close> in a reachable state no request for an
  unloaded model is queued, penalized or waiting, and no swap to an unloaded model is under way, even
  though the queue has been drained again at the end.\<close>

theorem unload_clears:
  assumes "reach (plannerOf r) c models s"
  shows "all_held (\<lambda>w. Model w \<notin> set ts) (OnUnload (plannerOf r) ts s) \<and>
    dom (map_of (active (OnUnload (plannerOf r) ts s))) \<inter> set ts = {}"
proof -
  let ?s = "unloadReady (plannerOf r) ts s"
  have i: "fifo_inv ?s" by (rule unloadReady_inv[OF router.reach_inv[OF assms]])
  have dom: "dom (map_of (active ?s)) \<inter> set ts = {}"
    using unloadWaiters_dom[of ts "kvWarmForget ts s"] by (auto simp: unloadReady_frame)
  have "Model w \<notin> set ts" if "w \<in> set (waiting (active ?s))" for w
  proof -
    have ok: "swaps_ok (active ?s) (inFlight ?s)" using i by (simp add: fifo_inv_def)
    from that obtain m sw where sw: "map_of (active ?s) m = Some sw" "w \<in> set (as_waiters sw)"
      using waiting_map_of[OF swaps_okD(1)[OF ok]] by blast
    with swaps_okD(2)[OF ok] have "Model w = m" by (auto simp: swap_ok_def)
    with sw(1) dom show ?thesis by blast
  qed
  with dom have "keeps (\<lambda>w. Model w \<notin> set ts) (set ts) ?s (queued ?s)" by (auto simp: keeps_def unloadReady_frame)
  moreover have "\<forall>w \<in> set (queued ?s). Model w \<notin> set ts" by (simp add: unloadReady_frame)
  ultimately have "keeps (\<lambda>w. Model w \<notin> set ts) (set ts) (drainQueue (plannerOf r) ?s) (queued (drainQueue (plannerOf r) ?s))"
    using router.drainQueue_keeps[OF i] same_reqD(1) by (metis (no_types, lifting))
  then show ?thesis by (simp add: OnUnload_ready keeps_def all_held_def)
qed

theorem unload_clears_witness:
  "map Respond (queued (OnUnload exPlan [''a''] (exRun [EvRequest (exReq 1 ''a'' 0), EvRequest (exReq 2 ''a'' 0)]))) = [] \<and>
   all_held (\<lambda>w. Model w \<notin> set [''a''])
     (OnUnload exPlan [''a''] (exRun [EvRequest (exReq 1 ''a'' 0), EvRequest (exReq 2 ''a'' 0)]))"
proof -
  have "map Respond (queued (OnUnload exPlan [''a''] (exRun [EvRequest (exReq 1 ''a'' 0), EvRequest (exReq 2 ''a'' 0)]))) = []"
    by code_simp
  with unload_clears[OF exRun_reach, of "[''a'']"] show ?thesis by blast
qed

text \<open>Shutdown answers everyone. \<open>OnShutdown\<close> gives each caller that is still there exactly one
  more answer for each of its requests the scheduler holds.\<close>

theorem shutdown_answers_all:
  assumes "x \<notin> gone s"
  shows "count (answers (elog (effects (OnShutdown err s)))) x =
    count (answers (elog (effects s))) x + count (held s) x"
proof -
  let ?ws = "waiting (active s) @ queued s @ penalized s"
  have eq: "OnShutdown err s = upd_effects (\<lambda>e. foldl (\<lambda>e w. GrantError w err e) e ?ws) s"
    by (simp only: OnShutdown_def waiting_def)
  have "count (booksQ (queued s) (OnShutdown err s)) x = count (image_mset Respond (mset ?ws) + books s) x"
    using router.fails_books[of s "queued s" err ?ws] assms unfolding eq agree_def by blast
  moreover have "booksQ (queued s) (OnShutdown err s) = held s + answers (elog (effects (OnShutdown err s)))"
    by (simp add: eq booksQ_def held_def)
  moreover have "image_mset Respond (mset ?ws) = held s" by (simp add: held_def)
  ultimately have "count (held s) x + count (answers (elog (effects (OnShutdown err s)))) x =
      count (held s) x + (count (held s) x + count (answers (elog (effects s))) x)"
    by (simp only: books_held count_union)
  then show ?thesis by simp
qed

theorem shutdown_answers_all_witness:
  "count (answers (elog (effects (OnShutdown (ErrOther ''down'')
     (exRun [EvRequest (exReq 1 ''a'' 0), EvRequest (exReq 2 ''a'' 0)]))))) 2 = 1"
proof -
  let ?s = "exRun [EvRequest (exReq 1 ''a'' 0), EvRequest (exReq 2 ''a'' 0)]"
  have g: "walkedAway (effects ?s) = []" by code_simp
  have h: "map Respond (queued ?s @ penalized ?s @ waiting (active ?s)) = [2]" by code_simp
  have l: "concat (map answerOf (elog (effects ?s))) = [1]" by code_simp
  have "held ?s = mset (map Respond (queued ?s @ penalized ?s @ waiting (active ?s)))" by (simp add: held_def)
  then have "count (held ?s) 2 = 1" by (simp only: h) simp
  moreover have "count (answers (elog (effects ?s))) 2 = 0" by (simp only: answers_def l) simp
  moreover have "2 \<notin> gone ?s" by (simp only: g) simp
  from shutdown_answers_all[OF this, of "ErrOther ''down''"]
  have "count (answers (elog (effects (OnShutdown (ErrOther ''down'') ?s)))) 2 =
      count (answers (elog (effects ?s))) 2 + count (held ?s) 2" .
  ultimately show ?thesis by simp
qed

text \<open>Cancellation forgets the caller and nobody else: afterwards the scheduler holds no request of
  the cancelled caller, has answered no one, and holds every other caller's requests as before.\<close>

theorem cancel_forgets:
  "count (held (OnCancel plan req s)) (Respond req) = 0 \<and>
   elog (effects (OnCancel plan req s)) = elog (effects s) \<and>
   (x \<noteq> Respond req \<and> x \<notin> gone s \<longrightarrow> count (held (OnCancel plan req s)) x = count (held s) x)"
proof -
  have "count (held (OnCancel plan req s)) x = count (held s) x" if "x \<noteq> Respond req" "x \<notin> gone s"
  proof -
    have "count (books (OnCancel plan req s)) x = count (books s) x"
      using router.OnCancel_books[of req s plan] that by (simp add: agree_def)
    then show ?thesis using router.OnCancel_books[of req s plan] by (simp add: books_held)
  qed
  then show ?thesis using router.OnCancel_books[of req s plan] by blast
qed

theorem cancel_forgets_witness:
  "map Respond (queued (OnCancel exPlan (exReq 2 ''a'' 0)
      (exRun [EvRequest (exReq 1 ''a'' 0), EvRequest (exReq 2 ''a'' 0), EvRequest (exReq 3 ''a'' 0)]))) = [3] \<and>
   count (held (OnCancel exPlan (exReq 2 ''a'' 0)
      (exRun [EvRequest (exReq 1 ''a'' 0), EvRequest (exReq 2 ''a'' 0), EvRequest (exReq 3 ''a'' 0)]))) 2 = 0"
proof -
  let ?s = "exRun [EvRequest (exReq 1 ''a'' 0), EvRequest (exReq 2 ''a'' 0), EvRequest (exReq 3 ''a'' 0)]"
  have "map Respond (queued (OnCancel exPlan (exReq 2 ''a'' 0) ?s)) = [3]" by code_simp
  moreover have "Respond (exReq 2 ''a'' 0) = 2" by (simp add: exReq_def)
  ultimately show ?thesis using cancel_forgets[of exPlan "exReq 2 ''a'' 0" ?s] by simp
qed

end
