(* ===== verification/FifoBounds.thy ===== *)
theory FifoBounds
  imports FifoFair
begin

text \<open>
  Bounds that hold in every reachable state: the concurrency limit of a model, the KV pool, and the
  freshness of the capacity snapshot and of the queue positions that other goroutines read.
\<close>

section \<open>Limits\<close>

text \<open>The budget invariant for runs whose requests all count against the limit and reserve at most
  \<open>E\<close> tokens.\<close>

definition plain :: "int \<Rightarrow> HandlerReq \<Rightarrow> bool" where
  "plain E w \<longleftrightarrow> \<not> ConcurrencyExempt w \<and> EstimatedTokens w \<le> E"

lemma plain_same: "same_req r q \<Longrightarrow> plain E q \<Longrightarrow> plain E r"
  by (simp add: plain_def same_reqD)

definition within :: "int \<Rightarrow> FIFO \<Rightarrow> bool" where
  "within E s \<longleftrightarrow> (\<forall>m. 0 \<le> limit s m \<and> mint (inFlight s) m \<le> limit s m \<and>
     (0 < mint (KVPoolTokens (cfg s)) m \<longrightarrow> mint (kvInFlight s) m \<le> max (mint (KVPoolTokens (cfg s)) m) E))"

lemma within_cong:
  assumes "within E s" "limits s' = limits s" "cfg s' = cfg s"
    "\<And>m. mint (inFlight s') m \<le> max 0 (mint (inFlight s) m)" "\<And>m. mint (kvInFlight s') m \<le> max (mint (kvInFlight s) m) 0" "0 \<le> E"
  shows "within E s'"
  unfolding within_def
proof (intro allI conjI impI)
  fix m
  show "0 \<le> limit s' m" using assms(1,2) by (simp add: within_def limit_def)
  have "limit s' m = limit s m" using assms(2) by (simp add: limit_def)
  moreover have "0 \<le> limit s m" "mint (inFlight s) m \<le> limit s m" using assms(1) by (simp_all add: within_def)
  ultimately show "mint (inFlight s') m \<le> limit s' m" using assms(4)[of m] by linarith
  show "mint (kvInFlight s') m \<le> max (mint (KVPoolTokens (cfg s')) m) E" if "0 < mint (KVPoolTokens (cfg s')) m"
    using assms(1)[unfolded within_def, rule_format, of m] assms(5)[of m] that assms(3,6) by auto
qed

lemma grantHandler_kv:
  "kvInFlight (grantHandler plan r m s) =
     (if Respond r \<in> gone s \<or> StatusRead r \<or> EstimatedTokens r \<le> 0 then kvInFlight s
      else mput m (mint (kvInFlight s) m + EstimatedTokens r) (kvInFlight s))"
proof -
  have "kvInFlight (reserveKV (clearParked r) m s) = (if EstimatedTokens r \<le> 0 then kvInFlight s
      else mput m (mint (kvInFlight s) m + EstimatedTokens r) (kvInFlight s))" for s
    by (simp add: reserveKV_def Let_def)
  then show ?thesis by (simp add: grantHandler_def Let_def fifo_frame GrantServe_def)
qed

lemma within_grant:
  assumes w: "within E s" and "0 \<le> E" "\<not> atCapacity s r" "plain E r" "Model r = m" "kvAdmit s m (EstimatedTokens r)"
  shows "within E (grantHandler plan r m s)"
proof -
  have lim: "mint (inFlight s) m < limit s m" using assms(3-5) by (simp add: atCapacity_def plain_def)
  have kv: "0 < mint (KVPoolTokens (cfg s)) m \<Longrightarrow> mint (kvInFlight s) m + EstimatedTokens r \<le> max (mint (KVPoolTokens (cfg s)) m) E"
    using assms(4,6) by (auto simp: kvAdmit_def Let_def plain_def split: if_splits)
  show ?thesis unfolding within_def
    using w lim kv by (auto simp: within_def grantHandler_inFlight grantHandler_kv grantHandler_frame limit_def)
qed

lemma within_frame:
  assumes "within E s" "limits s' = limits s" "cfg s' = cfg s" "inFlight s' = inFlight s" "kvInFlight s' = kvInFlight s"
  shows "within E s'"
  using assms by (simp add: within_def limit_def)

lemma attempt_within:
  assumes w: "within E s" and E: "0 \<le> E" and p: "plain E req"
  shows "attempt plan state req s = Parked r s' \<Longrightarrow> within E s'"
    "attempt plan state req s = Handled s' \<Longrightarrow> within E s'"
    "attempt plan state req s = Started s' \<Longrightarrow> within E s'"
proof -
  assume "attempt plan state req s = Parked r s'"
  from attempt_parked(2)[OF this] show "within E s'" using quietD by (intro within_frame[OF w]) auto
next
  assume "attempt plan state req s = Handled s'"
  then show "within E s'"
  proof (cases rule: attempt_handled)
    case (join sw)
    then show ?thesis by (intro within_frame[OF w]) (simp_all add: joinSwap_frame)
  next
    case grant
    then show ?thesis using within_grant[OF w E grant(2) p refl grant(6)] by simp
  qed
next
  assume "attempt plan state req s = Started s'"
  from attempt_started[OF this] obtain s1 where "quiet s s1"
    "s' = startSwap (markParked ParkLoading req) (plan (Model req) (runningSet s (Model req))) s1" by blast
  then show "within E s'" using quietD[OF \<open>quiet s s1\<close>] by (intro within_frame[OF w]) (simp_all add: startSwap_frame)
qed

lemma drain_within:
  assumes "within E (fst d)" "0 \<le> E" "\<forall>q \<in> set ps. plain E q"
  shows "within E (fst (foldl (drainStep plan) d ps))"
  using assms(1,3)
proof (induction ps arbitrary: d)
  case (Cons req ps)
  obtain s remaining barrier where d: "d = (s, remaining, barrier)" by (cases d)
  have "within E (fst (drainStep plan d req))"
  proof (cases "barred barrier req")
    case True
    with Cons.prems show ?thesis by (simp add: d drainStep_attempt)
  next
    case nb: False
    show ?thesis
    proof (cases "ModelState (effects s) (Model req)")
      case None
      with nb Cons.prems show ?thesis by (auto simp: d drainStep_attempt intro: within_frame)
    next
      case (Some state)
      have "within E s" "plain E req" using Cons.prems by (simp_all add: d)
      with attempt_within[OF _ assms(2), of s req plan state] nb Some show ?thesis
        by (cases "attempt plan state req s") (simp_all add: d drainStep_attempt stick_def)
    qed
  qed
  with Cons show ?case by simp
qed simp

lemma drainQueue_within:
  assumes "within E s" "0 \<le> E" "\<forall>q \<in> set (queued s). plain E q"
  shows "within E (drainQueue plan s)"
proof -
  obtain s1 remaining b where f: "foldl (drainStep plan) (s, [], None) (queued s) = (s1, remaining, b)"
    by (cases "foldl (drainStep plan) (s, [], None) (queued s)")
  have "within E s1" using drain_within[of E "(s, [], None)" "queued s" plan] assms by (simp add: f)
  then have "within E (publish plan (broadcastQueuePositions remaining (kvWarmPrune (s1\<lparr>queued := remaining\<rparr>))))"
    by (rule within_frame) (simp_all add: fifo_frame)
  then show ?thesis using assms(1) by (simp add: drainQueue_def f Let_def fifo_frame)
qed

text \<open>The whole invariant.\<close>

definition budget :: "int \<Rightarrow> FIFO \<Rightarrow> bool" where
  "budget E s \<longleftrightarrow> fifo_inv s \<and> within E s \<and> all_held (plain E) s"

lemma all_held_keeps: "all_held P s \<longleftrightarrow> keeps P {} s (queued s)"
  by (simp add: all_held_def keeps_def)

context swapper
begin

lemma drainQueue_budget:
  assumes b: "budget E s" and E: "0 \<le> E"
  shows "budget E (drainQueue EvictionFor s)"
proof -
  have "\<forall>q \<in> set (queued s). plain E q" using b by (simp add: budget_def all_held_def)
  with drainQueue_within[of E s EvictionFor] b E have "within E (drainQueue EvictionFor s)" by (simp add: budget_def)
  moreover have "fifo_inv (drainQueue EvictionFor s)" using b drainQueue_inv by (simp add: budget_def)
  moreover have "keeps (plain E) {} (drainQueue EvictionFor s) (queued (drainQueue EvictionFor s))"
    using b plain_same by (intro drainQueue_keeps) (auto simp: budget_def all_held_keeps)
  ultimately show ?thesis by (simp add: budget_def all_held_keeps)
qed

lemma budget_frame:
  assumes "budget E s" "fifo_inv s'" "limits s' = limits s" "cfg s' = cfg s"
    "\<And>m. mint (inFlight s') m \<le> max 0 (mint (inFlight s) m)" "\<And>m. mint (kvInFlight s') m \<le> max (mint (kvInFlight s) m) 0"
    "set (queued s') \<subseteq> set (queued s)" "set (penalized s') \<subseteq> set (penalized s)"
    "set (waiting (active s')) \<subseteq> set (waiting (active s))" "0 \<le> E"
  shows "budget E s'"
  using assms within_cong[of E s s'] by (auto simp: budget_def all_held_def)

lemma budget_enqueue: "budget E s \<Longrightarrow> plain E r \<Longrightarrow> budget E (enqueue plan r s)"
  using inv_enqueue[of s plan r] within_frame[of E s "enqueue plan r s"]
  by (auto simp: budget_def all_held_def enqueue_frame)

lemma admitted_budget:
  assumes b: "budget E s" and E: "0 \<le> E" and p: "plain E req"
  shows "budget E (admitted EvictionFor state req s)"
proof -
  have i: "fifo_inv s" and w: "within E s" and h: "all_held (plain E) s" using b by (auto simp: budget_def)
  have load: "plain E (markParked ParkLoading req)" using plain_same[OF _ p] by simp
  have "budget E (case attempt EvictionFor state req s of Parked r s' \<Rightarrow> enqueue EvictionFor r s'
      | Handled s' \<Rightarrow> s' | Started s' \<Rightarrow> publish EvictionFor s')"
  proof (cases "attempt EvictionFor state req s")
    case (Parked r s')
    have "plain E r" by (rule plain_same[OF attempt_parked(1)[OF Parked] p])
    moreover have "budget E s'"
      using attempt_within(1)[OF w E p Parked] attempt_inv(1)[OF i Parked] attempt_waiting(1)[OF i Parked] h
      by (auto simp: budget_def all_held_def)
    ultimately show ?thesis using Parked budget_enqueue by simp
  next
    case (Handled s')
    have "all_held (plain E) s'"
      using attempt_inv(2)[OF i Handled] attempt_waiting(2)[OF i Handled] h load unfolding all_held_def by auto
    with Handled attempt_within(2)[OF w E p Handled] attempt_inv(2)[OF i Handled] show ?thesis by (simp add: budget_def)
  next
    case (Started s')
    have "all_held (plain E) s'"
      using attempt_inv(3)[OF i Started] attempt_waiting(3)[OF i Started] h load unfolding all_held_def by auto
    then have "budget E s'" using attempt_within(3)[OF w E p Started] attempt_inv(3)[OF i Started] by (simp add: budget_def)
    with Started E show ?thesis by (auto simp: publish_frame budget_def fifo_inv_def all_held_def intro: within_frame)
  qed
  moreover have "budget E (publish EvictionFor (s\<lparr>penalized := penalized s @ [markParked ParkPenalized req]\<rparr>))"
    using b plain_same[of "markParked ParkPenalized req" req E] p
    by (auto simp: budget_def fifo_inv_def publish_frame all_held_def intro: within_frame)
  moreover have "budget E (enqueue EvictionFor (markParked ParkRank req) s)"
    using budget_enqueue[OF b] plain_same[OF _ p] by simp
  ultimately show ?thesis by (simp add: admitted_def)
qed

lemma OnRequest_budget:
  assumes b: "budget E s" and E: "0 \<le> E" and p: "plain E req"
  shows "budget E (OnRequest EvictionFor req s)"
proof -
  have send: "budget E (snd (sendAdmission req err s))" for err
    using b E by (intro budget_frame[OF b]) (auto simp: budget_def fifo_inv_def sendAdmission_frame)
  show ?thesis
  proof (cases rule: OnRequest_cases[of EvictionFor req s, case_names refused left admit])
    case (refused err)
    with send show ?thesis by simp
  next
    case (left s1)
    with send[of None] show ?thesis by simp
  next
    case (admit state s1)
    have b1: "budget E s1" using send[of None] admit(2) by simp
    have "budget E (counted s1)" using b1 E by (intro budget_frame[OF b1]) (auto simp: budget_def fifo_inv_def)
    moreover have "plain E (numbered req s1)" using p by (simp add: plain_def)
    ultimately show ?thesis using admitted_budget[OF _ E] admit(4) by simp
  qed
qed

lemma swapWaiter_budget:
  assumes b: "budget E s" and E: "0 \<le> E" and p: "plain E w" "Model w = sd_ModelID ev"
    and free: "\<And>m' sw. map_of (active s) m' = Some sw \<Longrightarrow> sd_ModelID ev \<notin> set (as_evict sw)"
  shows "budget E (swapWaiter plan ev s w)"
proof (cases "sd_Err ev")
  case (Some err)
  then show ?thesis unfolding swapWaiter_def Some option.case
    using b E by (intro budget_frame[OF b]) (auto simp: budget_def fifo_inv_def)
next
  case None
  have park: "budget E (enqueue plan (markParked pk w) s)" for pk
    using budget_enqueue[OF b] plain_same[OF _ p(1)] by simp
  show ?thesis
  proof (cases "atCapacity s w \<or> \<not> kvAdmit s (Model w) (EstimatedTokens w)")
    case True
    with None park show ?thesis by (auto simp: swapWaiter_def)
  next
    case False
    then have eq: "swapWaiter plan ev s w = grantHandler plan w (sd_ModelID ev) s" using None by (simp add: swapWaiter_def)
    have "within E s" using b by (simp add: budget_def)
    from within_grant[OF this E _ p] False p(2) have "within E (grantHandler plan w (sd_ModelID ev) s)" by simp
    moreover have "fifo_inv (grantHandler plan w (sd_ModelID ev) s)"
      by (rule inv_grant) (use b free in \<open>auto simp: budget_def\<close>)
    ultimately show ?thesis unfolding eq using b by (simp add: budget_def all_held_def grantHandler_frame)
  qed
qed

lemma foldl_swapWaiter_budget:
  assumes "budget E s" "0 \<le> E" "\<forall>w \<in> set ws. plain E w \<and> Model w = sd_ModelID ev"
    "\<And>m' sw. map_of (active s) m' = Some sw \<Longrightarrow> sd_ModelID ev \<notin> set (as_evict sw)"
  shows "budget E (foldl (swapWaiter plan ev) s ws)"
  using assms
proof (induction ws arbitrary: s)
  case (Cons w ws)
  have "budget E (swapWaiter plan ev s w)"
    using Cons.prems by (intro swapWaiter_budget) auto
  moreover have "active (swapWaiter plan ev s w) = active s"
    by (simp add: swapWaiter_def enqueue_frame grantHandler_frame split: option.split)
  ultimately show ?case using Cons.IH[of "swapWaiter plan ev s w"] Cons.prems by simp
qed simp

lemma waiting_sub:
  assumes "distinct (map fst act)" "map_of act k = Some sw"
  shows "set (as_waiters sw) \<subseteq> set (waiting act)" "set (waiting (mdel k act)) \<subseteq> set (waiting act)"
  using arg_cong[OF waiting_del[OF assms], of set_mset] by auto

lemma OnSwapDone_budget:
  assumes b: "budget E s" and E: "0 \<le> E"
  shows "budget E (OnSwapDone EvictionFor ev s)"
proof (cases "map_of (active s) (sd_ModelID ev)")
  case (Some sw)
  let ?s1 = "s\<lparr>active := mdel (sd_ModelID ev) (active s)\<rparr>"
  let ?s2 = "if sd_Err ev = None then ?s1\<lparr>idleSince := mput (sd_ModelID ev) (now ?s1) (idleSince ?s1)\<rparr> else ?s1"
  have ok: "swaps_ok (active s) (inFlight s)" using b by (simp add: budget_def fifo_inv_def)
  note ws = waiting_sub[OF swaps_okD(1)[OF ok] Some]
  have "fifo_inv ?s2" using b swaps_ok_del by (simp add: budget_def fifo_inv_def)
  then have b2: "budget E ?s2" using ws(2) E by (intro budget_frame[OF b]) simp_all
  have "plain E w \<and> Model w = sd_ModelID ev" if "w \<in> set (as_waiters sw)" for w
    using that ws(1) b swaps_okD(2)[OF ok Some] by (auto simp: budget_def all_held_def swap_ok_def)
  moreover have "sd_ModelID ev \<notin> set (as_evict sw')" if "map_of (active ?s2) m' = Some sw'" for m' sw'
    using that swaps_okD(3)[OF ok _ Some, of m' sw'] by (auto simp: compatible_def split: if_splits)
  ultimately have "budget E (foldl (swapWaiter EvictionFor ev) ?s2 (as_waiters sw))"
    by (intro foldl_swapWaiter_budget[OF b2 E]) auto
  from drainQueue_budget[OF this E] show ?thesis by (simp only: OnSwapDone_def Some option.case Let_def)
qed (simp add: OnSwapDone_def b)

lemma releaseKV_le: "mint (kvInFlight (snd (releaseKV m est c s))) v \<le> max (mint (kvInFlight s) v) 0"
  by (simp add: releaseKV_def)

lemma afterServe_kv: "mint (kvInFlight (afterServe plan ev s)) v \<le> max (mint (kvInFlight s) v) 0"
proof -
  have "kvInFlight (idleAfter ev (unserved ev s)) = kvInFlight s"
    by (simp add: idleAfter_def unserved_def Let_def serveDone_frame)
  then show ?thesis using releaseKV_le[of "ev_ModelID ev" "ev_EstimatedTokens ev" "ev_Ctx ev" "idleAfter ev (unserved ev s)" v]
    by (simp add: afterServe_def publish_frame serveDone_frame)
qed

lemma OnServeDone_budget:
  assumes b: "budget E s" and E: "0 \<le> E"
  shows "budget E (OnServeDone EvictionFor ev s)"
proof -
  let ?c = "capReleased (ev_ModelID ev) s" and ?a = "afterServe EvictionFor ev s"
  have i: "fifo_inv s" using b by (simp add: budget_def)
  have ci: "fifo_inv ?c" by (rule inv_less_busy[OF i]) (auto simp: capReleased_frame)
  have ai: "fifo_inv ?a" by (rule inv_less_busy[OF i]) (auto simp: afterServe_frame unserved_inFlight split: if_splits)
  have ckv: "kvInFlight ?c = kvInFlight s" by (simp add: capReleased_def publish_frame)
  have "budget E ?c" using E by (intro budget_frame[OF b ci]) (auto simp: capReleased_frame ckv)
  moreover have "budget E ?a"
    using E afterServe_kv by (intro budget_frame[OF b ai]) (auto simp: afterServe_frame unserved_inFlight)
  ultimately show ?thesis using b drainQueue_budget E
    by (cases rule: OnServeDone_cases[of ev EvictionFor s, case_names status cap drained settled]) simp_all
qed

lemma releasePenalized_budget:
  assumes b: "budget E s" and E: "0 \<le> E"
  shows "budget E (releasePenalized EvictionFor s)"
proof -
  let ?f = "\<lambda>(kept, t) req. if penaltyHeldUnder t req (contended s) then (kept @ [req], t) else (kept, enqueue EvictionFor req t)"
  have "budget E (snd (foldl ?f (kept, t) ps)) \<and> set (fst (foldl ?f (kept, t) ps)) \<subseteq> set kept \<union> set ps"
    if "budget E t" "\<forall>p \<in> set ps. plain E p" for kept t ps
    using that
  proof (induction ps arbitrary: kept t)
    case (Cons p ps)
    show ?case
    proof (cases "penaltyHeldUnder t p (contended s)")
      case True
      with Cons.IH[of t "kept @ [p]"] Cons.prems show ?thesis by auto
    next
      case False
      with Cons.IH[of "enqueue EvictionFor p t" kept] Cons.prems budget_enqueue[of E t p] show ?thesis by auto
    qed
  qed simp
  from this[OF b, of "penalized s" "[]"] b
  have r: "budget E (snd (foldl ?f ([], s) (penalized s)))" "set (fst (foldl ?f ([], s) (penalized s))) \<subseteq> set (penalized s)"
    by (auto simp: budget_def all_held_def)
  obtain kept t where f: "foldl ?f ([], s) (penalized s) = (kept, t)" by fastforce
  have "\<forall>p \<in> set (penalized s). plain E p" using b by (simp add: budget_def all_held_def)
  with r show ?thesis unfolding releasePenalized_def Let_def f
    by (auto simp: budget_def fifo_inv_def all_held_def within_def limit_def)
qed

lemma OnTick_budget:
  assumes b: "budget E s" and E: "0 \<le> E"
  shows "budget E (OnTick EvictionFor s)"
proof -
  let ?s1 = "releasePenalized EvictionFor s"
  let ?s2 = "if queued ?s1 = [] then snd (consumeForced (expireForcedGrace (snd (consumeForced ?s1))))
    else (case consumeGraceExpiredForced ?s1 of (forced, s2) \<Rightarrow> if forced then kvWarmEndCooldowns s2 else s2)"
  note b1 = releasePenalized_budget[OF b E]
  have fr: "queued ?s2 = queued ?s1" "penalized ?s2 = penalized ?s1" "active ?s2 = active ?s1"
    "cfg ?s2 = cfg ?s1" "inFlight ?s2 = inFlight ?s1" "limits ?s2 = limits ?s1" "kvInFlight ?s2 = kvInFlight ?s1"
    by (simp_all add: consumeForced_def expireForcedGrace_def consumeGraceExpiredForced_def kvWarmEndCooldowns_def Let_def)
  have "fifo_inv ?s1" using b1 by (simp add: budget_def)
  then have "fifo_inv ?s2" by (rule inv_cong) (rule fr)+
  then have "budget E ?s2" by (rule budget_frame[OF b1]) (simp_all add: fr E)
  note d = drainQueue_budget[OF this E]
  have eq: "OnTick EvictionFor s = publishGrace EvictionFor (drainQueue EvictionFor ?s2)"
    unfolding OnTick_def Let_def by (rule refl)
  show ?thesis unfolding eq using d E
    by (intro budget_frame[OF d]) (auto simp: budget_def fifo_inv_def publish_frame)
qed

end

lemma waiting_mdel_sub: "set (waiting (mdel k act)) \<subseteq> set (waiting act)"
  unfolding mdel_def waiting_def by (induction act) auto

lemma unloadWaiters_more:
  "limits (unloadWaiters ts s) = limits s \<and> cfg (unloadWaiters ts s) = cfg s \<and> inFlight (unloadWaiters ts s) = inFlight s \<and>
   kvInFlight (unloadWaiters ts s) = kvInFlight s \<and> set (waiting (active (unloadWaiters ts s))) \<subseteq> set (waiting (active s))"
proof -
  let ?f = "\<lambda>s id. case map_of (active s) id of None \<Rightarrow> s
      | Some sw \<Rightarrow> (upd_effects (\<lambda>e. foldl (\<lambda>e w. GrantError w ErrUnloaded e) e (as_waiters sw)) s)\<lparr>active := mdel id (active s)\<rparr>"
  have "limits (foldl ?f s ids) = limits s \<and> cfg (foldl ?f s ids) = cfg s \<and> inFlight (foldl ?f s ids) = inFlight s \<and>
      kvInFlight (foldl ?f s ids) = kvInFlight s \<and> set (waiting (active (foldl ?f s ids))) \<subseteq> set (waiting (active s))" for ids s
  proof (induction ids arbitrary: s)
    case (Cons id ids)
    have "limits (?f s id) = limits s \<and> cfg (?f s id) = cfg s \<and> inFlight (?f s id) = inFlight s \<and>
        kvInFlight (?f s id) = kvInFlight s \<and> set (waiting (active (?f s id))) \<subseteq> set (waiting (active s))"
      using waiting_mdel_sub by (auto split: option.split)
    with Cons[of "?f s id"] show ?case by auto
  qed simp
  then show ?thesis by (simp add: unloadWaiters_def)
qed

context swapper
begin

lemma OnUnload_budget:
  assumes b: "budget E s" and E: "0 \<le> E"
  shows "budget E (OnUnload EvictionFor ts s)"
proof -
  let ?s = "unloadReady EvictionFor ts s"
  have i: "fifo_inv ?s" by (rule unloadReady_inv) (use b in \<open>simp add: budget_def\<close>)
  have more: "limits ?s = limits s" "cfg ?s = cfg s" "inFlight ?s = inFlight s" "kvInFlight ?s = kvInFlight s"
    "set (waiting (active ?s)) \<subseteq> set (waiting (active s))"
    using unloadWaiters_more[of ts "kvWarmForget ts s"]
    by (auto simp: unloadReady_def Let_def publish_frame forget_frame)
  have "budget E ?s" by (rule budget_frame[OF b i]) (use E more in \<open>auto simp: unloadReady_frame(1,2)\<close>)
  from drainQueue_budget[OF this E] show ?thesis by (simp add: OnUnload_ready)
qed

lemma OnCancel_budget:
  assumes b: "budget E s" and E: "0 \<le> E"
  shows "budget E (OnCancel EvictionFor req s)"
proof -
  let ?P = "\<lambda>q. Respond q \<noteq> Respond req"
  have w: "waiting (map (\<lambda>(id, sw). (id, sw\<lparr>as_waiters := filter ?P (as_waiters sw)\<rparr>)) act) = filter ?P (waiting act)"
    for act by (induction act) (auto simp: waiting_def)
  have "fifo_inv (OnCancel EvictionFor req s)" using b OnCancel_inv by (simp add: budget_def)
  then show ?thesis using E
    by (intro budget_frame[OF b]) (auto simp: OnCancel_def Let_def fifo_frame w)
qed

lemma handle_budget:
  assumes b: "budget E s" and E: "0 \<le> E" and p: "\<And>r. ev = EvRequest r \<Longrightarrow> plain E r"
  shows "budget E (handle EvictionFor ev s)"
proof (cases ev)
  case (EvRequest r)
  show ?thesis unfolding EvRequest handle.simps by (rule OnRequest_budget[OF b E p[OF EvRequest]])
next
  case (EvCancel r)
  show ?thesis unfolding EvCancel handle.simps by (rule OnCancel_budget[OF b E])
next
  case (EvSwapDone e)
  show ?thesis unfolding EvSwapDone handle.simps by (rule OnSwapDone_budget[OF b E])
next
  case (EvServeDone e)
  show ?thesis unfolding EvServeDone handle.simps by (rule OnServeDone_budget[OF b E])
next
  case EvTick
  show ?thesis unfolding EvTick handle.simps by (rule OnTick_budget[OF b E])
next
  case (EvUnload ts)
  show ?thesis unfolding EvUnload handle.simps by (rule OnUnload_budget[OF b E])
next
  case EvFinishCooldown
  then show ?thesis using b E by (intro budget_frame[OF b]) (auto simp: FinishCooldown_def budget_def fifo_inv_def)
next
  case (EvEndSlotCooldown ses)
  then show ?thesis using b E by (intro budget_frame[OF b]) (auto simp: EndSlotCooldown_def budget_def fifo_inv_def)
next
  case (EvWorld e)
  then show ?thesis using b E by (intro budget_frame[OF b]) (auto simp: budget_def fifo_inv_def)
qed

end

section \<open>Runs within budget\<close>

lemma NewFIFO_limit: "0 < limit (NewFIFO c models eff) m"
  by (auto simp: limit_def NewFIFO_def defaultConcurrencyLimit_def split: option.splits dest!: map_of_SomeD split: if_splits)

lemma NewFIFO_budget: "0 \<le> E \<Longrightarrow> budget E (NewFIFO c models eff)"
  using less_imp_le[OF NewFIFO_limit[of c models eff]]
  by (auto simp: budget_def fifo_inv_def queue_ok_def all_held_def within_def waiting_def)
    (auto simp: NewFIFO_def)

lemma run_budget:
  assumes "budget E s" "0 \<le> E" "\<forall>q. EvRequest q \<in> set evs \<longrightarrow> plain E q"
  shows "budget E (foldl (\<lambda>s ev. handle (plannerOf r) ev s) s evs)"
  using assms by (induction evs arbitrary: s) (auto simp: router.handle_budget)




text \<open>Two large requests for a model with a pool of 15000 tokens: the second is parked.\<close>

abbreviation exKV :: FIFO where
  "exKV \<equiv> foldl (\<lambda>s ev. handle exPlan ev s)
     (NewFIFO (exCfg\<lparr>KVPoolTokens := [(''a'', 15000)]\<rparr>)
        [(''a'', \<lparr>ConcurrencyLimit = 4, SwapGraceSeconds = 60, MaxParallelLargePrefill = 2\<rparr>)] exEffects)
     [EvRequest ((exReq 1 ''a'' 0)\<lparr>EstimatedTokens := 10000, Session := ''A''\<rparr>),
      EvRequest ((exReq 2 ''a'' 0)\<lparr>EstimatedTokens := 9000, Session := ''B''\<rparr>)]"


section \<open>What other goroutines read\<close>

text \<open>The published capacity snapshot is current, or nothing has been published and nothing happened.\<close>

definition fresh :: "FIFO \<Rightarrow> bool" where
  "fresh s \<longleftrightarrow> (case capacity s of None \<Rightarrow> queued s = [] \<and> inFlight s = [] | Some c \<Rightarrow> c = capacitySnapshot s)"

lemma snapshot_cong:
  "queued s' = queued s \<Longrightarrow> inFlight s' = inFlight s \<Longrightarrow> limits s' = limits s \<Longrightarrow> capacitySnapshot s' = capacitySnapshot s"
  by (simp add: capacitySnapshot_def limit_def)

lemma fresh_frame:
  assumes "fresh s" "queued s' = queued s" "inFlight s' = inFlight s" "limits s' = limits s" "capacity s' = capacity s"
  shows "fresh s'"
  using assms(1,2,3,5) snapshot_cong[OF assms(2-4)] by (simp add: fresh_def split: option.splits)

lemma fresh_publish: "fresh (publishCapacity s)"
  by (simp add: fresh_def publishCapacity_def capacitySnapshot_def limit_def)

lemma fresh_publishGrace: "fresh s \<Longrightarrow> fresh (publishGrace plan s)"
  by (rule fresh_frame) (simp_all add: publish_frame)

lemma fresh_enqueue: "fresh (enqueue plan r s)"
  unfolding enqueue_def Let_def by (intro fresh_publishGrace fresh_publish)

lemma fresh_drainQueue: "fresh s \<Longrightarrow> fresh (drainQueue plan s)"
  unfolding drainQueue_def Let_def by (auto split: prod.split intro: fresh_publishGrace fresh_publish)

lemma fresh_grant: "fresh s \<Longrightarrow> fresh (grantHandler plan r m s)"
  unfolding grantHandler_def Let_def GrantServe_def
  by (auto intro: fresh_publishGrace fresh_publish fresh_frame split: prod.splits)

lemma fresh_quiet: "fresh s \<Longrightarrow> quiet s s' \<Longrightarrow> fresh s'"
  using quietD(1,4,6,12) by (intro fresh_frame[of s s']) auto

lemma fresh_admitted:
  assumes f: "fresh s"
  shows "fresh (admitted plan state req s)"
proof -
  have "fresh (case attempt plan state req s of Parked r s' \<Rightarrow> enqueue plan r s' | Handled s' \<Rightarrow> s' | Started s' \<Rightarrow> publish plan s')"
  proof (cases "attempt plan state req s")
    case (Handled s')
    then have "fresh s'"
    proof (cases rule: attempt_handled)
      case (join sw)
      then show ?thesis by (intro fresh_frame[OF f]) (simp_all add: joinSwap_frame)
    next
      case grant
      then show ?thesis using fresh_grant[OF f] by simp
    qed
    with Handled show ?thesis by simp
  qed (simp_all add: fresh_enqueue fresh_publishGrace fresh_publish)
  then show ?thesis unfolding admitted_def by (simp add: fresh_enqueue fresh_publishGrace fresh_publish)
qed

lemma fresh_send: "fresh s \<Longrightarrow> fresh (snd (sendAdmission r err s))"
  by (rule fresh_frame) (simp_all add: sendAdmission_frame)

lemma fresh_OnRequest:
  assumes f: "fresh s"
  shows "fresh (OnRequest plan req s)"
proof (cases rule: OnRequest_cases[of plan req s, case_names refused left admit])
  case (refused err)
  with fresh_send[OF f] show ?thesis by simp
next
  case (left s1)
  with fresh_send[OF f, of req None] show ?thesis by simp
next
  case (admit state s1)
  have "fresh s1" using fresh_send[OF f, of req None] admit(2) by simp
  then have "fresh (counted s1)" by (rule fresh_frame) simp_all
  with fresh_admitted admit(4) show ?thesis by simp
qed

lemma fresh_swapWaiter:
  assumes f: "fresh s"
  shows "fresh (swapWaiter plan ev s w)"
proof (cases "sd_Err ev")
  case (Some err)
  show ?thesis unfolding swapWaiter_def Some option.case by (rule fresh_frame[OF f]) simp_all
qed (simp add: swapWaiter_def fresh_enqueue fresh_grant[OF f])

lemma fresh_foldl_swapWaiter: "fresh s \<Longrightarrow> fresh (foldl (swapWaiter plan ev) s ws)"
  by (induction ws arbitrary: s) (simp_all add: fresh_swapWaiter)

lemma fresh_OnSwapDone:
  assumes f: "fresh s"
  shows "fresh (OnSwapDone plan ev s)"
proof (cases "map_of (active s) (sd_ModelID ev)")
  case (Some sw)
  let ?s1 = "s\<lparr>active := mdel (sd_ModelID ev) (active s)\<rparr>"
  have "fresh (if sd_Err ev = None then ?s1\<lparr>idleSince := mput (sd_ModelID ev) (now ?s1) (idleSince ?s1)\<rparr> else ?s1)"
    by (rule fresh_frame[OF f]) simp_all
  then show ?thesis unfolding OnSwapDone_def Some option.case Let_def
    by (intro fresh_drainQueue fresh_foldl_swapWaiter)
qed (simp add: OnSwapDone_def f)

lemma fresh_OnServeDone:
  assumes f: "fresh s"
  shows "fresh (OnServeDone plan ev s)"
proof -
  have "fresh (capReleased m s)" for m by (simp add: capReleased_def fresh_publish)
  moreover have "fresh (afterServe plan ev s)" by (simp add: afterServe_def fresh_publishGrace fresh_publish)
  ultimately show ?thesis using f fresh_drainQueue
    by (cases rule: OnServeDone_cases[of ev plan s, case_names status cap drained settled]) simp_all
qed

lemma fresh_OnCancel: "fresh s \<Longrightarrow> fresh (OnCancel plan req s)"
proof -
  assume f: "fresh s"
  let ?s1 = "if queued s = [] then s else publish plan (s\<lparr>queued := filter (\<lambda>q. \<not> Respond q = Respond req) (queued s)\<rparr>)"
  have "fresh ?s1" using f by (simp add: fresh_publishGrace fresh_publish)
  then show ?thesis by (rule fresh_frame) (simp_all add: OnCancel_def Let_def broadcast_frame)
qed

lemma fresh_OnTick:
  assumes f: "fresh s"
  shows "fresh (OnTick plan s)"
proof -
  let ?f = "\<lambda>(kept, t) req. if penaltyHeldUnder t req (contended s) then (kept @ [req], t) else (kept, enqueue plan req t)"
  have "fresh t \<Longrightarrow> fresh (snd (foldl ?f (kept, t) ps))" for kept t ps
    by (induction ps arbitrary: kept t) (auto simp: fresh_enqueue)
  from this[OF f, of "[]" "penalized s"] have "fresh (snd (foldl ?f ([], s) (penalized s)))" .
  then have f1: "fresh (releasePenalized plan s)"
    unfolding releasePenalized_def Let_def by (auto split: prod.split intro: fresh_frame)
  let ?s1 = "releasePenalized plan s"
  let ?s2 = "if queued ?s1 = [] then snd (consumeForced (expireForcedGrace (snd (consumeForced ?s1))))
    else (case consumeGraceExpiredForced ?s1 of (forced, s2) \<Rightarrow> if forced then kvWarmEndCooldowns s2 else s2)"
  have "fresh ?s2"
    by (rule fresh_frame[OF f1])
      (simp_all add: consumeForced_def expireForcedGrace_def consumeGraceExpiredForced_def kvWarmEndCooldowns_def Let_def)
  then show ?thesis unfolding OnTick_def Let_def by (intro fresh_publishGrace fresh_drainQueue)
qed

lemma fresh_OnUnload:
  assumes f: "fresh s"
  shows "fresh (OnUnload plan ts s)"
proof -
  let ?hit = "\<lambda>w. Model w \<in> set ts"
  let ?f = "\<lambda>s id. case map_of (active s) id of None \<Rightarrow> s
      | Some sw \<Rightarrow> (upd_effects (\<lambda>e. foldl (\<lambda>e w. GrantError w ErrUnloaded e) e (as_waiters sw)) s)\<lparr>active := mdel id (active s)\<rparr>"
  have step: "fresh (?f t id)" if "fresh t" for t id
    using that by (cases "map_of (active t) id") (simp, intro fresh_frame[OF that], simp_all)
  have "fresh t \<Longrightarrow> fresh (foldl ?f t ids)" for t ids
  proof (induction ids arbitrary: t)
    case (Cons id ids)
    from Cons.IH[OF step[OF Cons.prems]] show ?case by simp
  qed simp
  moreover have "fresh (kvWarmForget ts s)" by (rule fresh_frame[OF f]) (simp_all add: forget_frame)
  ultimately have f1: "fresh (unloadWaiters ts (kvWarmForget ts s))" by (simp add: unloadWaiters_def)
  let ?s1 = "unloadWaiters ts (kvWarmForget ts s)"
  let ?s2 = "if queued ?s1 = [] then ?s1
    else publish plan ((upd_effects (\<lambda>e. foldl (\<lambda>e w. GrantError w ErrUnloaded e) e (filter ?hit (queued ?s1))) ?s1)
      \<lparr>queued := filter (\<lambda>w. \<not> ?hit w) (queued ?s1)\<rparr>)"
  have f2: "fresh ?s2" using f1 by (simp add: fresh_publishGrace fresh_publish)
  have "fresh (unloadReady plan ts s)" unfolding unloadReady_def Let_def by (rule fresh_frame[OF f2]) simp_all
  then show ?thesis unfolding OnUnload_ready by (rule fresh_drainQueue)
qed

lemma fresh_handle:
  assumes f: "fresh s"
  shows "fresh (handle plan ev s)"
proof (cases ev)
  case EvFinishCooldown
  then show ?thesis by (simp add: FinishCooldown_def fresh_frame[OF f])
next
  case (EvEndSlotCooldown ses)
  then show ?thesis by (simp add: EndSlotCooldown_def fresh_frame[OF f])
next
  case (EvWorld e)
  then show ?thesis by (simp add: fresh_frame[OF f])
qed (simp_all add: f fresh_OnRequest fresh_OnCancel fresh_OnSwapDone fresh_OnServeDone fresh_OnTick fresh_OnUnload)

lemma reach_fresh: "reach plan c models s \<Longrightarrow> fresh s"
  by (induction rule: reach.induct) (simp_all add: fresh_handle, simp add: fresh_def NewFIFO_def)

lemma map_option_eq_SomeE:
  assumes "map_option f x = Some y" obtains z where "x = Some z" "f z = y"
  using assms by (cases x) auto

text \<open>Status readers never see stale capacity. In every reachable state the capacity snapshot that
  other goroutines read counts exactly the requests in flight and queued for each model; before the
  first snapshot nothing is in flight or queued.\<close>

theorem capacity_never_stale:
  assumes "reach plan c models s"
  shows "(capacity s = None \<longrightarrow> queued s = [] \<and> inFlight s = []) \<and>
    (\<forall>snap. capacity s = Some snap \<longrightarrow> distinct (map mcap_Model snap) \<and>
       mcap_Model ` set snap = dom (map_of (inFlight s)) \<union> Model ` set (queued s) \<and>
       (\<forall>e \<in> set snap. mcap_Granted e = mint (inFlight s) (mcap_Model e) \<and> mcap_Limit e = limit s (mcap_Model e) \<and>
          mcap_Queued e = int (length (filter (\<lambda>q. Model q = mcap_Model e) (queued s)))))"
proof -
  have keys: "map mcap_Model (capacitySnapshot s) = remdups (map fst (inFlight s) @ map Model (queued s))"
    by (simp add: capacitySnapshot_def o_def)
  have dist: "distinct (map mcap_Model (capacitySnapshot s))" unfolding keys by (rule distinct_remdups)
  have "set (map mcap_Model (capacitySnapshot s)) = dom (map_of (inFlight s)) \<union> Model ` set (queued s)"
    unfolding keys by (simp add: dom_map_of_conv_image_fst)
  then have doms: "mcap_Model ` set (capacitySnapshot s) = dom (map_of (inFlight s)) \<union> Model ` set (queued s)" by simp
  have each: "\<forall>e \<in> set (capacitySnapshot s). mcap_Granted e = mint (inFlight s) (mcap_Model e) \<and>
      mcap_Limit e = limit s (mcap_Model e) \<and>
      mcap_Queued e = int (length (filter (\<lambda>q. Model q = mcap_Model e) (queued s)))"
    by (auto simp: capacitySnapshot_def)
  have "fresh s" by (rule reach_fresh[OF assms])
  then show ?thesis using dist doms each by (cases "capacity s") (simp_all add: fresh_def)
qed

theorem capacity_never_stale_witness:
  "(\<exists>snap. capacity (exRun [EvRequest (exReq 1 ''a'' 0), EvRequest (exReq 2 ''a'' 0)]) = Some snap \<and>
     map (\<lambda>e. (mcap_Model e, mcap_Granted e, mcap_Queued e)) snap = [(''a'', 1, 1)] \<and>
     mcap_Model ` set snap = {''a''})"
proof -
  let ?s = "exRun [EvRequest (exReq 1 ''a'' 0), EvRequest (exReq 2 ''a'' 0)]"
  have "map_option (map (\<lambda>e. (mcap_Model e, mcap_Granted e, mcap_Queued e))) (capacity ?s) = Some [(''a'', 1, 1)]"
    by code_simp
  then obtain snap where snap: "capacity ?s = Some snap"
    "map (\<lambda>e. (mcap_Model e, mcap_Granted e, mcap_Queued e)) snap = [(''a'', 1, 1)]"
    by (rule map_option_eq_SomeE)
  note claim = conjunct2[OF capacity_never_stale[OF exRun_reach], rule_format, OF snap(1)]
  have fl: "map fst (inFlight ?s) = [''a'']" and qd: "map Model (queued ?s) = [''a'']" by code_simp+
  have "dom (map_of (inFlight ?s)) = set (map fst (inFlight ?s))" "Model ` set (queued ?s) = set (map Model (queued ?s))"
    by (simp_all only: dom_map_of_conv_image_fst set_map)
  then have "mcap_Model ` set snap = {''a''} \<union> {''a''}"
    unfolding conjunct1[OF conjunct2[OF claim]] fl qd by (simp only: list.set)
  then show ?thesis using snap by (intro exI[of _ snap]) simp
qed

end
