(* ===== verification/LoopTrack.thy ===== *)
theory LoopTrack
  imports Complex_Main Prelude
begin

text \<open>
  The loop tracker of \<open>internal/swaputil/looptrack.go\<close>: per session the sizes of its finished
  responses, the trailing periodic run they form, the strike ladder with its holds, and the yield
  floor of the request in flight.

  A \<open>*LoopTracker\<close> is an option: \<open>None\<close> is the nil tracker of a disabled guard. An operation takes the
  clock reading and returns the tracker and the events it hands to the observer. Token rates are
  rationals: the code computes them in \<open>float64\<close>, and its rounding is not modelled. Lock and observer
  plumbing is not modelled, nor the context tagging.
\<close>

section \<open>Data\<close>

record LoopGuard =
  RunBar :: int
  ToleranceTokens :: int
  Strikes :: int
  PenaltySeconds :: "int list"
  ClearRequests :: int
  MaxLoopTokens :: int
  MaxPeriod :: int
  gYieldFloorTokPerMin :: rat
  gYieldFloorMinutes :: int

definition DefaultLoopRunBar :: int where "DefaultLoopRunBar = 20"
definition DefaultLoopTolerance :: int where "DefaultLoopTolerance = 2"
definition DefaultMaxLoopTokens :: int where "DefaultMaxLoopTokens = 256"
definition DefaultLoopMaxPeriod :: int where "DefaultLoopMaxPeriod = 3"
definition loopHistoryMin :: int where "loopHistoryMin = 64"
definition loopSessionTTL :: duration where "loopSessionTTL = 30 * Minute"
definition DefaultYieldFloorTokPerMin :: rat where "DefaultYieldFloorTokPerMin = 10"
definition DefaultYieldFloorMinutes :: int where "DefaultYieldFloorMinutes = 15"

definition DefaultLoopGuard :: LoopGuard where
  "DefaultLoopGuard = \<lparr>RunBar = DefaultLoopRunBar, ToleranceTokens = DefaultLoopTolerance, Strikes = 3,
     PenaltySeconds = [0, 900, 3600], ClearRequests = 10, MaxLoopTokens = DefaultMaxLoopTokens,
     MaxPeriod = DefaultLoopMaxPeriod, gYieldFloorTokPerMin = DefaultYieldFloorTokPerMin,
     gYieldFloorMinutes = DefaultYieldFloorMinutes\<rparr>"

datatype PenaltyEventKind = PenaltyEventStrike | PenaltyEventHoldStart | PenaltyEventHoldEnd | PenaltyEventUnpenalize

datatype PenaltyReason = PenaltyReasonLoop | PenaltyReasonYield

record LoopPenaltyEvent =
  pe_SessionID :: string
  pe_Kind :: PenaltyEventKind
  pe_Reason :: PenaltyReason
  pe_Strike :: int
  pe_HoldSeconds :: int
  pe_UniformRun :: nat
  pe_TypicalTokens :: int
  pe_Source :: string
  pe_UserAgent :: string

definition penaltyEvent :: "string \<Rightarrow> PenaltyEventKind \<Rightarrow> PenaltyReason \<Rightarrow> int \<Rightarrow> LoopPenaltyEvent" where
  "penaltyEvent sid kind reason n = \<lparr>pe_SessionID = sid, pe_Kind = kind, pe_Reason = reason, pe_Strike = n,
     pe_HoldSeconds = 0, pe_UniformRun = 0, pe_TypicalTokens = 0, pe_Source = [], pe_UserAgent = []\<rparr>"

record PenaltyState =
  ps_Reason :: PenaltyReason
  ps_Strike :: int
  ps_Strikes :: int
  ps_Held :: bool
  ps_HeldForever :: bool
  ps_Until :: gotime
  ps_UniformRun :: nat
  ps_TypicalTokens :: int

definition yieldRingMax :: nat where "yieldRingMax = 128"

record yieldRecord =
  yr_at :: gotime
  yr_tokens :: int
  yr_session :: string

record loopHistory =
  sizes :: "int list"
  lastAt :: gotime
  strike :: int
  heldUntil :: gotime
  heldForever :: bool
  clearStreak :: int
  yieldRing :: "yieldRecord list"
  yieldHead :: nat
  yieldCount :: nat
  yieldBreachStart :: gotime
  yieldLastStrike :: gotime

definition newHistory :: loopHistory where
  "newHistory = \<lparr>sizes = [], lastAt = zeroTime, strike = 0, heldUntil = zeroTime, heldForever = False,
     clearStreak = 0, yieldRing = replicate yieldRingMax \<lparr>yr_at = zeroTime, yr_tokens = 0, yr_session = []\<rparr>,
     yieldHead = 0, yieldCount = 0, yieldBreachStart = zeroTime, yieldLastStrike = zeroTime\<rparr>"

record LoopTracker =
  guard :: LoopGuard
  historyMax :: int
  sessions :: "(string, loopHistory) gomap"

section \<open>Construction\<close>

definition normalizeGuard :: "LoopGuard \<Rightarrow> LoopGuard" where
  "normalizeGuard g0 =
     (let g1 = if RunBar g0 \<le> 0 then g0\<lparr>RunBar := DefaultLoopRunBar\<rparr> else g0;
          g2 = if ToleranceTokens g1 < 0 then g1\<lparr>ToleranceTokens := DefaultLoopTolerance\<rparr> else g1;
          g3 = if Strikes g2 < 1 then g2\<lparr>Strikes := 1\<rparr> else g2;
          g4 = if ClearRequests g3 < 1 then g3\<lparr>ClearRequests := ClearRequests DefaultLoopGuard\<rparr> else g3;
          g5 = if MaxLoopTokens g4 < 1 then g4\<lparr>MaxLoopTokens := DefaultMaxLoopTokens\<rparr> else g4
      in if MaxPeriod g5 < 1 then g5\<lparr>MaxPeriod := DefaultLoopMaxPeriod\<rparr> else g5)"

definition NewLoopTracker :: "LoopGuard \<Rightarrow> LoopTracker" where
  "NewLoopTracker g0 =
     (let g = normalizeGuard g0;
          hm = RunBar g * Strikes g + 1;
          hm = if hm < loopHistoryMin then loopHistoryMin else hm
      in \<lparr>guard = g, historyMax = hm, sessions = []\<rparr>)"

section \<open>The trailing run\<close>

text \<open>\<open>periodLoop\<close> walks the sizes newest first: phase \<open>run mod p\<close>, its lowest and highest size so
  far in \<open>lo\<close> and \<open>hi\<close>.\<close>

fun periodLoop :: "int \<Rightarrow> int \<Rightarrow> nat \<Rightarrow> int list \<Rightarrow> int list \<Rightarrow> nat \<Rightarrow> int list \<Rightarrow> nat" where
  "periodLoop tol mx p lo hi run [] = run"
| "periodLoop tol mx p lo hi run (v # vs) =
     (if v > mx then run
      else let ph = run mod p in
        if ph = length lo then periodLoop tol mx p (lo @ [v]) (hi @ [v]) (run + 1) vs
        else let lo' = if v < lo ! ph then lo[ph := v] else lo;
                 hi' = if v > hi ! ph then hi[ph := v] else hi
             in if hi' ! ph - lo' ! ph > tol then run else periodLoop tol mx p lo' hi' (run + 1) vs)"

definition periodRun :: "int list \<Rightarrow> int \<Rightarrow> int \<Rightarrow> nat \<Rightarrow> nat" where
  "periodRun ts tol mx p = periodLoop tol mx p [] [] 0 (rev ts)"

definition runStep :: "int list \<Rightarrow> int \<Rightarrow> int \<Rightarrow> nat \<Rightarrow> nat \<Rightarrow> nat" where
  "runStep ts tol mx best p =
     (let run = periodRun ts tol mx p; run = if p > 1 \<and> run < 2 * p then 0 else run
      in if run > best then run else best)"

definition runLocked :: "int list \<Rightarrow> int \<Rightarrow> int \<Rightarrow> int \<Rightarrow> nat" where
  "runLocked ts tol mx maxPeriod = foldl (runStep ts tol mx) 0 [1..<nat (maxPeriod + 1)]"

definition medianOfRun :: "int list \<Rightarrow> int \<Rightarrow> int \<Rightarrow> int \<Rightarrow> int" where
  "medianOfRun ts tol mx maxPeriod =
     (let run = runLocked ts tol mx maxPeriod in
      if run = 0 then 0
      else let vals = sort (drop (length ts - run) ts) in vals ! (length vals div 2))"

definition guardRun :: "LoopGuard \<Rightarrow> int list \<Rightarrow> nat" where
  "guardRun g ts = runLocked ts (ToleranceTokens g) (MaxLoopTokens g) (MaxPeriod g)"

definition guardMedian :: "LoopGuard \<Rightarrow> int list \<Rightarrow> int" where
  "guardMedian g ts = medianOfRun ts (ToleranceTokens g) (MaxLoopTokens g) (MaxPeriod g)"

fun Run :: "LoopTracker option \<Rightarrow> string \<Rightarrow> nat" where
  "Run None sid = 0"
| "Run (Some t) sid = (case map_of (sessions t) sid of None \<Rightarrow> 0 | Some h \<Rightarrow> guardRun (guard t) (sizes h))"

fun Looping :: "LoopTracker option \<Rightarrow> string \<Rightarrow> bool" where
  "Looping None sid = False"
| "Looping (Some t) sid = (int (Run (Some t) sid) \<ge> RunBar (guard t))"

section \<open>The strike ladder\<close>

definition holdSecondsFor :: "LoopGuard \<Rightarrow> int \<Rightarrow> int" where
  "holdSecondsFor g n = (if n < 1 \<or> n > int (length (PenaltySeconds g)) then 0 else PenaltySeconds g ! nat (n - 1))"

definition advanceLocked :: "LoopGuard \<Rightarrow> string \<Rightarrow> loopHistory \<Rightarrow> gotime \<Rightarrow> loopHistory \<times> LoopPenaltyEvent list" where
  "advanceLocked g sid h now =
     (let run = guardRun g (sizes h) in
      if int run < RunBar g then
        let h1 = h\<lparr>clearStreak := clearStreak h + 1\<rparr> in
        if clearStreak h1 < ClearRequests g \<or> strike h1 = 0 then (h1, [])
        else
          let n = strike h1; was = heldUntil h1 \<noteq> zeroTime \<or> heldForever h1;
              h2 = h1\<lparr>strike := 0, clearStreak := 0, heldUntil := zeroTime, heldForever := False\<rparr>
          in (h2, if was then [(penaltyEvent sid PenaltyEventHoldEnd PenaltyReasonLoop n)\<lparr>pe_UniformRun := run\<rparr>] else [])
      else
        let h1 = h\<lparr>clearStreak := 0\<rparr>;
            target = int run div RunBar g;
            target = if target > Strikes g then Strikes g else target
        in if target \<le> strike h1 then (h1, [])
           else
             let h2 = h1\<lparr>strike := target\<rparr>;
                 hold = holdSecondsFor g target;
                 ev = (\<lambda>k. (penaltyEvent sid k PenaltyReasonLoop target)
                   \<lparr>pe_HoldSeconds := hold, pe_UniformRun := run, pe_TypicalTokens := guardMedian g (sizes h)\<rparr>)
             in if hold < 0 then (h2\<lparr>heldForever := True, heldUntil := zeroTime\<rparr>, [ev PenaltyEventStrike, ev PenaltyEventHoldStart])
                else if hold > 0 then (h2\<lparr>heldForever := False, heldUntil := now + hold * Second\<rparr>, [ev PenaltyEventStrike, ev PenaltyEventHoldStart])
                else (h2, [ev PenaltyEventStrike]))"

definition pruneKeeps :: "gotime \<Rightarrow> loopHistory \<Rightarrow> bool" where
  "pruneKeeps now h =
     (if heldForever h \<or> heldUntil h \<noteq> zeroTime \<and> now < heldUntil h then True
      else \<not> now - lastAt h \<ge> loopSessionTTL)"

definition pruneLocked :: "gotime \<Rightarrow> LoopTracker \<Rightarrow> LoopTracker" where
  "pruneLocked now t = t\<lparr>sessions := filter (\<lambda>(sid, h). pruneKeeps now h) (sessions t)\<rparr>"

definition appendSize :: "int \<Rightarrow> int list \<Rightarrow> int \<Rightarrow> int list" where
  "appendSize hm ts v =
     (let ts = ts @ [v] in if int (length ts) > hm then drop (nat (int (length ts) - hm)) ts else ts)"

definition recordHistory :: "int \<Rightarrow> string \<Rightarrow> int \<Rightarrow> gotime \<Rightarrow> loopHistory \<Rightarrow> loopHistory" where
  "recordHistory hm sid v now h =
     h\<lparr>sizes := appendSize hm (sizes h) v, lastAt := now,
       yieldRing := (yieldRing h)[yieldHead h mod yieldRingMax := \<lparr>yr_at = now, yr_tokens = v, yr_session = sid\<rparr>],
       yieldHead := yieldHead h + 1, yieldCount := yieldCount h + 1\<rparr>"

definition historyOf :: "LoopTracker \<Rightarrow> string \<Rightarrow> loopHistory" where
  "historyOf t sid = (case map_of (sessions t) sid of Some h \<Rightarrow> h | None \<Rightarrow> newHistory)"

definition setHistory :: "string \<Rightarrow> loopHistory \<Rightarrow> LoopTracker \<Rightarrow> LoopTracker" where
  "setHistory sid h t = t\<lparr>sessions := mput sid h (sessions t)\<rparr>"

fun Record :: "LoopTracker option \<Rightarrow> string \<Rightarrow> int \<Rightarrow> gotime \<Rightarrow> LoopTracker option \<times> LoopPenaltyEvent list" where
  "Record None sid v now = (None, [])"
| "Record (Some t) sid v now =
     (if sid = [] then (Some t, [])
      else case advanceLocked (guard t) sid (recordHistory (historyMax t) sid v now (historyOf t sid)) now of
        (h, evs) \<Rightarrow> (Some (pruneLocked now (setHistory sid h t)), evs))"

section \<open>Holds\<close>

definition expireHoldLocked :: "string \<Rightarrow> loopHistory \<Rightarrow> gotime \<Rightarrow> loopHistory \<times> LoopPenaltyEvent list" where
  "expireHoldLocked sid h now =
     (if heldForever h \<or> heldUntil h = zeroTime \<or> now < heldUntil h then (h, [])
      else (h\<lparr>heldUntil := zeroTime\<rparr>, [penaltyEvent sid PenaltyEventHoldEnd PenaltyReasonLoop (strike h)]))"

fun Held :: "LoopTracker option \<Rightarrow> string \<Rightarrow> gotime \<Rightarrow> LoopTracker option \<times> LoopPenaltyEvent list \<times> bool \<times> gotime \<times> bool" where
  "Held None sid now = (None, [], False, zeroTime, False)"
| "Held (Some t) sid now =
     (if sid = [] then (Some t, [], False, zeroTime, False)
      else case map_of (sessions t) sid of
        None \<Rightarrow> (Some t, [], False, zeroTime, False)
      | Some h0 \<Rightarrow>
          (case expireHoldLocked sid h0 now of (h, evs) \<Rightarrow>
            (Some (setHistory sid h t), evs, heldForever h \<or> heldUntil h \<noteq> zeroTime,
             if heldForever h then zeroTime else heldUntil h, heldForever h)))"

fun Penalty :: "LoopTracker option \<Rightarrow> string \<Rightarrow> gotime \<Rightarrow> LoopTracker option \<times> LoopPenaltyEvent list \<times> PenaltyState option" where
  "Penalty None sid now = (None, [], None)"
| "Penalty (Some t) sid now =
     (if sid = [] then (Some t, [], None)
      else case map_of (sessions t) sid of
        None \<Rightarrow> (Some t, [], None)
      | Some h0 \<Rightarrow>
          (if strike h0 = 0 then (Some t, [], None)
           else case expireHoldLocked sid h0 now of (h, evs) \<Rightarrow>
            (Some (setHistory sid h t), evs,
             Some \<lparr>ps_Reason = PenaltyReasonLoop, ps_Strike = strike h, ps_Strikes = Strikes (guard t),
               ps_Held = heldForever h \<or> heldUntil h \<noteq> zeroTime, ps_HeldForever = heldForever h,
               ps_Until = (if heldForever h then zeroTime else heldUntil h),
               ps_UniformRun = guardRun (guard t) (sizes h), ps_TypicalTokens = guardMedian (guard t) (sizes h)\<rparr>)))"

fun Unpenalize :: "LoopTracker option \<Rightarrow> string \<Rightarrow> string \<Rightarrow> string \<Rightarrow> LoopTracker option \<times> LoopPenaltyEvent list" where
  "Unpenalize None sid source userAgent = (None, [])"
| "Unpenalize (Some t) sid source userAgent =
     (if sid = [] then (Some t, [])
      else case map_of (sessions t) sid of
        None \<Rightarrow> (Some t, [])
      | Some h \<Rightarrow> (Some (t\<lparr>sessions := mdel sid (sessions t)\<rparr>),
          [(penaltyEvent sid PenaltyEventUnpenalize PenaltyReasonLoop (strike h))\<lparr>pe_Source := source, pe_UserAgent := userAgent\<rparr>]))"

fun HeldSessions :: "LoopTracker option \<Rightarrow> gotime \<Rightarrow> string list" where
  "HeldSessions None now = []"
| "HeldSessions (Some t) now =
     sort (map fst (filter (\<lambda>(sid, h). heldForever h \<or> heldUntil h \<noteq> zeroTime \<and> now < heldUntil h) (sessions t)))"

section \<open>The yield floor\<close>

definition yieldFloorMinutes :: "LoopGuard \<Rightarrow> int" where
  "yieldFloorMinutes g = (if gYieldFloorMinutes g \<le> 0 then DefaultYieldFloorMinutes else gYieldFloorMinutes g)"

definition yieldFloorTokPerMin :: "LoopGuard \<Rightarrow> rat" where
  "yieldFloorTokPerMin g = (if gYieldFloorTokPerMin g \<le> 0 then DefaultYieldFloorTokPerMin else gYieldFloorTokPerMin g)"

fun YieldFloorMinutes :: "LoopTracker option \<Rightarrow> int" where
  "YieldFloorMinutes None = 0"
| "YieldFloorMinutes (Some t) = yieldFloorMinutes (guard t)"

fun YieldFloorTokPerMin :: "LoopTracker option \<Rightarrow> rat" where
  "YieldFloorTokPerMin None = 0"
| "YieldFloorTokPerMin (Some t) = yieldFloorTokPerMin (guard t)"

fun InflightYield :: "LoopTracker option \<Rightarrow> duration \<Rightarrow> int \<Rightarrow> rat" where
  "InflightYield None elapsed produced = 0"
| "InflightYield (Some t) elapsed produced =
     (if elapsed \<le> 0 \<or> produced \<le> 0 then 0
      else let minutes = of_int elapsed / of_int Minute in of_int produced / minutes)"

definition yieldEvent :: "string \<Rightarrow> rat \<Rightarrow> int \<Rightarrow> LoopPenaltyEvent" where
  "yieldEvent sid y fl =
     (penaltyEvent sid PenaltyEventStrike PenaltyReasonYield 1)\<lparr>pe_TypicalTokens := \<lfloor>y * of_int fl\<rfloor>\<rparr>"

text \<open>The early return on \<open>floor <= 0\<close> is kept although \<open>yieldFloorMinutes\<close> is always positive. The
  rate is never negative, so the conversion to \<open>int64\<close> is the floor.\<close>

fun CheckYieldFloor :: "LoopTracker option \<Rightarrow> string \<Rightarrow> duration \<Rightarrow> int \<Rightarrow> gotime \<Rightarrow> LoopTracker option \<times> LoopPenaltyEvent option" where
  "CheckYieldFloor None sid elapsed produced now = (None, None)"
| "CheckYieldFloor (Some t) sid elapsed produced now =
     (let fl = yieldFloorMinutes (guard t); y = InflightYield (Some t) elapsed produced; h = historyOf t sid;
          put = (\<lambda>h. Some (setHistory sid h t)) in
      if sid = [] \<or> fl \<le> 0 then (Some t, None)
      else if y \<ge> yieldFloorTokPerMin (guard t) \<or> produced \<le> 0 then (put (h\<lparr>yieldBreachStart := zeroTime\<rparr>), None)
      else if yieldBreachStart h = zeroTime then
        (let h1 = h\<lparr>yieldBreachStart := now - elapsed\<rparr> in
         if elapsed \<ge> fl * Minute then (put (h1\<lparr>yieldLastStrike := now\<rparr>), Some (yieldEvent sid y fl))
         else (put h1, None))
      else if now - yieldBreachStart h < fl * Minute then (put h, None)
      else if yieldLastStrike h \<noteq> zeroTime \<and> now - yieldLastStrike h < fl * Minute then (put h, None)
      else (put (h\<lparr>yieldLastStrike := now\<rparr>), Some (yieldEvent sid y fl)))"

section \<open>What the trailing run is\<close>

text \<open>The newest \<open>r\<close> of the sizes \<open>vs\<close> (newest first) repeat with period \<open>p\<close>: none is above the
  ceiling, and two sizes of one phase differ by at most the tolerance.\<close>

definition cyclic :: "int \<Rightarrow> int \<Rightarrow> nat \<Rightarrow> int list \<Rightarrow> nat \<Rightarrow> bool" where
  "cyclic tol mx p vs r \<longleftrightarrow> r \<le> length vs \<and> (\<forall>i<r. vs ! i \<le> mx) \<and>
     (\<forall>i<r. \<forall>j<r. i mod p = j mod p \<longrightarrow> vs ! i - vs ! j \<le> tol)"

definition summary :: "nat \<Rightarrow> int list \<Rightarrow> nat \<Rightarrow> int list \<Rightarrow> int list \<Rightarrow> bool" where
  "summary p vs r lo hi \<longleftrightarrow> length lo = min r p \<and> length hi = min r p \<and>
     (\<forall>ph < min r p. (\<forall>i<r. i mod p = ph \<longrightarrow> lo ! ph \<le> vs ! i \<and> vs ! i \<le> hi ! ph) \<and>
        (\<exists>i<r. i mod p = ph \<and> vs ! i = lo ! ph) \<and> (\<exists>i<r. i mod p = ph \<and> vs ! i = hi ! ph))"

lemma cyclic_mono: "cyclic tol mx p vs r \<Longrightarrow> r' \<le> r \<Longrightarrow> cyclic tol mx p vs r'"
  unfolding cyclic_def by (meson le_trans less_le_trans)

lemma cyclic_Suc:
  assumes "cyclic tol mx p vs r" "r < length vs" "0 \<le> tol"
  shows "cyclic tol mx p vs (Suc r) \<longleftrightarrow> vs ! r \<le> mx \<and>
    (\<forall>i<r. i mod p = r mod p \<longrightarrow> vs ! r - vs ! i \<le> tol \<and> vs ! i - vs ! r \<le> tol)"
  using assms unfolding cyclic_def by (auto simp: less_Suc_eq)

lemma summary_first:
  assumes "summary p vs r lo hi" "0 < p" "r mod p = length lo"
  shows "summary p vs (Suc r) (lo @ [vs ! r]) (hi @ [vs ! r])"
proof -
  have len: "length lo = min r p" "length hi = min r p" using assms(1) by (auto simp: summary_def)
  have "r mod p < p" using assms(2) by simp
  then have rp: "r < p" "length lo = r" "length hi = r" using assms(3) len by (auto simp: min_def split: if_splits)
  then show ?thesis using assms(1) unfolding summary_def by (auto simp: min_def nth_append less_Suc_eq)
qed

lemma summary_late:
  assumes "summary p vs r lo hi" "0 < p" "r mod p \<noteq> length lo"
  shows "p \<le> r" "length lo = p" "length hi = p"
proof -
  have len: "length lo = min r p" "length hi = min r p" using assms(1) by (auto simp: summary_def)
  show "p \<le> r" using assms(3) len by (cases "r < p") auto
  then show "length lo = p" "length hi = p" using len by auto
qed

lemma summary_next:
  assumes s: "summary p vs r lo hi" and p: "0 < p" and ne: "r mod p \<noteq> length lo"
  defines "ph \<equiv> r mod p" and "v \<equiv> vs ! r"
  defines "lo' \<equiv> if v < lo ! ph then lo[ph := v] else lo" and "hi' \<equiv> if v > hi ! ph then hi[ph := v] else hi"
  shows "summary p vs (Suc r) lo' hi'"
proof -
  note rp = summary_late(1)[OF s p ne] and len = summary_late(2,3)[OF s p ne]
  have ph: "ph < p" using p by (simp add: ph_def)
  have lo': "lo' ! q = (if q = ph then min v (lo ! ph) else lo ! q)" if "q < p" for q
    using that len by (simp add: lo'_def nth_list_update)
  have hi': "hi' ! q = (if q = ph then max v (hi ! ph) else hi ! q)" if "q < p" for q
    using that len by (simp add: hi'_def nth_list_update)
  have all: "lo ! q \<le> vs ! i \<and> vs ! i \<le> hi ! q" if "q < p" "i < r" "i mod p = q" for q i
    using s that rp unfolding summary_def by (simp add: min_absorb2)
  have exl: "\<exists>i<r. i mod p = q \<and> vs ! i = lo ! q" if "q < p" for q
    using s that rp unfolding summary_def by (simp add: min_absorb2)
  have exh: "\<exists>i<r. i mod p = q \<and> vs ! i = hi ! q" if "q < p" for q
    using s that rp unfolding summary_def by (simp add: min_absorb2)
  have "(\<forall>i<Suc r. i mod p = q \<longrightarrow> lo' ! q \<le> vs ! i \<and> vs ! i \<le> hi' ! q)" if q: "q < p" for q
  proof (intro allI impI)
    fix i assume i: "i < Suc r" "i mod p = q"
    show "lo' ! q \<le> vs ! i \<and> vs ! i \<le> hi' ! q"
    proof (cases "i = r")
      case True
      then show ?thesis using i q by (simp add: lo' hi' ph_def v_def)
    next
      case False
      then show ?thesis using all[OF q, of i] i q unfolding lo'[OF q] hi'[OF q] by auto
    qed
  qed
  moreover have "\<exists>i<Suc r. i mod p = q \<and> vs ! i = lo' ! q" if q: "q < p" for q
  proof (cases "q = ph \<and> v < lo ! ph")
    case True
    then show ?thesis using q by (intro exI[of _ r]) (simp add: lo' ph_def v_def)
  next
    case False
    then have "lo' ! q = lo ! q" using q by (auto simp: lo')
    then show ?thesis using exl[OF q] by (auto intro: less_SucI)
  qed
  moreover have "\<exists>i<Suc r. i mod p = q \<and> vs ! i = hi' ! q" if q: "q < p" for q
  proof (cases "q = ph \<and> v > hi ! ph")
    case True
    then show ?thesis using q by (intro exI[of _ r]) (simp add: hi' ph_def v_def)
  next
    case False
    then have "hi' ! q = hi ! q" using q by (auto simp: hi')
    then show ?thesis using exh[OF q] by (auto intro: less_SucI)
  qed
  ultimately show ?thesis using rp len by (simp add: summary_def lo'_def hi'_def)
qed

lemma spread_iff:
  assumes s: "summary p vs r lo hi" and c: "cyclic tol mx p vs r" and r: "r < length vs" and tol: "0 \<le> tol"
    and p: "0 < p" and ne: "r mod p \<noteq> length lo" and v: "vs ! r \<le> mx"
  defines "ph \<equiv> r mod p"
  shows "cyclic tol mx p vs (Suc r) \<longleftrightarrow> max (vs ! r) (hi ! ph) - min (vs ! r) (lo ! ph) \<le> tol"
proof -
  have ph: "ph < min r p" using summary_late[OF s p ne] p by (simp add: ph_def)
  have all: "\<forall>i<r. i mod p = ph \<longrightarrow> lo ! ph \<le> vs ! i \<and> vs ! i \<le> hi ! ph" using s ph by (simp add: summary_def)
  obtain i where i: "i < r" "i mod p = ph" "vs ! i = lo ! ph" using s ph by (auto simp: summary_def)
  obtain j where j: "j < r" "j mod p = ph" "vs ! j = hi ! ph" using s ph unfolding summary_def by blast
  have old: "hi ! ph - lo ! ph \<le> tol" using c i j unfolding cyclic_def by metis
  have "cyclic tol mx p vs (Suc r) \<longleftrightarrow> vs ! r - lo ! ph \<le> tol \<and> hi ! ph - vs ! r \<le> tol"
    unfolding cyclic_Suc[OF c r tol] using all i j v ph_def by (metis (no_types, lifting) diff_left_mono diff_right_mono order_trans)
  also have "\<dots> \<longleftrightarrow> max (vs ! r) (hi ! ph) - min (vs ! r) (lo ! ph) \<le> tol" using old tol by (auto simp: max_def min_def)
  finally show ?thesis .
qed

lemma periodLoop_spec:
  assumes "0 < p" "0 \<le> tol" "summary p vs r lo hi" "cyclic tol mx p vs r" "us = drop r vs"
  shows "cyclic tol mx p vs (periodLoop tol mx p lo hi r us) \<and> \<not> cyclic tol mx p vs (Suc (periodLoop tol mx p lo hi r us))"
  using assms(3-)
proof (induction us arbitrary: r lo hi)
  case Nil
  then have "length vs \<le> r" by simp
  then show ?case using Nil.prems(2) by (simp add: cyclic_def)
next
  case (Cons v us)
  then have r: "r < length vs" by (metis drop_eq_Nil2 list.distinct(1) not_le)
  then have v: "vs ! r = v" "us = drop (Suc r) vs" using Cons.prems(3) by (metis Cons_nth_drop_Suc list.inject)+
  note Suc_iff = cyclic_Suc[OF Cons.prems(2) r assms(2)]
  show ?case
  proof (cases "v > mx")
    case True
    then have "\<not> cyclic tol mx p vs (Suc r)" using v Suc_iff by simp
    then show ?thesis using True Cons.prems(2) by simp
  next
    case le: False
    show ?thesis
    proof (cases "r mod p = length lo")
      case True
      have "r < p" using True Cons.prems(1) assms(1) mod_less_divisor[OF assms(1), of r] by (auto simp: summary_def min_def split: if_splits)
      then have "cyclic tol mx p vs (Suc r)" using le v Suc_iff by simp
      then show ?thesis using Cons.IH[OF summary_first[OF Cons.prems(1) assms(1) True]] True le v by simp
    next
      case False
      have ph: "r mod p < length lo" "length hi = length lo" using summary_late[OF Cons.prems(1) assms(1) False] assms(1) by simp_all
      let ?lo = "if v < lo ! (r mod p) then lo[r mod p := v] else lo" and ?hi = "if v > hi ! (r mod p) then hi[r mod p := v] else hi"
      have spread: "?hi ! (r mod p) - ?lo ! (r mod p) = max v (hi ! (r mod p)) - min v (lo ! (r mod p))"
        using ph by (simp add: max_def min_def)
      have iff: "cyclic tol mx p vs (Suc r) \<longleftrightarrow> \<not> ?hi ! (r mod p) - ?lo ! (r mod p) > tol"
        unfolding spread using spread_iff[OF Cons.prems(1,2) r assms(2,1) False] le v by (simp add: not_less)
      have unf: "periodLoop tol mx p lo hi r (v # us) =
          (if ?hi ! (r mod p) - ?lo ! (r mod p) > tol then r else periodLoop tol mx p ?lo ?hi (Suc r) us)"
        unfolding periodLoop.simps Let_def if_not_P[OF le] if_not_P[OF False] Suc_eq_plus1 by (rule refl)
      show ?thesis
      proof (cases "?hi ! (r mod p) - ?lo ! (r mod p) > tol")
        case True
        then show ?thesis using iff Cons.prems(2) unfolding unf if_P[OF True] by blast
      next
        case no: False
        have "summary p vs (Suc r) ?lo ?hi" using summary_next[OF Cons.prems(1) assms(1) False] unfolding v(1) .
        from Cons.IH[OF this _ v(2)] show ?thesis using iff no unfolding unf if_not_P[OF no] by blast
      qed
    qed
  qed
qed

lemma periodRun_spec:
  assumes "0 < p" "0 \<le> tol"
  shows "cyclic tol mx p (rev ts) (periodRun ts tol mx p)" "\<not> cyclic tol mx p (rev ts) (Suc (periodRun ts tol mx p))"
  using periodLoop_spec[OF assms, of "rev ts" 0 "[]" "[]" mx "rev ts"] unfolding periodRun_def
  by (auto simp: summary_def cyclic_def)

lemma cyclic_iff_periodRun:
  assumes "0 < p" "0 \<le> tol"
  shows "cyclic tol mx p (rev ts) r \<longleftrightarrow> r \<le> periodRun ts tol mx p"
  using periodRun_spec[OF assms, of mx ts] cyclic_mono by (metis not_less_eq_eq)

lemma runStep_fold:
  "n \<le> foldl (runStep ts tol mx) b ps \<longleftrightarrow> n \<le> b \<or>
    (\<exists>p \<in> set ps. n \<le> periodRun ts tol mx p \<and> (n = 0 \<or> p \<le> 1 \<or> 2 * p \<le> periodRun ts tol mx p))"
proof (induction ps arbitrary: b)
  case (Cons p ps)
  have "n \<le> runStep ts tol mx b p \<longleftrightarrow> n \<le> b \<or> n \<le> periodRun ts tol mx p \<and> (n = 0 \<or> p \<le> 1 \<or> 2 * p \<le> periodRun ts tol mx p)"
    by (auto simp: runStep_def Let_def)
  then show ?case by (auto simp: Cons.IH)
qed simp

lemma runLocked_iff:
  assumes "0 \<le> tol" "0 < n"
  shows "n \<le> runLocked ts tol mx mp \<longleftrightarrow>
    (\<exists>p r. 0 < p \<and> int p \<le> mp \<and> n \<le> r \<and> (p = 1 \<or> 2 * p \<le> r) \<and> cyclic tol mx p (rev ts) r)" (is "_ \<longleftrightarrow> ?R")
proof -
  have "n \<le> runLocked ts tol mx mp \<longleftrightarrow> (\<exists>p \<in> set [1..<nat (mp + 1)]. n \<le> periodRun ts tol mx p \<and> (p \<le> 1 \<or> 2 * p \<le> periodRun ts tol mx p))"
    using assms(2) unfolding runLocked_def runStep_fold by simp
  also have "\<dots> \<longleftrightarrow> ?R"
  proof
    assume "\<exists>p \<in> set [1..<nat (mp + 1)]. n \<le> periodRun ts tol mx p \<and> (p \<le> 1 \<or> 2 * p \<le> periodRun ts tol mx p)"
    then obtain p where p: "p \<in> set [1..<nat (mp + 1)]" "n \<le> periodRun ts tol mx p" "p \<le> 1 \<or> 2 * p \<le> periodRun ts tol mx p" by blast
    have p0: "0 < p" "int p \<le> mp" "p = 1 \<or> 2 * p \<le> periodRun ts tol mx p" using p(1,3) by auto
    show ?R by (intro exI conjI) (rule p0(1), rule p0(2), rule p(2), rule p0(3), rule periodRun_spec(1)[OF p0(1) assms(1)])
  next
    assume ?R
    then obtain p r where p: "0 < p" "int p \<le> mp" "n \<le> r" "p = 1 \<or> 2 * p \<le> r" "cyclic tol mx p (rev ts) r"
      by (elim exE conjE) (rule that)
    have "r \<le> periodRun ts tol mx p" using cyclic_iff_periodRun[OF p(1) assms(1)] p(5) by blast
    then have "n \<le> periodRun ts tol mx p \<and> (p \<le> 1 \<or> 2 * p \<le> periodRun ts tol mx p)" "p \<in> set [1..<nat (mp + 1)]"
      using p(1-4) by auto
    then show "\<exists>p \<in> set [1..<nat (mp + 1)]. n \<le> periodRun ts tol mx p \<and> (p \<le> 1 \<or> 2 * p \<le> periodRun ts tol mx p)" by blast
  qed
  finally show ?thesis .
qed

section \<open>The guard in use\<close>

definition guard_ok :: "LoopGuard \<Rightarrow> bool" where
  "guard_ok g \<longleftrightarrow> 0 < RunBar g \<and> 0 \<le> ToleranceTokens g \<and> 1 \<le> Strikes g \<and> 1 \<le> ClearRequests g \<and>
     1 \<le> MaxLoopTokens g \<and> 1 \<le> MaxPeriod g"

lemma normalizeGuard_ok: "guard_ok (normalizeGuard g)"
proof -
  let ?a = "\<lambda>g. if RunBar g \<le> 0 then g\<lparr>RunBar := DefaultLoopRunBar\<rparr> else g"
  let ?b = "\<lambda>g. if ToleranceTokens g < 0 then g\<lparr>ToleranceTokens := DefaultLoopTolerance\<rparr> else g"
  let ?c = "\<lambda>g. if Strikes g < 1 then g\<lparr>Strikes := 1\<rparr> else g"
  let ?d = "\<lambda>g. if ClearRequests g < 1 then g\<lparr>ClearRequests := ClearRequests DefaultLoopGuard\<rparr> else g"
  let ?e = "\<lambda>g. if MaxLoopTokens g < 1 then g\<lparr>MaxLoopTokens := DefaultMaxLoopTokens\<rparr> else g"
  let ?f = "\<lambda>g. if MaxPeriod g < 1 then g\<lparr>MaxPeriod := DefaultLoopMaxPeriod\<rparr> else g"
  have a: "0 < RunBar (?a g)" for g :: LoopGuard by (simp add: DefaultLoopRunBar_def)
  have b: "0 \<le> ToleranceTokens (?b g) \<and> RunBar (?b g) = RunBar g" for g :: LoopGuard
    by (simp add: DefaultLoopTolerance_def)
  have c: "1 \<le> Strikes (?c g) \<and> RunBar (?c g) = RunBar g \<and> ToleranceTokens (?c g) = ToleranceTokens g" for g :: LoopGuard
    by simp
  have d: "1 \<le> ClearRequests (?d g) \<and> RunBar (?d g) = RunBar g \<and> ToleranceTokens (?d g) = ToleranceTokens g \<and>
      Strikes (?d g) = Strikes g" for g :: LoopGuard by (simp add: DefaultLoopGuard_def)
  have e: "1 \<le> MaxLoopTokens (?e g) \<and> RunBar (?e g) = RunBar g \<and> ToleranceTokens (?e g) = ToleranceTokens g \<and>
      Strikes (?e g) = Strikes g \<and> ClearRequests (?e g) = ClearRequests g" for g :: LoopGuard
    by (simp add: DefaultMaxLoopTokens_def)
  have f: "1 \<le> MaxPeriod (?f g) \<and> RunBar (?f g) = RunBar g \<and> ToleranceTokens (?f g) = ToleranceTokens g \<and>
      Strikes (?f g) = Strikes g \<and> ClearRequests (?f g) = ClearRequests g \<and> MaxLoopTokens (?f g) = MaxLoopTokens g" for g :: LoopGuard
    by (simp add: DefaultLoopMaxPeriod_def)
  have n: "normalizeGuard g = ?f (?e (?d (?c (?b (?a g)))))" by (simp only: normalizeGuard_def Let_def)
  show ?thesis unfolding n guard_ok_def using a b c d e f by metis
qed

lemma Looping_iff_aux:
  assumes "guard_ok (guard t)"
  shows "Looping (Some t) sid \<longleftrightarrow> (\<exists>h p r. map_of (sessions t) sid = Some h \<and> 0 < p \<and> int p \<le> MaxPeriod (guard t) \<and>
    RunBar (guard t) \<le> int r \<and> (p = 1 \<or> 2 * p \<le> r) \<and>
    cyclic (ToleranceTokens (guard t)) (MaxLoopTokens (guard t)) p (rev (sizes h)) r)"
proof (cases "map_of (sessions t) sid")
  case None
  then show ?thesis using assms by (simp add: guard_ok_def)
next
  case (Some h)
  have n: "0 < nat (RunBar (guard t))" "0 \<le> ToleranceTokens (guard t)" using assms by (simp_all add: guard_ok_def)
  have "Looping (Some t) sid \<longleftrightarrow> nat (RunBar (guard t)) \<le> guardRun (guard t) (sizes h)" using Some n by simp linarith
  also have "\<dots> \<longleftrightarrow> (\<exists>p r. 0 < p \<and> int p \<le> MaxPeriod (guard t) \<and> nat (RunBar (guard t)) \<le> r \<and> (p = 1 \<or> 2 * p \<le> r) \<and>
      cyclic (ToleranceTokens (guard t)) (MaxLoopTokens (guard t)) p (rev (sizes h)) r)"
    unfolding guardRun_def by (rule runLocked_iff[OF n(2,1)])
  finally show ?thesis unfolding Some by (simp add: nat_le_iff)
qed

text \<open>C13. What looping means. A session of a tracker loops exactly when, for some period up to the
  configured maximum, its newest responses, at least \<open>RunBar\<close> of them and at least two full periods, are
  all within the output ceiling and equal within the tolerance phase by phase.\<close>

theorem Looping_iff:
  assumes "guard t = normalizeGuard g"
  shows "Looping (Some t) sid \<longleftrightarrow> (\<exists>h p r. map_of (sessions t) sid = Some h \<and> 0 < p \<and> int p \<le> MaxPeriod (guard t) \<and>
    RunBar (guard t) \<le> int r \<and> (p = 1 \<or> 2 * p \<le> r) \<and>
    cyclic (ToleranceTokens (guard t)) (MaxLoopTokens (guard t)) p (rev (sizes h)) r)"
  using normalizeGuard_ok Looping_iff_aux assms by metis

text \<open>Examples: a bar of four responses and two strikes, the second an hour's hold.\<close>

definition exGuard :: LoopGuard where
  "exGuard = DefaultLoopGuard\<lparr>RunBar := 4, Strikes := 2, PenaltySeconds := [0, 3600]\<rparr>"

definition exRecords :: "string \<Rightarrow> (int \<times> gotime) list \<Rightarrow> LoopTracker \<Rightarrow> LoopTracker" where
  "exRecords sid vs t = foldl (\<lambda>t (v, now). the (fst (Record (Some t) sid v now))) t vs"

definition exTracker :: LoopTracker where
  "exTracker = exRecords ''s'' [(47, 1), (90, 2), (48, 3), (91, 4), (47, 5)] (NewLoopTracker exGuard)"

theorem Looping_iff_witness:
  "\<exists>h p r. map_of (sessions exTracker) ''s'' = Some h \<and> 0 < p \<and> int p \<le> 3 \<and> 4 \<le> int r \<and> (p = 1 \<or> 2 * p \<le> r) \<and>
    cyclic 2 256 p (rev (sizes h)) r"
proof -
  have g: "guard exTracker = normalizeGuard exGuard" by code_simp
  have "Looping (Some exTracker) ''s''" by code_simp
  moreover have "MaxPeriod (guard exTracker) = 3" "RunBar (guard exTracker) = 4"
    "ToleranceTokens (guard exTracker) = 2" "MaxLoopTokens (guard exTracker) = 256" by code_simp+
  ultimately show ?thesis using Looping_iff[OF g] by (simp del: Looping.simps)
qed

end
