(* ===== verification/LoopHold.thy ===== *)
theory LoopHold
  imports LoopTrack
begin

text \<open>
  What the loop tracker guarantees over time. A run of the tracker is a sequence of calls at
  non-decreasing clock readings (\<open>ltreach\<close>). The first group of lemmas is the invariant of a
  session's history under every call; the second follows one session: what a repeating session
  climbs to, how long its hold stands, and when its strikes are dropped.
\<close>

section \<open>Calls and reachable trackers\<close>

datatype lt_call = CRecord string int | CHeld string | CPenalty string | CUnpenalize string string string
  | CYield string duration int

fun lt_step :: "gotime \<Rightarrow> lt_call \<Rightarrow> LoopTracker option \<Rightarrow> LoopTracker option" where
  "lt_step now (CRecord sid v) t = fst (Record t sid v now)"
| "lt_step now (CHeld sid) t = fst (Held t sid now)"
| "lt_step now (CPenalty sid) t = fst (Penalty t sid now)"
| "lt_step now (CUnpenalize sid src ua) t = fst (Unpenalize t sid src ua)"
| "lt_step now (CYield sid elapsed produced) t = fst (CheckYieldFloor t sid elapsed produced now)"

inductive ltreach :: "LoopGuard \<Rightarrow> LoopTracker \<Rightarrow> gotime \<Rightarrow> bool" for g where
  start: "0 < now \<Longrightarrow> ltreach g (NewLoopTracker g) now"
| call: "ltreach g t now \<Longrightarrow> now \<le> now' \<Longrightarrow> lt_step now' ev (Some t) = Some t' \<Longrightarrow> ltreach g t' now'"

section \<open>The invariant of a history\<close>

definition on_hold :: "loopHistory \<Rightarrow> bool" where
  "on_hold h \<longleftrightarrow> heldForever h \<or> heldUntil h \<noteq> zeroTime"

definition hist_ok :: "LoopGuard \<Rightarrow> int \<Rightarrow> gotime \<Rightarrow> loopHistory \<Rightarrow> bool" where
  "hist_ok g hm now h \<longleftrightarrow> int (length (sizes h)) \<le> hm \<and> 0 \<le> strike h \<and> strike h \<le> Strikes g \<and> lastAt h \<le> now \<and>
     (strike h = 0 \<longrightarrow> \<not> on_hold h) \<and> 0 \<le> clearStreak h \<and> (strike h = 0 \<or> clearStreak h < ClearRequests g) \<and>
     (heldForever h \<longrightarrow> heldUntil h = zeroTime \<and> (\<exists>n. 1 \<le> n \<and> n \<le> strike h \<and> holdSecondsFor g n < 0)) \<and>
     (heldUntil h \<noteq> zeroTime \<longrightarrow> (\<exists>n. 1 \<le> n \<and> n \<le> strike h \<and> 0 < holdSecondsFor g n \<and>
        heldUntil h \<le> lastAt h + holdSecondsFor g n * Second))"

definition tracker_ok :: "gotime \<Rightarrow> LoopTracker \<Rightarrow> bool" where
  "tracker_ok now t \<longleftrightarrow> guard_ok (guard t) \<and> RunBar (guard t) * Strikes (guard t) + 1 \<le> historyMax t \<and>
     1 \<le> historyMax t \<and> distinct (map fst (sessions t)) \<and> (\<forall>(sid, h) \<in> set (sessions t). hist_ok (guard t) (historyMax t) now h)"

lemma set_mput: "set (mput k v m) \<subseteq> insert (k, v) (set m)"
  unfolding mput_def by (induction m) auto

lemma hist_ok_later: "hist_ok g hm now h \<Longrightarrow> now \<le> now' \<Longrightarrow> hist_ok g hm now' h"
  unfolding hist_ok_def by auto

lemma newHistory_ok: "guard_ok g \<Longrightarrow> 1 \<le> hm \<Longrightarrow> 0 \<le> now \<Longrightarrow> hist_ok g hm now newHistory"
  by (simp add: hist_ok_def newHistory_def on_hold_def guard_ok_def)

lemma setHistory_ok:
  "tracker_ok now t \<Longrightarrow> hist_ok (guard t) (historyMax t) now h \<Longrightarrow> tracker_ok now (setHistory sid h t)"
  using set_mput[of sid h "sessions t"] unfolding tracker_ok_def setHistory_def by auto

lemma historyOf_ok: "tracker_ok now t \<Longrightarrow> 0 \<le> now \<Longrightarrow> hist_ok (guard t) (historyMax t) now (historyOf t sid)"
  unfolding historyOf_def by (auto simp: tracker_ok_def newHistory_ok split: option.split dest: map_of_SomeD)

lemma appendSize_length: "1 \<le> hm \<Longrightarrow> int (length ts) \<le> hm \<Longrightarrow> int (length (appendSize hm ts v)) \<le> hm"
  by (auto simp: appendSize_def Let_def)

lemma recordHistory_ok:
  assumes "hist_ok g hm now h" "1 \<le> hm"
  shows "hist_ok g hm now (recordHistory hm sid v now h)"
proof -
  have "heldUntil h \<le> now + s * Second" if "heldUntil h \<le> lastAt h + s * Second" for s
    using that assms(1) by (simp add: hist_ok_def)
  then show ?thesis using assms appendSize_length[OF assms(2), of "sizes h" v]
    unfolding hist_ok_def recordHistory_def on_hold_def by auto
qed

text \<open>The three branches of \<open>advanceLocked\<close>.\<close>

definition ladderTarget :: "LoopGuard \<Rightarrow> nat \<Rightarrow> int" where
  "ladderTarget g run = (if int run div RunBar g > Strikes g then Strikes g else int run div RunBar g)"

lemma advance_below:
  assumes "int (guardRun g (sizes h)) < RunBar g"
  shows "fst (advanceLocked g sid h now) =
    (if clearStreak h + 1 < ClearRequests g \<or> strike h = 0 then h\<lparr>clearStreak := clearStreak h + 1\<rparr>
     else h\<lparr>strike := 0, clearStreak := 0, heldUntil := zeroTime, heldForever := False\<rparr>)"
  using assms by (simp add: advanceLocked_def Let_def)

lemma advance_same:
  assumes "\<not> int (guardRun g (sizes h)) < RunBar g" "ladderTarget g (guardRun g (sizes h)) \<le> strike h"
  shows "fst (advanceLocked g sid h now) = h\<lparr>clearStreak := 0\<rparr>"
  using assms by (simp add: advanceLocked_def Let_def ladderTarget_def)

lemma advance_up:
  assumes "\<not> int (guardRun g (sizes h)) < RunBar g" "\<not> ladderTarget g (guardRun g (sizes h)) \<le> strike h"
  defines "n \<equiv> ladderTarget g (guardRun g (sizes h))"
  shows "fst (advanceLocked g sid h now) =
    (if holdSecondsFor g n < 0 then h\<lparr>clearStreak := 0, strike := n, heldForever := True, heldUntil := zeroTime\<rparr>
     else if holdSecondsFor g n > 0
     then h\<lparr>clearStreak := 0, strike := n, heldForever := False, heldUntil := now + holdSecondsFor g n * Second\<rparr>
     else h\<lparr>clearStreak := 0, strike := n\<rparr>)"
proof -
  have le: "\<not> (if Strikes g < int (guardRun g (sizes h)) div RunBar g then Strikes g
      else int (guardRun g (sizes h)) div RunBar g) \<le> strike (h\<lparr>clearStreak := 0\<rparr>)"
    using assms(2) by (simp add: ladderTarget_def)
  show ?thesis unfolding advanceLocked_def Let_def if_not_P[OF assms(1)] if_not_P[OF le] n_def ladderTarget_def by simp
qed

lemma ladderTarget_ge1: "guard_ok g \<Longrightarrow> \<not> int run < RunBar g \<Longrightarrow> 1 \<le> ladderTarget g run \<and> ladderTarget g run \<le> Strikes g"
  unfolding ladderTarget_def guard_ok_def by (simp add: pos_imp_zdiv_pos_iff int_one_le_iff_zero_less)

lemma advanceLocked_ok:
  assumes h: "hist_ok g hm now h" "lastAt h = now" and g: "guard_ok g"
  shows "hist_ok g hm now (fst (advanceLocked g sid h now))"
proof (cases "int (guardRun g (sizes h)) < RunBar g")
  case True
  then show ?thesis using h g unfolding advance_below[OF True] hist_ok_def on_hold_def guard_ok_def by auto
next
  case False
  let ?n = "ladderTarget g (guardRun g (sizes h))"
  note n = ladderTarget_ge1[OF g False]
  show ?thesis
  proof (cases "?n \<le> strike h")
    case True
    show ?thesis using h g unfolding advance_same[OF False True] hist_ok_def on_hold_def guard_ok_def by auto
  next
    case up: False
    have old: "\<exists>k. 1 \<le> k \<and> k \<le> ?n \<and> P k" if "\<exists>k. 1 \<le> k \<and> k \<le> strike h \<and> P k" for P
      using that up by (meson linear order_trans)
    consider "holdSecondsFor g ?n < 0" | "0 < holdSecondsFor g ?n" | "holdSecondsFor g ?n = 0" by linarith
    then show ?thesis
    proof cases
      case 1
      then show ?thesis using h g n unfolding advance_up[OF False up] hist_ok_def on_hold_def guard_ok_def
        by (auto intro!: exI[of _ ?n])
    next
      case 2
      then show ?thesis using h g n unfolding advance_up[OF False up] hist_ok_def on_hold_def guard_ok_def
        by (auto intro!: exI[of _ ?n])
    next
      case 3
      then have eq: "fst (advanceLocked g sid h now) = h\<lparr>clearStreak := 0, strike := ?n\<rparr>" using advance_up[OF False up] by simp
      have "heldForever h \<Longrightarrow> \<exists>k. 1 \<le> k \<and> k \<le> ?n \<and> holdSecondsFor g k < 0"
        and "heldUntil h \<noteq> zeroTime \<Longrightarrow> \<exists>k. 1 \<le> k \<and> k \<le> ?n \<and> 0 < holdSecondsFor g k \<and> heldUntil h \<le> lastAt h + holdSecondsFor g k * Second"
        using h(1) unfolding hist_ok_def by (intro old, simp)+
      then show ?thesis using h g n unfolding eq hist_ok_def on_hold_def guard_ok_def by simp
    qed
  qed
qed

lemma expireHold_ok: "hist_ok g hm now h \<Longrightarrow> hist_ok g hm now (fst (expireHoldLocked sid h now))"
  by (auto simp: expireHoldLocked_def hist_ok_def on_hold_def)

lemma NewLoopTracker_ok: "0 < now \<Longrightarrow> tracker_ok now (NewLoopTracker g)"
  using normalizeGuard_ok[of g] by (auto simp: tracker_ok_def NewLoopTracker_def Let_def loopHistoryMin_def)

lemma pruneLocked_ok: "tracker_ok now t \<Longrightarrow> tracker_ok now (pruneLocked now' t)"
  by (auto simp: tracker_ok_def pruneLocked_def distinct_map_filter)

lemma Record_Some:
  assumes "sid \<noteq> []"
  shows "Record (Some t) sid v now =
    (let a = advanceLocked (guard t) sid (recordHistory (historyMax t) sid v now (historyOf t sid)) now
     in (Some (pruneLocked now (setHistory sid (fst a) t)), snd a))"
  using assms by (simp add: Let_def split: prod.split)

definition same_ladder :: "loopHistory \<Rightarrow> loopHistory \<Rightarrow> bool" where
  "same_ladder h h' \<longleftrightarrow> sizes h' = sizes h \<and> lastAt h' = lastAt h \<and> strike h' = strike h \<and>
     heldUntil h' = heldUntil h \<and> heldForever h' = heldForever h \<and> clearStreak h' = clearStreak h"

lemma same_ladder_ok: "hist_ok g hm now h \<Longrightarrow> same_ladder h h' \<Longrightarrow> hist_ok g hm now h'"
  by (simp add: hist_ok_def on_hold_def same_ladder_def)

definition touches :: "LoopTracker \<Rightarrow> string \<Rightarrow> LoopTracker option \<Rightarrow> bool" where
  "touches t sid t' \<longleftrightarrow> t' = Some t \<or> (\<exists>h'. t' = Some (setHistory sid h' t) \<and> same_ladder (historyOf t sid) h')"

lemma touches_intros:
  "touches t sid (fst x) \<Longrightarrow> touches t sid (fst y) \<Longrightarrow> touches t sid (fst (if c then x else y))"
  "touches t sid (fst (Some t, e))"
  "same_ladder (historyOf t sid) h' \<Longrightarrow> touches t sid (fst (Some (setHistory sid h' t), e))"
  by (auto simp: touches_def)

lemma CheckYieldFloor_touches: "touches t sid (fst (CheckYieldFloor (Some t) sid elapsed produced now))"
  unfolding CheckYieldFloor.simps Let_def by (intro touches_intros) (simp_all add: same_ladder_def)

lemma lt_step_ok:
  assumes ok: "tracker_ok now t" and pos: "0 < now" and st: "lt_step now ev (Some t) = Some t'"
  shows "tracker_ok now t' \<and> guard t' = guard t"
proof (cases ev)
  case (CRecord sid v)
  show ?thesis
  proof (cases "sid = []")
    case True
    then show ?thesis using CRecord st ok by simp
  next
    case False
    let ?h = "recordHistory (historyMax t) sid v now (historyOf t sid)"
    have "hist_ok (guard t) (historyMax t) now ?h"
      using ok pos by (intro recordHistory_ok historyOf_ok) (auto simp: tracker_ok_def)
    then have "hist_ok (guard t) (historyMax t) now (fst (advanceLocked (guard t) sid ?h now))"
      using ok by (intro advanceLocked_ok) (auto simp: tracker_ok_def recordHistory_def)
    then show ?thesis using CRecord st pruneLocked_ok[OF setHistory_ok[OF ok]]
      by (simp add: Record_Some[OF False] Let_def del: Record.simps) (auto simp: pruneLocked_def setHistory_def)
  qed
next
  case (CHeld sid)
  have "tracker_ok now (setHistory sid (fst (expireHoldLocked sid h now)) t)" if "map_of (sessions t) sid = Some h" for h
    using ok that by (intro setHistory_ok[OF ok] expireHold_ok) (auto simp: tracker_ok_def dest: map_of_SomeD)
  then show ?thesis using CHeld st ok by (auto simp: setHistory_def split: if_splits option.splits prod.splits)
next
  case (CPenalty sid)
  have "tracker_ok now (setHistory sid (fst (expireHoldLocked sid h now)) t)" if "map_of (sessions t) sid = Some h" for h
    using ok that by (intro setHistory_ok[OF ok] expireHold_ok) (auto simp: tracker_ok_def dest: map_of_SomeD)
  then show ?thesis using CPenalty st ok by (auto simp: setHistory_def split: if_splits option.splits prod.splits)
next
  case (CUnpenalize sid src ua)
  have "set (mdel sid (sessions t)) \<subseteq> set (sessions t)" unfolding mdel_def AList.delete_eq by auto
  then have "tracker_ok now (t\<lparr>sessions := mdel sid (sessions t)\<rparr>)" using ok unfolding tracker_ok_def by auto
  then show ?thesis using CUnpenalize st ok by (auto split: if_splits option.splits)
next
  case (CYield sid elapsed produced)
  have "touches t sid (Some t')" using CheckYieldFloor_touches[of t sid elapsed produced now] st CYield by simp
  then consider "t' = t" | h' where "t' = setHistory sid h' t" "same_ladder (historyOf t sid) h'"
    by (auto simp: touches_def)
  then show ?thesis
  proof cases
    case (2 h')
    with setHistory_ok[OF ok same_ladder_ok[OF historyOf_ok[OF ok]]] pos show ?thesis by (simp add: setHistory_def)
  qed (simp add: ok)
qed

lemma ltreach_ok: "ltreach g t now \<Longrightarrow> tracker_ok now t \<and> 0 < now \<and> guard t = normalizeGuard g"
proof (induction rule: ltreach.induct)
  case (start now)
  then show ?case by (simp add: NewLoopTracker_ok) (simp add: NewLoopTracker_def Let_def)
next
  case (call t now now' ev t')
  have "tracker_ok now' t" using call hist_ok_later[of "guard t" "historyMax t" now _ now'] by (fastforce simp: tracker_ok_def)
  from lt_step_ok[OF this _ call.hyps(3)] show ?case using call by auto
qed

text \<open>C14. A hold is earned and bounded. In every reachable tracker, a session remembers at most
  \<open>historyMax\<close> sizes, its strike is within the ladder, it is on hold only with a strike, a hold without
  end stems from a rung that has no end, and a timed hold ends within the seconds of some rung
  reached, counted from the session's last finished response.\<close>

theorem holds_are_earned:
  assumes "ltreach g t now" "map_of (sessions t) sid = Some h"
  shows "int (length (sizes h)) \<le> historyMax t \<and> 0 \<le> strike h \<and> strike h \<le> Strikes (guard t) \<and>
    (on_hold h \<longrightarrow> (\<exists>n. 1 \<le> n \<and> n \<le> strike h \<and>
       (if heldForever h then holdSecondsFor (guard t) n < 0
        else 0 < holdSecondsFor (guard t) n \<and> heldUntil h \<le> lastAt h + holdSecondsFor (guard t) n * Second)))"
proof -
  have "hist_ok (guard t) (historyMax t) now h"
    using ltreach_ok[OF assms(1)] map_of_SomeD[OF assms(2)] by (auto simp: tracker_ok_def)
  then show ?thesis unfolding hist_ok_def on_hold_def by auto
qed

section \<open>Following one session\<close>

lemma map_of_filter_kept: "map_of m k = Some v \<Longrightarrow> P v \<Longrightarrow> map_of (filter (\<lambda>(k, v). P v) m) k = Some v"
  by (induction m) auto

lemma map_of_filter_dropped:
  "distinct (map fst m) \<Longrightarrow> map_of m k = Some v \<Longrightarrow> \<not> P v \<Longrightarrow> map_of (filter (\<lambda>(k, v). P v) m) k = None"
  by (induction m) (auto simp: map_of_eq_None_iff rev_image_eqI split: if_splits)

lemma advance_keeps: "sizes (fst (advanceLocked g sid h now)) = sizes h" "lastAt (fst (advanceLocked g sid h now)) = lastAt h"
  by (simp_all add: advanceLocked_def Let_def)

lemma advance_strike:
  assumes g: "guard_ok g" and k: "k \<le> guardRun g (sizes h)" and s: "0 \<le> strike h"
  shows "min (int k div RunBar g) (Strikes g) \<le> strike (fst (advanceLocked g sid h now))"
proof (cases "int (guardRun g (sizes h)) < RunBar g")
  case True
  then have "int k div RunBar g = 0" using k g by (simp add: guard_ok_def)
  moreover have "0 \<le> strike (fst (advanceLocked g sid h now))" using s by (simp add: advance_below[OF True])
  ultimately show ?thesis by simp
next
  case False
  let ?n = "ladderTarget g (guardRun g (sizes h))"
  have "int k div RunBar g \<le> int (guardRun g (sizes h)) div RunBar g"
    using k g by (intro zdiv_mono1) (auto simp: guard_ok_def)
  then have "min (int k div RunBar g) (Strikes g) \<le> ?n" by (auto simp: ladderTarget_def)
  moreover have "?n \<le> strike (fst (advanceLocked g sid h now))"
    by (cases "?n \<le> strike h") (simp_all add: advance_same[OF False] advance_up[OF False])
  ultimately show ?thesis by simp
qed

lemma Record_own:
  fixes t :: LoopTracker and v :: int and now :: gotime
  assumes "sid \<noteq> []"
  defines "h' \<equiv> fst (advanceLocked (guard t) sid (recordHistory (historyMax t) sid v now (historyOf t sid)) now)"
  shows "\<exists>t'. fst (Record (Some t) sid v now) = Some t' \<and> map_of (sessions t') sid = Some h' \<and>
    guard t' = guard t \<and> historyMax t' = historyMax t"
proof -
  have "pruneKeeps now h'" by (simp add: pruneKeeps_def h'_def advance_keeps recordHistory_def loopSessionTTL_def)
  then have "map_of (sessions (pruneLocked now (setHistory sid h' t))) sid = Some h'"
    unfolding pruneLocked_def setHistory_def by (simp add: map_of_filter_kept)
  then show ?thesis by (simp add: Record_Some[OF assms(1)] Let_def h'_def pruneLocked_def setHistory_def del: Record.simps)
qed

definition ends :: "nat \<Rightarrow> int \<Rightarrow> int list \<Rightarrow> bool" where
  "ends k v xs \<longleftrightarrow> (\<exists>us. xs = us @ replicate k v)"

lemma ends_mono: "ends k v xs \<Longrightarrow> j \<le> k \<Longrightarrow> ends j v xs"
  unfolding ends_def using replicate_add[of "k - j" j v] by (metis append.assoc le_add_diff_inverse2)

lemma ends_appendSize:
  assumes "ends k v xs" "1 \<le> hm"
  shows "ends (min (Suc k) (nat hm)) v (appendSize hm xs v)"
proof -
  obtain us where us: "xs @ [v] = us @ replicate (Suc k) v" using assms(1) unfolding ends_def
    by (metis append.assoc replicate_append_same replicate_Suc)
  show ?thesis
  proof (cases "int (length (xs @ [v])) > hm")
    case False
    then have "ends (Suc k) v (appendSize hm xs v)" using us by (auto simp: appendSize_def ends_def)
    then show ?thesis by (rule ends_mono) simp
  next
    case True
    let ?d = "nat (int (length (xs @ [v])) - hm)"
    have eq: "appendSize hm xs v = drop ?d us @ replicate (Suc k - (?d - length us)) v"
      unfolding appendSize_def Let_def if_P[OF True] unfolding us drop_append drop_replicate by (rule refl)
    have "length us + Suc k = length (xs @ [v])" unfolding us by simp
    then have "min (Suc k) (nat hm) \<le> Suc k - (?d - length us)" using True assms(2) by (simp add: min_def) linarith
    then show ?thesis using ends_mono[of "Suc k - (?d - length us)"] unfolding eq ends_def[of "Suc k - _"] by blast
  qed
qed

lemma ends_guardRun:
  assumes "guard_ok g" "ends k v xs" "v \<le> MaxLoopTokens g"
  shows "k \<le> guardRun g xs"
proof (cases "k = 0")
  case False
  obtain us where "xs = us @ replicate k v" using assms(2) by (auto simp: ends_def)
  then have rev: "rev xs = replicate k v @ rev us" by simp
  have "cyclic (ToleranceTokens g) (MaxLoopTokens g) 1 (rev xs) k"
    unfolding rev cyclic_def using assms(1,3) by (auto simp: nth_append guard_ok_def)
  moreover have "0 \<le> ToleranceTokens g" "0 < k" "int 1 \<le> MaxPeriod g" using assms(1) False by (auto simp: guard_ok_def)
  ultimately show ?thesis unfolding guardRun_def using runLocked_iff[of "ToleranceTokens g" k] by fastforce
qed simp

lemma uniform_run:
  assumes "tracker_ok now t" "0 \<le> now" "sid \<noteq> []" "v \<le> MaxLoopTokens (guard t)"
  shows "\<exists>t'. foldl (\<lambda>t now. fst (Record t sid v now)) (Some t) ts = Some t' \<and> guard t' = guard t \<and> historyMax t' = historyMax t \<and>
    ends (min (length ts) (nat (historyMax t))) v (sizes (historyOf t' sid)) \<and> 0 \<le> strike (historyOf t' sid) \<and>
    (ts \<noteq> [] \<longrightarrow> min (int (min (length ts) (nat (historyMax t))) div RunBar (guard t)) (Strikes (guard t)) \<le> strike (historyOf t' sid))"
proof (induction ts rule: rev_induct)
  case Nil
  show ?case using historyOf_ok[OF assms(1,2), of sid] by (simp add: ends_def hist_ok_def)
next
  case (snoc n ts)
  then obtain t1 where t1: "foldl (\<lambda>t now. fst (Record t sid v now)) (Some t) ts = Some t1" "guard t1 = guard t"
    "historyMax t1 = historyMax t" "ends (min (length ts) (nat (historyMax t))) v (sizes (historyOf t1 sid))"
    "0 \<le> strike (historyOf t1 sid)" by blast
  let ?h = "recordHistory (historyMax t1) sid v n (historyOf t1 sid)"
  obtain t2 where t2: "fst (Record (Some t1) sid v n) = Some t2" "guard t2 = guard t" "historyMax t2 = historyMax t"
    "historyOf t2 sid = fst (advanceLocked (guard t) sid ?h n)"
    using Record_own[OF assms(3), of t1 v n] t1(2,3) by (auto simp: historyOf_def)
  have g: "guard_ok (guard t)" "1 \<le> historyMax t" using assms(1) by (auto simp: tracker_ok_def)
  have "ends (min (Suc (min (length ts) (nat (historyMax t)))) (nat (historyMax t))) v (sizes ?h)"
    using ends_appendSize[OF t1(4) g(2)] t1(3) by (simp add: recordHistory_def)
  then have e: "ends (min (length (ts @ [n])) (nat (historyMax t))) v (sizes ?h)" by (rule ends_mono) simp
  have s: "0 \<le> strike ?h" using t1(5) by (simp add: recordHistory_def)
  note st = advance_strike[OF g(1) ends_guardRun[OF g(1) e assms(4)] s, of sid n]
  have "0 \<le> min (int (min (length (ts @ [n])) (nat (historyMax t))) div RunBar (guard t)) (Strikes (guard t))"
    using g(1) by (simp add: guard_ok_def pos_imp_zdiv_nonneg_iff)
  with st have s2: "0 \<le> strike (historyOf t2 sid)" unfolding t2(4) by (rule order_trans[rotated])
  show ?case
  proof (intro exI[of _ t2] conjI impI)
    show "foldl (\<lambda>t now. fst (Record t sid v now)) (Some t) (ts @ [n]) = Some t2" using t1(1) t2(1) by (simp del: Record.simps)
    show "ends (min (length (ts @ [n])) (nat (historyMax t))) v (sizes (historyOf t2 sid))" unfolding t2(4) advance_keeps by (rule e)
    show "min (int (min (length (ts @ [n])) (nat (historyMax t))) div RunBar (guard t)) (Strikes (guard t)) \<le> strike (historyOf t2 sid)"
      unfolding t2(4) by (rule st)
  qed (use t2 s2 in auto)
qed


text \<open>A call that can end the hold of \<open>sid\<close>: a finished response of it, or the operator.\<close>

fun spares :: "string \<Rightarrow> lt_call \<Rightarrow> bool" where
  "spares sid (CRecord s v) = (s \<noteq> sid)"
| "spares sid (CUnpenalize s src ua) = (s \<noteq> sid)"
| "spares sid ev = True"

definition held_as :: "loopHistory \<Rightarrow> string \<Rightarrow> LoopTracker \<Rightarrow> bool" where
  "held_as h sid t \<longleftrightarrow> (\<exists>h'. map_of (sessions t) sid = Some h' \<and> heldForever h' = heldForever h \<and> heldUntil h' = heldUntil h)"

lemma held_as_setHistory:
  "held_as h sid t \<Longrightarrow> (s = sid \<Longrightarrow> heldForever h2 = heldForever h \<and> heldUntil h2 = heldUntil h) \<Longrightarrow> held_as h sid (setHistory s h2 t)"
  by (auto simp: held_as_def setHistory_def)

lemma expire_running:
  "heldForever h \<or> now < heldUntil h \<Longrightarrow> expireHoldLocked sid h now = (h, [])"
  by (auto simp: expireHoldLocked_def)

lemma held_as_step:
  assumes h: "held_as h sid t" and time: "heldForever h \<or> now < heldUntil h" and pos: "0 < now" and sp: "spares sid ev"
  shows "\<exists>t'. lt_step now ev (Some t) = Some t' \<and> held_as h sid t'"
proof (cases ev)
  case (CRecord s v)
  show ?thesis
  proof (cases "s = []")
    case False
    let ?a = "fst (advanceLocked (guard t) s (recordHistory (historyMax t) s v now (historyOf t s)) now)"
    have "s \<noteq> sid" using sp CRecord by simp
    then obtain h' where h': "map_of (sessions (setHistory s ?a t)) sid = Some h'" "heldForever h' = heldForever h" "heldUntil h' = heldUntil h"
      using held_as_setHistory[OF h] by (auto simp: held_as_def)
    have "pruneKeeps now h'" using time pos h' by (auto simp: pruneKeeps_def)
    then have "held_as h sid (pruneLocked now (setHistory s ?a t))" unfolding held_as_def pruneLocked_def
      using h' map_of_filter_kept[OF h'(1), of "pruneKeeps now"] by simp
    then show ?thesis using CRecord by (simp add: Record_Some[OF False] Let_def del: Record.simps)
  qed (use CRecord h in simp)
next
  case (CHeld s)
  have "held_as h sid (setHistory s (fst (expireHoldLocked s h0 now)) t)" if "map_of (sessions t) s = Some h0" for h0
    using that h time by (intro held_as_setHistory[OF h]) (auto simp: held_as_def expire_running)
  then show ?thesis using CHeld h by (auto split: option.split prod.split)
next
  case (CPenalty s)
  have "held_as h sid (setHistory s (fst (expireHoldLocked s h0 now)) t)" if "map_of (sessions t) s = Some h0" for h0
    using that h time by (intro held_as_setHistory[OF h]) (auto simp: held_as_def expire_running)
  then show ?thesis using CPenalty h by (auto split: option.split prod.split)
next
  case (CUnpenalize s src ua)
  then show ?thesis using sp h by (auto simp: held_as_def split: option.split)
next
  case (CYield s elapsed produced)
  have "\<exists>t'. fst (CheckYieldFloor (Some t) s elapsed produced now) = Some t' \<and> held_as h sid t'"
    using CheckYieldFloor_touches[of t s elapsed produced now] unfolding touches_def
  proof (elim disjE exE conjE)
    fix h' assume "fst (CheckYieldFloor (Some t) s elapsed produced now) = Some (setHistory s h' t)" "same_ladder (historyOf t s) h'"
    moreover from this(2) have "held_as h sid (setHistory s h' t)"
      using h by (intro held_as_setHistory[OF h]) (auto simp: held_as_def same_ladder_def historyOf_def)
    ultimately show ?thesis by blast
  qed (use h in simp)
  then show ?thesis using CYield by simp
qed

lemma held_as_run:
  assumes "held_as h sid t" "\<forall>(now, ev) \<in> set cs. 0 < now \<and> spares sid ev \<and> (heldForever h \<or> now < heldUntil h)"
  shows "\<exists>t'. foldl (\<lambda>t (now, ev). lt_step now ev t) (Some t) cs = Some t' \<and> held_as h sid t'"
  using assms
proof (induction cs arbitrary: t)
  case (Cons c cs)
  obtain now ev where c: "c = (now, ev)" by (cases c)
  with Cons.prems obtain t1 where "lt_step now ev (Some t) = Some t1" "held_as h sid t1"
    using held_as_step[of h sid t now ev] by auto
  with Cons.IH[of t1] Cons.prems(2) c show ?case by simp
qed simp

text \<open>A hold stands. Until its deadline, and for ever when it has none, a session on hold is
  reported held, with that deadline, whatever else is called in between, except a finished response
  of the session itself or the operator's release.\<close>

theorem hold_stands:
  assumes "map_of (sessions t) sid = Some h" "sid \<noteq> []" "on_hold h"
    and "\<forall>(n, ev) \<in> set cs. 0 < n \<and> spares sid ev \<and> (heldForever h \<or> n < heldUntil h)"
    and "heldForever h \<or> now < heldUntil h"
  shows "snd (snd (Held (foldl (\<lambda>t (n, ev). lt_step n ev t) (Some t) cs) sid now)) =
    (True, if heldForever h then zeroTime else heldUntil h, heldForever h)"
proof -
  have "held_as h sid t" using assms(1) by (simp add: held_as_def)
  then obtain t' h' where t': "foldl (\<lambda>t (n, ev). lt_step n ev t) (Some t) cs = Some t'" "map_of (sessions t') sid = Some h'"
    "heldForever h' = heldForever h" "heldUntil h' = heldUntil h" using held_as_run[OF _ assms(4)] unfolding held_as_def by blast
  then have "expireHoldLocked sid h' now = (h', [])" using assms(5) by (intro expire_running) simp
  then show ?thesis unfolding t'(1) using t'(2-4) assms(2,3) by (simp add: on_hold_def)
qed

text \<open>The pruning forgets strikes. \<open>loopHistory.strike\<close> is documented to fall only by recovery or
  the operator's release; yet once the timed hold of a session has run out and its last response is
  half an hour old, the next finished response of any other session deletes it: its strike is gone,
  its run restarts at zero, and no event is sent for it. Every hold of half an hour or more ends so
  unless the session itself answers first.\<close>

theorem elapsed_hold_forgets_strike:
  assumes "ltreach g t now0" "map_of (sessions t) sid = Some h" "\<not> heldForever h" "heldUntil h \<le> now"
    and "lastAt h + loopSessionTTL \<le> now" "other \<noteq> sid" "other \<noteq> []"
  shows "Run (fst (Record (Some t) other v now)) sid = 0 \<and>
    snd (snd (Penalty (fst (Record (Some t) other v now)) sid now)) = None \<and>
    (\<forall>e. e \<in> set (snd (Record (Some t) other v now)) \<longrightarrow> pe_SessionID e \<noteq> sid)"
proof -
  let ?a = "advanceLocked (guard t) other (recordHistory (historyMax t) other v now (historyOf t other)) now"
  let ?t = "setHistory other (fst ?a) t"
  have R: "Record (Some t) other v now = (Some (pruneLocked now ?t), snd ?a)"
    by (simp add: Record_Some[OF assms(7)] Let_def del: Record.simps)
  have "distinct (map fst (sessions ?t))" using ltreach_ok[OF assms(1)] by (simp add: setHistory_def tracker_ok_def)
  moreover have "map_of (sessions ?t) sid = Some h" using assms(2,6) by (simp add: setHistory_def)
  moreover have "\<not> pruneKeeps now h" using assms(3-5) by (simp add: pruneKeeps_def)
  ultimately have gone: "map_of (sessions (pruneLocked now ?t)) sid = None"
    unfolding pruneLocked_def by (simp add: map_of_filter_dropped)
  have "\<forall>e. e \<in> set (snd ?a) \<longrightarrow> pe_SessionID e = other" by (auto simp: advanceLocked_def Let_def penaltyEvent_def)
  then show ?thesis unfolding R using gone assms(6) by simp
qed

section \<open>Witnesses\<close>

text \<open>Session \<open>s\<close> answers eight times with 47 tokens, one second apart: strike 2, an hour's hold.\<close>

fun sorted_times :: "gotime \<Rightarrow> (gotime \<times> 'a) list \<Rightarrow> bool" where
  "sorted_times now [] = True"
| "sorted_times now ((n, e) # cs) = (now \<le> n \<and> sorted_times n cs)"

lemma run_reach:
  "ltreach g t now \<Longrightarrow> sorted_times now cs \<Longrightarrow> foldl (\<lambda>t (n, ev). lt_step n ev t) (Some t) cs = Some t' \<Longrightarrow>
    \<exists>n. ltreach g t' n"
proof (induction cs arbitrary: t now)
  case (Cons c cs)
  obtain n ev where c: "c = (n, ev)" by (cases c)
  have "lt_step n ev None = None" for n ev by (cases ev) simp_all
  then have "foldl (\<lambda>t (n, ev). lt_step n ev t) None ds = None" for ds by (induction ds) auto
  then obtain t1 where t1: "lt_step n ev (Some t) = Some t1" using Cons.prems(3) c by (cases "lt_step n ev (Some t)") auto
  from Cons.IH[OF ltreach.call[OF Cons.prems(1) _ t1]] Cons.prems(2,3) c t1 show ?case by simp
qed auto

definition exHeld :: LoopTracker where
  "exHeld = the (foldl (\<lambda>t (n, ev). lt_step n ev t) (Some (NewLoopTracker exGuard))
     (map (\<lambda>n. (int n * Second, CRecord ''s'' 47)) [1, 2, 3, 4, 5, 6, 7, 8]))"

lemma exHeld_reach: "\<exists>n. ltreach exGuard exHeld n"
proof (rule run_reach[OF ltreach.start[of 1]])
  show "foldl (\<lambda>t (n, ev). lt_step n ev t) (Some (NewLoopTracker exGuard))
     (map (\<lambda>n. (int n * Second, CRecord ''s'' 47)) [1, 2, 3, 4, 5, 6, 7, 8]) = Some exHeld"
    unfolding exHeld_def by code_simp
qed simp_all

lemma exHeld_s: "map_option (\<lambda>h. (strike h, heldForever h, heldUntil h, lastAt h)) (map_of (sessions exHeld) ''s'') =
    Some (2, False, 8 * Second + 3600 * Second, 8 * Second)"
  by code_simp

lemma exHeld_history: "\<exists>h. map_of (sessions exHeld) ''s'' = Some h \<and> strike h = 2 \<and> \<not> heldForever h \<and>
    heldUntil h = 8 * Second + 3600 * Second \<and> lastAt h = 8 * Second"
  using exHeld_s by (cases "map_of (sessions exHeld) ''s''") simp_all

theorem holds_are_earned_witness:
  "\<exists>h n. map_of (sessions exHeld) ''s'' = Some h \<and> on_hold h \<and> 1 \<le> n \<and> n \<le> 2 \<and> 0 < holdSecondsFor (guard exHeld) n \<and>
     heldUntil h \<le> lastAt h + holdSecondsFor (guard exHeld) n * Second"
proof -
  obtain h where h: "map_of (sessions exHeld) ''s'' = Some h" "strike h = 2" "\<not> heldForever h" "heldUntil h = 8 * Second + 3600 * Second"
    using exHeld_history by blast
  obtain n where "ltreach exGuard exHeld n" using exHeld_reach by blast
  from holds_are_earned[OF this h(1)] show ?thesis using h by (auto simp: on_hold_def)
qed


theorem hold_stands_witness:
  "snd (snd (Held (foldl (\<lambda>t (n, ev). lt_step n ev t) (Some exHeld)
     [(9 * Second, CRecord ''other'' 300), (10 * Second, CPenalty ''s'')]) ''s'' (11 * Second))) = (True, 3608 * Second, False)"
proof -
  obtain h where h: "map_of (sessions exHeld) ''s'' = Some h" "strike h = 2" "\<not> heldForever h" "heldUntil h = 8 * Second + 3600 * Second"
    using exHeld_history by blast
  show ?thesis using hold_stands[OF h(1), of "[(9 * Second, CRecord ''other'' 300), (10 * Second, CPenalty ''s'')]" "11 * Second"] h
    by (simp add: on_hold_def del: Record.simps Held.simps lt_step.simps)
qed

theorem elapsed_hold_forgets_strike_witness:
  "(\<exists>h. map_of (sessions exHeld) ''s'' = Some h \<and> strike h = 2) \<and>
   snd (snd (Penalty (fst (Record (Some exHeld) ''other'' 300 (3609 * Second))) ''s'' (3609 * Second))) = None"
proof -
  obtain h where h: "map_of (sessions exHeld) ''s'' = Some h" "strike h = 2" "\<not> heldForever h"
    "heldUntil h = 8 * Second + 3600 * Second" "lastAt h = 8 * Second" using exHeld_history by blast
  obtain n where "ltreach exGuard exHeld n" using exHeld_reach by blast
  from elapsed_hold_forgets_strike[OF this h(1,3), of "3609 * Second" "''other''" 300] h
  show ?thesis by (simp add: loopSessionTTL_def del: Record.simps Penalty.simps)
qed

text \<open>The yield floor strikes a session twice within a minute: a healthy request in between clears
  the breach, and a request found glacial past the window is struck without regard to the last
  strike.\<close>

lemma yield_strikes_twice:
  "let t0 = Some (NewLoopTracker DefaultLoopGuard);
       (t1, e1) = CheckYieldFloor t0 ''s'' (20 * Minute) 5 (1000 * Minute);
       (t2, e2) = CheckYieldFloor t1 ''s'' (1 * Minute) 1000 (1000 * Minute + 30 * Second);
       (t3, e3) = CheckYieldFloor t2 ''s'' (20 * Minute) 5 (1001 * Minute)
   in e1 \<noteq> None \<and> e2 = None \<and> e3 \<noteq> None"
  by code_simp

end
