(* ===== verification/MinWindow.thy ===== *)
theory MinWindow
  imports Main "HOL-Library.Sublist"
begin

text \<open>
  The sliding minimum of \<open>internal/membrake/brake.go\<close>: a monotonic deque in a fixed ring, as
  \<open>push\<close> and \<open>trackRise\<close> write it. \<open>ringPush\<close> is their common loop code on the ring; it refines
  \<open>windowPush\<close> on the list of entries, and what the deque is for, the minimum of the samples in
  the window at its head, is proved once in the locale \<open>min_window\<close> and holds for the ring by
  interpretation.
\<close>

section \<open>The ring\<close>

record ring =
  ringT :: "int list"
  ringV :: "int list"
  ringHead :: nat
  ringN :: nat

definition emptyRing :: "nat \<Rightarrow> ring" where
  "emptyRing c = \<lparr>ringT = replicate c 0, ringV = replicate c 0, ringHead = 0, ringN = 0\<rparr>"

fun popBack :: "int list \<Rightarrow> nat \<Rightarrow> nat \<Rightarrow> int \<Rightarrow> nat \<Rightarrow> nat" where
  "popBack V c h v 0 = 0"
| "popBack V c h v (Suc n) = (if V ! ((h + n) mod c) \<ge> v then popBack V c h v n else Suc n)"

fun dropOld :: "int list \<Rightarrow> nat \<Rightarrow> int \<Rightarrow> int \<Rightarrow> nat \<Rightarrow> nat \<Rightarrow> nat \<times> nat" where
  "dropOld T c win ts h n =
     (if n > 1 \<and> ts - T ! h > win then dropOld T c win ts ((h + 1) mod c) (n - 1) else (h, n))"

declare dropOld.simps [simp del]

definition ringPush :: "int \<Rightarrow> int \<Rightarrow> int \<Rightarrow> ring \<Rightarrow> ring" where
  "ringPush win ts v r =
     (let c = length (ringT r);
          n = popBack (ringV r) c (ringHead r) v (ringN r);
          (h, n) = (if n = c then ((ringHead r + 1) mod c, n - 1) else (ringHead r, n));
          i = (h + n) mod c;
          T = (ringT r)[i := ts];
          V = (ringV r)[i := v];
          (h, n) = dropOld T c win ts h (n + 1)
      in \<lparr>ringT = T, ringV = V, ringHead = h, ringN = n\<rparr>)"

definition ringReset :: "ring \<Rightarrow> ring" where
  "ringReset r = r\<lparr>ringHead := 0, ringN := 0\<rparr>"

definition ringMin :: "ring \<Rightarrow> int" where
  "ringMin r = ringV r ! ringHead r"

section \<open>The entries of the ring\<close>

definition entry :: "int list \<Rightarrow> int list \<Rightarrow> nat \<Rightarrow> int \<times> int" where
  "entry T V i = (T ! i, V ! i)"

definition entries :: "int list \<Rightarrow> int list \<Rightarrow> nat \<Rightarrow> nat \<Rightarrow> nat \<Rightarrow> (int \<times> int) list" where
  "entries T V c h n = map (\<lambda>i. entry T V ((h + i) mod c)) [0..<n]"

definition ringItems :: "ring \<Rightarrow> (int \<times> int) list" where
  "ringItems r = entries (ringT r) (ringV r) (length (ringT r)) (ringHead r) (ringN r)"

definition ring_ok :: "nat \<Rightarrow> ring \<Rightarrow> bool" where
  "ring_ok c r \<longleftrightarrow> 0 < c \<and> length (ringT r) = c \<and> length (ringV r) = c \<and> ringHead r < c \<and> ringN r \<le> c"

fun dropFront :: "int \<Rightarrow> int \<Rightarrow> (int \<times> int) list \<Rightarrow> (int \<times> int) list" where
  "dropFront win ts (x # y # xs) = (if ts - fst x > win then dropFront win ts (y # xs) else x # y # xs)"
| "dropFront win ts xs = xs"

definition popLarger :: "int \<Rightarrow> (int \<times> int) list \<Rightarrow> (int \<times> int) list" where
  "popLarger v xs = rev (dropWhile (\<lambda>x. snd x \<ge> v) (rev xs))"

definition windowPush :: "nat \<Rightarrow> int \<Rightarrow> int \<Rightarrow> int \<Rightarrow> (int \<times> int) list \<Rightarrow> (int \<times> int) list" where
  "windowPush c win ts v xs =
     (let ys = popLarger v xs; zs = (if length ys = c then tl ys else ys) in dropFront win ts (zs @ [(ts, v)]))"

lemma length_entries [simp]: "length (entries T V c h n) = n"
  by (simp add: entries_def)

lemma entries_snoc: "entries T V c h (Suc n) = entries T V c h n @ [entry T V ((h + n) mod c)]"
  by (simp add: entries_def)

lemma entries_Cons: "h < c \<Longrightarrow> entries T V c h (Suc n) = entry T V h # entries T V c ((h + 1) mod c) n"
  unfolding entries_def upt_conv_Cons[OF zero_less_Suc] by (simp add: map_Suc_upt[symmetric] o_def mod_Suc_eq del: upt_Suc)
    (simp add: mod_simps)

lemma popBack_items: "entries T V c h (popBack V c h v n) = popLarger v (entries T V c h n)"
  by (induction n) (simp_all add: popLarger_def entries_snoc entry_def, simp add: entries_def)

lemma popBack_le: "popBack V c h v n \<le> n"
  by (induction n) auto

lemma dropOld_items:
  "h < c \<Longrightarrow> 1 \<le> n \<Longrightarrow> (case dropOld T c win ts h n of (h', n') \<Rightarrow>
     entries T V c h' n' = dropFront win ts (entries T V c h n) \<and> h' < c \<and> 1 \<le> n' \<and> n' \<le> n)"
proof (induction T c win ts h n rule: dropOld.induct)
  case (1 T c win ts h n)
  show ?case
  proof (cases "n > 1 \<and> ts - T ! h > win")
    case True
    then obtain m where n: "n = Suc (Suc m)" by (metis One_nat_def less_imp_Suc_add add_Suc_right plus_1_eq_Suc)
    have "entries T V c h n = entry T V h # entry T V ((h + 1) mod c) # entries T V c (((h + 1) mod c + 1) mod c) m"
      using "1.prems"(1) unfolding n by (subst entries_Cons, simp, subst entries_Cons, simp_all)
    moreover have "entries T V c ((h + 1) mod c) (Suc m) = entry T V ((h + 1) mod c) # entries T V c (((h + 1) mod c + 1) mod c) m"
      using "1.prems"(1) by (intro entries_Cons) simp
    ultimately have "dropFront win ts (entries T V c h n) = dropFront win ts (entries T V c ((h + 1) mod c) (n - 1))"
      using True unfolding n by (simp add: entry_def)
    moreover have "(h + 1) mod c < c" "1 \<le> n - 1" using "1.prems" True by auto
    ultimately show ?thesis using "1.IH"[OF True] True by (subst dropOld.simps) (auto split: prod.splits)
  next
    case False
    have "dropFront win ts (entries T V c h n) = entries T V c h n"
    proof (cases "n > 1")
      case True
      then obtain m where n: "n = Suc (Suc m)" by (metis One_nat_def less_imp_Suc_add add_Suc_right plus_1_eq_Suc)
      have "entries T V c h n = entry T V h # entry T V ((h + 1) mod c) # entries T V c (((h + 1) mod c + 1) mod c) m"
        using "1.prems"(1) unfolding n by (subst entries_Cons, simp, subst entries_Cons, simp_all)
      then show ?thesis using False n by (simp add: entry_def)
    next
      case no: False
      with "1.prems" have "n = Suc 0" by simp
      then show ?thesis by (simp add: entries_snoc) (simp add: entries_def)
    qed
    then show ?thesis using False "1.prems" by (subst dropOld.simps) auto
  qed
qed

lemma entries_update:
  assumes "n < c" "length T = c" "length V = c"
  shows "entries (T[(h + n) mod c := ts]) (V[(h + n) mod c := v]) c h (Suc n) = entries T V c h n @ [(ts, v)]"
proof -
  have "(h + n) mod c \<noteq> (h + i) mod c" if "i < n" for i
  proof
    assume "(h + n) mod c = (h + i) mod c"
    then have "c dvd (h + n) - (h + i)" using that by (subst mod_eq_dvd_iff_nat[symmetric]) auto
    then have "c \<le> n - i" using that by (intro dvd_imp_le) auto
    then show False using assms(1) by simp
  qed
  then show ?thesis using assms unfolding entries_snoc by (auto simp: entries_def entry_def)
qed

lemma ringPush_refines:
  assumes ok: "ring_ok c r"
  shows "ring_ok c (ringPush win ts v r)" "ringItems (ringPush win ts v r) = windowPush c win ts v (ringItems r)"
proof -
  let ?T = "ringT r" and ?V = "ringV r"
  have len: "length ?T = c" "length ?V = c" "0 < c" and h: "ringHead r < c" using ok by (auto simp: ring_ok_def)
  define n1 where "n1 = popBack ?V c (ringHead r) v (ringN r)"
  have n1: "n1 \<le> c" using popBack_le[of ?V c "ringHead r" v "ringN r"] ok by (simp add: n1_def ring_ok_def)
  have e1: "entries ?T ?V c (ringHead r) n1 = popLarger v (ringItems r)"
    unfolding n1_def popBack_items by (simp add: ringItems_def len)
  define h2 where "h2 = (if n1 = c then (ringHead r + 1) mod c else ringHead r)"
  define n2 where "n2 = (if n1 = c then n1 - 1 else n1)"
  have h2: "h2 < c" "n2 < c" using h n1 len by (auto simp: h2_def n2_def)
  have len1: "length (popLarger v (ringItems r)) = n1" using arg_cong[OF e1, of length] by simp
  obtain k where k: "n1 = c \<Longrightarrow> n1 = Suc k" using len(3) by (cases n1) auto
  have e2: "entries ?T ?V c h2 n2 = (if length (popLarger v (ringItems r)) = c then tl (popLarger v (ringItems r)) else popLarger v (ringItems r))"
    unfolding len1 unfolding e1[symmetric] h2_def n2_def using k entries_Cons[OF h, of ?T ?V k] by auto
  let ?i = "(h2 + n2) mod c"
  let ?T' = "?T[?i := ts]" and ?V' = "?V[?i := v]"
  obtain h' n' where d: "dropOld ?T' c win ts h2 (n2 + 1) = (h', n')" by fastforce
  have r': "ringPush win ts v r = \<lparr>ringT = ?T', ringV = ?V', ringHead = h', ringN = n'\<rparr>"
    using d unfolding ringPush_def Let_def len n1_def[symmetric] by (simp add: h2_def n2_def split: if_splits)
  have d': "entries ?T' ?V' c h' n' = dropFront win ts (entries ?T' ?V' c h2 (Suc n2))" "h' < c" "n' \<le> Suc n2"
    using dropOld_items[where T = ?T' and V = ?V' and win = win and ts = ts, OF h2(1), of "n2 + 1"] d by auto
  show "ring_ok c (ringPush win ts v r)" using d' h2 len by (simp add: r' ring_ok_def)
  show "ringItems (ringPush win ts v r) = windowPush c win ts v (ringItems r)"
  proof -
    have "ringItems (ringPush win ts v r) = entries ?T' ?V' c h' n'" unfolding r' by (simp add: ringItems_def len)
    also have "\<dots> = dropFront win ts (entries ?T ?V c h2 n2 @ [(ts, v)])" unfolding d'(1) entries_update[OF h2(2) len(1,2)] ..
    finally show ?thesis unfolding e2 windowPush_def Let_def .
  qed
qed

lemma ringMin_hd: "ring_ok c r \<Longrightarrow> 0 < ringN r \<Longrightarrow> ringMin r = snd (hd (ringItems r))"
  by (cases "ringN r") (auto simp: ringMin_def ringItems_def ring_ok_def entries_Cons entry_def)

lemma ringReset_ok: "ring_ok c r \<Longrightarrow> ring_ok c (ringReset r)" "ringItems (ringReset r) = []"
  by (simp_all add: ring_ok_def ringReset_def ringItems_def entries_def)

lemma emptyRing_ok: "0 < c \<Longrightarrow> ring_ok c (emptyRing c)" "ringItems (emptyRing c) = []"
  by (simp_all add: ring_ok_def emptyRing_def ringItems_def entries_def)

section \<open>The minimum at the head\<close>

text \<open>The samples of the window: those at most \<open>win\<close> older than the newest.\<close>

definition inWindow :: "int \<Rightarrow> int \<Rightarrow> (int \<times> int) list \<Rightarrow> (int \<times> int) list" where
  "inWindow win ts ss = filter (\<lambda>s. ts - fst s \<le> win) ss"

text \<open>What the deque keeps of the samples \<open>ss\<close>: some of those in the window, the newest last, values
  rising, and for every sample of the window one at least as new and at least as small.\<close>

definition keeps :: "int \<Rightarrow> (int \<times> int) list \<Rightarrow> (int \<times> int) list \<Rightarrow> bool" where
  "keeps win ss xs \<longleftrightarrow> (if ss = [] then xs = [] else xs \<noteq> [] \<and> last xs = last ss \<and>
     subseq xs (inWindow win (fst (last ss)) ss) \<and> sorted_wrt (\<lambda>x y. snd x < snd y) xs \<and>
     (\<forall>s \<in> set (inWindow win (fst (last ss)) ss). \<exists>x \<in> set xs. fst s \<le> fst x \<and> snd x \<le> snd s))"

lemma popLarger_prefix: "\<exists>ys. xs = popLarger v xs @ ys \<and> (\<forall>y \<in> set ys. v \<le> snd y)"
proof -
  have "rev xs = takeWhile (\<lambda>x. snd x \<ge> v) (rev xs) @ dropWhile (\<lambda>x. snd x \<ge> v) (rev xs)" by simp
  then have "xs = popLarger v xs @ rev (takeWhile (\<lambda>x. snd x \<ge> v) (rev xs))"
    unfolding popLarger_def by (metis rev_append rev_rev_ident)
  then show ?thesis by (intro exI[of _ "rev (takeWhile (\<lambda>x. snd x \<ge> v) (rev xs))"]) (auto dest: set_takeWhileD)
qed

lemma popLarger_last: "popLarger v xs \<noteq> [] \<Longrightarrow> snd (last (popLarger v xs)) < v"
  unfolding popLarger_def using hd_dropWhile[of "\<lambda>x. snd x \<ge> v" "rev xs"] by (simp add: last_rev not_le)

lemma popLarger_less:
  assumes "sorted_wrt (\<lambda>x y. snd x < snd y) xs" "x \<in> set (popLarger v xs)"
  shows "snd x < v"
proof -
  obtain ys where ys: "xs = popLarger v xs @ ys" using popLarger_prefix by blast
  have ne: "popLarger v xs \<noteq> []" using assms(2) by auto
  have s: "sorted_wrt (\<lambda>x y. snd x < snd y) (popLarger v xs)" using assms(1) ys by (metis sorted_wrt_append)
  obtain zs l where zl: "popLarger v xs = zs @ [l]" using ne by (cases "popLarger v xs" rule: rev_cases) auto
  have "snd l < v" using popLarger_last[OF ne] zl by simp
  moreover have "\<forall>z \<in> set zs. snd z < snd l" using s unfolding zl sorted_wrt_append by simp
  ultimately show ?thesis using assms(2) unfolding zl by auto
qed

lemma dropFront_suffix:
  "xs \<noteq> [] \<Longrightarrow> \<exists>us. xs = us @ dropFront win ts xs \<and> (\<forall>u \<in> set us. ts - fst u > win) \<and> dropFront win ts xs \<noteq> []"
proof (induction win ts xs rule: dropFront.induct)
  case (1 win ts x y xs)
  show ?case
  proof (cases "ts - fst x > win")
    case True
    then obtain us where "y # xs = us @ dropFront win ts (y # xs)" "\<forall>u \<in> set us. ts - fst u > win" "dropFront win ts (y # xs) \<noteq> []"
      using "1.IH" by blast
    then show ?thesis using True by (intro exI[of _ "x # us"]) auto
  qed simp
qed simp_all

lemma dropFront_young:
  "sorted (map fst xs) \<Longrightarrow> xs \<noteq> [] \<Longrightarrow> ts - fst (last xs) \<le> win \<Longrightarrow> \<forall>x \<in> set (dropFront win ts xs). ts - fst x \<le> win"
proof (induction win ts xs rule: dropFront.induct)
  case (1 win ts x y xs)
  then show ?case by (cases "ts - fst x > win") fastforce+
qed auto

definition sparse :: "nat \<Rightarrow> int \<Rightarrow> (int \<times> int) list \<Rightarrow> bool" where
  "sparse c win ss \<longleftrightarrow> (\<forall>i < length ss. length (inWindow win (fst (ss ! i)) (take (Suc i) ss)) < c)"

lemma sorted_subseq: "subseq xs ys \<Longrightarrow> sorted ys \<Longrightarrow> sorted xs"
  by (auto simp: subseq_conv_nths intro: sorted_nths)

lemma keeps_push:
  assumes k: "keeps win ss xs" and srt: "sorted (map fst (ss @ [(ts, v)]))" and win: "0 \<le> win"
    and room: "ss \<noteq> [] \<Longrightarrow> length (inWindow win (fst (last ss)) ss) < c"
  shows "keeps win (ss @ [(ts, v)]) (windowPush c win ts v xs)"
proof (cases "ss = []")
  case True
  then show ?thesis using k win by (simp add: keeps_def windowPush_def popLarger_def inWindow_def Let_def)
next
  case False
  let ?ys = "popLarger v xs" and ?zs = "popLarger v xs @ [(ts, v)]" and ?P = "\<lambda>s. ts - fst s \<le> win"
  from k False have x: "subseq xs (inWindow win (fst (last ss)) ss)" "sorted_wrt (\<lambda>x y. snd x < snd y) xs"
    "\<forall>s \<in> set (inWindow win (fst (last ss)) ss). \<exists>x \<in> set xs. fst s \<le> fst x \<and> snd x \<le> snd s" by (simp_all add: keeps_def)
  obtain ps where ps: "xs = ?ys @ ps" "\<forall>y \<in> set ps. v \<le> snd y" using popLarger_prefix by blast
  have "length ?ys \<le> length xs" using arg_cong[OF ps(1), of length] by simp
  then have "length ?ys < c" using list_emb_length[OF x(1)] room[OF False] by simp
  then have W: "windowPush c win ts v xs = dropFront win ts ?zs" by (simp add: windowPush_def)
  define w where "w = dropFront win ts ?zs"
  obtain us where us: "?zs = us @ w" "\<forall>u \<in> set us. ts - fst u > win" "w \<noteq> []"
    using dropFront_suffix[of ?zs win ts] by (auto simp: w_def)
  have sub: "subseq ?zs (ss @ [(ts, v)])"
  proof (rule list_emb_append_mono)
    have "subseq ?ys xs" by (metis ps(1) prefix_def prefix_imp_subseq)
    also have "subseq xs ss" using x(1) by (metis inWindow_def subseq_filter_left subseq_order.order_trans)
    finally show "subseq ?ys ss" .
  qed simp
  have sz: "sorted (map fst ?zs)" using subseq_map[OF sub, of fst] srt by (rule sorted_subseq)
  have young: "\<forall>x \<in> set w. ?P x" unfolding w_def by (rule dropFront_young[OF sz]) (use win in simp_all)
  have "subseq w ?zs" unfolding us(1) by (rule list_emb_append2) simp
  then have "subseq w (ss @ [(ts, v)])" using sub by (rule subseq_order.order_trans)
  then have "subseq (filter ?P w) (filter ?P (ss @ [(ts, v)]))" by (rule subseq_filter)
  then have s1: "subseq w (inWindow win ts (ss @ [(ts, v)]))" using young by (simp add: inWindow_def filter_id_conv)
  have "sorted_wrt (\<lambda>x y. snd x < snd y) ?zs"
  proof -
    have "sorted_wrt (\<lambda>x y. snd x < snd y) (?ys @ ps)" using x(2) unfolding ps(1)[symmetric] .
    then show ?thesis unfolding sorted_wrt_append using popLarger_less[OF x(2), of _ v] by simp
  qed
  then have s2: "sorted_wrt (\<lambda>x y. snd x < snd y) w" unfolding us(1) sorted_wrt_append by blast
  have l: "last w = (ts, v)" using arg_cong[OF us(1), of last] us(3) by simp
  have dom: "\<exists>x \<in> set w. fst s \<le> fst x \<and> snd x \<le> snd s" if s: "s \<in> set (inWindow win ts (ss @ [(ts, v)]))" for s
  proof -
    have new: "(ts, v) \<in> set w" using l us(3) by (metis last_in_set)
    have sin: "s \<in> set ss \<or> s = (ts, v)" "ts - fst s \<le> win" using s unfolding inWindow_def set_filter by auto
    then have le: "fst s \<le> ts" using srt by (auto simp: sorted_append)
    show ?thesis
    proof (cases "s = (ts, v)")
      case False
      moreover have "fst (last ss) \<le> ts" using srt \<open>ss \<noteq> []\<close> last_in_set[of ss] by (auto simp: sorted_append)
      ultimately have "s \<in> set (inWindow win (fst (last ss)) ss)" using sin by (auto simp: inWindow_def)
      then obtain x where x: "x \<in> set xs" "fst s \<le> fst x" "snd x \<le> snd s" using x(3) by blast
      show ?thesis
      proof (cases "x \<in> set ps")
        case True
        then show ?thesis using new ps(2) x(3) le by (intro bexI[of _ "(ts, v)"]) auto
      next
        case False
        then have "x \<in> set ?zs" using x(1) unfolding arg_cong[OF ps(1), of set] by simp
        moreover have "x \<notin> set us" using us(2) sin(2) x(2) by fastforce
        ultimately have "x \<in> set w" unfolding us(1) by simp
        then show ?thesis using x(2,3) by blast
      qed
    qed (use new in \<open>auto intro!: bexI[of _ "(ts, v)"]\<close>)
  qed
  show ?thesis unfolding W w_def[symmetric] keeps_def using us(3) l s1 s2 dom by simp
qed

lemma keeps_min:
  assumes "keeps win ss xs" "ss \<noteq> []"
  shows "xs \<noteq> [] \<and> snd (hd xs) = Min (snd ` set (inWindow win (fst (last ss)) ss))"
proof -
  let ?W = "inWindow win (fst (last ss)) ss"
  have k: "xs \<noteq> []" "subseq xs ?W" "sorted_wrt (\<lambda>x y. snd x < snd y) xs"
    "\<forall>s \<in> set ?W. \<exists>x \<in> set xs. fst s \<le> fst x \<and> snd x \<le> snd s" using assms by (simp_all add: keeps_def)
  have small: "snd (hd xs) \<le> snd x" if "x \<in> set xs" for x using k(1,3) that by (cases xs) auto
  have "hd xs \<in> set ?W" using hd_in_set[OF k(1)] k(2) by (auto simp: subseq_conv_nths dest: in_set_nthsD)
  moreover have "snd (hd xs) \<le> snd s" if "s \<in> set ?W" for s using k(4) that small by (meson order_trans)
  ultimately have "Min (snd ` set ?W) = snd (hd xs)" by (intro Min_eqI) auto
  then show ?thesis using k(1) by simp
qed

lemma sparse_snoc: "sparse c win (ss @ [s]) \<Longrightarrow> sparse c win ss"
  unfolding sparse_def
proof (intro allI impI)
  fix i assume "i < length ss" "\<forall>i<length (ss @ [s]). length (inWindow win (fst ((ss @ [s]) ! i)) (take (Suc i) (ss @ [s]))) < c"
  from this(1) this(2)[rule_format, of i] show "length (inWindow win (fst (ss ! i)) (take (Suc i) ss)) < c" by (simp add: nth_append)
qed

lemma sparse_last: "sparse c win ss \<Longrightarrow> ss \<noteq> [] \<Longrightarrow> length (inWindow win (fst (last ss)) ss) < c"
  unfolding sparse_def by (drule spec[of _ "length ss - 1"]) (auto simp: last_conv_nth)

section \<open>The interface\<close>

text \<open>What a client relies on: a store of entries whose \<open>push\<close> acts on its entries as \<open>windowPush\<close>.\<close>

locale min_window =
  fixes push :: "int \<Rightarrow> int \<Rightarrow> 's \<Rightarrow> 's"
    and items :: "'s \<Rightarrow> (int \<times> int) list"
    and ok :: "'s \<Rightarrow> bool"
    and cap :: nat
    and win :: int
  assumes ok_push: "ok s \<Longrightarrow> ok (push ts v s)"
    and items_push: "ok s \<Longrightarrow> items (push ts v s) = windowPush cap win ts v (items s)"
begin

lemma feed_keeps:
  assumes "ok s" "keeps win pre (items s)" "sorted (map fst (pre @ ss))" "0 \<le> win" "sparse cap win (pre @ ss)"
  shows "ok (foldl (\<lambda>s (ts, v). push ts v s) s ss) \<and> keeps win (pre @ ss) (items (foldl (\<lambda>s (ts, v). push ts v s) s ss))"
  using assms(3,5)
proof (induction ss rule: rev_induct)
  case Nil
  then show ?case using assms(1,2) by simp
next
  case (snoc x ss)
  obtain ts v where x: "x = (ts, v)" by fastforce
  have sp: "sparse cap win (pre @ ss)" using snoc.prems(2) sparse_snoc[of cap win "pre @ ss" x] by simp
  have IH: "ok (foldl (\<lambda>s (ts, v). push ts v s) s ss)" "keeps win (pre @ ss) (items (foldl (\<lambda>s (ts, v). push ts v s) s ss))"
    using snoc.IH[OF _ sp] snoc.prems(1) by (simp_all add: sorted_append)
  have "keeps win ((pre @ ss) @ [(ts, v)]) (windowPush cap win ts v (items (foldl (\<lambda>s (ts, v). push ts v s) s ss)))"
    using snoc.prems(1) x assms(4) sparse_last[OF sp] by (intro keeps_push[OF IH(2)]) simp_all
  then show ?case using IH(1) x by (simp add: ok_push items_push)
qed

lemma feed_min:
  assumes "ok s" "items s = []" "sorted (map fst ss)" "0 \<le> win" "sparse cap win ss" "ss \<noteq> []"
  shows "ok (foldl (\<lambda>s (ts, v). push ts v s) s ss) \<and> items (foldl (\<lambda>s (ts, v). push ts v s) s ss) \<noteq> [] \<and>
    snd (hd (items (foldl (\<lambda>s (ts, v). push ts v s) s ss))) = Min (snd ` set (inWindow win (fst (last ss)) ss))"
proof -
  have "keeps win [] (items s)" using assms(2) by (simp add: keeps_def)
  from feed_keeps[OF assms(1) this, of ss] assms(3-5)
  have r: "ok (foldl (\<lambda>s (ts, v). push ts v s) s ss)" "keeps win ss (items (foldl (\<lambda>s (ts, v). push ts v s) s ss))" by simp_all
  show ?thesis using r(1) keeps_min[OF r(2) assms(6)] by blast
qed

end

interpretation ring: min_window "ringPush win" ringItems "ring_ok c" c win for c win
  by unfold_locales (rule ringPush_refines(1), assumption, rule ringPush_refines(2), assumption)

end
