(* ===== verification/MemBrake.thy ===== *)
theory MemBrake
  imports Complex_Main Prelude MinWindow "HOL-Library.Word"
begin

text \<open>
  The memory brake of \<open>internal/membrake/brake.go\<close>: the watchdog that kills every local model
  server when file-backed memory runs up, and the gate that then holds back loads until the file
  cache has drained.

  A sample is one call of \<open>observe\<close>: its time in Unix nanoseconds, its reading, and what the machine
  answers while it runs (\<open>BrakeEnv\<close>: the live children, which process groups are alive, which run
  the Splash engine, the reading after an eviction, the shards found on disk). What the brake does
  is a list of \<open>BrakeAction\<close>s. Log and marker texts are not modelled. Byte counts are integers;
  configured gigabytes and reported ones are rationals for \<open>float64\<close>.
\<close>

section \<open>Constants\<close>

definition gib :: int where "gib = 2 ^ 30"
definition killExitWait :: duration where "killExitWait = 30 * Second"
definition reEvictEvery :: duration where "reEvictEvery = 15 * Second"
definition drainSettle :: duration where "drainSettle = 60 * Second"
definition holdLogEvery :: duration where "holdLogEvery = 5 * Minute"
definition purgeTimeout :: duration where "purgeTimeout = 10 * Minute"
definition quietBackoffReset :: duration where "quietBackoffReset = 30 * Minute"
definition maxQuietWindow :: duration where "maxQuietWindow = 60 * Minute"
definition splashReprobe :: duration where "splashReprobe = 30 * Second"

section \<open>Data\<close>

record Reading =
  Wired :: int
  FileBacked :: int
  SwapUsed :: int

definition metric :: "Reading \<Rightarrow> int" where
  "metric r = FileBacked r"

record LiveChild =
  lc_ID :: string
  lc_Pgid :: int
  lc_Files :: "string list"

record BrakeEvent =
  be_At :: gotime
  be_GrowthGB :: rat
  be_FileGB :: rat
  be_WindowMinGB :: rat
  be_WindowSpanS :: int
  be_WiredGB :: rat
  be_SwapGB :: rat
  be_Killed :: "(string \<times> int) list"

text \<open>\<open>released\<close> is the identity of the channel parked loads wait on, \<open>closedChans\<close> the channels closed
  so far.\<close>

record Hold =
  holding :: bool
  hFileBacked :: int
  hDrainBelow :: int
  lastEvent :: "BrakeEvent option"
  released :: "nat option"
  chansMade :: nat
  closedChans :: "nat list"

record MemoryBrakeConfig =
  SampleIntervalMs :: int
  WindowMinutes :: int
  GrowthGB :: rat
  ArmAfterMinutes :: int
  ConfirmSamples :: int
  DrainBelowGB :: rat
  SplashGrowthGB :: rat
  PurgeAfterMinutes :: int
  HoldStatePath :: string

record postKill =
  postActive :: bool
  killedAt :: gotime
  pgids :: "int list"
  evicted :: bool
  lastEvict :: gotime
  belowSince :: gotime
  lastLog :: gotime
  lastRiseAt :: gotime
  evictedAt :: gotime

datatype BrakeAction = Kill int | Evict string | Tripped gotime | GateReleased gotime | PurgeStart gotime | PurgeStuck gotime

record BrakeEnv =
  envKids :: "LiveChild list"
  envLoading :: bool
  envAlive :: "int \<Rightarrow> bool"
  envSplash :: "int \<Rightarrow> bool"
  envResample :: "int option"
  envGlob :: "string \<Rightarrow> string list"

text \<open>\<open>holdFile\<close> is the content of the hold-state file, the Unix seconds of the kill.\<close>

record Brake =
  bcfg :: MemoryBrakeConfig
  hold :: Hold
  window :: duration
  armAfter :: duration
  threshold :: int
  drainBelow :: int
  splashThreshold :: int
  splashKnown :: "int list"
  splashNegAt :: "(int, gotime) gomap"
  effThreshold :: int
  files :: "string list"
  post :: postKill
  purging :: bool
  lastPurgeAttempt :: gotime
  purgeStartedAt :: gotime
  lastStuckReport :: gotime
  lastReleaseAt :: gotime
  backoff :: nat
  quietRing :: ring
  tripRing :: ring
  winStart :: gotime
  consec :: int
  lastDisarm :: gotime
  lastGrowth :: int
  started :: bool
  holdFile :: "int option"
  acts :: "BrakeAction list"

section \<open>The admission gate\<close>

definition newHold :: Hold where
  "newHold = \<lparr>holding = False, hFileBacked = 0, hDrainBelow = 0, lastEvent = None, released = None,
     chansMade = 0, closedChans = []\<rparr>"

definition HoldSet :: "BrakeEvent \<Rightarrow> int \<Rightarrow> Hold \<Rightarrow> Hold" where
  "HoldSet ev level h =
     (let h1 = h\<lparr>lastEvent := Some ev, hDrainBelow := level\<rparr> in
      if \<not> holding h1 then h1\<lparr>released := Some (chansMade h1), chansMade := chansMade h1 + 1, holding := True\<rparr> else h1)"

definition HoldRecord :: "BrakeEvent \<Rightarrow> Hold \<Rightarrow> Hold" where
  "HoldRecord ev h = h\<lparr>lastEvent := Some ev\<rparr>"

definition HoldRelease :: "Hold \<Rightarrow> Hold" where
  "HoldRelease h =
     (if holding h then h\<lparr>closedChans := (case released h of Some ch \<Rightarrow> ch # closedChans h | None \<Rightarrow> closedChans h),
        released := None, holding := False\<rparr> else h)"

text \<open>\<open>Wait\<close> takes the channel when it is called; later it returns without error once that channel is
  closed, or at once when there was none.\<close>

definition WaitOn :: "Hold \<Rightarrow> nat option" where
  "WaitOn h = released h"

definition WaitPasses :: "nat option \<Rightarrow> Hold \<Rightarrow> bool" where
  "WaitPasses ch h = (case ch of None \<Rightarrow> True | Some c \<Rightarrow> c \<in> set (closedChans h))"

section \<open>Files to evict\<close>

definition isDigit :: "char \<Rightarrow> bool" where
  "isDigit c = (c \<in> set ''0123456789'')"

text \<open>\<open>^(.*)-(\d{5})-of-(\d{5})\.gguf$\<close>: the prefix and the number of shards.\<close>

definition splitGGUF :: "string \<Rightarrow> (string \<times> string) option" where
  "splitGGUF f =
     (let n = length f - 20; pre = take n f; suf = drop n f;
          d1 = take 5 (drop 1 suf); d2 = take 5 (drop 10 suf)
      in if 20 \<le> length f \<and> suf = ''-'' @ d1 @ ''-of-'' @ d2 @ ''.gguf'' \<and> list_all isDigit d1 \<and> list_all isDigit d2
           \<and> CHR 10 \<notin> set pre
         then Some (pre, d2) else None)"

definition addPath :: "string list \<Rightarrow> string \<Rightarrow> string list" where
  "addPath out p = (if p \<in> set out then out else out @ [p])"

definition expandSplits :: "(string \<Rightarrow> string list) \<Rightarrow> string list \<Rightarrow> string list" where
  "expandSplits glob fs =
     sort (foldl (\<lambda>out f. let out = addPath out f in
        case splitGGUF f of None \<Rightarrow> out
        | Some (pre, k) \<Rightarrow> foldl addPath out (glob (pre @ ''-[0-9][0-9][0-9][0-9][0-9]-of-'' @ k @ ''.gguf''))) [] fs)"

section \<open>Quiet window and rises\<close>

definition shl64 :: "int \<Rightarrow> nat \<Rightarrow> int" where
  "shl64 x k = sint (push_bit k (word_of_int x :: 64 word))"

definition quietWindow :: "Brake \<Rightarrow> duration" where
  "quietWindow b = (let w = shl64 (window b) (backoff b) in if w > maxQuietWindow \<or> w \<le> 0 then maxQuietWindow else w)"

definition quietSatisfied :: "Brake \<Rightarrow> gotime \<Rightarrow> bool" where
  "quietSatisfied b ts = (lastRiseAt (post b) = 0 \<or> ts - lastRiseAt (post b) \<ge> quietWindow b)"

definition trackRise :: "gotime \<Rightarrow> int \<Rightarrow> Brake \<Rightarrow> Brake" where
  "trackRise ts v b =
     (let b1 = b\<lparr>quietRing := ringPush (quietWindow b) ts v (quietRing b)\<rparr> in
      if v - ringMin (quietRing b1) \<ge> threshold b then b1\<lparr>post := (post b1)\<lparr>lastRiseAt := ts\<rparr>\<rparr> else b1)"

definition act :: "BrakeAction \<Rightarrow> Brake \<Rightarrow> Brake" where
  "act a b = b\<lparr>acts := acts b @ [a]\<rparr>"

section \<open>Eviction, purge and release\<close>

definition evictAll :: "BrakeEnv \<Rightarrow> Brake \<Rightarrow> Brake" where
  "evictAll env b =
     (let b1 = b\<lparr>acts := acts b @ map Evict (expandSplits (envGlob env) (files b))\<rparr> in
      case envResample env of Some v \<Rightarrow> b1\<lparr>hold := (hold b1)\<lparr>hFileBacked := v\<rparr>\<rparr> | None \<Rightarrow> b1)"

definition holdLog :: "gotime \<Rightarrow> Brake \<Rightarrow> Brake" where
  "holdLog ts b = (if ts - lastLog (post b) < holdLogEvery then b else b\<lparr>post := (post b)\<lparr>lastLog := ts\<rparr>\<rparr>)"

definition reportStuck :: "gotime \<Rightarrow> Brake \<Rightarrow> Brake" where
  "reportStuck ts b = act (PurgeStuck ts) (b\<lparr>lastStuckReport := ts\<rparr>)"

definition startPurge :: "gotime \<Rightarrow> Brake \<Rightarrow> Brake" where
  "startPurge ts b = act (PurgeStart ts) (b\<lparr>purging := True, lastPurgeAttempt := ts, purgeStartedAt := ts\<rparr>)"

definition maybePurge :: "gotime \<Rightarrow> Brake \<Rightarrow> Brake" where
  "maybePurge ts b =
     (if PurgeAfterMinutes (bcfg b) \<le> 0 then b
      else let interval = PurgeAfterMinutes (bcfg b) * Minute;
               lst = (if lastStuckReport b > lastPurgeAttempt b then lastStuckReport b else lastPurgeAttempt b)
           in if ts - lst < interval then b
              else if purging b then reportStuck ts b
              else startPurge ts b)"

text \<open>What the purge goroutine reports later: the timeout, and the return of the command.\<close>

datatype PurgeResult = PurgeOK | PurgeFailed | PurgeStillRunning

definition purgeTimedOut :: "gotime \<Rightarrow> Brake \<Rightarrow> Brake" where
  "purgeTimedOut ts b = (if purging b then reportStuck ts b else b)"

definition purgeReturned :: "gotime \<Rightarrow> PurgeResult \<Rightarrow> Brake \<Rightarrow> Brake" where
  "purgeReturned ts res b = (if res = PurgeStillRunning then reportStuck ts b else b)\<lparr>purging := False\<rparr>"

definition removeHoldState :: "Brake \<Rightarrow> Brake" where
  "removeHoldState b = (if HoldStatePath (bcfg b) \<noteq> [] then b\<lparr>holdFile := None\<rparr> else b)"

definition writeHoldState :: "gotime \<Rightarrow> Brake \<Rightarrow> Brake" where
  "writeHoldState ts b = (if HoldStatePath (bcfg b) = [] then b else b\<lparr>holdFile := Some (ts div Second)\<rparr>)"

definition releaseAfterDrain :: "gotime \<Rightarrow> Brake \<Rightarrow> Brake" where
  "releaseAfterDrain ts b =
     (let b1 = b\<lparr>post := (post b)\<lparr>postActive := False\<rparr>\<rparr> in
      if \<not> holding (hold b1) then b1
      else act (GateReleased ts) (removeHoldState (b1\<lparr>hold := HoldRelease (hold b1), lastReleaseAt := ts\<rparr>)))"

definition drain :: "gotime \<Rightarrow> Reading \<Rightarrow> BrakeEnv \<Rightarrow> Brake \<Rightarrow> Brake" where
  "drain ts r env b =
     (if \<not> evicted (post b) then
        if ts - killedAt (post b) < killExitWait \<and> list_ex (envAlive env) (pgids (post b)) then b
        else let b1 = evictAll env b;
                 b2 = b1\<lparr>post := (post b1)\<lparr>evicted := True, lastEvict := ts, lastLog := ts, evictedAt := ts\<rparr>\<rparr>
             in trackRise ts (metric r) b2
      else
        let b1 = trackRise ts (metric r) b in
        if metric r < drainBelow b1 \<or> drainBelow b1 = 0 then
          let b2 = (if belowSince (post b1) = 0 then b1\<lparr>post := (post b1)\<lparr>belowSince := ts\<rparr>\<rparr> else b1) in
          if drainBelow b2 = 0 \<or> ts - belowSince (post b2) \<ge> drainSettle \<and> quietSatisfied b2 ts
          then releaseAfterDrain ts b2
          else holdLog ts b2
        else
          let b2 = b1\<lparr>post := (post b1)\<lparr>belowSince := 0\<rparr>\<rparr>;
              b3 = (if ts - lastEvict (post b2) \<ge> reEvictEvery
                    then (let b' = evictAll env b2 in b'\<lparr>post := (post b')\<lparr>lastEvict := ts\<rparr>\<rparr>) else b2)
          in holdLog ts (maybePurge ts b3))"

section \<open>Detection\<close>

definition resetWindow :: "gotime \<Rightarrow> Brake \<Rightarrow> Brake" where
  "resetWindow now b = b\<lparr>tripRing := ringReset (tripRing b), consec := 0, winStart := now, lastDisarm := now\<rparr>"

definition push :: "gotime \<Rightarrow> int \<Rightarrow> Brake \<Rightarrow> Brake" where
  "push ts v b = b\<lparr>tripRing := ringPush (window b) ts v (tripRing b)\<rparr>"

fun splashProbe :: "(int \<Rightarrow> bool) \<Rightarrow> gotime \<Rightarrow> int list \<Rightarrow> (int, gotime) gomap \<Rightarrow> int list \<Rightarrow> bool \<times> int list \<times> (int, gotime) gomap" where
  "splashProbe probe now known neg [] = (True, known, neg)"
| "splashProbe probe now known neg (g # gs) =
     (if g \<in> set known then splashProbe probe now known neg gs
      else if (case map_of neg g of Some t \<Rightarrow> now - t < splashReprobe | None \<Rightarrow> False) then (False, known, neg)
      else if probe g then splashProbe probe now (g # known) (mdel g neg) gs
      else (False, known, mput g now neg))"

definition thresholdFor :: "BrakeEnv \<Rightarrow> gotime \<Rightarrow> Brake \<Rightarrow> int \<times> Brake" where
  "thresholdFor env now b =
     (if splashThreshold b \<le> 0 \<or> envKids env = [] then (threshold b, b)
      else case splashProbe (envSplash env) now (splashKnown b) (splashNegAt b) (map lc_Pgid (envKids env)) of
        (allSplash, known, neg) \<Rightarrow> (if allSplash then splashThreshold b else threshold b, b\<lparr>splashKnown := known, splashNegAt := neg\<rparr>))"

definition gotrunc :: "rat \<Rightarrow> int" where
  "gotrunc q = (if q < 0 then \<lceil>q\<rceil> else \<lfloor>q\<rfloor>)"

definition round2 :: "rat \<Rightarrow> rat" where
  "round2 q = of_int (gotrunc (q * 100 + 1 / 2)) / 100"

definition toGB :: "int \<Rightarrow> rat" where
  "toGB v = round2 (of_int v / of_int gib)"

definition tripEvent :: "gotime \<Rightarrow> Reading \<Rightarrow> LiveChild list \<Rightarrow> int \<Rightarrow> int \<Rightarrow> duration \<Rightarrow> BrakeEvent" where
  "tripEvent ts r kids growth windowMin spanned =
     \<lparr>be_At = ts, be_GrowthGB = toGB growth, be_FileGB = toGB (FileBacked r), be_WindowMinGB = toGB windowMin,
      be_WindowSpanS = spanned div Second, be_WiredGB = toGB (Wired r), be_SwapGB = toGB (SwapUsed r),
      be_Killed = map (\<lambda>c. (lc_ID c, lc_Pgid c)) kids\<rparr>"

definition nextBackoff :: "gotime \<Rightarrow> Brake \<Rightarrow> nat" where
  "nextBackoff ts b =
     (if lastReleaseAt b \<noteq> 0 then
        if ts - lastReleaseAt b < quietBackoffReset then
          (if shl64 (window b) (backoff b) < maxQuietWindow then backoff b + 1 else backoff b)
        else 0
      else backoff b)"

definition trip :: "gotime \<Rightarrow> Reading \<Rightarrow> LiveChild list \<Rightarrow> int \<Rightarrow> int \<Rightarrow> duration \<Rightarrow> Brake \<Rightarrow> Brake" where
  "trip ts r kids growth windowMin spanned b =
     (let b1 = b\<lparr>acts := acts b @ map (\<lambda>c. Kill (lc_Pgid c)) kids\<rparr>;
          ev = tripEvent ts r kids growth windowMin spanned;
          b2 = (if drainBelow b1 > 0 then writeHoldState ts (b1\<lparr>hold := HoldSet ev (drainBelow b1) (hold b1)\<rparr>)
                else b1\<lparr>hold := HoldRecord ev (hold b1)\<rparr>);
          b3 = b2\<lparr>backoff := nextBackoff ts b2\<rparr>;
          b4 = b3\<lparr>post := \<lparr>postActive = True, killedAt = ts, pgids = map lc_Pgid kids, evicted = False, lastEvict = 0,
                   belowSince = 0, lastLog = 0, lastRiseAt = 0, evictedAt = 0\<rparr>,
                   quietRing := ringReset (quietRing b3), lastPurgeAttempt := ts, lastStuckReport := 0\<rparr>
      in act (Tripped ts) b4)"

text \<open>\<open>observe\<close> up to the new entry in the deque (\<open>observeSample\<close>), and the decision.\<close>

definition needsReset :: "BrakeEnv \<Rightarrow> Brake \<Rightarrow> bool" where
  "needsReset env b = (\<not> started b \<or> envLoading env \<or> envKids env = [])"

definition observeSample :: "gotime \<Rightarrow> Reading \<Rightarrow> BrakeEnv \<Rightarrow> Brake \<Rightarrow> Brake" where
  "observeSample ts r env b0 =
     (let b1 = b0\<lparr>hold := (hold b0)\<lparr>hFileBacked := metric r\<rparr>,
                  files := foldl addPath (files b0) (concat (map lc_Files (envKids env)))\<rparr>;
          b2 = (if postActive (post b1) then drain ts r env b1 else b1);
          b3 = (if needsReset env b2 then resetWindow ts (b2\<lparr>started := True\<rparr>) else b2)
      in push ts (metric r) b3)"

definition observe :: "gotime \<Rightarrow> Reading \<Rightarrow> BrakeEnv \<Rightarrow> Brake \<Rightarrow> Brake \<times> bool" where
  "observe ts r env b0 =
     (let b5 = (observeSample ts r env b0)\<lparr>lastGrowth := -1\<rparr> in
      if \<not> ts - lastDisarm b5 \<ge> armAfter b5 then (b5\<lparr>consec := 0\<rparr>, False)
      else let lo = ringMin (tripRing b5);
               growth = metric r - lo;
               (thr, b6) = thresholdFor env ts (b5\<lparr>lastGrowth := growth\<rparr>);
               b7 = b6\<lparr>effThreshold := thr\<rparr>
           in if growth < thr then (b7\<lparr>consec := 0\<rparr>, False)
              else let b8 = b7\<lparr>consec := consec b7 + 1\<rparr> in
                if consec b8 < ConfirmSamples (bcfg b8) then (b8, False)
                else let spanned = (if ts - winStart b8 > window b8 then window b8 else ts - winStart b8)
                     in (resetWindow ts (trip ts r (envKids env) growth lo spanned b8), True))"

text \<open>\<open>Step\<close>: a failed sample does nothing.\<close>

definition StepBrake :: "gotime \<Rightarrow> Reading option \<Rightarrow> BrakeEnv \<Rightarrow> Brake \<Rightarrow> Brake \<times> bool" where
  "StepBrake ts r env b = (case r of None \<Rightarrow> (b, False) | Some r \<Rightarrow> observe ts r env b)"

section \<open>Construction and restart\<close>

definition loadHoldState :: "gotime \<Rightarrow> int option option \<Rightarrow> Brake \<Rightarrow> Brake" where
  "loadHoldState now file b =
     (if HoldStatePath (bcfg b) = [] then b
      else if drainBelow b \<le> 0 then b\<lparr>holdFile := None\<rparr>
      else case file of
        None \<Rightarrow> b
      | Some parsed \<Rightarrow>
          (let secs = (case parsed of Some s \<Rightarrow> s | None \<Rightarrow> now div Second);
               ev = \<lparr>be_At = secs * Second, be_GrowthGB = 0, be_FileGB = 0, be_WindowMinGB = 0, be_WindowSpanS = 0,
                     be_WiredGB = 0, be_SwapGB = 0, be_Killed = []\<rparr>
           in b\<lparr>hold := HoldSet ev (drainBelow b) (hold b),
                post := \<lparr>postActive = True, killedAt = secs * Second, pgids = [], evicted = True, lastEvict = 0,
                   belowSince = 0, lastLog = 0, lastRiseAt = 0, evictedAt = 0\<rparr>,
                lastPurgeAttempt := secs * Second\<rparr>))"

text \<open>\<open>file\<close> is what the hold-state file holds: nothing, text that is no number, or a number.\<close>

definition NewBrake :: "MemoryBrakeConfig \<Rightarrow> Hold \<Rightarrow> gotime \<Rightarrow> int option option \<Rightarrow> Brake" where
  "NewBrake cfg h now file =
     (let interval = SampleIntervalMs cfg * 1000000;
          win = WindowMinutes cfg * Minute;
          emptyPost = \<lparr>postActive = False, killedAt = 0, pgids = [], evicted = False, lastEvict = 0,
            belowSince = 0, lastLog = 0, lastRiseAt = 0, evictedAt = 0\<rparr>
      in loadHoldState now file
        \<lparr>bcfg = cfg, hold = h, window = win, armAfter = ArmAfterMinutes cfg * Minute,
         threshold = gotrunc (GrowthGB cfg * of_int gib), drainBelow = gotrunc (DrainBelowGB cfg * of_int gib),
         splashThreshold = gotrunc (SplashGrowthGB cfg * of_int gib), splashKnown = [], splashNegAt = [],
         effThreshold = 0, files = [], post = emptyPost, purging = False, lastPurgeAttempt = 0, purgeStartedAt = 0,
         lastStuckReport = 0, lastReleaseAt = 0, backoff = 0,
         quietRing = emptyRing (nat (maxQuietWindow div interval) + 8), tripRing = emptyRing (nat (win div interval) + 8),
         winStart = 0, consec = 0, lastDisarm = 0, lastGrowth = 0, started = False,
         holdFile = (case file of Some (Some s) \<Rightarrow> Some s | _ \<Rightarrow> None), acts = []\<rparr>)"

end
