(* ===== verification/BrakeSafety.thy ===== *)
theory BrakeSafety
  imports MemBrake
begin

text \<open>
  What the memory brake guarantees. A run of the brake is followed with a ghost record of the samples
  it has seen (\<open>Ghost\<close>): all of them, those since the trip window was last reset, and those fed to
  the quiet-window ring since the last kill. The reachable brakes (\<open>breach\<close>) take samples at least
  the configured interval apart and the reports of the purge goroutine in between.
\<close>

section \<open>Frames\<close>

named_theorems brake_frame \<open>fields an operation of the brake leaves alone\<close>

lemma evictAll_frame [simp, brake_frame]:
  "splashKnown (evictAll env b) = splashKnown b" "splashNegAt (evictAll env b) = splashNegAt b"
  "tripRing (evictAll env b) = tripRing b" "consec (evictAll env b) = consec b" "started (evictAll env b) = started b"
  "lastDisarm (evictAll env b) = lastDisarm b" "window (evictAll env b) = window b" "bcfg (evictAll env b) = bcfg b"
  "threshold (evictAll env b) = threshold b" "armAfter (evictAll env b) = armAfter b" "drainBelow (evictAll env b) = drainBelow b"
  "backoff (evictAll env b) = backoff b" "quietRing (evictAll env b) = quietRing b" "post (evictAll env b) = post b"
  "purging (evictAll env b) = purging b" "lastPurgeAttempt (evictAll env b) = lastPurgeAttempt b"
  "splashThreshold (evictAll env b) = splashThreshold b" "holding (hold (evictAll env b)) = holding (hold b)"
  "lastReleaseAt (evictAll env b) = lastReleaseAt b"
  by (simp_all add: evictAll_def Let_def split: option.split)

lemma trackRise_frame [simp, brake_frame]:
  "splashKnown (trackRise ts v b) = splashKnown b" "splashNegAt (trackRise ts v b) = splashNegAt b"
  "tripRing (trackRise ts v b) = tripRing b" "consec (trackRise ts v b) = consec b" "started (trackRise ts v b) = started b"
  "lastDisarm (trackRise ts v b) = lastDisarm b" "window (trackRise ts v b) = window b" "bcfg (trackRise ts v b) = bcfg b"
  "threshold (trackRise ts v b) = threshold b" "armAfter (trackRise ts v b) = armAfter b" "drainBelow (trackRise ts v b) = drainBelow b"
  "backoff (trackRise ts v b) = backoff b" "purging (trackRise ts v b) = purging b"
  "lastPurgeAttempt (trackRise ts v b) = lastPurgeAttempt b" "splashThreshold (trackRise ts v b) = splashThreshold b"
  "hold (trackRise ts v b) = hold b" "acts (trackRise ts v b) = acts b" "lastReleaseAt (trackRise ts v b) = lastReleaseAt b"
  "evicted (post (trackRise ts v b)) = evicted (post b)" "belowSince (post (trackRise ts v b)) = belowSince (post b)"
  "lastEvict (post (trackRise ts v b)) = lastEvict (post b)" "postActive (post (trackRise ts v b)) = postActive (post b)"
  "quietRing (trackRise ts v b) = ringPush (quietWindow b) ts v (quietRing b)"
  by (simp_all add: trackRise_def Let_def)

lemma holdLog_frame [simp, brake_frame]:
  "splashKnown (holdLog ts b) = splashKnown b" "splashNegAt (holdLog ts b) = splashNegAt b"
  "tripRing (holdLog ts b) = tripRing b" "consec (holdLog ts b) = consec b" "started (holdLog ts b) = started b"
  "lastDisarm (holdLog ts b) = lastDisarm b" "window (holdLog ts b) = window b" "bcfg (holdLog ts b) = bcfg b"
  "threshold (holdLog ts b) = threshold b" "armAfter (holdLog ts b) = armAfter b" "drainBelow (holdLog ts b) = drainBelow b"
  "backoff (holdLog ts b) = backoff b" "purging (holdLog ts b) = purging b" "lastPurgeAttempt (holdLog ts b) = lastPurgeAttempt b"
  "splashThreshold (holdLog ts b) = splashThreshold b" "hold (holdLog ts b) = hold b" "acts (holdLog ts b) = acts b"
  "lastReleaseAt (holdLog ts b) = lastReleaseAt b" "quietRing (holdLog ts b) = quietRing b"
  "evicted (post (holdLog ts b)) = evicted (post b)" "belowSince (post (holdLog ts b)) = belowSince (post b)"
  "lastRiseAt (post (holdLog ts b)) = lastRiseAt (post b)" "postActive (post (holdLog ts b)) = postActive (post b)"
  by (simp_all add: holdLog_def)

lemma maybePurge_frame [simp, brake_frame]:
  "splashKnown (maybePurge ts b) = splashKnown b" "splashNegAt (maybePurge ts b) = splashNegAt b"
  "tripRing (maybePurge ts b) = tripRing b" "consec (maybePurge ts b) = consec b" "started (maybePurge ts b) = started b"
  "lastDisarm (maybePurge ts b) = lastDisarm b" "window (maybePurge ts b) = window b" "bcfg (maybePurge ts b) = bcfg b"
  "threshold (maybePurge ts b) = threshold b" "armAfter (maybePurge ts b) = armAfter b" "drainBelow (maybePurge ts b) = drainBelow b"
  "backoff (maybePurge ts b) = backoff b" "splashThreshold (maybePurge ts b) = splashThreshold b" "hold (maybePurge ts b) = hold b"
  "lastReleaseAt (maybePurge ts b) = lastReleaseAt b" "quietRing (maybePurge ts b) = quietRing b" "post (maybePurge ts b) = post b"
  by (simp_all add: maybePurge_def reportStuck_def startPurge_def act_def Let_def)

lemma releaseAfterDrain_frame [simp, brake_frame]:
  "splashKnown (releaseAfterDrain ts b) = splashKnown b" "splashNegAt (releaseAfterDrain ts b) = splashNegAt b"
  "tripRing (releaseAfterDrain ts b) = tripRing b" "consec (releaseAfterDrain ts b) = consec b"
  "started (releaseAfterDrain ts b) = started b" "lastDisarm (releaseAfterDrain ts b) = lastDisarm b"
  "window (releaseAfterDrain ts b) = window b" "bcfg (releaseAfterDrain ts b) = bcfg b"
  "threshold (releaseAfterDrain ts b) = threshold b" "armAfter (releaseAfterDrain ts b) = armAfter b"
  "drainBelow (releaseAfterDrain ts b) = drainBelow b" "backoff (releaseAfterDrain ts b) = backoff b"
  "splashThreshold (releaseAfterDrain ts b) = splashThreshold b" "purging (releaseAfterDrain ts b) = purging b"
  "lastPurgeAttempt (releaseAfterDrain ts b) = lastPurgeAttempt b" "quietRing (releaseAfterDrain ts b) = quietRing b"
  "postActive (post (releaseAfterDrain ts b)) = False" "holding (hold (releaseAfterDrain ts b)) = False"
  "belowSince (post (releaseAfterDrain ts b)) = belowSince (post b)" "lastRiseAt (post (releaseAfterDrain ts b)) = lastRiseAt (post b)"
  "evicted (post (releaseAfterDrain ts b)) = evicted (post b)"
  by (simp_all add: releaseAfterDrain_def removeHoldState_def act_def HoldRelease_def Let_def)

lemma drain_frame [simp, brake_frame]:
  "splashKnown (drain ts r env b) = splashKnown b" "splashNegAt (drain ts r env b) = splashNegAt b"
  "tripRing (drain ts r env b) = tripRing b" "consec (drain ts r env b) = consec b" "started (drain ts r env b) = started b"
  "lastDisarm (drain ts r env b) = lastDisarm b" "window (drain ts r env b) = window b" "bcfg (drain ts r env b) = bcfg b"
  "threshold (drain ts r env b) = threshold b" "armAfter (drain ts r env b) = armAfter b" "drainBelow (drain ts r env b) = drainBelow b"
  "backoff (drain ts r env b) = backoff b" "splashThreshold (drain ts r env b) = splashThreshold b"
  by (simp_all add: drain_def Let_def)

lemma trip_frame [simp, brake_frame]:
  "window (trip ts r kids g lo sp b) = window b" "bcfg (trip ts r kids g lo sp b) = bcfg b"
  "threshold (trip ts r kids g lo sp b) = threshold b" "armAfter (trip ts r kids g lo sp b) = armAfter b"
  "drainBelow (trip ts r kids g lo sp b) = drainBelow b" "splashThreshold (trip ts r kids g lo sp b) = splashThreshold b"
  "started (trip ts r kids g lo sp b) = started b" "tripRing (trip ts r kids g lo sp b) = tripRing b"
  "quietRing (trip ts r kids g lo sp b) = ringReset (quietRing b)" "purging (trip ts r kids g lo sp b) = purging b"
  "lastPurgeAttempt (trip ts r kids g lo sp b) = ts"
  by (simp_all add: trip_def act_def writeHoldState_def Let_def)

lemma thresholdFor_frame:
  "snd (thresholdFor env ts b) = b\<lparr>splashKnown := splashKnown (snd (thresholdFor env ts b)),
     splashNegAt := splashNegAt (snd (thresholdFor env ts b))\<rparr>"
  by (simp add: thresholdFor_def split: prod.split)

lemma thresholdFor_off: "splashThreshold b \<le> 0 \<Longrightarrow> thresholdFor env ts b = (threshold b, b)"
  by (simp add: thresholdFor_def)

lemma observeSample_frame [simp, brake_frame]:
  "window (observeSample ts r env b) = window b" "bcfg (observeSample ts r env b) = bcfg b"
  "threshold (observeSample ts r env b) = threshold b" "armAfter (observeSample ts r env b) = armAfter b"
  "drainBelow (observeSample ts r env b) = drainBelow b" "splashThreshold (observeSample ts r env b) = splashThreshold b"
  "splashKnown (observeSample ts r env b) = splashKnown b" "splashNegAt (observeSample ts r env b) = splashNegAt b"
  "backoff (observeSample ts r env b) = backoff b"
  "consec (observeSample ts r env b) = (if needsReset env b then 0 else consec b)"
  "lastDisarm (observeSample ts r env b) = (if needsReset env b then ts else lastDisarm b)"
  "tripRing (observeSample ts r env b) =
     ringPush (window b) ts (metric r) (if needsReset env b then ringReset (tripRing b) else tripRing b)"
  by (simp_all add: observeSample_def Let_def push_def resetWindow_def needsReset_def)

section \<open>The trigger\<close>

text \<open>A sample \<open>((time, bytes), limit)\<close> is hot when the brake has been armed long enough and the bytes
  stand the limit above the least sample of the window; \<open>streak\<close> counts the newest samples, newest
  first, that are hot in a row.\<close>

type_synonym sample = "(gotime \<times> int) \<times> int"

definition hot :: "duration \<Rightarrow> duration \<Rightarrow> gotime \<Rightarrow> sample list \<Rightarrow> bool" where
  "hot w arm d ss = (case last ss of ((ts, v), thr) \<Rightarrow>
     arm \<le> ts - d \<and> thr \<le> v - Min (snd ` set (inWindow w ts (map fst ss))))"

fun streak :: "duration \<Rightarrow> duration \<Rightarrow> gotime \<Rightarrow> sample list \<Rightarrow> nat" where
  "streak w arm d [] = 0"
| "streak w arm d (s # older) = (if hot w arm d (rev (s # older)) then Suc (streak w arm d older) else 0)"

lemma streak_ge: "n \<le> streak w arm d rs \<longleftrightarrow> n \<le> length rs \<and> (\<forall>k<n. hot w arm d (rev (drop k rs)))"
proof (induction rs arbitrary: n)
  case (Cons s rs)
  show ?case
  proof (cases n)
    case (Suc m)
    have "(\<forall>k<Suc m. hot w arm d (rev (drop k (s # rs)))) \<longleftrightarrow> hot w arm d (rev (s # rs)) \<and> (\<forall>k<m. hot w arm d (rev (drop k rs)))"
      by (auto simp: less_Suc_eq_0_disj)
    then show ?thesis using Suc Cons.IH[of m] by auto
  qed simp
qed (metis list.size(3) le_zero_eq not_less_zero streak.simps(1) le0)

definition sampleLimit :: "gotime \<Rightarrow> BrakeEnv \<Rightarrow> Brake \<Rightarrow> int" where
  "sampleLimit ts env b = fst (thresholdFor env ts b)"

text \<open>\<open>Ghost\<close>: every sample; those since the trip window was reset, with their limits, and when that
  was; those fed to the quiet-window ring since the last kill.\<close>

record Ghost =
  gAll :: "(gotime \<times> int) list"
  gTrip :: "sample list"
  gReset :: gotime
  gQuiet :: "(gotime \<times> int) list"

definition feedsQuiet :: "gotime \<Rightarrow> BrakeEnv \<Rightarrow> Brake \<Rightarrow> bool" where
  "feedsQuiet ts env b \<longleftrightarrow> postActive (post b) \<and>
     (evicted (post b) \<or> \<not> (ts - killedAt (post b) < killExitWait \<and> list_ex (envAlive env) (pgids (post b))))"

definition ghostTrip :: "gotime \<Rightarrow> Reading \<Rightarrow> BrakeEnv \<Rightarrow> Brake \<Rightarrow> Ghost \<Rightarrow> sample list" where
  "ghostTrip ts r env b g = (if needsReset env b then [] else gTrip g) @ [((ts, metric r), sampleLimit ts env b)]"

definition ghostReset :: "gotime \<Rightarrow> BrakeEnv \<Rightarrow> Brake \<Rightarrow> Ghost \<Rightarrow> gotime" where
  "ghostReset ts env b g = (if needsReset env b then ts else gReset g)"

definition ghostSample :: "gotime \<Rightarrow> Reading \<Rightarrow> BrakeEnv \<Rightarrow> Brake \<Rightarrow> bool \<Rightarrow> Ghost \<Rightarrow> Ghost" where
  "ghostSample ts r env b tripped g =
     \<lparr>gAll = gAll g @ [(ts, metric r)],
      gTrip = (if tripped then [] else ghostTrip ts r env b g),
      gReset = (if tripped then ts else ghostReset ts env b g),
      gQuiet = (if tripped then [] else if feedsQuiet ts env b then gQuiet g @ [(ts, metric r)] else gQuiet g)\<rparr>"

definition interval :: "MemoryBrakeConfig \<Rightarrow> duration" where
  "interval cfg = SampleIntervalMs cfg * 1000000"

definition due :: "MemoryBrakeConfig \<Rightarrow> gotime \<Rightarrow> Ghost \<Rightarrow> bool" where
  "due cfg ts g \<longleftrightarrow> 0 < ts \<and> (gAll g = [] \<or> fst (last (gAll g)) + interval cfg \<le> ts)"

inductive breach :: "MemoryBrakeConfig \<Rightarrow> Brake \<Rightarrow> Ghost \<Rightarrow> bool" for cfg where
  start: "breach cfg (NewBrake cfg h now file) \<lparr>gAll = [], gTrip = [], gReset = 0, gQuiet = []\<rparr>"
| sample: "breach cfg b g \<Longrightarrow> due cfg ts g \<Longrightarrow> observe ts r env b = (b', tripped) \<Longrightarrow>
    breach cfg b' (ghostSample ts r env b tripped g)"
| timeout: "breach cfg b g \<Longrightarrow> breach cfg (purgeTimedOut ts b) g"
| return: "breach cfg b g \<Longrightarrow> purging b \<Longrightarrow> breach cfg (purgeReturned ts res b) g"

section \<open>Samples an interval apart fit the rings\<close>

definition spaced :: "duration \<Rightarrow> (gotime \<times> int) list \<Rightarrow> bool" where
  "spaced d ss \<longleftrightarrow> sorted_wrt (\<lambda>x y. fst x + d \<le> fst y) ss"

lemma spaced_sorted: "spaced d ss \<Longrightarrow> 0 \<le> d \<Longrightarrow> sorted (map fst ss)"
  unfolding spaced_def sorted_map by (erule sorted_wrt_mono_rel[rotated]) simp

lemma spaced_gap: "spaced d ss \<Longrightarrow> i \<le> j \<Longrightarrow> j < length ss \<Longrightarrow> fst (ss ! i) + int (j - i) * d \<le> fst (ss ! j)"
proof (induction j)
  case (Suc j)
  show ?case
  proof (cases "i = Suc j")
    case False
    then have "fst (ss ! i) + int (j - i) * d \<le> fst (ss ! j)" using Suc by simp
    moreover have "fst (ss ! j) + d \<le> fst (ss ! Suc j)" using Suc.prems by (auto simp: spaced_def sorted_wrt_iff_nth_less)
    moreover have "int (Suc j - i) * d = int (j - i) * d + d" using Suc.prems False by (simp add: Suc_diff_le algebra_simps)
    ultimately show ?thesis by simp
  qed simp
qed simp

lemma spaced_room:
  assumes "spaced d ss" "0 < d" "0 \<le> win" "ss \<noteq> []"
  shows "length (inWindow win (fst (last ss)) ss) < nat (win div d) + 8"
proof -
  let ?n = "length ss" and ?k = "nat (win div d)"
  have "{i. i < ?n \<and> fst (last ss) - fst (ss ! i) \<le> win} \<subseteq> {?n - 1 - ?k..<?n}"
  proof
    fix i assume "i \<in> {i. i < ?n \<and> fst (last ss) - fst (ss ! i) \<le> win}"
    then have i: "i < ?n" "fst (last ss) - fst (ss ! i) \<le> win" by auto
    have "fst (ss ! i) + int (?n - 1 - i) * d \<le> fst (last ss)"
      using spaced_gap[OF assms(1), of i "?n - 1"] i assms(4) by (simp add: last_conv_nth)
    then have "int (?n - 1 - i) * d \<le> win" using i(2) by simp
    then have "int (?n - 1 - i) \<le> win div d" using zdiv_mono1[OF _ assms(2)] assms(2) by (metis nonzero_mult_div_cancel_right less_irrefl)
    then show "i \<in> {?n - 1 - ?k..<?n}" using i(1) by auto
  qed
  then have "card {i. i < ?n \<and> fst (last ss) - fst (ss ! i) \<le> win} \<le> card {?n - 1 - ?k..<?n}" by (intro card_mono) auto
  then show ?thesis using assms(4) unfolding inWindow_def length_filter_conv_card by (cases ?n) auto
qed

lemma spaced_snoc: "spaced d (ss @ [s]) \<longleftrightarrow> spaced d ss \<and> (\<forall>x \<in> set ss. fst x + d \<le> fst s)"
  by (auto simp: spaced_def sorted_wrt_append)

text \<open>Feeding one more sample to a ring that keeps its window.\<close>

lemma ring_feed:
  assumes "ring_ok (nat (w div d) + 8) q" "keeps win ss (ringItems q)" "spaced d (ss @ [(ts, v)])" "0 < d" "0 \<le> win" "win \<le> w"
  shows "ring_ok (nat (w div d) + 8) (ringPush win ts v q) \<and> keeps win (ss @ [(ts, v)]) (ringItems (ringPush win ts v q))"
proof -
  have "length (inWindow win (fst (last ss)) ss) < nat (w div d) + 8" if "ss \<noteq> []"
  proof -
    have "win div d \<le> w div d" using assms(4,6) by (rule zdiv_mono1[rotated])
    then have "nat (win div d) \<le> nat (w div d)" by (rule nat_mono)
    then show ?thesis using spaced_room[of d ss win] assms(3-5) that by (simp add: spaced_snoc)
  qed
  then have "keeps win (ss @ [(ts, v)]) (windowPush (nat (w div d) + 8) win ts v (ringItems q))"
    using spaced_sorted[OF assms(3)] assms(4,5) by (intro keeps_push[OF assms(2)]) simp_all
  then show ?thesis using ring.items_push[OF assms(1)] ring.ok_push[OF assms(1)] by simp
qed

lemma ring_min:
  assumes "ring_ok c q" "keeps win ss (ringItems q)" "ss \<noteq> []"
  shows "ringMin q = Min (snd ` set (inWindow win (fst (last ss)) ss))"
proof -
  have k: "ringItems q \<noteq> []" "snd (hd (ringItems q)) = Min (snd ` set (inWindow win (fst (last ss)) ss))"
    using keeps_min[OF assms(2,3)] by auto
  then have "0 < ringN q" by (auto simp: ringItems_def entries_def intro: gr0I)
  then show ?thesis using ringMin_hd[OF assms(1)] k(2) by simp
qed

lemma keeps_Nil: "keeps win [] []"
  by (simp add: keeps_def)

section \<open>The invariant\<close>

lemma thresholdFor_limit:
  "\<exists>sk sn. thresholdFor env ts ((observeSample ts r env b)\<lparr>lastGrowth := x\<rparr>) =
    (sampleLimit ts env b, (observeSample ts r env b)\<lparr>lastGrowth := x, splashKnown := sk, splashNegAt := sn\<rparr>)"
proof -
  have "fst (thresholdFor env ts ((observeSample ts r env b)\<lparr>lastGrowth := x\<rparr>)) = sampleLimit ts env b"
    by (simp add: thresholdFor_def sampleLimit_def split: prod.split)
  then show ?thesis using thresholdFor_frame[of env ts "(observeSample ts r env b)\<lparr>lastGrowth := x\<rparr>"] by (metis prod.collapse)
qed

text \<open>The outcome of \<open>observe\<close> by whether the sample is hot and how many were hot before it.\<close>

definition hotNow :: "gotime \<Rightarrow> Reading \<Rightarrow> BrakeEnv \<Rightarrow> Brake \<Rightarrow> bool" where
  "hotNow ts r env b \<longleftrightarrow> armAfter b \<le> ts - lastDisarm (observeSample ts r env b) \<and>
     sampleLimit ts env b \<le> metric r - ringMin (tripRing (observeSample ts r env b))"

lemma observe_cold:
  assumes "\<not> hotNow ts r env b"
  shows "\<exists>lg et sk sn. observe ts r env b = ((observeSample ts r env b)\<lparr>lastGrowth := lg, effThreshold := et,
    splashKnown := sk, splashNegAt := sn, consec := 0\<rparr>, False)"
proof (cases "armAfter b \<le> ts - lastDisarm (observeSample ts r env b)")
  case False
  let ?B = "observeSample ts r env b"
  have "observe ts r env b = (?B\<lparr>lastGrowth := -1, consec := 0\<rparr>, False)" using False by (simp add: observe_def Let_def)
  also have "?B\<lparr>lastGrowth := -1, consec := 0\<rparr> =
    ?B\<lparr>lastGrowth := -1, effThreshold := effThreshold ?B, splashKnown := splashKnown ?B, splashNegAt := splashNegAt ?B, consec := 0\<rparr>" by simp
  finally show ?thesis by blast
next
  case True
  let ?x = "metric r - ringMin (tripRing (observeSample ts r env b))"
  obtain sk sn where "thresholdFor env ts ((observeSample ts r env b)\<lparr>lastGrowth := ?x\<rparr>) =
    (sampleLimit ts env b, (observeSample ts r env b)\<lparr>lastGrowth := ?x, splashKnown := sk, splashNegAt := sn\<rparr>)"
    using thresholdFor_limit by blast
  then have "observe ts r env b = ((observeSample ts r env b)\<lparr>lastGrowth := ?x, splashKnown := sk, splashNegAt := sn,
      effThreshold := sampleLimit ts env b, consec := 0\<rparr>, False)"
    using True assms by (simp add: observe_def Let_def hotNow_def)
  also have "(observeSample ts r env b)\<lparr>lastGrowth := ?x, splashKnown := sk, splashNegAt := sn,
      effThreshold := sampleLimit ts env b, consec := 0\<rparr> = (observeSample ts r env b)\<lparr>lastGrowth := ?x,
      effThreshold := sampleLimit ts env b, splashKnown := sk, splashNegAt := sn, consec := 0\<rparr>" by simp
  finally show ?thesis by blast
qed

lemma observe_hot:
  assumes "hotNow ts r env b"
  shows "\<exists>lg et sk sn lo spanned. observe ts r env b =
    (let b8 = (observeSample ts r env b)\<lparr>lastGrowth := lg, splashKnown := sk, splashNegAt := sn, effThreshold := et,
           consec := consec (observeSample ts r env b) + 1\<rparr>
     in if consec b8 < ConfirmSamples (bcfg b) then (b8, False)
        else (resetWindow ts (trip ts r (envKids env) lg lo spanned b8), True))"
proof -
  define B where "B = observeSample ts r env b"
  have B: "armAfter B = armAfter b" "bcfg B = bcfg b" by (simp_all add: B_def)
  define x where "x = metric r - ringMin (tripRing B)"
  obtain sk sn where th: "thresholdFor env ts (B\<lparr>lastGrowth := x\<rparr>) =
    (sampleLimit ts env b, B\<lparr>lastGrowth := x, splashKnown := sk, splashNegAt := sn\<rparr>)"
    unfolding B_def using thresholdFor_limit by blast
  have arm: "armAfter B \<le> ts - lastDisarm B" "\<not> x < sampleLimit ts env b"
    using assms B(1) by (simp_all add: hotNow_def B_def[symmetric] x_def del: observeSample_frame)
  have f: "(B\<lparr>lastGrowth := - 1\<rparr>)\<lparr>lastGrowth := x\<rparr> = B\<lparr>lastGrowth := x\<rparr>" by simp
  define b8 where "b8 = B\<lparr>lastGrowth := x, splashKnown := sk, splashNegAt := sn, effThreshold := sampleLimit ts env b, consec := consec B + 1\<rparr>"
  have "observe ts r env b = (if consec b8 < ConfirmSamples (bcfg b8) then (b8, False)
        else (resetWindow ts (trip ts r (envKids env) x (ringMin (tripRing B)) (if ts - winStart b8 > window b8 then window b8 else ts - winStart b8) b8), True))"
    unfolding observe_def B_def[symmetric] b8_def using arm th
    by (simp only: Let_def Brake.select_convs Brake.update_convs Brake.surjective x_def[symmetric] f split_conv)
      (simp add: x_def[symmetric])
  moreover have "bcfg b8 = bcfg b" using B(2) by (simp add: b8_def)
  moreover define sp where "sp = (if ts - winStart b8 > window b8 then window b8 else ts - winStart b8)"
  ultimately have "observe ts r env b = (let b8 = b8 in if consec b8 < ConfirmSamples (bcfg b) then (b8, False)
      else (resetWindow ts (trip ts r (envKids env) x (ringMin (tripRing B)) sp b8), True))"
    unfolding Let_def by simp
  then show ?thesis unfolding B_def[symmetric] b8_def by (intro exI)
qed

definition quietOf :: "duration \<Rightarrow> nat \<Rightarrow> duration" where
  "quietOf win k = (let w = shl64 win k in if w > maxQuietWindow \<or> w \<le> 0 then maxQuietWindow else w)"

lemma quietWindow_of: "quietWindow b = quietOf (window b) (backoff b)"
  by (simp add: quietWindow_def quietOf_def)

lemma quietOf_bounds: "0 < quietOf win k \<and> quietOf win k \<le> maxQuietWindow"
  by (simp add: quietOf_def Let_def maxQuietWindow_def)

definition brake_inv :: "MemoryBrakeConfig \<Rightarrow> Brake \<Rightarrow> Ghost \<Rightarrow> bool" where
  "brake_inv cfg b g \<longleftrightarrow> bcfg b = cfg \<and> window b = WindowMinutes cfg * Minute \<and> armAfter b = ArmAfterMinutes cfg * Minute \<and>
     threshold b = gotrunc (GrowthGB cfg * of_int gib) \<and> drainBelow b = gotrunc (DrainBelowGB cfg * of_int gib) \<and>
     ring_ok (nat (window b div interval cfg) + 8) (tripRing b) \<and>
     ring_ok (nat (maxQuietWindow div interval cfg) + 8) (quietRing b) \<and>
     spaced (interval cfg) (gAll g) \<and> spaced (interval cfg) (map fst (gTrip g)) \<and> spaced (interval cfg) (gQuiet g) \<and>
     fst ` set (gTrip g) \<subseteq> set (gAll g) \<and> set (gQuiet g) \<subseteq> set (gAll g) \<and>
     keeps (window b) (map fst (gTrip g)) (ringItems (tripRing b)) \<and>
     keeps (quietWindow b) (gQuiet g) (ringItems (quietRing b)) \<and>
     (started b \<longrightarrow> lastDisarm b = gReset g \<and> consec b = int (streak (window b) (armAfter b) (gReset g) (rev (gTrip g)))) \<and>
     (\<forall>s \<in> set (gAll g). 0 < fst s)"

definition cfg_ok :: "MemoryBrakeConfig \<Rightarrow> bool" where
  "cfg_ok cfg \<longleftrightarrow> 0 < SampleIntervalMs cfg \<and> 0 \<le> WindowMinutes cfg"

lemma loadHoldState_frame [simp]:
  "bcfg (loadHoldState now file b) = bcfg b" "window (loadHoldState now file b) = window b" "armAfter (loadHoldState now file b) = armAfter b"
  "threshold (loadHoldState now file b) = threshold b" "drainBelow (loadHoldState now file b) = drainBelow b"
  "tripRing (loadHoldState now file b) = tripRing b" "quietRing (loadHoldState now file b) = quietRing b"
  "started (loadHoldState now file b) = started b" "backoff (loadHoldState now file b) = backoff b"
  "acts (loadHoldState now file b) = acts b" "purging (loadHoldState now file b) = purging b"
  by (simp_all add: loadHoldState_def Let_def split: option.split)

lemma NewBrake_inv: "brake_inv cfg (NewBrake cfg h now file) \<lparr>gAll = [], gTrip = [], gReset = 0, gQuiet = []\<rparr>"
  by (simp add: brake_inv_def NewBrake_def Let_def spaced_def emptyRing_ok keeps_Nil interval_def)

lemma purge_frame:
  "bcfg (purgeTimedOut ts b) = bcfg b" "window (purgeTimedOut ts b) = window b" "armAfter (purgeTimedOut ts b) = armAfter b"
  "threshold (purgeTimedOut ts b) = threshold b" "drainBelow (purgeTimedOut ts b) = drainBelow b"
  "tripRing (purgeTimedOut ts b) = tripRing b" "quietRing (purgeTimedOut ts b) = quietRing b" "backoff (purgeTimedOut ts b) = backoff b"
  "started (purgeTimedOut ts b) = started b" "lastDisarm (purgeTimedOut ts b) = lastDisarm b" "consec (purgeTimedOut ts b) = consec b"
  "post (purgeTimedOut ts b) = post b" "hold (purgeTimedOut ts b) = hold b" "lastPurgeAttempt (purgeTimedOut ts b) = lastPurgeAttempt b"
  "bcfg (purgeReturned ts res b) = bcfg b" "window (purgeReturned ts res b) = window b" "armAfter (purgeReturned ts res b) = armAfter b"
  "threshold (purgeReturned ts res b) = threshold b" "drainBelow (purgeReturned ts res b) = drainBelow b"
  "tripRing (purgeReturned ts res b) = tripRing b" "quietRing (purgeReturned ts res b) = quietRing b"
  "backoff (purgeReturned ts res b) = backoff b" "started (purgeReturned ts res b) = started b"
  "lastDisarm (purgeReturned ts res b) = lastDisarm b" "consec (purgeReturned ts res b) = consec b"
  "post (purgeReturned ts res b) = post b" "hold (purgeReturned ts res b) = hold b"
  "lastPurgeAttempt (purgeReturned ts res b) = lastPurgeAttempt b"
  by (simp_all add: purgeTimedOut_def purgeReturned_def reportStuck_def act_def)

lemma purge_events_inv: "brake_inv cfg b g \<Longrightarrow> brake_inv cfg (purgeTimedOut ts b) g"
  "brake_inv cfg b g \<Longrightarrow> brake_inv cfg (purgeReturned ts res b) g"
  unfolding brake_inv_def quietWindow_of purge_frame .

lemma drain_quiet:
  "quietRing (drain ts r env b) =
    (if evicted (post b) \<or> \<not> (ts - killedAt (post b) < killExitWait \<and> list_ex (envAlive env) (pgids (post b)))
     then ringPush (quietWindow b) ts (metric r) (quietRing b) else quietRing b)"
  by (simp add: drain_def Let_def quietWindow_of)

lemma observeSample_quiet [simp]:
  "quietRing (observeSample ts r env b) =
    (if feedsQuiet ts env b then ringPush (quietWindow b) ts (metric r) (quietRing b) else quietRing b)"
  "started (observeSample ts r env b)"
  by (simp_all add: observeSample_def Let_def push_def resetWindow_def drain_quiet feedsQuiet_def quietWindow_of needsReset_def)

lemma due_later:
  assumes "due cfg ts g" "spaced (interval cfg) (gAll g)" "0 < interval cfg" "x \<in> set (gAll g)"
  shows "fst x + interval cfg \<le> ts"
proof -
  obtain ss l where l: "gAll g = ss @ [l]" using assms(4) by (cases "gAll g" rule: rev_cases) auto
  have "fst x \<le> fst l" using assms(2-4) unfolding l spaced_snoc by fastforce
  then show ?thesis using assms(1) by (simp add: due_def l)
qed

lemma spaced_next:
  assumes "due cfg ts g" "spaced (interval cfg) (gAll g)" "0 < interval cfg" "set ss \<subseteq> set (gAll g)" "spaced (interval cfg) ss"
  shows "spaced (interval cfg) (ss @ [(ts, v)])"
  using due_later[OF assms(1-3)] assms(4,5) by (auto simp: spaced_snoc)

text \<open>After the sample has been entered, both rings keep their windows.\<close>

lemma observeSample_rings:
  fixes r :: Reading and env :: BrakeEnv
  assumes inv: "brake_inv cfg b g" and d: "due cfg ts g" and ok: "cfg_ok cfg"
  defines "B \<equiv> observeSample ts r env b"
  shows "ring_ok (nat (window b div interval cfg) + 8) (tripRing B) \<and>
      keeps (window b) (map fst (ghostTrip ts r env b g)) (ringItems (tripRing B)) \<and>
      spaced (interval cfg) (map fst (ghostTrip ts r env b g))"
    and "ring_ok (nat (maxQuietWindow div interval cfg) + 8) (quietRing B) \<and>
      keeps (quietWindow b) (if feedsQuiet ts env b then gQuiet g @ [(ts, metric r)] else gQuiet g) (ringItems (quietRing B)) \<and>
      spaced (interval cfg) (if feedsQuiet ts env b then gQuiet g @ [(ts, metric r)] else gQuiet g)"
proof -
  have int: "0 < interval cfg" "0 \<le> window b" using ok inv by (simp_all add: cfg_ok_def interval_def brake_inv_def)
  have I: "spaced (interval cfg) (gAll g)" "spaced (interval cfg) (map fst (gTrip g))" "spaced (interval cfg) (gQuiet g)"
    "set (map fst (gTrip g)) \<subseteq> set (gAll g)" "set (gQuiet g) \<subseteq> set (gAll g)"
    "ring_ok (nat (window b div interval cfg) + 8) (tripRing b)" "ring_ok (nat (maxQuietWindow div interval cfg) + 8) (quietRing b)"
    "keeps (window b) (map fst (gTrip g)) (ringItems (tripRing b))" "keeps (quietWindow b) (gQuiet g) (ringItems (quietRing b))"
    using inv by (auto simp: brake_inv_def)
  let ?pre = "if needsReset env b then [] else map fst (gTrip g)"
  let ?q = "if needsReset env b then ringReset (tripRing b) else tripRing b"
  have pre: "map fst (ghostTrip ts r env b g) = ?pre @ [(ts, metric r)]" by (simp add: ghostTrip_def)
  have q: "ring_ok (nat (window b div interval cfg) + 8) ?q" "keeps (window b) ?pre (ringItems ?q)"
    using I(6,8) ringReset_ok(1)[OF I(6)] ringReset_ok(2) keeps_Nil by simp_all
  have s: "spaced (interval cfg) (?pre @ [(ts, metric r)])"
    using I(2,4) by (intro spaced_next[OF d I(1) int(1)]) (simp_all add: spaced_def)
  have "tripRing B = ringPush (window b) ts (metric r) ?q" by (simp add: B_def)
  then show "ring_ok (nat (window b div interval cfg) + 8) (tripRing B) \<and>
      keeps (window b) (map fst (ghostTrip ts r env b g)) (ringItems (tripRing B)) \<and>
      spaced (interval cfg) (map fst (ghostTrip ts r env b g))"
    unfolding pre using ring_feed[OF q s int order_refl] s by simp
  have s': "spaced (interval cfg) (gQuiet g @ [(ts, metric r)])" by (rule spaced_next[OF d I(1) int(1) I(5,3)])
  have qw: "0 \<le> quietWindow b" "quietWindow b \<le> maxQuietWindow" using quietOf_bounds by (simp_all add: quietWindow_of less_imp_le)
  show "ring_ok (nat (maxQuietWindow div interval cfg) + 8) (quietRing B) \<and>
      keeps (quietWindow b) (if feedsQuiet ts env b then gQuiet g @ [(ts, metric r)] else gQuiet g) (ringItems (quietRing B)) \<and>
      spaced (interval cfg) (if feedsQuiet ts env b then gQuiet g @ [(ts, metric r)] else gQuiet g)"
    using ring_feed[OF I(7,9) s' int(1) qw] I(7,9,3) s' by (simp add: B_def)
qed

lemma hotNow_iff:
  assumes inv: "brake_inv cfg b g" and d: "due cfg ts g" and ok: "cfg_ok cfg"
  shows "hotNow ts r env b \<longleftrightarrow> hot (window b) (armAfter b) (ghostReset ts env b g) (ghostTrip ts r env b g)"
    and "consec (observeSample ts r env b) = int (streak (window b) (armAfter b) (ghostReset ts env b g) (tl (rev (ghostTrip ts r env b g))))"
proof -
  let ?B = "observeSample ts r env b"
  note R = observeSample_rings(1)[OF inv d ok, of r env]
  have last: "last (ghostTrip ts r env b g) = ((ts, metric r), sampleLimit ts env b)" "map fst (ghostTrip ts r env b g) \<noteq> []"
    "fst (last (map fst (ghostTrip ts r env b g))) = ts" by (simp_all add: ghostTrip_def)
  have m: "ringMin (tripRing ?B) = Min (snd ` set (inWindow (window b) ts (map fst (ghostTrip ts r env b g))))"
    using ring_min[of _ "tripRing ?B" "window b" "map fst (ghostTrip ts r env b g)"] R last(2,3) by metis
  have st: "\<not> needsReset env b \<Longrightarrow> lastDisarm b = gReset g \<and> consec b = int (streak (window b) (armAfter b) (gReset g) (rev (gTrip g)))"
    using inv by (simp add: brake_inv_def needsReset_def)
  then have ld: "lastDisarm ?B = ghostReset ts env b g" by (simp add: ghostReset_def)
  show "hotNow ts r env b \<longleftrightarrow> hot (window b) (armAfter b) (ghostReset ts env b g) (ghostTrip ts r env b g)"
    unfolding hotNow_def hot_def last(1) m ld by simp
  show "consec ?B = int (streak (window b) (armAfter b) (ghostReset ts env b g) (tl (rev (ghostTrip ts r env b g))))"
    using st by (simp add: ghostTrip_def ghostReset_def)
qed

lemma streak_ghostTrip:
  "streak w arm d (rev (ghostTrip ts r env b g)) =
    (if hot w arm d (ghostTrip ts r env b g) then Suc (streak w arm d (tl (rev (ghostTrip ts r env b g)))) else 0)"
  by (simp add: ghostTrip_def)

lemma observe_outcome:
  fixes r :: Reading and env :: BrakeEnv
  assumes inv: "brake_inv cfg b g" and d: "due cfg ts g" and ok: "cfg_ok cfg"
  defines "n \<equiv> streak (window b) (armAfter b) (ghostReset ts env b g) (rev (ghostTrip ts r env b g))"
  shows "if 0 < n \<and> ConfirmSamples cfg \<le> int n
    then \<exists>lg et sk sn lo spanned k. observe ts r env b = (resetWindow ts (trip ts r (envKids env) lg lo spanned
      ((observeSample ts r env b)\<lparr>lastGrowth := lg, splashKnown := sk, splashNegAt := sn, effThreshold := et, consec := k\<rparr>)), True)
    else \<exists>lg et sk sn. observe ts r env b =
      ((observeSample ts r env b)\<lparr>lastGrowth := lg, splashKnown := sk, splashNegAt := sn, effThreshold := et, consec := int n\<rparr>, False)"
proof (cases "hotNow ts r env b")
  case False
  then have n: "n = 0" unfolding n_def streak_ghostTrip using hotNow_iff(1)[OF inv d ok] by simp
  obtain lg et sk sn where "observe ts r env b = ((observeSample ts r env b)\<lparr>lastGrowth := lg, effThreshold := et,
    splashKnown := sk, splashNegAt := sn, consec := 0\<rparr>, False)" using observe_cold[OF False] by blast
  moreover have "B\<lparr>lastGrowth := lg, effThreshold := et, splashKnown := sk, splashNegAt := sn, consec := 0\<rparr> =
    B\<lparr>lastGrowth := lg, splashKnown := sk, splashNegAt := sn, effThreshold := et, consec := 0\<rparr>" for B :: Brake by simp
  ultimately show ?thesis using n by auto
next
  case True
  then have n: "int n = consec (observeSample ts r env b) + 1" "0 < n"
    unfolding n_def streak_ghostTrip using hotNow_iff[OF inv d ok, of r env] by simp_all
  have cfg: "bcfg b = cfg" using inv by (simp add: brake_inv_def)
  obtain lg et sk sn lo spanned where o: "observe ts r env b =
    (let b8 = (observeSample ts r env b)\<lparr>lastGrowth := lg, splashKnown := sk, splashNegAt := sn, effThreshold := et,
           consec := consec (observeSample ts r env b) + 1\<rparr>
     in if consec b8 < ConfirmSamples (bcfg b) then (b8, False)
        else (resetWindow ts (trip ts r (envKids env) lg lo spanned b8), True))" using observe_hot[OF True] by blast
  show ?thesis
  proof (cases "ConfirmSamples cfg \<le> int n")
    case True
    then have "observe ts r env b = (resetWindow ts (trip ts r (envKids env) lg lo spanned
      ((observeSample ts r env b)\<lparr>lastGrowth := lg, splashKnown := sk, splashNegAt := sn, effThreshold := et, consec := int n\<rparr>)), True)"
      using o n(1) cfg by (simp add: Let_def)
    moreover have "0 < n \<and> ConfirmSamples cfg \<le> int n" using True n(2) by simp
    ultimately show ?thesis by (simp only: if_True simp_thms) (intro exI, rule refl)
  next
    case False
    then have "observe ts r env b =
      ((observeSample ts r env b)\<lparr>lastGrowth := lg, splashKnown := sk, splashNegAt := sn, effThreshold := et, consec := int n\<rparr>, False)"
      using o n(1) cfg by (simp add: Let_def)
    moreover have "\<not> (0 < n \<and> ConfirmSamples cfg \<le> int n)" using False by simp
    ultimately show ?thesis by (simp only: if_False) (intro exI, rule refl)
  qed
qed

lemma gReset_frame [simp]:
  "tripRing (resetWindow ts b) = ringReset (tripRing b)" "quietRing (resetWindow ts b) = quietRing b"
  "bcfg (resetWindow ts b) = bcfg b" "window (resetWindow ts b) = window b" "armAfter (resetWindow ts b) = armAfter b"
  "threshold (resetWindow ts b) = threshold b" "drainBelow (resetWindow ts b) = drainBelow b" "backoff (resetWindow ts b) = backoff b"
  "consec (resetWindow ts b) = 0" "lastDisarm (resetWindow ts b) = ts" "started (resetWindow ts b) = started b"
  "post (resetWindow ts b) = post b" "hold (resetWindow ts b) = hold b" "acts (resetWindow ts b) = acts b"
  "purging (resetWindow ts b) = purging b" "lastPurgeAttempt (resetWindow ts b) = lastPurgeAttempt b"
  by (simp_all add: resetWindow_def)

lemma sample_inv:
  assumes inv: "brake_inv cfg b g" and d: "due cfg ts g" and ok: "cfg_ok cfg" and o: "observe ts r env b = (b', tripped)"
  shows "brake_inv cfg b' (ghostSample ts r env b tripped g)"
proof -
  let ?n = "streak (window b) (armAfter b) (ghostReset ts env b g) (rev (ghostTrip ts r env b g))"
  let ?B = "observeSample ts r env b"
  note R = observeSample_rings[OF inv d ok, of r env]
  note out = observe_outcome[OF inv d ok, where r = r and env = env]
  have I: "bcfg b = cfg" "window b = WindowMinutes cfg * Minute" "armAfter b = ArmAfterMinutes cfg * Minute"
    "threshold b = gotrunc (GrowthGB cfg * of_int gib)" "drainBelow b = gotrunc (DrainBelowGB cfg * of_int gib)"
    "spaced (interval cfg) (gAll g)" "fst ` set (gTrip g) \<subseteq> set (gAll g)" "set (gQuiet g) \<subseteq> set (gAll g)" "\<forall>s \<in> set (gAll g). 0 < fst s"
    using inv by (simp_all add: brake_inv_def)
  have int: "0 < interval cfg" using ok by (simp add: cfg_ok_def interval_def)
  have all: "spaced (interval cfg) (gAll g @ [(ts, metric r)])" "\<forall>s \<in> set (gAll g @ [(ts, metric r)]). 0 < fst s"
    "fst ` set (ghostTrip ts r env b g) \<subseteq> set (gAll g @ [(ts, metric r)])"
    using spaced_next[OF d I(6) int order_refl I(6)] I(7,9) d by (auto simp: ghostTrip_def due_def)
  show ?thesis
  proof (cases "0 < ?n \<and> ConfirmSamples cfg \<le> int ?n")
    case True
    from out[unfolded if_P[OF True]] obtain lg et sk sn lo spanned k where b': "tripped"
      "b' = resetWindow ts (trip ts r (envKids env) lg lo spanned
         (?B\<lparr>lastGrowth := lg, splashKnown := sk, splashNegAt := sn, effThreshold := et, consec := k\<rparr>))" using o by auto
    have rings: "ring_ok (nat (window b div interval cfg) + 8) (tripRing b') \<and> ringItems (tripRing b') = []"
      "ring_ok (nat (maxQuietWindow div interval cfg) + 8) (quietRing b') \<and> ringItems (quietRing b') = []"
      using R ringReset_ok unfolding b'(2) by (simp_all del: observeSample_frame(12) observeSample_quiet(1))
    have fr: "window b' = window b" "bcfg b' = bcfg b" "armAfter b' = armAfter b" "threshold b' = threshold b"
      "drainBelow b' = drainBelow b" "lastDisarm b' = ts" "consec b' = 0" by (simp_all add: b'(2))
    show ?thesis unfolding brake_inv_def fr ghostSample_def using b'(1) rings I all keeps_Nil by (simp add: spaced_def)
  next
    case False
    from out[unfolded if_not_P[OF False]] obtain lg et sk sn where b': "\<not> tripped"
      "b' = ?B\<lparr>lastGrowth := lg, splashKnown := sk, splashNegAt := sn, effThreshold := et, consec := int ?n\<rparr>" using o by auto
    have fr: "window b' = window b" "bcfg b' = bcfg b" "armAfter b' = armAfter b" "threshold b' = threshold b"
      "drainBelow b' = drainBelow b" "tripRing b' = tripRing ?B" "quietRing b' = quietRing ?B" "quietWindow b' = quietWindow b"
      "consec b' = int ?n" "lastDisarm b' = lastDisarm ?B" by (simp_all add: b'(2) quietWindow_of del: observeSample_frame(11,12) observeSample_quiet(1))
    have ld: "lastDisarm ?B = ghostReset ts env b g" using inv by (simp add: ghostReset_def brake_inv_def needsReset_def)
    have gs: "gAll (ghostSample ts r env b tripped g) = gAll g @ [(ts, metric r)]" "gTrip (ghostSample ts r env b tripped g) = ghostTrip ts r env b g"
      "gReset (ghostSample ts r env b tripped g) = ghostReset ts env b g"
      "gQuiet (ghostSample ts r env b tripped g) = (if feedsQuiet ts env b then gQuiet g @ [(ts, metric r)] else gQuiet g)"
      using b'(1) by (simp_all add: ghostSample_def)
    have q: "set (if feedsQuiet ts env b then gQuiet g @ [(ts, metric r)] else gQuiet g) \<subseteq> set (gAll g @ [(ts, metric r)])"
      using I(8) by auto
    show ?thesis unfolding brake_inv_def fr gs ld by (intro conjI impI) (use R I all q in \<open>simp_all only: simp_thms\<close>)
  qed
qed

lemma breach_inv: "breach cfg b g \<Longrightarrow> cfg_ok cfg \<Longrightarrow> brake_inv cfg b g"
  by (induction rule: breach.induct) (simp_all add: NewBrake_inv purge_events_inv sample_inv)

section \<open>When it kills\<close>

definition kills :: "Brake \<Rightarrow> int list" where
  "kills b = List.map_filter (\<lambda>a. case a of Kill p \<Rightarrow> Some p | _ \<Rightarrow> None) (acts b)"

lemma kills_act [simp]: "kills (act a b) = kills b @ (case a of Kill p \<Rightarrow> [p] | _ \<Rightarrow> [])"
  by (cases a) (simp_all add: kills_def act_def List.map_filter_def)

lemma kills_acts: "acts b' = acts b \<Longrightarrow> kills b' = kills b"
  by (simp add: kills_def)

lemma kills_evictAll [simp]: "kills (evictAll env b) = kills b"
  by (simp add: kills_def evictAll_def Let_def List.map_filter_def o_def split: option.split)

lemma kills_maybePurge [simp]: "kills (maybePurge ts b) = kills b"
proof -
  have "kills (b\<lparr>lastStuckReport := ts\<rparr>) = kills b" "kills (b\<lparr>purging := True, lastPurgeAttempt := ts, purgeStartedAt := ts\<rparr>) = kills b"
    by (simp_all add: kills_def)
  then show ?thesis by (simp add: maybePurge_def reportStuck_def startPurge_def Let_def)
qed

lemma kills_release [simp]: "kills (releaseAfterDrain ts b) = kills b"
  by (simp add: releaseAfterDrain_def Let_def) (simp add: kills_def removeHoldState_def)

lemma kills_post [simp]: "kills (b\<lparr>post := p\<rparr>) = kills b"
  by (simp add: kills_def)

lemma kills_quiet [simp]: "kills (trackRise ts v b) = kills b" "kills (holdLog ts b) = kills b"
  by (simp_all add: kills_def)

lemma kills_drain [simp]: "kills (drain ts r env b) = kills b"
  by (simp add: drain_def Let_def)

lemma kills_observeSample [simp]: "kills (observeSample ts r env b) = kills b"
proof -
  have "kills (push ts v b) = kills b" "kills (resetWindow ts b) = kills b" "kills (b\<lparr>started := s\<rparr>) = kills b"
    "kills (b\<lparr>hold := h, files := f\<rparr>) = kills b" for b v s h f by (simp_all add: kills_def push_def resetWindow_def)
  then show ?thesis by (simp add: observeSample_def Let_def)
qed

lemma acts_trip: "acts (trip ts r kids g lo sp b) = acts b @ map (\<lambda>c. Kill (lc_Pgid c)) kids @ [Tripped ts]"
  by (simp add: trip_def act_def writeHoldState_def Let_def)

lemma kills_trip: "kills (trip ts r kids g lo sp b) = kills b @ map lc_Pgid kids"
  by (simp add: kills_def acts_trip List.map_filter_def o_def)

text \<open>C16. The trigger is exact. A sample of a reachable brake trips it exactly when the newest
  \<open>ConfirmSamples\<close> samples since the last reset, this one included, were each taken with the brake
  armed and each stood their limit above the least sample of the preceding window: the ring never
  loses the minimum when samples come no faster than configured. A trip kills every live child and
  nothing else ever kills.\<close>

theorem trips_exactly:
  fixes r :: Reading and env :: BrakeEnv
  assumes "breach cfg b g" "cfg_ok cfg" "due cfg ts g" "1 \<le> ConfirmSamples cfg"
  defines "h \<equiv> ghostTrip ts r env b g" and "C \<equiv> nat (ConfirmSamples cfg)"
  shows "(snd (observe ts r env b) \<longleftrightarrow>
      C \<le> length h \<and> (\<forall>k<C. hot (window b) (armAfter b) (ghostReset ts env b g) (take (length h - k) h))) \<and>
    kills (fst (observe ts r env b)) = kills b @ (if snd (observe ts r env b) then map lc_Pgid (envKids env) else [])"
proof -
  let ?n = "streak (window b) (armAfter b) (ghostReset ts env b g) (rev h)"
  note out = observe_outcome[OF breach_inv[OF assms(1,2)] assms(3,2), where r = r and env = env, folded h_def]
  have iff: "(0 < ?n \<and> ConfirmSamples cfg \<le> int ?n) \<longleftrightarrow> C \<le> length h \<and>
      (\<forall>k<C. hot (window b) (armAfter b) (ghostReset ts env b g) (take (length h - k) h))"
    using streak_ge[of C "window b" "armAfter b" "ghostReset ts env b g" "rev h"] assms(4) by (auto simp: C_def rev_drop)
  have k: "kills (B\<lparr>lastGrowth := lg, splashKnown := sk, splashNegAt := sn, effThreshold := et, consec := c\<rparr>) = kills B"
    "kills (resetWindow ts B) = kills B" for B lg sk sn et c by (simp_all add: kills_def)
  show ?thesis
  proof (cases "0 < ?n \<and> ConfirmSamples cfg \<le> int ?n")
    case True
    from out[unfolded if_P[OF True]] show ?thesis using True iff by (auto simp: k kills_trip)
  next
    case False
    from out[unfolded if_not_P[OF False]] show ?thesis using False iff by (auto simp: k)
  qed
qed

end
