(* ===== verification/BrakeGate.thy ===== *)
theory BrakeGate
  imports BrakeSafety
begin

text \<open>
  The gate of the memory brake: when it opens, how long the quiet window is, what becomes of parked
  loads, and that purges do not overlap. The lemmas say what one call of \<open>drain\<close> does to the gate;
  the invariant relates \<open>belowSince\<close> and \<open>lastRiseAt\<close> to the samples of the ghost record.
\<close>

section \<open>One drain step\<close>

definition awaitsExit :: "gotime \<Rightarrow> BrakeEnv \<Rightarrow> Brake \<Rightarrow> bool" where
  "awaitsExit ts env b \<longleftrightarrow> \<not> evicted (post b) \<and> ts - killedAt (post b) < killExitWait \<and> list_ex (envAlive env) (pgids (post b))"

lemma feedsQuiet_iff: "feedsQuiet ts env b \<longleftrightarrow> postActive (post b) \<and> \<not> awaitsExit ts env b"
  by (auto simp: feedsQuiet_def awaitsExit_def)

definition belowNext :: "gotime \<Rightarrow> Reading \<Rightarrow> Brake \<Rightarrow> gotime" where
  "belowNext ts r b =
     (if \<not> evicted (post b) then belowSince (post b)
      else if metric r < drainBelow b \<or> drainBelow b = 0 then (if belowSince (post b) = 0 then ts else belowSince (post b))
      else 0)"

definition riseNext :: "gotime \<Rightarrow> Reading \<Rightarrow> BrakeEnv \<Rightarrow> Brake \<Rightarrow> gotime" where
  "riseNext ts r env b =
     (if \<not> awaitsExit ts env b \<and> metric r - ringMin (ringPush (quietWindow b) ts (metric r) (quietRing b)) \<ge> threshold b
      then ts else lastRiseAt (post b))"

definition opensNow :: "gotime \<Rightarrow> Reading \<Rightarrow> BrakeEnv \<Rightarrow> Brake \<Rightarrow> bool" where
  "opensNow ts r env b \<longleftrightarrow> evicted (post b) \<and> (metric r < drainBelow b \<or> drainBelow b = 0) \<and>
     (drainBelow b = 0 \<or> ts - belowNext ts r b \<ge> drainSettle \<and>
       (riseNext ts r env b = 0 \<or> ts - riseNext ts r env b \<ge> quietWindow b))"

lemma lastRise_trackRise [simp]:
  "lastRiseAt (post (trackRise ts v b)) =
    (if v - ringMin (ringPush (quietWindow b) ts v (quietRing b)) \<ge> threshold b then ts else lastRiseAt (post b))"
  by (simp add: trackRise_def Let_def)

lemma quietWindow_trackRise [simp]: "quietWindow (trackRise ts v b) = quietWindow b"
  by (simp add: quietWindow_of)

lemma drain_evicted [simp]: "evicted (post (drain ts r env b)) = (\<not> awaitsExit ts env b)"
  by (simp add: drain_def Let_def awaitsExit_def)

lemma drain_below: "belowSince (post (drain ts r env b)) = belowNext ts r b"
  by (simp add: drain_def Let_def belowNext_def)

lemma drain_rise: "lastRiseAt (post (drain ts r env b)) = riseNext ts r env b"
  by (simp add: drain_def Let_def riseNext_def awaitsExit_def quietWindow_of)

lemma drain_opens:
  "holding (hold (drain ts r env b)) = (holding (hold b) \<and> \<not> opensNow ts r env b)"
  "postActive (post (drain ts r env b)) = (postActive (post b) \<and> \<not> opensNow ts r env b)"
  by (simp_all add: drain_def Let_def opensNow_def belowNext_def riseNext_def awaitsExit_def quietSatisfied_def quietWindow_of)

lemma observeSample_post:
  "post (observeSample ts r env b) = (if postActive (post b)
     then post (drain ts r env (b\<lparr>hold := (hold b)\<lparr>hFileBacked := metric r\<rparr>, files := foldl addPath (files b) (concat (map lc_Files (envKids env)))\<rparr>))
     else post b)"
  by (simp add: observeSample_def Let_def push_def resetWindow_def)

lemma next_frame [simp]:
  "belowNext ts r (b\<lparr>hold := h, files := f\<rparr>) = belowNext ts r b"
  "riseNext ts r env (b\<lparr>hold := h, files := f\<rparr>) = riseNext ts r env b"
  "awaitsExit ts env (b\<lparr>hold := h, files := f\<rparr>) = awaitsExit ts env b"
  "opensNow ts r env (b\<lparr>hold := h, files := f\<rparr>) = opensNow ts r env b"
  by (simp_all add: belowNext_def riseNext_def awaitsExit_def opensNow_def quietWindow_of)

lemma observeSample_gate:
  "postActive (post b) \<Longrightarrow> belowSince (post (observeSample ts r env b)) = belowNext ts r b"
  "postActive (post b) \<Longrightarrow> lastRiseAt (post (observeSample ts r env b)) = riseNext ts r env b"
  "postActive (post b) \<Longrightarrow> evicted (post (observeSample ts r env b)) = (\<not> awaitsExit ts env b)"
  "postActive (post (observeSample ts r env b)) = (postActive (post b) \<and> \<not> opensNow ts r env b)"
  "holding (hold (observeSample ts r env b)) = (holding (hold b) \<and> \<not> (postActive (post b) \<and> opensNow ts r env b))"
proof -
  show "holding (hold (observeSample ts r env b)) = (holding (hold b) \<and> \<not> (postActive (post b) \<and> opensNow ts r env b))"
    by (simp add: observeSample_def Let_def push_def resetWindow_def drain_opens)
qed (simp_all add: observeSample_post drain_below drain_rise drain_opens)

section \<open>The invariant of the gate\<close>

text \<open>The newest samples, from time \<open>t\<close> on, all lie below the level.\<close>

definition settled :: "int \<Rightarrow> gotime \<Rightarrow> (gotime \<times> int) list \<Rightarrow> bool" where
  "settled level t ss \<longleftrightarrow> (\<exists>pre mid. ss = pre @ mid \<and> mid \<noteq> [] \<and> fst (hd mid) = t \<and> (\<forall>s \<in> set mid. snd s < level))"

text \<open>The newest sample stands the threshold above the least of its window.\<close>

definition rises :: "int \<Rightarrow> duration \<Rightarrow> (gotime \<times> int) list \<Rightarrow> bool" where
  "rises thr w ss \<longleftrightarrow> ss \<noteq> [] \<and> thr \<le> snd (last ss) - Min (snd ` set (inWindow w (fst (last ss)) ss))"

definition rises_by :: "int \<Rightarrow> duration \<Rightarrow> (gotime \<times> int) list \<Rightarrow> gotime \<Rightarrow> bool" where
  "rises_by thr w ss t \<longleftrightarrow> (\<forall>k. k \<le> length ss \<longrightarrow> rises thr w (take k ss) \<longrightarrow> t \<noteq> 0 \<and> fst (last (take k ss)) \<le> t)"

definition gate_inv :: "Brake \<Rightarrow> Ghost \<Rightarrow> bool" where
  "gate_inv b g \<longleftrightarrow> postActive (post b) \<longrightarrow>
     (\<not> evicted (post b) \<longrightarrow> belowSince (post b) = 0) \<and>
     (0 < drainBelow b \<longrightarrow> belowSince (post b) \<noteq> 0 \<longrightarrow> settled (drainBelow b) (belowSince (post b)) (gAll g)) \<and>
     rises_by (threshold b) (quietWindow b) (gQuiet g) (lastRiseAt (post b))"

lemma rises_Nil [simp]: "\<not> rises thr w []"
  by (simp add: rises_def)

lemma settled_snoc: "settled level t ss \<Longrightarrow> v < level \<Longrightarrow> settled level t (ss @ [(ts, v)])"
  unfolding settled_def
proof (elim exE conjE)
  fix pre mid assume "ss = pre @ mid" "mid \<noteq> []" "fst (hd mid) = t" "\<forall>s \<in> set mid. snd s < level" "v < level"
  then show "\<exists>pre mid. ss @ [(ts, v)] = pre @ mid \<and> mid \<noteq> [] \<and> fst (hd mid) = t \<and> (\<forall>s \<in> set mid. snd s < level)"
    by (intro exI[of _ pre] exI[of _ "mid @ [(ts, v)]"]) auto
qed

lemma settled_new: "v < level \<Longrightarrow> settled level ts (ss @ [(ts, v)])"
  unfolding settled_def by (intro exI[of _ ss] exI[of _ "[(ts, v)]"]) simp

lemma rises_by_later: "rises_by thr w ss t \<Longrightarrow> t \<le> t' \<Longrightarrow> 0 < t' \<Longrightarrow> rises_by thr w ss t'"
  unfolding rises_by_def by (meson less_irrefl order_trans)

lemma rises_by_snoc:
  assumes "rises_by thr w ss t" "rises thr w (ss @ [(ts, v)]) \<Longrightarrow> t = ts \<and> ts \<noteq> 0"
  shows "rises_by thr w (ss @ [(ts, v)]) t"
  unfolding rises_by_def
proof (intro allI impI)
  fix k assume k: "k \<le> length (ss @ [(ts, v)])" "rises thr w (take k (ss @ [(ts, v)]))"
  show "t \<noteq> 0 \<and> fst (last (take k (ss @ [(ts, v)]))) \<le> t"
  proof (cases "k = length (ss @ [(ts, v)])")
    case True
    then show ?thesis using assms(2) k(2) by simp
  next
    case False
    then have "k \<le> length ss" "take k (ss @ [(ts, v)]) = take k ss" using k(1) by simp_all
    then show ?thesis using assms(1)[unfolded rises_by_def, rule_format, of k] k(2) by simp
  qed
qed

lemma gate_sample:
  fixes r :: Reading and env :: BrakeEnv
  assumes inv: "brake_inv cfg b g" and gi: "gate_inv b g" and d: "due cfg ts g" and ok: "cfg_ok cfg" and act: "postActive (post b)"
  defines "q \<equiv> if feedsQuiet ts env b then gQuiet g @ [(ts, metric r)] else gQuiet g"
  shows "0 < drainBelow b \<Longrightarrow> belowNext ts r b \<noteq> 0 \<Longrightarrow> settled (drainBelow b) (belowNext ts r b) (gAll g @ [(ts, metric r)])"
    and "rises_by (threshold b) (quietWindow b) q (riseNext ts r env b)"
proof -
  show "settled (drainBelow b) (belowNext ts r b) (gAll g @ [(ts, metric r)])" if "0 < drainBelow b" "belowNext ts r b \<noteq> 0"
    using that gi act settled_snoc settled_new by (auto simp: gate_inv_def belowNext_def split: if_splits)
next
  have old: "rises_by (threshold b) (quietWindow b) (gQuiet g) (lastRiseAt (post b))" using gi act by (simp add: gate_inv_def)
  show "rises_by (threshold b) (quietWindow b) q (riseNext ts r env b)"
  proof (cases "awaitsExit ts env b")
    case True
    then show ?thesis using old by (simp add: q_def feedsQuiet_iff riseNext_def)
  next
    case False
    then have f: "feedsQuiet ts env b" using act by (simp add: feedsQuiet_iff)
    note R = observeSample_rings(2)[OF inv d ok, of r env]
    have "ringMin (quietRing (observeSample ts r env b)) =
        Min (snd ` set (inWindow (quietWindow b) (fst (last (gQuiet g @ [(ts, metric r)]))) (gQuiet g @ [(ts, metric r)])))"
      using R f by (intro ring_min[of _ _ "quietWindow b"]) (auto simp del: observeSample_quiet)
    then have iff: "rises (threshold b) (quietWindow b) (gQuiet g @ [(ts, metric r)]) \<longleftrightarrow>
        threshold b \<le> metric r - ringMin (ringPush (quietWindow b) ts (metric r) (quietRing b))"
      using f by (simp add: rises_def)
    have int: "0 < interval cfg" "spaced (interval cfg) (gAll g)" "set (gQuiet g) \<subseteq> set (gAll g)"
      using ok inv by (simp_all add: cfg_ok_def interval_def brake_inv_def)
    have ts: "0 < ts" "\<forall>s \<in> set (gQuiet g). fst s \<le> ts"
      using d due_later[OF d int(2,1)] int(1,3) by (fastforce simp: due_def)+
    show ?thesis
    proof (cases "rises (threshold b) (quietWindow b) (gQuiet g @ [(ts, metric r)])")
      case True
      have "rises_by (threshold b) (quietWindow b) (gQuiet g) ts" unfolding rises_by_def
      proof (intro allI impI)
        fix k assume "k \<le> length (gQuiet g)" "rises (threshold b) (quietWindow b) (take k (gQuiet g))"
        then have "last (take k (gQuiet g)) \<in> set (gQuiet g)" by (metis in_set_takeD last_in_set rises_Nil)
        then show "ts \<noteq> 0 \<and> fst (last (take k (gQuiet g))) \<le> ts" using ts by auto
      qed
      then show ?thesis using True iff f False ts(1) by (simp add: q_def riseNext_def rises_by_snoc)
    next
      case no: False
      then show ?thesis using rises_by_snoc[OF old, of ts "metric r"] iff f False by (simp add: q_def riseNext_def)
    qed
  qed
qed

lemma trip_post:
  "post (trip ts r kids g lo sp b) = \<lparr>postActive = True, killedAt = ts, pgids = map lc_Pgid kids, evicted = False, lastEvict = 0,
     belowSince = 0, lastLog = 0, lastRiseAt = 0, evictedAt = 0\<rparr>"
  "0 < drainBelow b \<Longrightarrow> holding (hold (trip ts r kids g lo sp b))"
  by (simp_all add: trip_def act_def Let_def writeHoldState_def HoldSet_def)

lemma gate_inv_cong:
  "post b' = post b \<Longrightarrow> drainBelow b' = drainBelow b \<Longrightarrow> threshold b' = threshold b \<Longrightarrow> window b' = window b \<Longrightarrow>
    backoff b' = backoff b \<Longrightarrow> gate_inv b' g = gate_inv b g"
  by (simp add: gate_inv_def quietWindow_of)

lemma gate_inv_sample:
  assumes inv: "brake_inv cfg b g" and gi: "gate_inv b g" and d: "due cfg ts g" and ok: "cfg_ok cfg"
    and o: "observe ts r env b = (b', tripped)"
  shows "gate_inv b' (ghostSample ts r env b tripped g)"
proof -
  let ?n = "streak (window b) (armAfter b) (ghostReset ts env b g) (rev (ghostTrip ts r env b g))"
  note out = observe_outcome[OF inv d ok, where r = r and env = env]
  show ?thesis
  proof (cases "0 < ?n \<and> ConfirmSamples cfg \<le> int ?n")
    case True
    from out[unfolded if_P[OF True]] obtain lg et sk sn lo spanned k where b': "tripped"
      "b' = resetWindow ts (trip ts r (envKids env) lg lo spanned
         ((observeSample ts r env b)\<lparr>lastGrowth := lg, splashKnown := sk, splashNegAt := sn, effThreshold := et, consec := k\<rparr>))" using o by auto
    then show ?thesis by (simp add: gate_inv_def trip_post ghostSample_def rises_by_def)
  next
    case False
    from out[unfolded if_not_P[OF False]] obtain lg et sk sn where b': "\<not> tripped"
      "b' = (observeSample ts r env b)\<lparr>lastGrowth := lg, splashKnown := sk, splashNegAt := sn, effThreshold := et, consec := int ?n\<rparr>"
      using o by auto
    have cong: "gate_inv b' (ghostSample ts r env b tripped g) = gate_inv (observeSample ts r env b) (ghostSample ts r env b tripped g)"
      unfolding b'(2) by (rule gate_inv_cong) simp_all
    show ?thesis
    proof (cases "postActive (post (observeSample ts r env b))")
      case True
      then have act: "postActive (post b)" by (simp add: observeSample_gate)
      have "\<not> evicted (post (observeSample ts r env b)) \<longrightarrow> belowNext ts r b = 0"
        using gi act by (auto simp: observeSample_gate gate_inv_def belowNext_def awaitsExit_def)
      then show ?thesis unfolding cong unfolding gate_inv_def
        using gate_sample(1)[OF inv gi d ok act, where r = r] gate_sample(2)[OF inv gi d ok act, where r = r and env = env] act b'(1)
        by (simp add: observeSample_gate ghostSample_def quietWindow_of)
    qed (unfold cong, simp add: gate_inv_def)
  qed
qed

lemma NewBrake_gate: "gate_inv (NewBrake cfg h now file) \<lparr>gAll = [], gTrip = [], gReset = 0, gQuiet = []\<rparr>"
  by (simp add: gate_inv_def NewBrake_def loadHoldState_def Let_def rises_by_def split: option.split)

lemma breach_gate: "breach cfg b g \<Longrightarrow> cfg_ok cfg \<Longrightarrow> gate_inv b g"
proof (induction rule: breach.induct)
  case (sample b g ts r env b' tripped)
  then show ?case using gate_inv_sample breach_inv by blast
next
  case (timeout b g ts)
  then show ?case using gate_inv_cong[of "purgeTimedOut ts b" b g] by (simp add: purge_frame)
next
  case (return b g ts res)
  then show ?case using gate_inv_cong[of "purgeReturned ts res b" b g] by (simp add: purge_frame)
qed (simp add: NewBrake_gate)


section \<open>The quiet window\<close>

lemma shl64_exact: "0 \<le> x \<Longrightarrow> x * 2 ^ k < 2 ^ 63 \<Longrightarrow> shl64 x k = x * 2 ^ k"
proof -
  assume a: "0 \<le> x" "x * 2 ^ k < 2 ^ 63"
  have p: "push_bit k (word_of_int x :: 64 word) = word_of_int (x * 2 ^ k)" by (simp add: push_bit_eq_mult)
  have "0 \<le> x * 2 ^ k" using a(1) by simp
  then have "signed_take_bit 63 (x * 2 ^ k) = x * 2 ^ k" using a(2) by (intro signed_take_bit_int_eq_self) simp_all
  then show ?thesis unfolding shl64_def p sint_sbintrunc' by simp
qed

definition backoff_inv :: "Brake \<Rightarrow> bool" where
  "backoff_inv b \<longleftrightarrow> backoff b = 0 \<or> window b * 2 ^ backoff b < 2 * maxQuietWindow"

lemma nextBackoff_ok:
  assumes "0 < window b" "window b < 2 ^ 63" "backoff_inv b"
  shows "nextBackoff ts b = 0 \<or> window b * 2 ^ nextBackoff ts b < 2 * maxQuietWindow"
proof -
  have "window b * 2 ^ backoff b < 2 ^ 63" using assms(2,3) by (auto simp: backoff_inv_def maxQuietWindow_def)
  then have "shl64 (window b) (backoff b) = window b * 2 ^ backoff b" using assms(1) by (intro shl64_exact) simp_all
  then show ?thesis using assms(3) by (auto simp: nextBackoff_def backoff_inv_def)
qed

lemma trip_backoff: "\<exists>b2. backoff (trip ts r kids g lo sp b) = nextBackoff ts b2 \<and> window b2 = window b \<and> backoff b2 = backoff b"
proof -
  let ?b1 = "b\<lparr>acts := acts b @ map (\<lambda>c. Kill (lc_Pgid c)) kids\<rparr>" and ?ev = "tripEvent ts r kids g lo sp"
  let ?b2 = "if drainBelow ?b1 > 0 then writeHoldState ts (?b1\<lparr>hold := HoldSet ?ev (drainBelow ?b1) (hold ?b1)\<rparr>)
                else ?b1\<lparr>hold := HoldRecord ?ev (hold ?b1)\<rparr>"
  have "backoff (trip ts r kids g lo sp b) = nextBackoff ts ?b2" by (simp add: trip_def act_def Let_def)
  moreover have "window ?b2 = window b" "backoff ?b2 = backoff b" by (simp_all add: writeHoldState_def)
  ultimately show ?thesis by blast
qed

lemma breach_backoff:
  "breach cfg b g \<Longrightarrow> cfg_ok cfg \<Longrightarrow> 0 < WindowMinutes cfg \<Longrightarrow> WindowMinutes cfg * Minute < 2 ^ 63 \<Longrightarrow> backoff_inv b"
proof (induction rule: breach.induct)
  case (start h now fl)
  then show ?case by (simp add: backoff_inv_def NewBrake_def Let_def)
next
  case (sample b g ts r env b' tripped)
  let ?n = "streak (window b) (armAfter b) (ghostReset ts env b g) (rev (ghostTrip ts r env b g))"
  note inv = breach_inv[OF sample.hyps(1) sample.prems(1)]
  have bi: "backoff_inv b" using sample by blast
  have w: "0 < window b" "window b < 2 ^ 63" using inv sample.prems by (simp_all add: brake_inv_def)
  note out = observe_outcome[OF inv sample.hyps(2) sample.prems(1), where r = r and env = env]
  show ?case
  proof (cases "0 < ?n \<and> ConfirmSamples cfg \<le> int ?n")
    case True
    from out[unfolded if_P[OF True]] obtain lg et sk sn lo spanned k where b': "b' = resetWindow ts (trip ts r (envKids env) lg lo spanned
         ((observeSample ts r env b)\<lparr>lastGrowth := lg, splashKnown := sk, splashNegAt := sn, effThreshold := et, consec := k\<rparr>))"
      using sample.hyps(3) by auto
    obtain b2 where "backoff b' = nextBackoff ts b2" "window b2 = window b" "backoff b2 = backoff b"
      using trip_backoff[of ts r "envKids env" lg lo spanned "(observeSample ts r env b)\<lparr>lastGrowth := lg, splashKnown := sk,
         splashNegAt := sn, effThreshold := et, consec := k\<rparr>"] unfolding b' by auto
    moreover have "window b' = window b" by (simp add: b')
    ultimately show ?thesis using nextBackoff_ok[of b2 ts] w bi by (simp add: backoff_inv_def)
  next
    case False
    from out[unfolded if_not_P[OF False]] show ?thesis using sample.hyps(3) bi by (auto simp: backoff_inv_def)
  qed
qed (simp_all add: backoff_inv_def purge_frame)

text \<open>The quiet window is what the comment says: in every reachable brake with a positive window
  it is the window doubled once per backoff level and capped at an hour; the shift of a 64-bit
  duration never overflows, and six levels are the most there can be.\<close>

theorem quiet_window_exact:
  assumes "breach cfg b g" "cfg_ok cfg" "0 < WindowMinutes cfg" "WindowMinutes cfg * Minute < 2 ^ 63"
  shows "quietWindow b = min maxQuietWindow (window b * 2 ^ backoff b) \<and> backoff b \<le> 6"
proof -
  have w: "Minute \<le> window b" "window b < 2 ^ 63" using breach_inv[OF assms(1,2)] assms(3,4) by (simp_all add: brake_inv_def)
  have bi: "backoff_inv b" by (rule breach_backoff[OF assms])
  then have "window b * 2 ^ backoff b < 2 ^ 63" using w(2) by (auto simp: backoff_inv_def maxQuietWindow_def)
  then have s: "shl64 (window b) (backoff b) = window b * 2 ^ backoff b" using w(1) by (intro shl64_exact) simp_all
  have "0 < window b * 2 ^ backoff b" using w(1) by simp
  then have "quietWindow b = min maxQuietWindow (window b * 2 ^ backoff b)"
    unfolding quietWindow_def Let_def s by (simp add: min_def)
  moreover have "backoff b \<le> 6"
  proof (rule ccontr)
    assume "\<not> backoff b \<le> 6"
    then have "(2::int) ^ 7 \<le> 2 ^ backoff b" by (intro power_increasing) simp_all
    then have "Minute * 2 ^ 7 \<le> window b * 2 ^ backoff b" using w(1) by (intro mult_mono) simp_all
    then show False using bi \<open>\<not> backoff b \<le> 6\<close> by (simp add: backoff_inv_def maxQuietWindow_def)
  qed
  ultimately show ?thesis ..
qed

section \<open>Parked loads\<close>

datatype hold_op = OpSet BrakeEvent int | OpRecord BrakeEvent | OpRelease | OpLevel int

fun hold_step :: "hold_op \<Rightarrow> Hold \<Rightarrow> Hold" where
  "hold_step (OpSet ev level) h = HoldSet ev level h"
| "hold_step (OpRecord ev) h = HoldRecord ev h"
| "hold_step OpRelease h = HoldRelease h"
| "hold_step (OpLevel v) h = h\<lparr>hFileBacked := v\<rparr>"

definition hold_ok :: "Hold \<Rightarrow> bool" where
  "hold_ok h \<longleftrightarrow> (holding h \<longleftrightarrow> released h \<noteq> None) \<and> (\<forall>c \<in> set (closedChans h). c < chansMade h) \<and>
     (\<forall>c. released h = Some c \<longrightarrow> c < chansMade h \<and> c \<notin> set (closedChans h))"

lemma hold_step_ok: "hold_ok h \<Longrightarrow> hold_ok (hold_step op h)"
  by (cases op) (auto simp: hold_ok_def HoldSet_def HoldRecord_def HoldRelease_def Let_def split: option.split)

lemma hold_run_ok: "hold_ok h \<Longrightarrow> hold_ok (foldl (\<lambda>h op. hold_step op h) h ops)"
  by (induction ops arbitrary: h) (simp_all add: hold_step_ok)

lemma newHold_ok: "hold_ok newHold"
  by (simp add: hold_ok_def newHold_def)

lemma hold_waiter:
  assumes "hold_ok h" "released h = Some c"
  shows "c \<in> set (closedChans (foldl (\<lambda>h op. hold_step op h) h ops)) \<longleftrightarrow> OpRelease \<in> set ops"
proof -
  have closed: "c \<in> set (closedChans h) \<Longrightarrow> c \<in> set (closedChans (foldl (\<lambda>h op. hold_step op h) h ops))" for h ops
  proof (induction ops arbitrary: h)
    case (Cons op ops)
    have "c \<in> set (closedChans (hold_step op h))"
      using Cons.prems by (cases op) (auto simp: HoldSet_def HoldRecord_def HoldRelease_def Let_def split: option.split)
    then show ?case using Cons.IH by simp
  qed simp
  show ?thesis using assms
  proof (induction ops arbitrary: h)
    case Nil
    then show ?case by (simp add: hold_ok_def)
  next
    case (Cons op ops)
    show ?case
    proof (cases "op = OpRelease")
      case True
      have "c \<in> set (closedChans (hold_step op h))" using True Cons.prems by (simp add: HoldRelease_def hold_ok_def)
      then show ?thesis using closed True by simp
    next
      case False
      have "released (hold_step op h) = Some c"
        using False Cons.prems by (cases op) (auto simp: HoldSet_def HoldRecord_def Let_def hold_ok_def)
      then show ?thesis using Cons.IH[OF hold_step_ok[OF Cons.prems(1), of op]] False by (metis foldl_Cons set_ConsD list.set_intros(2))
    qed
  qed
qed

text \<open>A parked load waits for the gate and no longer. A load that arrives after any history of
  the gate passes later exactly when the gate was open as it came or has been released since,
  whatever else happened to the gate, further kills included.\<close>

theorem parked_until_release:
  fixes before ops :: "hold_op list"
  defines "h \<equiv> foldl (\<lambda>h op. hold_step op h) newHold before"
  shows "WaitPasses (WaitOn h) (foldl (\<lambda>h op. hold_step op h) h ops) \<longleftrightarrow> (if holding h then OpRelease \<in> set ops else True)"
proof -
  have ok: "hold_ok h" unfolding h_def by (intro hold_run_ok newHold_ok)
  show ?thesis
  proof (cases "released h")
    case None
    then show ?thesis using ok by (simp add: WaitPasses_def WaitOn_def hold_ok_def)
  next
    case (Some c)
    then show ?thesis using ok hold_waiter[OF ok Some] by (simp add: WaitPasses_def WaitOn_def hold_ok_def)
  qed
qed

section \<open>Purges\<close>

text \<open>The trips (\<open>False\<close>) and purge starts (\<open>True\<close>) the brake has made, in order.\<close>

definition markOf :: "BrakeAction \<Rightarrow> (gotime \<times> bool) option" where
  "markOf a = (case a of Tripped t \<Rightarrow> Some (t, False) | PurgeStart t \<Rightarrow> Some (t, True) | _ \<Rightarrow> None)"

definition marks :: "Brake \<Rightarrow> (gotime \<times> bool) list" where
  "marks b = List.map_filter markOf (acts b)"

definition startsPurge :: "gotime \<Rightarrow> Reading \<Rightarrow> Brake \<Rightarrow> bool" where
  "startsPurge ts r b \<longleftrightarrow> evicted (post b) \<and> \<not> (metric r < drainBelow b \<or> drainBelow b = 0) \<and> 0 < PurgeAfterMinutes (bcfg b) \<and>
     PurgeAfterMinutes (bcfg b) * Minute \<le> ts - max (lastStuckReport b) (lastPurgeAttempt b) \<and> \<not> purging b"

lemma marks_simps [simp]:
  "marks (act a b) = marks b @ (case markOf a of Some m \<Rightarrow> [m] | None \<Rightarrow> [])"
  "marks (b\<lparr>post := p\<rparr>) = marks b" "marks (b\<lparr>lastStuckReport := x\<rparr>) = marks b"
  "marks (b\<lparr>purging := q, lastPurgeAttempt := x, purgeStartedAt := y\<rparr>) = marks b" "marks (b\<lparr>purging := q\<rparr>) = marks b"
  "marks (b\<lparr>hold := h, lastReleaseAt := x\<rparr>) = marks b" "marks (b\<lparr>hold := h, files := f\<rparr>) = marks b" "marks (b\<lparr>started := s\<rparr>) = marks b"
  "marks (b\<lparr>post := p, hold := h, lastReleaseAt := x\<rparr>) = marks b"
  "marks (trackRise ts v b) = marks b" "marks (holdLog ts b) = marks b" "marks (removeHoldState b) = marks b"
  "marks (push ts v b) = marks b" "marks (resetWindow ts b) = marks b"
  by (simp_all add: marks_def act_def List.map_filter_def removeHoldState_def push_def resetWindow_def split: option.split)

lemma marks_evictAll [simp]: "marks (evictAll env b) = marks b"
  by (simp add: marks_def evictAll_def Let_def List.map_filter_def markOf_def o_def split: option.split)

lemma marks_release [simp]: "marks (releaseAfterDrain ts b) = marks b"
  by (simp add: releaseAfterDrain_def Let_def markOf_def)

lemma evictAll_stuck [simp]: "lastStuckReport (evictAll env b) = lastStuckReport b" "lastStuckReport (trackRise ts v b) = lastStuckReport b"
  by (simp_all add: evictAll_def trackRise_def Let_def split: option.split)

definition purgeDue :: "gotime \<Rightarrow> Brake \<Rightarrow> bool" where
  "purgeDue ts b \<longleftrightarrow> 0 < PurgeAfterMinutes (bcfg b) \<and>
     PurgeAfterMinutes (bcfg b) * Minute \<le> ts - max (lastStuckReport b) (lastPurgeAttempt b) \<and> \<not> purging b"

lemma maybePurge_marks:
  "marks (maybePurge ts b) = marks b @ (if purgeDue ts b then [(ts, True)] else [])"
  "lastPurgeAttempt (maybePurge ts b) = (if purgeDue ts b then ts else lastPurgeAttempt b)"
  "purging (maybePurge ts b) = (purging b \<or> purgeDue ts b)"
  by (auto simp: maybePurge_def purgeDue_def reportStuck_def startPurge_def Let_def markOf_def max_def) (simp_all add: act_def)

lemma purgeDue_frame [simp]:
  "purgeDue ts (evictAll env b) = purgeDue ts b" "purgeDue ts (trackRise ts' v b) = purgeDue ts b" "purgeDue ts (b\<lparr>post := p\<rparr>) = purgeDue ts b"
  "purgeDue ts (b\<lparr>hold := h, files := f\<rparr>) = purgeDue ts b"
  by (simp_all add: purgeDue_def)

lemma startsPurge_iff:
  "startsPurge ts r b \<longleftrightarrow> evicted (post b) \<and> \<not> (metric r < drainBelow b \<or> drainBelow b = 0) \<and> purgeDue ts b"
  by (auto simp: startsPurge_def purgeDue_def)

lemma drain_marks:
  "marks (drain ts r env b) = marks b @ (if startsPurge ts r b then [(ts, True)] else [])"
  "lastPurgeAttempt (drain ts r env b) = (if startsPurge ts r b then ts else lastPurgeAttempt b)"
  "purging (drain ts r env b) = (purging b \<or> startsPurge ts r b)"
  by (simp_all add: drain_def Let_def startsPurge_iff maybePurge_marks)

definition samplePurges :: "gotime \<Rightarrow> Reading \<Rightarrow> Brake \<Rightarrow> bool" where
  "samplePurges ts r b \<longleftrightarrow> postActive (post b) \<and> startsPurge ts r b"

lemma observeSample_marks:
  "marks (observeSample ts r env b) = marks b @ (if samplePurges ts r b then [(ts, True)] else [])"
  "lastPurgeAttempt (observeSample ts r env b) = (if samplePurges ts r b then ts else lastPurgeAttempt b)"
  "purging (observeSample ts r env b) = (purging b \<or> samplePurges ts r b)"
proof -
  have f: "startsPurge ts r (b\<lparr>hold := h, files := fs\<rparr>) = startsPurge ts r b" for h fs by (simp add: startsPurge_iff)
  show "marks (observeSample ts r env b) = marks b @ (if samplePurges ts r b then [(ts, True)] else [])"
    by (simp add: observeSample_def Let_def drain_marks f samplePurges_def)
  show "lastPurgeAttempt (observeSample ts r env b) = (if samplePurges ts r b then ts else lastPurgeAttempt b)"
    "purging (observeSample ts r env b) = (purging b \<or> samplePurges ts r b)"
    by (simp_all add: observeSample_def Let_def drain_marks f samplePurges_def push_def)
qed

lemma marks_kills: "List.map_filter markOf (map (\<lambda>c. Kill (lc_Pgid c)) kids) = []"
  by (induction kids) (simp_all add: List.map_filter_simps markOf_def)

lemma map_filter_append: "List.map_filter f (xs @ ys) = List.map_filter f xs @ List.map_filter f ys"
  by (simp add: List.map_filter_def)

lemma trip_marks: "marks (trip ts r kids g lo sp b) = marks b @ [(ts, False)]"
  by (simp add: marks_def acts_trip map_filter_append marks_kills) (simp add: List.map_filter_simps markOf_def)

definition apart :: "duration \<Rightarrow> (gotime \<times> bool) list \<Rightarrow> bool" where
  "apart d ms \<longleftrightarrow> sorted_wrt (\<lambda>x y. snd y \<longrightarrow> fst x + d \<le> fst y) ms"

definition purge_inv :: "MemoryBrakeConfig \<Rightarrow> Brake \<Rightarrow> Ghost \<Rightarrow> bool" where
  "purge_inv cfg b g \<longleftrightarrow> apart (PurgeAfterMinutes cfg * Minute) (marks b) \<and>
     (\<forall>m \<in> set (marks b). fst m \<le> lastPurgeAttempt b \<and> fst m \<in> fst ` set (gAll g))"

lemma apart_snoc: "apart d (ms @ [m]) \<longleftrightarrow> apart d ms \<and> (snd m \<longrightarrow> (\<forall>x \<in> set ms. fst x + d \<le> fst m))"
  by (auto simp: apart_def sorted_wrt_append)

lemma purge_inv_observeSample:
  fixes r :: Reading and env :: BrakeEnv
  assumes "brake_inv cfg b g" "purge_inv cfg b g" "due cfg ts g" "cfg_ok cfg"
  defines "B \<equiv> observeSample ts r env b"
  shows "apart (PurgeAfterMinutes cfg * Minute) (marks B) \<and>
     (\<forall>m \<in> set (marks B). fst m \<le> lastPurgeAttempt B \<and> fst m \<le> ts \<and> fst m \<in> fst ` set (gAll g @ [(ts, metric r)]))"
proof -
  have int: "0 < interval cfg" "spaced (interval cfg) (gAll g)" using assms(1,4) by (simp_all add: cfg_ok_def interval_def brake_inv_def)
  have ts: "fst m \<le> ts" if "m \<in> set (marks b)" for m
    using that assms(2) due_later[OF assms(3) int(2,1)] int(1) by (fastforce simp: purge_inv_def)
  have cfg: "bcfg b = cfg" using assms(1) by (simp add: brake_inv_def)
  have old: "apart (PurgeAfterMinutes cfg * Minute) (marks b)" "\<forall>m \<in> set (marks b). fst m \<le> lastPurgeAttempt b \<and> fst m \<in> fst ` set (gAll g)"
    using assms(2) by (auto simp: purge_inv_def)
  show ?thesis
  proof (cases "samplePurges ts r b")
    case True
    then have "PurgeAfterMinutes cfg * Minute \<le> ts - lastPurgeAttempt b" unfolding samplePurges_def startsPurge_def cfg by auto
    then have "apart (PurgeAfterMinutes cfg * Minute) (marks b @ [(ts, True)])" using old by (fastforce simp: apart_snoc)
    then show ?thesis using True old ts unfolding B_def by (auto simp: observeSample_marks)
  next
    case False
    then show ?thesis using old ts unfolding B_def by (auto simp: observeSample_marks)
  qed
qed

lemma breach_purge: "breach cfg b g \<Longrightarrow> cfg_ok cfg \<Longrightarrow> purge_inv cfg b g"
proof (induction rule: breach.induct)
  case (start h now fl)
  then show ?case by (simp add: purge_inv_def apart_def marks_def NewBrake_def Let_def List.map_filter_def)
next
  case (sample b g ts r env b' tripped)
  let ?n = "streak (window b) (armAfter b) (ghostReset ts env b g) (rev (ghostTrip ts r env b g))"
  note inv = breach_inv[OF sample.hyps(1) sample.prems]
  note P = purge_inv_observeSample[OF inv sample.IH[OF sample.prems] sample.hyps(2) sample.prems, where r = r and env = env]
  note out = observe_outcome[OF inv sample.hyps(2) sample.prems, where r = r and env = env]
  have m: "marks (B\<lparr>lastGrowth := lg, splashKnown := sk, splashNegAt := sn, effThreshold := et, consec := c\<rparr>) = marks B"
    for B lg sk sn et c by (simp add: marks_def)
  show ?case
  proof (cases "0 < ?n \<and> ConfirmSamples cfg \<le> int ?n")
    case True
    from out[unfolded if_P[OF True]] show ?thesis using sample.hyps(3) P
      by (auto simp: purge_inv_def m trip_marks apart_snoc ghostSample_def) fastforce+
  next
    case False
    from out[unfolded if_not_P[OF False]] show ?thesis using sample.hyps(3) P by (auto simp: purge_inv_def m ghostSample_def) fastforce+
  qed
next
  case (timeout b g ts)
  then show ?case by (simp add: purge_inv_def purgeTimedOut_def reportStuck_def markOf_def) (simp add: act_def)
next
  case (return b g ts res)
  then show ?case by (simp add: purge_inv_def purgeReturned_def reportStuck_def markOf_def) (simp add: act_def)
qed

text \<open>Purges never overlap and never hurry. In every reachable brake each purge was started at
  least \<open>PurgeAfterMinutes\<close> after every earlier kill and every earlier purge start, and a sample starts
  one only when none is in flight.\<close>

theorem purges_apart:
  assumes "breach cfg b g" "cfg_ok cfg"
  shows "sorted_wrt (\<lambda>x y. snd y \<longrightarrow> fst x + PurgeAfterMinutes cfg * Minute \<le> fst y) (marks b) \<and>
    ((ts, True) \<in> set (drop (length (marks b)) (marks (fst (observe ts r env b)))) \<longrightarrow> due cfg ts g \<longrightarrow>
      \<not> purging b \<and> purging (fst (observe ts r env b)))"
proof (intro conjI impI)
  show "sorted_wrt (\<lambda>x y. snd y \<longrightarrow> fst x + PurgeAfterMinutes cfg * Minute \<le> fst y) (marks b)"
    using breach_purge[OF assms] by (simp add: purge_inv_def apart_def)
next
  assume a: "(ts, True) \<in> set (drop (length (marks b)) (marks (fst (observe ts r env b))))" and d: "due cfg ts g"
  let ?n = "streak (window b) (armAfter b) (ghostReset ts env b g) (rev (ghostTrip ts r env b g))"
  note out = observe_outcome[OF breach_inv[OF assms] d assms(2), where r = r and env = env]
  have m: "marks (B\<lparr>lastGrowth := lg, splashKnown := sk, splashNegAt := sn, effThreshold := et, consec := c\<rparr>) = marks B"
    for B lg sk sn et c by (simp add: marks_def)
  have "samplePurges ts r b \<and> purging (fst (observe ts r env b)) = (purging b \<or> samplePurges ts r b)"
  proof (cases "0 < ?n \<and> ConfirmSamples cfg \<le> int ?n")
    case True
    from out[unfolded if_P[OF True]] show ?thesis using a by (auto simp: m trip_marks observeSample_marks split: if_splits)
  next
    case False
    from out[unfolded if_not_P[OF False]] show ?thesis using a by (auto simp: m observeSample_marks split: if_splits)
  qed
  then show "\<not> purging b" "purging (fst (observe ts r env b))" by (simp_all add: samplePurges_def startsPurge_def)
qed

section \<open>Witnesses\<close>

text \<open>A sample a minute, five minutes' window, 3 GB of growth: the third sample trips, the fourth evicts,
  the sixth opens the gate.\<close>

definition exBrakeCfg :: MemoryBrakeConfig where
  "exBrakeCfg = \<lparr>SampleIntervalMs = 60000, WindowMinutes = 5, GrowthGB = 3, ArmAfterMinutes = 0, ConfirmSamples = 1,
     DrainBelowGB = 12, SplashGrowthGB = 0, PurgeAfterMinutes = 10, HoldStatePath = []\<rparr>"

definition exBrakeEnv :: "bool \<Rightarrow> BrakeEnv" where
  "exBrakeEnv up = \<lparr>envKids = (if up then [\<lparr>lc_ID = ''m'', lc_Pgid = 42, lc_Files = [''m.gguf'']\<rparr>] else []), envLoading = False,
     envAlive = (\<lambda>_. False), envSplash = (\<lambda>_. False), envResample = None, envGlob = (\<lambda>_. [])\<rparr>"

definition exReading :: "int \<Rightarrow> Reading" where
  "exReading gb = \<lparr>Wired = 0, FileBacked = gb * gib, SwapUsed = 0\<rparr>"

definition exSamples :: "(gotime \<times> Reading \<times> BrakeEnv) list" where
  "exSamples = [(1 * Minute, exReading 1, exBrakeEnv True), (2 * Minute, exReading 1, exBrakeEnv True),
     (3 * Minute, exReading 5, exBrakeEnv True), (4 * Minute, exReading 5, exBrakeEnv False),
     (5 * Minute, exReading 5, exBrakeEnv False), (6 * Minute, exReading 5, exBrakeEnv False)]"

fun runSamples :: "MemoryBrakeConfig \<Rightarrow> (gotime \<times> Reading \<times> BrakeEnv) list \<Rightarrow> Brake \<times> Ghost \<Rightarrow> (Brake \<times> Ghost) option" where
  "runSamples cfg [] s = Some s"
| "runSamples cfg ((ts, r, env) # ss) (b, g) =
     (if due cfg ts g then (case observe ts r env b of (b', tripped) \<Rightarrow> runSamples cfg ss (b', ghostSample ts r env b tripped g))
      else None)"

lemma runSamples_breach: "breach cfg b g \<Longrightarrow> runSamples cfg ss (b, g) = Some (b', g') \<Longrightarrow> breach cfg b' g'"
proof (induction ss arbitrary: b g)
  case (Cons s ss)
  obtain ts r env where s: "s = (ts, r, env)" by (cases s)
  obtain b1 tr where o: "observe ts r env b = (b1, tr)" by fastforce
  have "due cfg ts g" "runSamples cfg ss (b1, ghostSample ts r env b tr g) = Some (b', g')"
    using Cons.prems(2) by (simp_all add: s o split: if_splits)
  then show ?case using Cons.IH[OF breach.sample[OF Cons.prems(1) _ o]] by blast
qed simp

definition exAfter :: "nat \<Rightarrow> Brake \<times> Ghost" where
  "exAfter n = the (runSamples exBrakeCfg (take n exSamples)
     (NewBrake exBrakeCfg newHold 0 None, \<lparr>gAll = [], gTrip = [], gReset = 0, gQuiet = []\<rparr>))"

lemma exAfter_breach:
  assumes "runSamples exBrakeCfg (take n exSamples)
     (NewBrake exBrakeCfg newHold 0 None, \<lparr>gAll = [], gTrip = [], gReset = 0, gQuiet = []\<rparr>) \<noteq> None"
  shows "breach exBrakeCfg (fst (exAfter n)) (snd (exAfter n))"
proof -
  obtain b g where "runSamples exBrakeCfg (take n exSamples)
     (NewBrake exBrakeCfg newHold 0 None, \<lparr>gAll = [], gTrip = [], gReset = 0, gQuiet = []\<rparr>) = Some (b, g)" using assms by auto
  then show ?thesis using runSamples_breach[OF breach.start] by (simp add: exAfter_def)
qed

lemma exBrakeCfg_ok: "cfg_ok exBrakeCfg"
  by code_simp

lemma ex2_breach: "breach exBrakeCfg (fst (exAfter 2)) (snd (exAfter 2))"
  by (rule exAfter_breach) code_simp

lemma ex5_breach: "breach exBrakeCfg (fst (exAfter 5)) (snd (exAfter 5))"
  by (rule exAfter_breach) code_simp


theorem quiet_window_exact_witness:
  "quietWindow (fst (exAfter 5)) = min maxQuietWindow (window (fst (exAfter 5)) * 2 ^ backoff (fst (exAfter 5)))"
proof -
  have "0 < WindowMinutes exBrakeCfg" "WindowMinutes exBrakeCfg * Minute < 2 ^ 63" by code_simp+
  from quiet_window_exact[OF ex5_breach exBrakeCfg_ok this] show ?thesis by blast
qed

theorem purges_apart_witness: "apart (10 * Minute) (marks (fst (exAfter 5)))"
proof -
  have "PurgeAfterMinutes exBrakeCfg = 10" by code_simp
  then show ?thesis using purges_apart[OF ex5_breach exBrakeCfg_ok] unfolding apart_def by simp
qed

theorem trips_exactly_witness:
  "snd (observe (3 * Minute) (exReading 5) (exBrakeEnv True) (fst (exAfter 2))) \<and>
   kills (fst (observe (3 * Minute) (exReading 5) (exBrakeEnv True) (fst (exAfter 2)))) = [42]"
proof -
  let ?o = "observe (3 * Minute) (exReading 5) (exBrakeEnv True) (fst (exAfter 2))"
  have d: "due exBrakeCfg (3 * Minute) (snd (exAfter 2))" "1 \<le> ConfirmSamples exBrakeCfg" by code_simp+
  have t: "snd ?o" by code_simp
  have k: "kills (fst (exAfter 2)) = []" "map lc_Pgid (envKids (exBrakeEnv True)) = [42]" by code_simp+
  from conjunct2[OF trips_exactly[OF ex2_breach exBrakeCfg_ok d, where r = "exReading 5" and env = "exBrakeEnv True"]]
  have "kills (fst ?o) = [] @ [42]" unfolding k if_P[OF t] .
  then show ?thesis using t by simp
qed

end
