(* ===== verification/GoStrings.thy ===== *)
theory GoStrings
  imports Prelude
begin

text \<open>
  What the code uses of Go's \<open>strings\<close>, \<open>bytes\<close> and \<open>strconv\<close> packages. A string is its bytes, one \<open>char\<close>
  each. \<open>ToLower\<close> is the ASCII part of Go's: the code compares with ASCII words only.
\<close>

section \<open>Prefixes, suffixes, parts\<close>

definition hasPrefix :: "string \<Rightarrow> string \<Rightarrow> bool" where
  "hasPrefix s pre = (take (length pre) s = pre)"

definition hasSuffix :: "string \<Rightarrow> string \<Rightarrow> bool" where
  "hasSuffix s suf = (length suf \<le> length s \<and> drop (length s - length suf) s = suf)"

fun containsSub :: "string \<Rightarrow> string \<Rightarrow> bool" where
  "containsSub pat [] = (pat = [])"
| "containsSub pat (c # cs) = (take (length pat) (c # cs) = pat \<or> containsSub pat cs)"

fun splitByte :: "char \<Rightarrow> string \<Rightarrow> string list" where
  "splitByte sep [] = [[]]"
| "splitByte sep (c # s) = (if c = sep then [] # splitByte sep s else
     (case splitByte sep s of [] \<Rightarrow> [[c]] | p # ps \<Rightarrow> (c # p) # ps))"

section \<open>Numbers and case\<close>

fun itoa :: "nat \<Rightarrow> string" where
  "itoa n = (if n < 10 then [char_of (48 + n)] else itoa (n div 10) @ [char_of (48 + n mod 10)])"

declare itoa.simps [simp del]

lemma itoa_nonempty: "itoa n \<noteq> []"
  by (subst itoa.simps) simp

definition toLowerByte :: "char \<Rightarrow> char" where
  "toLowerByte c = (if 65 \<le> (of_char c :: nat) \<and> (of_char c :: nat) \<le> 90 then char_of ((of_char c :: nat) + 32) else c)"

definition ToLower :: "string \<Rightarrow> string" where
  "ToLower s = map toLowerByte s"

section \<open>White space\<close>

text \<open>The encodings of the white space characters: ASCII, U+0085, U+00A0, U+1680, U+2000 to U+200A, U+2028,
  U+2029, U+202F, U+205F, U+3000.\<close>

definition goSpaces :: "string list" where
  "goSpaces = map (\<lambda>c. [c]) [CHR 9, CHR 10, CHR 11, CHR 12, CHR 13, CHR 32]
     @ [[CHR 0xC2, CHR 0x85], [CHR 0xC2, CHR 0xA0], [CHR 0xE1, CHR 0x9A, CHR 0x80]]
     @ map (\<lambda>n. [CHR 0xE2, CHR 0x80, char_of (0x80 + n)]) [0..<11]
     @ [[CHR 0xE2, CHR 0x80, CHR 0xA8], [CHR 0xE2, CHR 0x80, CHR 0xA9], [CHR 0xE2, CHR 0x80, CHR 0xAF],
        [CHR 0xE2, CHR 0x81, CHR 0x9F], [CHR 0xE3, CHR 0x80, CHR 0x80]]"

text \<open>Strip leading members of a list of strings; one byte at least goes at each step.\<close>

fun stripLeft :: "string list \<Rightarrow> nat \<Rightarrow> string \<Rightarrow> string" where
  "stripLeft sps 0 s = s"
| "stripLeft sps (Suc n) s =
     (case filter (hasPrefix s) sps of [] \<Rightarrow> s | sp # _ \<Rightarrow> stripLeft sps n (drop (length sp) s))"

definition TrimSpaceUTF8 :: "string \<Rightarrow> string" where
  "TrimSpaceUTF8 s =
     (let l = stripLeft goSpaces (length s) s
      in rev (stripLeft (map rev goSpaces) (length l) (rev l)))"

end
