(* ===== verification/ProcessCommand.thy ===== *)
theory ProcessCommand
  imports Scheduler GoStrings
begin

text \<open>
  One upstream process, \<open>internal/process\<close>: the run loop that owns its lifecycle, the start of a
  child with its health check and the reclaiming of an orphaned port (\<open>process_command.go\<close>,
  \<open>reclaim.go\<close>), what the live registry tells the memory brake (\<open>live_registry.go\<close>), the idle TTL
  and the restart on compute errors.

  The run loop is a step function on \<open>Proc\<close>: an event is what its \<open>select\<close> receives, and \<open>None\<close>
  says that it cannot receive it now (while a start is under way it listens only for the start's
  result, a stop and the shutdown). Callers are identities; \<open>answers\<close> is what was sent on their
  channels. Commands are identities too, and \<open>children\<close> are those that run. What the outside does
  during a start is a script (\<open>StartEnv\<close>). Log lines, the reverse proxy and signals are I/O.
\<close>

section \<open>Starting a child\<close>

datatype perr = ErrStartAborted | ErrUpstreamPrematureExit | ErrHealthTimeout | ErrProxyMissing | ErrSanitize | ErrProxyURL
  | ErrCmdStart | ErrShutdown | ErrExited | ErrStoppedByCaller | ErrBadState ProcessState

datatype startResult = StartOk nat | StartErr perr

text \<open>Every error after the command has started comes with its end: \<open>abort\<close> kills it and waits, and a
  premature exit is one. So a \<open>StartErr\<close> leaves no child, and a \<open>StartOk\<close> one.

  One round of the health check: what the first \<open>select\<close> saw, the clock, the status of the poll,
  whether the start was cancelled meanwhile, and what the closing \<open>select\<close> saw.\<close>

datatype sel = SelCancel | SelExit | SelTick

record Poll =
  pollFirst :: sel
  pollNow :: gotime
  pollStatus :: int
  pollCancelled :: bool
  pollThen :: sel

record StartEnv =
  proxyEmpty :: bool
  sanitizeFails :: bool
  proxyURLFails :: bool
  cmdStartFails :: bool
  childPid :: nat
  cancelledAtStart :: bool
  checkNone :: bool
  cancelledAtBoot :: bool
  bootNow :: gotime
  polls :: "Poll list"

fun healthLoop :: "gotime \<Rightarrow> nat \<Rightarrow> Poll list \<Rightarrow> startResult option" where
  "healthLoop deadline pid [] = None"
| "healthLoop deadline pid (q # qs) =
     (case pollFirst q of
        SelCancel \<Rightarrow> Some (StartErr ErrStartAborted)
      | SelExit \<Rightarrow> Some (StartErr ErrUpstreamPrematureExit)
      | SelTick \<Rightarrow>
          (if pollNow q > deadline then Some (StartErr ErrHealthTimeout)
           else if pollStatus q = 200 then Some (StartOk pid)
           else if pollCancelled q then Some (StartErr ErrStartAborted)
           else (case pollThen q of
               SelCancel \<Rightarrow> Some (StartErr ErrStartAborted)
             | SelExit \<Rightarrow> Some (StartErr ErrUpstreamPrematureExit)
             | SelTick \<Rightarrow> healthLoop deadline pid qs)))"

definition startConfigError :: "StartEnv \<Rightarrow> perr option" where
  "startConfigError e =
     (if proxyEmpty e then Some ErrProxyMissing
      else if sanitizeFails e then Some ErrSanitize
      else if proxyURLFails e then Some ErrProxyURL
      else None)"

definition doStart :: "duration \<Rightarrow> StartEnv \<Rightarrow> startResult option" where
  "doStart timeout e =
     (case startConfigError e of
        Some err \<Rightarrow> Some (StartErr err)
      | None \<Rightarrow>
         (if cmdStartFails e then Some (StartErr ErrCmdStart)
          else if cancelledAtStart e then Some (StartErr ErrStartAborted)
          else if checkNone e then Some (StartOk (childPid e))
          else if cancelledAtBoot e then Some (StartErr ErrStartAborted)
          else healthLoop (bootNow e + timeout) (childPid e) (polls e)))"

section \<open>Reclaiming an orphaned port\<close>

record portHolder =
  holderPid :: int
  holderPpid :: int
  holderArgv :: string

text \<open>\<open>envPort\<close> is \<open>upstreamPort\<close> of the proxy URL; \<open>lsof\<close> the processes listening on it and \<open>ps\<close> the
  parent and the command line of one; \<open>signalFails\<close> the outcome of \<open>syscall.Kill\<close>; \<open>portPolls\<close> the rounds
  of \<open>waitPortFree\<close>: whether the port could be bound, and the clock after it could not.\<close>

record ReclaimEnv =
  envPort :: "nat option"
  lsof :: "int list"
  ps :: "int \<Rightarrow> (int \<times> string) option"
  signalFails :: bool
  killNow :: gotime
  portPolls :: "(bool \<times> gotime) list"

definition findPortHolder :: "ReclaimEnv \<Rightarrow> portHolder option" where
  "findPortHolder e =
     (case lsof e of
        [pid] \<Rightarrow> map_option (\<lambda>(ppid, argv). \<lparr>holderPid = pid, holderPpid = ppid, holderArgv = argv\<rparr>) (ps e pid)
      | _ \<Rightarrow> None)"

text \<open>The process signalled, and whether that succeeded.\<close>

definition killPID :: "int \<Rightarrow> bool \<Rightarrow> int option \<times> bool" where
  "killPID pid fails = (if pid \<le> 1 then (None, False) else (Some pid, \<not> fails))"

definition reclaimSettleTimeout :: duration where "reclaimSettleTimeout = 20 * Second"

fun waitPortFree :: "gotime \<Rightarrow> (bool \<times> gotime) list \<Rightarrow> bool option" where
  "waitPortFree deadline [] = None"
| "waitPortFree deadline ((bound, ts) # qs) =
     (if bound then Some True else if ts > deadline then Some False else waitPortFree deadline qs)"

definition isSep :: "char \<Rightarrow> bool" where
  "isSep c = (c \<in> set '' =:'' \<or> c = CHR 9)"

fun fieldsFunc :: "string \<Rightarrow> string \<Rightarrow> string list" where
  "fieldsFunc acc [] = (if acc = [] then [] else [acc])"
| "fieldsFunc acc (c # cs) =
     (if isSep c then (if acc = [] then fieldsFunc [] cs else acc # fieldsFunc [] cs) else fieldsFunc (acc @ [c]) cs)"

definition argvCarriesPort :: "string \<Rightarrow> nat \<Rightarrow> bool" where
  "argvCarriesPort argv port = list_ex (\<lambda>f. f = itoa port) (fieldsFunc [] argv)"

text \<open>The process killed, if any, and whether the port is free to retry.\<close>

definition reclaimOrphanedUpstream :: "ReclaimEnv \<Rightarrow> (int option \<times> bool) option" where
  "reclaimOrphanedUpstream e =
     (case envPort e of None \<Rightarrow> Some (None, False)
      | Some port \<Rightarrow>
         (case findPortHolder e of None \<Rightarrow> Some (None, False)
          | Some h \<Rightarrow>
             (if holderPpid h \<noteq> 1 then Some (None, False)
              else if \<not> argvCarriesPort (holderArgv h) port then Some (None, False)
              else case killPID (holderPid h) (signalFails e) of (killed, ok) \<Rightarrow>
                (if \<not> ok then Some (killed, False)
                 else map_option (\<lambda>free. (killed, free))
                        (waitPortFree (killNow e + reclaimSettleTimeout) (portPolls e))))))"

text \<open>The result, the processes killed, and how many times \<open>doStart\<close> ran.\<close>

definition startWithOrphanReclaim :: "duration \<Rightarrow> StartEnv \<Rightarrow> ReclaimEnv \<Rightarrow> StartEnv \<Rightarrow> (startResult \<times> int list \<times> nat) option" where
  "startWithOrphanReclaim timeout e1 re e2 =
     (case doStart timeout e1 of None \<Rightarrow> None
      | Some res \<Rightarrow>
         (if res \<noteq> StartErr ErrUpstreamPrematureExit then Some (res, [], 1)
          else case reclaimOrphanedUpstream re of None \<Rightarrow> None
            | Some (killed, ok) \<Rightarrow>
                (let ks = (case killed of Some p \<Rightarrow> [p] | None \<Rightarrow> []) in
                 if \<not> ok then Some (res, ks, 1)
                 else map_option (\<lambda>res2. (res2, ks, 2)) (doStart timeout e2))))"

section \<open>The run loop\<close>

text \<open>\<open>starting\<close> is the start request under way (its caller, and whether \<open>Run\<close> made it); \<open>parked\<close> the
  callers of \<open>WaitReady\<close>; \<open>answers\<close> holds the state each answer was given in.\<close>

record Proc =
  pstate :: ProcessState
  pcmd :: "nat option"
  phandler :: "nat option"
  parked :: "nat list"
  runResp :: "nat option"
  starting :: "(nat \<times> bool) option"
  ended :: bool
  children :: "nat list"
  answered :: "(nat \<times> perr option \<times> ProcessState) list"
  changes :: "(ProcessState \<times> ProcessState) list"
  lastUse :: gotime
  serving :: int

definition newProc :: Proc where
  "newProc = \<lparr>pstate = StateStopped, pcmd = None, phandler = None, parked = [], runResp = None, starting = None,
     ended = False, children = [], answered = [], changes = [], lastUse = 0, serving = 0\<rparr>"

definition setState :: "ProcessState \<Rightarrow> Proc \<Rightarrow> Proc" where
  "setState s p = p\<lparr>pstate := s, changes := (if pstate p \<noteq> s then changes p @ [(pstate p, s)] else changes p)\<rparr>"

definition respond :: "nat \<Rightarrow> perr option \<Rightarrow> Proc \<Rightarrow> Proc" where
  "respond x res p = p\<lparr>answered := answered p @ [(x, res, pstate p)]\<rparr>"

definition notifyWaiters :: "perr option \<Rightarrow> Proc \<Rightarrow> Proc" where
  "notifyWaiters res p = (foldl (\<lambda>p x. respond x res p) p (parked p))\<lparr>parked := []\<rparr>"

definition respondRun :: "perr option \<Rightarrow> Proc \<Rightarrow> Proc" where
  "respondRun res p = (case runResp p of None \<Rightarrow> p | Some x \<Rightarrow> (respond x res p)\<lparr>runResp := None\<rparr>)"

text \<open>\<open>killProcess\<close> returns when the command has exited.\<close>

definition killProcess :: "nat \<Rightarrow> Proc \<Rightarrow> Proc" where
  "killProcess c p = p\<lparr>children := filter (\<lambda>x. x \<noteq> c) (children p)\<rparr>"

definition clearCmd :: "Proc \<Rightarrow> Proc" where
  "clearCmd p = p\<lparr>pcmd := None, phandler := None\<rparr>"

datatype ProcEv = PParentDone | PCmdDone | PWaitReady nat | PStart nat bool
  | PStartResult startResult gotime | PStopStarting nat startResult | PParentDoneStarting startResult | PStop nat

definition onParentDone :: "Proc \<Rightarrow> Proc" where
  "onParentDone p =
     (let p = setState StateShutdown p;
          p = (case pcmd p of None \<Rightarrow> p | Some c \<Rightarrow> clearCmd (killProcess c p))
      in (respondRun (Some ErrShutdown) (notifyWaiters (Some ErrShutdown) p))\<lparr>ended := True\<rparr>)"

definition onCmdDone :: "Proc \<Rightarrow> Proc" where
  "onCmdDone p =
     respondRun (Some ErrExited) (notifyWaiters (Some ErrExited) (setState StateStopped (clearCmd p)))"

definition onWaitReady :: "nat \<Rightarrow> Proc \<Rightarrow> Proc" where
  "onWaitReady x p =
     (case pstate p of StateReady \<Rightarrow> respond x None p
      | StateShutdown \<Rightarrow> respond x (Some ErrShutdown) p
      | _ \<Rightarrow> p\<lparr>parked := parked p @ [x]\<rparr>)"

definition onStart :: "nat \<Rightarrow> bool \<Rightarrow> Proc \<Rightarrow> Proc" where
  "onStart x block p =
     (if \<not> block \<and> pstate p = StateReady then respond x None p
      else if \<not> block \<and> pstate p = StateShutdown then respond x (Some ErrShutdown) p
      else if pstate p \<noteq> StateStopped then respond x (Some (ErrBadState (pstate p))) p
      else (setState StateStarting p)\<lparr>starting := Some (x, block)\<rparr>)"

definition onStartResult :: "nat \<Rightarrow> bool \<Rightarrow> startResult \<Rightarrow> gotime \<Rightarrow> Proc \<Rightarrow> Proc" where
  "onStartResult x block res ts p =
     (let p = p\<lparr>starting := None\<rparr> in
      case res of
        StartOk c \<Rightarrow>
          (let p = notifyWaiters None (setState StateReady (p\<lparr>pcmd := Some c, phandler := Some c, children := c # children p, lastUse := ts\<rparr>))
           in if block then p\<lparr>runResp := Some x\<rparr> else respond x None p)
      | StartErr e \<Rightarrow> respond x (Some e) (notifyWaiters (Some e) (setState StateStopped p)))"

text \<open>The start goroutine may have finished before the cancellation took effect.\<close>

definition killStarted :: "startResult \<Rightarrow> Proc \<Rightarrow> Proc" where
  "killStarted res p = (case res of StartOk c \<Rightarrow> killProcess c (p\<lparr>children := c # children p\<rparr>) | StartErr e \<Rightarrow> p)"

definition onStopStarting :: "nat \<Rightarrow> nat \<Rightarrow> startResult \<Rightarrow> Proc \<Rightarrow> Proc" where
  "onStopStarting x y res p =
     (let p = killStarted res (p\<lparr>starting := None\<rparr>);
          p = respond x (Some ErrStartAborted) (notifyWaiters (Some ErrStartAborted) (setState StateStopped p))
      in respond y None p)"

definition onParentDoneStarting :: "startResult \<Rightarrow> Proc \<Rightarrow> Proc" where
  "onParentDoneStarting res p =
     (respondRun (Some ErrShutdown) (notifyWaiters (Some ErrShutdown) (killStarted res (setState StateShutdown p))))\<lparr>ended := True\<rparr>"

definition onStop :: "nat \<Rightarrow> Proc \<Rightarrow> Proc" where
  "onStop y p =
     (let toreDown = pcmd p \<noteq> None;
          p = (case pcmd p of None \<Rightarrow> p | Some c \<Rightarrow> clearCmd (killProcess c (setState StateStopping p)));
          p = setState StateStopped p;
          p = (if toreDown then notifyWaiters (Some ErrStoppedByCaller) p else p)
      in respond y None (respondRun None p))"

text \<open>The upstream's own exit is seen only while it runs and the loop is idle.\<close>

fun procStep :: "ProcEv \<Rightarrow> Proc \<Rightarrow> Proc option" where
  "procStep PParentDone p = (if ended p \<or> starting p \<noteq> None then None else Some (onParentDone p))"
| "procStep PCmdDone p = (if ended p \<or> starting p \<noteq> None then None
     else case pcmd p of None \<Rightarrow> None | Some c \<Rightarrow> Some (onCmdDone (p\<lparr>children := filter (\<lambda>x. x \<noteq> c) (children p)\<rparr>)))"
| "procStep (PWaitReady x) p = (if ended p \<or> starting p \<noteq> None then None else Some (onWaitReady x p))"
| "procStep (PStart x block) p = (if ended p \<or> starting p \<noteq> None then None else Some (onStart x block p))"
| "procStep (PStop y) p = (if ended p \<or> starting p \<noteq> None then None else Some (onStop y p))"
| "procStep (PStartResult res ts) p =
     (if ended p then None else case starting p of None \<Rightarrow> None | Some (x, block) \<Rightarrow> Some (onStartResult x block res ts p))"
| "procStep (PStopStarting y res) p =
     (if ended p then None else case starting p of None \<Rightarrow> None | Some (x, block) \<Rightarrow> Some (onStopStarting x y res p))"
| "procStep (PParentDoneStarting res) p =
     (if ended p then None else case starting p of None \<Rightarrow> None | Some (x, block) \<Rightarrow> Some (onParentDoneStarting res p))"

section \<open>Serving, idle TTL, compute errors\<close>

text \<open>\<open>ServeHTTP\<close> before and after the call of the handler; \<open>None\<close> is the 503 of a process that is not
  ready, and \<open>bypass\<close> a websocket upgrade of a model that ignores websockets, which is not counted.\<close>

definition serveBegin :: "bool \<Rightarrow> Proc \<Rightarrow> Proc option" where
  "serveBegin bypass p =
     (case phandler p of None \<Rightarrow> None | Some c \<Rightarrow> if bypass then Some p else Some (p\<lparr>serving := serving p + 1\<rparr>))"

definition serveEnd :: "bool \<Rightarrow> bool \<Rightarrow> gotime \<Rightarrow> Proc \<Rightarrow> Proc" where
  "serveEnd bypass statusRead ts p =
     (if bypass then p else (if statusRead then p else p\<lparr>lastUse := ts\<rparr>)\<lparr>serving := serving p - 1\<rparr>)"

text \<open>One tick of the TTL goroutine: it ends with the state, goes on, or stops the process and ends.\<close>

datatype ttlAct = TtlGone | TtlKeep | TtlUnload

definition ttlTick :: "int \<Rightarrow> bool \<Rightarrow> gotime \<Rightarrow> Proc \<Rightarrow> ttlAct" where
  "ttlTick unloadAfter allowEvict ts p =
     (if pstate p \<noteq> StateReady then TtlGone
      else if \<not> allowEvict then TtlKeep
      else if serving p \<noteq> 0 then TtlKeep
      else if ts - lastUse p > unloadAfter * Second then TtlUnload
      else TtlKeep)"

definition computeErrorRestartThreshold :: int where "computeErrorRestartThreshold = 3"
definition computeErrorSignature :: string where "computeErrorSignature = ''Compute error''"
definition computeErrorBodyPeekBytes :: nat where "computeErrorBodyPeekBytes = 4096"

record ErrTrack =
  computeErrorCount :: int
  computeErrorRestarting :: bool

text \<open>A response: its status and its body, \<open>None\<close> when there is none. The result says whether a restart
  is triggered.\<close>

definition trackComputeErrorState :: "int \<Rightarrow> string option \<Rightarrow> ErrTrack \<Rightarrow> ErrTrack \<times> bool" where
  "trackComputeErrorState status body t =
     (if 200 \<le> status \<and> status < 300 then (t\<lparr>computeErrorCount := 0\<rparr>, False)
      else case body of
        Some b \<Rightarrow>
          (if status = 500 \<and> containsSub computeErrorSignature (take computeErrorBodyPeekBytes b) then
             (let t = t\<lparr>computeErrorCount := computeErrorCount t + 1\<rparr> in
              if computeErrorCount t \<ge> computeErrorRestartThreshold \<and> \<not> computeErrorRestarting t
              then (t\<lparr>computeErrorRestarting := True\<rparr>, True) else (t, False))
           else (t, False))
      | None \<Rightarrow> (t, False))"

text \<open>The end of \<open>restartOnComputeError\<close>, and the top of \<open>doStart\<close>.\<close>

definition resetComputeErrors :: "ErrTrack \<Rightarrow> ErrTrack" where
  "resetComputeErrors t = t\<lparr>computeErrorCount := 0, computeErrorRestarting := False\<rparr>"

section \<open>The live registry\<close>

definition modelFileFlags :: "string list" where
  "modelFileFlags = [''-m'', ''--model'', ''-mm'', ''--mmproj'', ''-md'', ''--model-draft'']"

fun cutEq :: "string \<Rightarrow> string \<Rightarrow> (string \<times> string) option" where
  "cutEq acc [] = None"
| "cutEq acc (c # cs) = (if c = CHR ''='' then Some (acc, cs) else cutEq (acc @ [c]) cs)"

fun ModelFiles :: "string list \<Rightarrow> string list" where
  "ModelFiles [] = []"
| "ModelFiles (a # as) =
     (case cutEq [] a of
        Some (k, v) \<Rightarrow>
          (if k \<in> set modelFileFlags then (if v \<noteq> [] then v # ModelFiles as else ModelFiles as)
           else if a \<in> set modelFileFlags then (case as of [] \<Rightarrow> [] | b # bs \<Rightarrow> b # ModelFiles bs) else ModelFiles as)
      | None \<Rightarrow>
          (if a \<in> set modelFileFlags then (case as of [] \<Rightarrow> [] | b # bs \<Rightarrow> b # ModelFiles bs) else ModelFiles as))"

text \<open>\<open>live\<close>: a process' group and files, from the start of its command to its end.\<close>

record liveEntry =
  pgid :: int
  liveFiles :: "string list"

type_synonym liveMap = "(string \<times> liveEntry) list"

definition registerLive :: "string \<Rightarrow> int \<Rightarrow> string list \<Rightarrow> liveMap \<Rightarrow> liveMap" where
  "registerLive p g args live = AList.update p \<lparr>pgid = g, liveFiles = ModelFiles args\<rparr> live"

definition unregisterLive :: "string \<Rightarrow> liveMap \<Rightarrow> liveMap" where
  "unregisterLive p live = AList.delete p live"

definition mergeLiveFiles :: "string list \<Rightarrow> string list \<Rightarrow> string list" where
  "mergeLiveFiles fs argv = foldl (\<lambda>out f. if f \<in> set out then out else out @ [f]) fs (ModelFiles argv)"

text \<open>\<open>processArgv\<close> is the operating system's answer; the registry may have changed while it was read.\<close>

definition resolveLiveFiles :: "string \<Rightarrow> (int \<Rightarrow> string list option) \<Rightarrow> liveMap \<Rightarrow> liveMap \<Rightarrow> liveMap" where
  "resolveLiveFiles p processArgv live live2 =
     (case map_of live p of None \<Rightarrow> live2
      | Some e \<Rightarrow>
         (case processArgv (pgid e) of None \<Rightarrow> live2
          | Some argv \<Rightarrow>
             (let merged = mergeLiveFiles (liveFiles e) argv in
              if length merged = length (liveFiles e) then live2
              else case map_of live2 p of
                     Some cur \<Rightarrow> if pgid cur = pgid e then AList.update p (cur\<lparr>liveFiles := merged\<rparr>) live2 else live2
                   | None \<Rightarrow> live2)))"

definition SnapshotLive :: "(string \<Rightarrow> ProcessState) \<Rightarrow> liveMap \<Rightarrow> (string \<times> int \<times> string list) list \<times> bool" where
  "SnapshotLive stateOf live = (map (\<lambda>(p, e). (p, pgid e, liveFiles e)) live,
     list_ex (\<lambda>(p, e). stateOf p = StateStarting \<or> stateOf p = StateStopping) live)"

end
