(* ===== verification/ProcessSafety.thy ===== *)
theory ProcessSafety
  imports ProcessCommand "HOL-Library.Multiset"
begin

text \<open>
  What one upstream process guarantees: the start loop ends and says ready exactly when it should, only
  an orphan on the model's own port is ever killed, the run loop keeps its state consistent and leaves no
  caller unanswered, and compute errors restart a child exactly at the third in a row.
\<close>

section \<open>Starting\<close>

text \<open>What one round of the health check decides.\<close>

definition roundPasses :: "gotime \<Rightarrow> Poll \<Rightarrow> bool" where
  "roundPasses deadline q = (pollFirst q = SelTick \<and> pollNow q \<le> deadline \<and> pollStatus q = 200)"

definition roundGoesOn :: "gotime \<Rightarrow> Poll \<Rightarrow> bool" where
  "roundGoesOn deadline q = (pollFirst q = SelTick \<and> pollNow q \<le> deadline \<and> pollStatus q \<noteq> 200
     \<and> \<not> pollCancelled q \<and> pollThen q = SelTick)"

lemma healthLoop_ends: "\<exists>q\<in>set qs. pollNow q > d \<Longrightarrow> \<exists>r. healthLoop d c qs = Some r"
  by (induction qs) (auto split: sel.splits)

lemma healthLoop_ok:
  "healthLoop d c qs = Some (StartOk k) \<longleftrightarrow>
     k = c \<and> (\<exists>n<length qs. roundPasses d (qs ! n) \<and> (\<forall>m<n. roundGoesOn d (qs ! m)))"
proof (induction qs)
  case (Cons q qs)
  have ex: "(\<exists>n<length (q # qs). roundPasses d ((q # qs) ! n) \<and> (\<forall>m<n. roundGoesOn d ((q # qs) ! m)))
      \<longleftrightarrow> roundPasses d q \<or> (roundGoesOn d q \<and> (\<exists>n<length qs. roundPasses d (qs ! n) \<and> (\<forall>m<n. roundGoesOn d (qs ! m))))"
    by (simp add: Ex_less_Suc2 All_less_Suc2) blast
  show ?case
    unfolding ex by (auto simp: Cons.IH roundPasses_def roundGoesOn_def split: sel.splits if_splits)
qed simp

section \<open>Reclaiming\<close>

text \<open>A word stands alone in a command line when separators or its ends surround it.\<close>

definition standsAlone :: "string \<Rightarrow> string \<Rightarrow> bool" where
  "standsAlone f s = (\<exists>pre post. s = pre @ f @ post \<and> (pre = [] \<or> isSep (last pre)) \<and> (post = [] \<or> isSep (hd post)))"

lemma standsAlone_whole:
  assumes "\<forall>c\<in>set s. \<not> isSep c"
  shows "standsAlone f s \<longleftrightarrow> f = s"
proof
  assume "standsAlone f s"
  then obtain pre post where s: "s = pre @ f @ post" and pre: "pre = [] \<or> isSep (last pre)" and post: "post = [] \<or> isSep (hd post)"
    unfolding standsAlone_def by (elim exE conjE)
  have "pre = []" using pre s assms last_in_set[of pre] by auto
  moreover have "post = []" using post s assms hd_in_set[of post] by auto
  ultimately show "f = s" using s by simp
next
  assume "f = s" then show "standsAlone f s"
    unfolding standsAlone_def by (intro exI[of _ "[]"]) simp
qed

lemma standsAlone_cut:
  assumes acc: "\<forall>c\<in>set acc. \<not> isSep c" and f: "f \<noteq> []" "\<forall>c\<in>set f. \<not> isSep c" and c: "isSep c"
  shows "standsAlone f (acc @ c # cs) \<longleftrightarrow> f = acc \<or> standsAlone f cs"
proof
  assume "standsAlone f (acc @ c # cs)"
  then obtain pre post where s: "acc @ c # cs = pre @ f @ post" and pre: "pre = [] \<or> isSep (last pre)"
    and post: "post = [] \<or> isSep (hd post)"
    unfolding standsAlone_def by (elim exE conjE)
  consider us where "acc = pre @ us" "us @ c # cs = f @ post" | us where "acc @ us = pre" "c # cs = us @ f @ post"
    using s by (auto simp: append_eq_append_conv2)
  then show "f = acc \<or> standsAlone f cs"
  proof cases
    case 1
    have "pre = []" using pre 1(1) acc last_in_set[of pre] by auto
    then have us: "us = acc" using 1(1) by simp
    have "f = us"
      using 1(2) us acc f(2) post c hd_append2[of _ "c # cs"] hd_in_set
      by (fastforce simp: append_eq_append_conv2 append_eq_Cons_conv Cons_eq_append_conv)
    then show ?thesis using us by simp
  next
    case 2
    show ?thesis
    proof (cases us)
      case Nil
      then show ?thesis using 2(2) f c by (cases f) auto
    next
      case (Cons d vs)
      then have cs: "cs = vs @ f @ post" "vs = [] \<or> isSep (last vs)" using 2 pre by (auto split: if_splits)
      then show ?thesis unfolding standsAlone_def using post by blast
    qed
  qed
next
  assume "f = acc \<or> standsAlone f cs"
  then show "standsAlone f (acc @ c # cs)"
  proof
    assume "f = acc" then show ?thesis
      unfolding standsAlone_def using c by (intro exI[of _ "[]"] exI[of _ "c # cs"]) simp
  next
    assume "standsAlone f cs"
    then obtain pre post where s: "cs = pre @ f @ post" "pre = [] \<or> isSep (last pre)" "post = [] \<or> isSep (hd post)"
      unfolding standsAlone_def by (elim exE conjE)
    then show ?thesis
      unfolding standsAlone_def using c by (intro exI[of _ "acc @ c # pre"] exI[of _ post]) auto
  qed
qed

lemma fieldsFunc_iff:
  "\<forall>c\<in>set acc. \<not> isSep c \<Longrightarrow> f \<noteq> [] \<Longrightarrow> \<forall>c\<in>set f. \<not> isSep c \<Longrightarrow>
     f \<in> set (fieldsFunc acc s) \<longleftrightarrow> standsAlone f (acc @ s)"
proof (induction acc s rule: fieldsFunc.induct)
  case (1 acc)
  then show ?case using standsAlone_whole[OF 1(1), of f] by auto
next
  case (2 acc c cs)
  show ?case
  proof (cases "isSep c")
    case True
    have "f \<in> set (fieldsFunc [] cs) \<longleftrightarrow> standsAlone f ([] @ cs)"
      using 2(1)[OF True] 2(2)[OF True] 2(5,6) by (cases "acc = []") simp_all
    then show ?thesis using True standsAlone_cut[OF 2(4) 2(5) 2(6) True, of cs] 2(5) by auto
  next
    case False
    then show ?thesis using 2(3)[OF False] 2(4,5,6) by simp
  qed
qed

lemma itoa_digits: "c \<in> set (itoa n) \<Longrightarrow> \<exists>d<10. c = char_of (48 + d :: nat)"
proof (induction n rule: itoa.induct)
  case (1 n)
  then show ?case
    using mod_less_divisor[of 10 n] by (subst (asm) (2) itoa.simps) (fastforce split: if_splits)
qed

lemma digit_no_sep: "d < 10 \<Longrightarrow> \<not> isSep (char_of (48 + d :: nat))"
proof
  assume d: "d < 10" and "isSep (char_of (48 + d))"
  then have "char_of (48 + d) \<in> {CHR '' '', CHR ''='', CHR '':'', CHR 9}" by (auto simp: isSep_def)
  then have "(of_char (char_of (48 + d) :: char) :: nat) \<in> of_char ` {CHR '' '', CHR ''='', CHR '':'', CHR 9}" by (rule imageI)
  then show False using d by simp
qed

lemma argvCarriesPort_iff: "argvCarriesPort argv port \<longleftrightarrow> standsAlone (itoa port) argv"
proof -
  have "\<forall>c\<in>set (itoa port). \<not> isSep c" using itoa_digits digit_no_sep by blast
  then show ?thesis
    using fieldsFunc_iff[of "[]" "itoa port" argv] itoa_nonempty
    by (simp add: argvCarriesPort_def list_ex_iff)
qed

section \<open>The run loop\<close>

fun procRun :: "ProcEv list \<Rightarrow> Proc \<Rightarrow> Proc option" where
  "procRun [] p = Some p"
| "procRun (e # es) p = (case procStep e p of None \<Rightarrow> None | Some p' \<Rightarrow> procRun es p')"

lemma procRun_induct [consumes 1, case_names start step]:
  assumes "procRun es p = Some p'"
    and start: "P p"
    and step: "\<And>e q q'. e \<in> set es \<Longrightarrow> P q \<Longrightarrow> procStep e q = Some q' \<Longrightarrow> P q'"
  shows "P p'"
  using assms
proof (induction es arbitrary: p)
  case (Cons e es)
  then obtain q where q: "procStep e p = Some q" "procRun es q = Some p'" by (auto split: option.splits)
  have "P q" using Cons.prems(3)[OF _ Cons.prems(2) q(1)] by simp
  then show ?case
    by (rule Cons.IH[OF q(2)]) (rule Cons.prems(3), simp_all)
qed simp

lemma respond_all:
  "foldl (\<lambda>p x. respond x res p) p xs = p\<lparr>answered := answered p @ map (\<lambda>x. (x, res, pstate p)) xs\<rparr>"
  by (induction xs arbitrary: p) (simp_all add: respond_def)

lemma notifyWaiters_eq:
  "notifyWaiters res p = p\<lparr>answered := answered p @ map (\<lambda>x. (x, res, pstate p)) (parked p), parked := []\<rparr>"
  by (simp add: notifyWaiters_def respond_all)

lemmas proc_defs = onParentDone_def onCmdDone_def onWaitReady_def onStart_def onStartResult_def onStopStarting_def
  onParentDoneStarting_def onStop_def setState_def respond_def notifyWaiters_eq respondRun_def killProcess_def
  clearCmd_def killStarted_def Let_def

definition procInv :: "Proc \<Rightarrow> bool" where
  "procInv p \<longleftrightarrow>
     (ended p \<longleftrightarrow> pstate p = StateShutdown) \<and> pstate p \<noteq> StateStopping
     \<and> (pstate p = StateStarting \<longrightarrow> starting p \<noteq> None) \<and> (starting p \<noteq> None \<longrightarrow> pstate p = StateStarting \<or> ended p)
     \<and> phandler p = pcmd p \<and> children p = (case pcmd p of None \<Rightarrow> [] | Some c \<Rightarrow> [c])
     \<and> (pcmd p \<noteq> None \<longleftrightarrow> pstate p = StateReady)
     \<and> (runResp p \<noteq> None \<longrightarrow> pstate p = StateReady)
     \<and> (parked p \<noteq> [] \<longrightarrow> pstate p = StateStopped \<or> pstate p = StateStarting)"

text \<open>What the loop may do in a state: one lemma per event, by the state and what is held in it.\<close>

lemma procStep_cases [consumes 1, case_names shutdown exit wait start stop started stopStarting shutdownStarting]:
  assumes "procStep e p = Some p'"
  obtains "e = PParentDone" "\<not> ended p" "starting p = None" "p' = onParentDone p"
  | c where "e = PCmdDone" "\<not> ended p" "starting p = None" "pcmd p = Some c"
      "p' = onCmdDone (p\<lparr>children := filter (\<lambda>x. x \<noteq> c) (children p)\<rparr>)"
  | x where "e = PWaitReady x" "\<not> ended p" "starting p = None" "p' = onWaitReady x p"
  | x block where "e = PStart x block" "\<not> ended p" "starting p = None" "p' = onStart x block p"
  | y where "e = PStop y" "\<not> ended p" "starting p = None" "p' = onStop y p"
  | res ts x block where "e = PStartResult res ts" "\<not> ended p" "starting p = Some (x, block)"
      "p' = onStartResult x block res ts p"
  | y res x block where "e = PStopStarting y res" "\<not> ended p" "starting p = Some (x, block)"
      "p' = onStopStarting x y res p"
  | res x block where "e = PParentDoneStarting res" "\<not> ended p" "starting p = Some (x, block)"
      "p' = onParentDoneStarting res p"
  using assms by (cases "starting p"; cases e) (auto split: if_splits option.splits prod.splits)

lemma procInv_idle:
  assumes "procInv p" "\<not> ended p" "starting p = None"
  obtains "pstate p = StateStopped" "pcmd p = None" "phandler p = None" "children p = []" "runResp p = None"
  | c where "pstate p = StateReady" "pcmd p = Some c" "phandler p = Some c" "children p = [c]" "parked p = []"
  using assms by (cases "pstate p"; cases "pcmd p"; cases "runResp p") (auto simp: procInv_def)

lemma procInv_starting:
  assumes "procInv p" "\<not> ended p" "starting p = Some xb"
  shows "pstate p = StateStarting" "pcmd p = None" "phandler p = None" "children p = []" "runResp p = None"
  using assms by (cases "pcmd p"; cases "runResp p"; simp add: procInv_def)+

lemma procInv_step:
  assumes inv: "procInv p" and st: "procStep e p = Some p'"
  shows "procInv p'"
  using st
proof (cases rule: procStep_cases)
  case shutdown
  from inv shutdown(2,3) show ?thesis
    by (cases rule: procInv_idle; cases "runResp p") (simp_all add: shutdown procInv_def proc_defs)
next
  case (exit c)
  from inv exit(2,3) show ?thesis
    by (cases rule: procInv_idle; cases "runResp p") (simp_all add: exit procInv_def proc_defs)
next
  case (wait x)
  from inv wait(2,3) show ?thesis
    by (cases rule: procInv_idle) (simp_all add: wait procInv_def proc_defs)
next
  case (start x block)
  from inv start(2,3) show ?thesis
    by (cases rule: procInv_idle; cases block) (simp_all add: start procInv_def proc_defs)
next
  case (stop y)
  from inv stop(2,3) show ?thesis
    by (cases rule: procInv_idle; cases "runResp p") (simp_all add: stop procInv_def proc_defs)
next
  case (started res ts x block)
  show ?thesis using procInv_starting[OF inv started(2,3)]
    by (cases res; cases block) (simp_all add: started procInv_def proc_defs)
next
  case (stopStarting y res x block)
  show ?thesis using procInv_starting[OF inv stopStarting(2,3)]
    by (cases res) (simp_all add: stopStarting procInv_def proc_defs)
next
  case (shutdownStarting res x block)
  show ?thesis using procInv_starting[OF inv shutdownStarting(2,3)] shutdownStarting(3)
    by (cases res) (simp_all add: shutdownStarting(4) procInv_def proc_defs)
qed

lemma procInv_new: "procInv newProc"
  by (simp add: procInv_def newProc_def)

lemma procInv_run: "procRun es newProc = Some p \<Longrightarrow> procInv p"
  by (erule procRun_induct) (auto intro: procInv_new procInv_step)

text \<open>Every caller the loop has heard.\<close>

fun asks :: "ProcEv \<Rightarrow> nat list" where
  "asks (PWaitReady x) = [x]"
| "asks (PStart x block) = [x]"
| "asks (PStop y) = [y]"
| "asks (PStopStarting y res) = [y]"
| "asks PParentDone = []"
| "asks PCmdDone = []"
| "asks (PStartResult res ts) = []"
| "asks (PParentDoneStarting res) = []"

definition waitingNow :: "Proc \<Rightarrow> nat multiset" where
  "waitingNow p = mset (parked p) + (case runResp p of None \<Rightarrow> {#} | Some x \<Rightarrow> {#x#})
     + (case starting p of None \<Rightarrow> {#} | Some (x, b) \<Rightarrow> {#x#})"

lemma ledger_step:
  assumes inv: "procInv p" and st: "procStep e p = Some p'"
  shows "mset (map fst (answered p')) + waitingNow p' = mset (asks e) + mset (map fst (answered p)) + waitingNow p"
  using st
proof (cases rule: procStep_cases)
  case shutdown
  from inv shutdown(2,3) show ?thesis
    by (cases rule: procInv_idle; cases "runResp p") (simp_all add: shutdown waitingNow_def proc_defs o_def)
next
  case (exit c)
  from inv exit(2,3) show ?thesis
    by (cases rule: procInv_idle; cases "runResp p") (simp_all add: exit waitingNow_def proc_defs o_def)
next
  case (wait x)
  from inv wait(2,3) show ?thesis
    by (cases rule: procInv_idle) (simp_all add: wait waitingNow_def proc_defs o_def)
next
  case (start x block)
  from inv start(2,3) show ?thesis
    by (cases rule: procInv_idle; cases block) (simp_all add: start waitingNow_def proc_defs o_def)
next
  case (stop y)
  from inv stop(2,3) show ?thesis
    by (cases rule: procInv_idle; cases "runResp p") (simp_all add: stop waitingNow_def proc_defs o_def)
next
  case (started res ts x block)
  show ?thesis using procInv_starting[OF inv started(2,3)]
    by (cases res; cases block) (simp_all add: started waitingNow_def proc_defs o_def)
next
  case (stopStarting y res x block)
  show ?thesis using procInv_starting[OF inv stopStarting(2,3)]
    by (cases res) (simp_all add: stopStarting waitingNow_def proc_defs o_def)
next
  case (shutdownStarting res x block)
  show ?thesis using procInv_starting[OF inv shutdownStarting(2,3)]
    by (cases res) (simp_all add: shutdownStarting waitingNow_def proc_defs o_def)
qed

lemma ledger_run:
  "procInv p \<Longrightarrow> procRun es p = Some p' \<Longrightarrow>
     mset (map fst (answered p')) + waitingNow p' = mset (concat (map asks es)) + mset (map fst (answered p)) + waitingNow p"
proof (induction es arbitrary: p)
  case (Cons e es)
  then obtain q where q: "procStep e p = Some q" "procRun es q = Some p'" by (auto split: option.splits)
  then show ?case
    using Cons.IH[OF procInv_step[OF Cons.prems(1) q(1)] q(2)] ledger_step[OF Cons.prems(1) q(1)] by simp
qed simp

text \<open>Who asks for a ready process, and who for the end of one.\<close>

fun readyAskers :: "ProcEv \<Rightarrow> nat list" where
  "readyAskers (PWaitReady x) = [x]"
| "readyAskers (PStart x block) = (if block then [] else [x])"
| "readyAskers e = []"

fun endAskers :: "ProcEv \<Rightarrow> nat list" where
  "endAskers (PStart x block) = (if block then [x] else [])"
| "endAskers (PStop y) = [y]"
| "endAskers (PStopStarting y res) = [y]"
| "endAskers e = []"

definition nilInv :: "nat set \<Rightarrow> nat set \<Rightarrow> Proc \<Rightarrow> bool" where
  "nilInv W R p \<longleftrightarrow> procInv p \<and> set (parked p) \<subseteq> W
     \<and> (case starting p of None \<Rightarrow> True | Some (x, block) \<Rightarrow> x \<in> (if block then R else W))
     \<and> (case runResp p of None \<Rightarrow> True | Some x \<Rightarrow> x \<in> R)
     \<and> (\<forall>(x, res, st)\<in>set (answered p). res = None \<longrightarrow> (st = StateReady \<and> x \<in> W) \<or> (st = StateStopped \<and> x \<in> R))"

lemma nilInv_step:
  assumes inv: "nilInv W R p" and st: "procStep e p = Some p'"
    and W: "set (readyAskers e) \<subseteq> W" and R: "set (endAskers e) \<subseteq> R"
  shows "nilInv W R p'"
proof -
  have pinv: "procInv p" using inv by (simp add: nilInv_def)
  note pinv' = procInv_step[OF pinv st]
  show ?thesis
    using st
  proof (cases rule: procStep_cases)
    case shutdown
    from pinv shutdown(2,3) show ?thesis using inv pinv'
      by (cases rule: procInv_idle; cases "runResp p") (auto simp: shutdown nilInv_def proc_defs)
  next
    case (exit c)
    from pinv exit(2,3) show ?thesis using inv pinv'
      by (cases rule: procInv_idle; cases "runResp p") (auto simp: exit nilInv_def proc_defs)
  next
    case (wait x)
    from pinv wait(2,3) show ?thesis using inv pinv' W
      by (cases rule: procInv_idle) (auto simp: wait nilInv_def proc_defs)
  next
    case (start x block)
    from pinv start(2,3) show ?thesis using inv pinv' W R
      by (cases rule: procInv_idle; cases block) (auto simp: start nilInv_def proc_defs)
  next
    case (stop y)
    from pinv stop(2,3) show ?thesis using inv pinv' R
      by (cases rule: procInv_idle; cases "runResp p") (auto simp: stop nilInv_def proc_defs)
  next
    case (started res ts x block)
    show ?thesis using procInv_starting[OF pinv started(2,3)] inv pinv'
      by (cases res; cases block) (auto simp: started nilInv_def proc_defs)
  next
    case (stopStarting y res x block)
    show ?thesis using procInv_starting[OF pinv stopStarting(2,3)] inv pinv' R
      by (cases res) (auto simp: stopStarting nilInv_def proc_defs)
  next
    case (shutdownStarting res x block)
    show ?thesis using procInv_starting[OF pinv shutdownStarting(2,3)] inv pinv'
      by (cases res) (auto simp: shutdownStarting nilInv_def proc_defs)
  qed
qed

lemma nilInv_run:
  assumes "procRun es newProc = Some p"
  shows "nilInv (set (concat (map readyAskers es))) (set (concat (map endAskers es))) p"
  using assms
proof (induction rule: procRun_induct)
  case start
  show ?case
    using procInv_new by (simp add: nilInv_def newProc_def)
next
  case (step e q q')
  show ?case by (rule nilInv_step) (use step in auto)
qed

section \<open>Compute errors\<close>

definition signatureError :: "int \<times> string option \<Rightarrow> bool" where
  "signatureError r = (fst r = 500 \<and> (case snd r of None \<Rightarrow> False
     | Some b \<Rightarrow> containsSub computeErrorSignature (take computeErrorBodyPeekBytes b)))"

definition successful :: "int \<times> string option \<Rightarrow> bool" where
  "successful r = (200 \<le> fst r \<and> fst r < 300)"

text \<open>The signature errors since the last success.\<close>

definition errorStreak :: "(int \<times> string option) list \<Rightarrow> nat" where
  "errorStreak rs = length (filter signatureError (takeWhile (\<lambda>r. \<not> successful r) (rev rs)))"

definition trackAll :: "(int \<times> string option) list \<Rightarrow> ErrTrack \<Rightarrow> ErrTrack" where
  "trackAll rs t = foldl (\<lambda>t r. fst (trackComputeErrorState (fst r) (snd r) t)) t rs"

lemma errorStreak_snoc:
  "errorStreak (rs @ [r]) = (if successful r then 0 else if signatureError r then errorStreak rs + 1 else errorStreak rs)"
  by (simp add: errorStreak_def)

lemma track_step:
  "trackComputeErrorState st b t =
     (if successful (st, b) then (t\<lparr>computeErrorCount := 0\<rparr>, False)
      else if signatureError (st, b) then
        (if computeErrorCount t + 1 \<ge> 3 \<and> \<not> computeErrorRestarting t
         then (t\<lparr>computeErrorCount := computeErrorCount t + 1, computeErrorRestarting := True\<rparr>, True)
         else (t\<lparr>computeErrorCount := computeErrorCount t + 1\<rparr>, False))
      else (t, False))"
  by (cases b) (simp_all add: trackComputeErrorState_def successful_def signatureError_def computeErrorRestartThreshold_def Let_def)

lemma trackAll_state:
  "computeErrorCount (trackAll rs (resetComputeErrors t)) = int (errorStreak rs) \<and>
   (computeErrorRestarting (trackAll rs (resetComputeErrors t)) \<longleftrightarrow> (\<exists>k\<le>length rs. errorStreak (take k rs) \<ge> 3))"
proof (induction rs rule: rev_induct)
  case Nil
  then show ?case by (simp add: trackAll_def resetComputeErrors_def errorStreak_def)
next
  case (snoc r rs)
  have ex: "(\<exists>k\<le>length (rs @ [r]). errorStreak (take k (rs @ [r])) \<ge> 3)
      \<longleftrightarrow> (\<exists>k\<le>length rs. errorStreak (take k rs) \<ge> 3) \<or> errorStreak (rs @ [r]) \<ge> 3"
    by (auto simp: le_Suc_eq)
  have full: "errorStreak rs \<ge> 3 \<Longrightarrow> (\<exists>k\<le>length rs. errorStreak (take k rs) \<ge> 3)"
    by (intro exI[of _ "length rs"]) simp
  show ?case
    unfolding ex using snoc full
    by (cases r) (auto simp: trackAll_def track_step errorStreak_snoc)
qed

section \<open>Properties\<close>





text \<open>A nil answer says what its caller asked: one that only asked for a ready process gets nil only in
  the state ready, and a \<open>Run\<close> or a stop gets it only once the process is stopped.\<close>

theorem nil_answers_truthful:
  assumes "procRun es newProc = Some p" "(x, None, st) \<in> set (answered p)"
  shows "(if x \<in> set (concat (map endAskers es)) then True else st = StateReady)
    \<and> (if x \<in> set (concat (map readyAskers es)) then True else st = StateStopped)"
  using nilInv_run[OF assms(1)] assms(2) by (auto simp: nilInv_def)

lemma nil_answers_truthful_witness:
  "\<exists>p. procRun [PWaitReady 1, PStart 2 True, PStartResult (StartOk 7) 5, PStop 3] newProc = Some p
     \<and> (2, None, StateStopped) \<in> set (answered p) \<and> (if (1::nat) \<in> {2, 3} then True else StateReady = StateReady)"
proof -
  obtain p where p: "procRun [PWaitReady 1, PStart 2 True, PStartResult (StartOk 7) 5, PStop 3] newProc = Some p"
    and a: "(1, None, StateReady) \<in> set (answered p)" "(2, None, StateStopped) \<in> set (answered p)"
    by (simp add: newProc_def proc_defs)
  show ?thesis using p a nil_answers_truthful[OF p a(1)] by (intro exI[of _ p]) simp
qed

text \<open>A start ends: if some poll of the health check would be answered after the deadline, \<open>doStart\<close>
  returns; and it returns a child exactly when the configuration is good and either no check is asked for
  or a poll got 200 by the deadline, after polls that all said nothing.\<close>

theorem start_decides:
  assumes "\<exists>q\<in>set (polls e). pollNow q > bootNow e + timeout"
  shows "\<exists>r. doStart timeout e = Some r \<and>
    (\<exists>c. r = StartOk c) =
      (\<not> proxyEmpty e \<and> \<not> sanitizeFails e \<and> \<not> proxyURLFails e \<and> \<not> cmdStartFails e \<and> \<not> cancelledAtStart e
       \<and> (checkNone e \<or> (\<not> cancelledAtBoot e
           \<and> list_ex (\<lambda>n. roundPasses (bootNow e + timeout) (polls e ! n)
                \<and> list_all (\<lambda>m. roundGoesOn (bootNow e + timeout) (polls e ! m)) [0..<n]) [0..<length (polls e)])))"
proof -
  let ?d = "bootNow e + timeout"
  obtain r where r: "healthLoop ?d (childPid e) (polls e) = Some r" using healthLoop_ends[OF assms] by (rule exE)
  have "(\<exists>c. r = StartOk c) \<longleftrightarrow>
      (\<exists>n<length (polls e). roundPasses ?d (polls e ! n) \<and> (\<forall>m<n. roundGoesOn ?d (polls e ! m)))"
    using healthLoop_ok[of ?d "childPid e" "polls e"] r by auto
  then show ?thesis
    using r by (auto simp: doStart_def startConfigError_def list_ex_iff list_all_iff Bex_def)
qed

lemma start_decides_witness:
  "\<exists>r. doStart 10 \<lparr>proxyEmpty = False, sanitizeFails = False, proxyURLFails = False, cmdStartFails = False, childPid = 7,
      cancelledAtStart = False, checkNone = False, cancelledAtBoot = False, bootNow = 0,
      polls = [\<lparr>pollFirst = SelTick, pollNow = 1, pollStatus = 502, pollCancelled = False, pollThen = SelTick\<rparr>,
               \<lparr>pollFirst = SelTick, pollNow = 2, pollStatus = 200, pollCancelled = False, pollThen = SelTick\<rparr>,
               \<lparr>pollFirst = SelTick, pollNow = 11, pollStatus = 200, pollCancelled = False, pollThen = SelTick\<rparr>]\<rparr> = Some r
    \<and> (\<exists>c. r = StartOk c)"
  using start_decides[of "\<lparr>proxyEmpty = False, sanitizeFails = False, proxyURLFails = False, cmdStartFails = False, childPid = 7,
      cancelledAtStart = False, checkNone = False, cancelledAtBoot = False, bootNow = 0,
      polls = [\<lparr>pollFirst = SelTick, pollNow = 1, pollStatus = 502, pollCancelled = False, pollThen = SelTick\<rparr>,
               \<lparr>pollFirst = SelTick, pollNow = 2, pollStatus = 200, pollCancelled = False, pollThen = SelTick\<rparr>,
               \<lparr>pollFirst = SelTick, pollNow = 11, pollStatus = 200, pollCancelled = False, pollThen = SelTick\<rparr>]\<rparr>" 10]
  by (simp add: roundPasses_def roundGoesOn_def)

text \<open>C20. A start kills a process only when the first attempt ended in a premature exit and the process is
  the one listener on the model's own port, an orphan, and one whose command line carries that port as a
  word of its own; it starts a second time only after that, with the port seen free, and never a third.\<close>

theorem reclaims_only_an_orphan:
  assumes "startWithOrphanReclaim timeout e1 re e2 = Some (r, ks, n)"
  shows "(ks = [] \<or> (\<exists>pid port argv. ks = [pid] \<and> 1 < pid \<and> doStart timeout e1 = Some (StartErr ErrUpstreamPrematureExit)
       \<and> envPort re = Some port \<and> lsof re = [pid] \<and> ps re pid = Some (1, argv) \<and> standsAlone (itoa port) argv))
    \<and> (if n = 1 then doStart timeout e1 = Some r
       else n = 2 \<and> ks \<noteq> [] \<and> doStart timeout e2 = Some r
         \<and> waitPortFree (killNow re + reclaimSettleTimeout) (portPolls re) = Some True)"
proof -
  have reclaim: "reclaimOrphanedUpstream re = Some (killed, ok) \<Longrightarrow>
      (killed = None \<and> \<not> ok) \<or> (\<exists>pid port argv. killed = Some pid \<and> 1 < pid \<and> envPort re = Some port \<and> lsof re = [pid]
         \<and> ps re pid = Some (1, argv) \<and> standsAlone (itoa port) argv
         \<and> (ok \<longrightarrow> waitPortFree (killNow re + reclaimSettleTimeout) (portPolls re) = Some True))" for killed ok
    by (auto simp: reclaimOrphanedUpstream_def findPortHolder_def killPID_def argvCarriesPort_iff
        split: option.splits list.splits if_splits prod.splits)
  show ?thesis
    using assms reclaim by (fastforce simp: startWithOrphanReclaim_def Let_def split: option.splits if_splits prod.splits)
qed

lemma reclaims_only_an_orphan_witness:
  "let boots = \<lparr>proxyEmpty = False, sanitizeFails = False, proxyURLFails = False, cmdStartFails = False, childPid = 7,
         cancelledAtStart = False, checkNone = True, cancelledAtBoot = False, bootNow = 0, polls = []\<rparr>;
       exits = boots\<lparr>checkNone := False,
         polls := [\<lparr>pollFirst = SelExit, pollNow = 1, pollStatus = 502, pollCancelled = False, pollThen = SelTick\<rparr>]\<rparr>;
       env = \<lparr>envPort = Some 58, lsof = [42], ps = (\<lambda>_. Some (1, ''srv --port 58'')), signalFails = False, killNow = 0,
         portPolls = [(False, 1), (True, 2)]\<rparr>
   in startWithOrphanReclaim 10 exits env boots = Some (StartOk 7, [42], 2) \<and> standsAlone (itoa 58) ''srv --port 58''"
proof -
  define boots where "boots = \<lparr>proxyEmpty = False, sanitizeFails = False, proxyURLFails = False, cmdStartFails = False, childPid = 7,
         cancelledAtStart = False, checkNone = True, cancelledAtBoot = False, bootNow = 0, polls = []\<rparr>"
  define exits where "exits = boots\<lparr>checkNone := False,
         polls := [\<lparr>pollFirst = SelExit, pollNow = 1, pollStatus = 502, pollCancelled = False, pollThen = SelTick\<rparr>]\<rparr>"
  define env where "env = \<lparr>envPort = Some 58, lsof = [42], ps = (\<lambda>_. Some (1, ''srv --port 58'')), signalFails = False, killNow = 0,
         portPolls = [(False, 1), (True, 2)]\<rparr>"
  have itoa: "itoa 58 = ''58''" by code_simp
  have run: "startWithOrphanReclaim 10 exits env boots = Some (StartOk 7, [42], 2)"
    by (simp add: startWithOrphanReclaim_def doStart_def startConfigError_def boots_def exits_def env_def reclaimOrphanedUpstream_def
        findPortHolder_def killPID_def argvCarriesPort_def itoa isSep_def reclaimSettleTimeout_def)
  have "standsAlone (itoa 58) ''srv --port 58''"
    using reclaims_only_an_orphan[OF run] by (simp add: env_def)
  then show ?thesis using run unfolding boots_def exits_def env_def Let_def by (intro conjI)
qed

text \<open>A response restarts the child exactly when it is the third compute error since the last success,
  and no run of three has come since the counters were reset.\<close>

theorem restarts_at_the_third_compute_error:
  "snd (trackComputeErrorState st b (trackAll rs (resetComputeErrors t))) =
     (signatureError (st, b) \<and> errorStreak rs = 2
      \<and> list_all (\<lambda>k. errorStreak (take k rs) < 3) [0..<Suc (length rs)])"
proof -
  have ok: "successful (st, b) \<Longrightarrow> \<not> signatureError (st, b)" by (auto simp: successful_def signatureError_def)
  have le: "(\<exists>k\<le>length rs. errorStreak (take k rs) \<ge> 3) \<longleftrightarrow>
      (\<exists>k<length rs. errorStreak (take k rs) \<ge> 3) \<or> errorStreak rs \<ge> 3"
    by (auto simp: le_less)
  show ?thesis
    using trackAll_state[of rs t] ok unfolding le
    by (auto simp: track_step list_all_iff not_le[symmetric] simp del: not_le)
qed

end
