(* ===== verification/SlotBind.thy ===== *)
theory SlotBind
  imports Prelude
begin

text \<open>
  Slot binding, \<open>internal/router/slotbind.go\<close>: a granted request gets a slot of its child that no other
  granted request holds, a cut request keeps its place while the child still works for it, and a request
  whose slot reads idle for long loses its place. The second part puts the table next to the places the
  scheduler has given away (\<open>trackedServe\<close>, \<open>sendServeDoneWhenSlotIdle\<close>) and shows that a grant always
  finds a slot, as long as the slot poller answers.

  A \<open>*slotHolder\<close> is identified by its request; \<open>released\<close> is membership in \<open>freed\<close>. The channel of an
  orphan is identified by its request too, and \<open>closedCh\<close> are the closed ones.
\<close>

section \<open>The table\<close>

definition slotPhantomAfterDefault :: duration where "slotPhantomAfterDefault = 60 * Second"
definition slotObserveStale :: duration where "slotObserveStale = 30 * Second"

record slotHolder =
  hid :: nat
  slot :: nat
  boundAt :: gotime
  lastBusy :: gotime

record modelSlots =
  holders :: "slotHolder option list"
  orphans :: "nat option list"
  busySlots :: "bool list"
  lastObserved :: gotime
  freed :: "nat list"
  closedCh :: "nat list"

definition newModelSlots :: modelSlots where
  "newModelSlots = \<lparr>holders = [], orphans = [], busySlots = [], lastObserved = zeroTime, freed = [], closedCh = []\<rparr>"

definition modelLocked :: "nat \<Rightarrow> modelSlots \<Rightarrow> modelSlots" where
  "modelLocked n ms = ms\<lparr>holders := holders ms @ replicate (n - length (holders ms)) None,
     orphans := orphans ms @ replicate (n - length (holders ms)) None\<rparr>"

definition slotFree :: "modelSlots \<Rightarrow> nat \<Rightarrow> bool" where
  "slotFree ms i = (holders ms ! i = None \<and> orphans ms ! i = None)"

fun lowestFree :: "modelSlots \<Rightarrow> nat list \<Rightarrow> nat option" where
  "lowestFree ms [] = None"
| "lowestFree ms (i # is) = (if slotFree ms i then Some i else lowestFree ms is)"

definition bindSlots :: "nat \<Rightarrow> int \<Rightarrow> nat \<Rightarrow> gotime \<Rightarrow> modelSlots \<Rightarrow> modelSlots \<times> slotHolder option" where
  "bindSlots n preferred x ts ms0 =
     (let ms = modelLocked n ms0;
          pick = (if 0 \<le> preferred \<and> preferred < int n \<and> slotFree ms (nat preferred) then Some (nat preferred)
                  else lowestFree ms [0..<n])
      in case pick of None \<Rightarrow> (ms, None)
         | Some i \<Rightarrow>
             (let h = \<lparr>hid = x, slot = i, boundAt = ts, lastBusy = ts\<rparr>
              in (ms\<lparr>holders := (holders ms)[i := Some h]\<rparr>, Some h)))"

text \<open>The result says whether there is a channel to wait on.\<close>

definition unbindSlots :: "slotHolder \<Rightarrow> bool \<Rightarrow> gotime \<Rightarrow> modelSlots \<Rightarrow> modelSlots \<times> bool" where
  "unbindSlots h isCut ts ms =
     (if hid h \<in> set (freed ms) then (ms, False)
      else let ms1 = (case holders ms ! slot h of
                        Some g \<Rightarrow> if hid g = hid h then ms\<lparr>holders := (holders ms)[slot h := None]\<rparr> else ms
                      | None \<Rightarrow> ms)
           in if \<not> isCut \<or> slot h \<ge> length (busySlots ms1) \<or> \<not> busySlots ms1 ! slot h \<or> ts - lastObserved ms1 > slotObserveStale
              then (ms1, False)
              else (ms1\<lparr>orphans := (orphans ms1)[slot h := Some (hid h)]\<rparr>, True))"

definition observedWithin :: "duration \<Rightarrow> gotime \<Rightarrow> modelSlots \<Rightarrow> bool" where
  "observedWithin d ts ms = (ts - lastObserved ms \<le> d)"

definition isBusyAt :: "bool list \<Rightarrow> nat \<Rightarrow> bool" where
  "isBusyAt busy i = (i < length busy \<and> busy ! i)"

definition phantom :: "duration \<Rightarrow> gotime \<Rightarrow> bool \<Rightarrow> slotHolder option \<Rightarrow> bool" where
  "phantom phantomAfter ts isBusy h =
     (case h of None \<Rightarrow> False | Some h \<Rightarrow> \<not> isBusy \<and> phantomAfter > 0 \<and> ts - lastBusy h \<ge> phantomAfter)"

text \<open>\<open>busy\<close> is \<open>None\<close> when the model is not running.\<close>

definition observeSlots :: "bool list option \<Rightarrow> duration \<Rightarrow> gotime \<Rightarrow> modelSlots \<Rightarrow> modelSlots" where
  "observeSlots reading phantomAfter ts ms0 =
     (case reading of
        None \<Rightarrow>
          ms0\<lparr>closedCh := closedCh ms0 @ List.map_filter id (orphans ms0),
              orphans := map (\<lambda>_. None) (orphans ms0), busySlots := []\<rparr>
      | Some busy \<Rightarrow>
          (let ms = modelLocked (length busy) ms0; is = [0..<length (holders ms)] in
           ms\<lparr>busySlots := busy, lastObserved := ts,
              closedCh := closedCh ms @ List.map_filter (\<lambda>i. if isBusyAt busy i then None else orphans ms ! i) is,
              orphans := map (\<lambda>i. if isBusyAt busy i then orphans ms ! i else None) is,
              freed := freed ms @ List.map_filter (\<lambda>i. if phantom phantomAfter ts (isBusyAt busy i) (holders ms ! i)
                 then map_option hid (holders ms ! i) else None) is,
              holders := map (\<lambda>i. if phantom phantomAfter ts (isBusyAt busy i) (holders ms ! i) then None
                 else if isBusyAt busy i then map_option (\<lambda>h. h\<lparr>lastBusy := ts\<rparr>) (holders ms ! i) else holders ms ! i) is\<rparr>))"

section \<open>Table and places\<close>

text \<open>One model with \<open>n\<close> slots: the table, the requests whose place is taken (\<open>places\<close>), the requests being
  served with what they are bound to, and the requests whose done event waits for an idle slot.
  \<open>everBound\<close> are the identities used so far.\<close>

record slotWorld =
  table :: modelSlots
  places :: "nat list"
  beingServed :: "(nat, slotHolder option) gomap"
  waitingIdle :: "nat list"
  everBound :: "nat list"

definition newSlotWorld :: slotWorld where
  "newSlotWorld = \<lparr>table = newModelSlots, places = [], beingServed = [], waitingIdle = [], everBound = []\<rparr>"

datatype slotEv = SGrant nat bool int gotime | SDone nat bool gotime | SObserve "bool list option" gotime
  | SDeliver nat | SStale nat gotime

text \<open>A request that is not a JSON POST is not bound (\<open>bindable\<close>).\<close>

definition serveGranted :: "nat \<Rightarrow> nat \<Rightarrow> bool \<Rightarrow> int \<Rightarrow> gotime \<Rightarrow> slotWorld \<Rightarrow> slotWorld" where
  "serveGranted n x bindable preferred ts w =
     (case (if bindable then bindSlots n preferred x ts (table w) else (table w, None)) of (ms, h) \<Rightarrow>
        w\<lparr>table := ms, places := x # places w, beingServed := mput x h (beingServed w), everBound := x # everBound w\<rparr>)"

definition serveEnded :: "nat \<Rightarrow> slotHolder option \<Rightarrow> bool \<Rightarrow> gotime \<Rightarrow> slotWorld \<Rightarrow> slotWorld" where
  "serveEnded x h isCut ts w =
     (case (case h of None \<Rightarrow> (table w, False) | Some h \<Rightarrow> unbindSlots h isCut ts (table w)) of (ms, orphan) \<Rightarrow>
        (let w1 = w\<lparr>table := ms, beingServed := mdel x (beingServed w)\<rparr> in
         if orphan then w1\<lparr>waitingIdle := x # waitingIdle w1\<rparr> else w1\<lparr>places := removeAll x (places w1)\<rparr>))"

text \<open>The scheduler grants only below the limit. \<open>SDeliver\<close> is the done event of a closed channel or the
  release of a phantom arriving; \<open>SStale\<close> the tick that finds the poller silent.\<close>

fun slotStep :: "nat \<Rightarrow> duration \<Rightarrow> slotEv \<Rightarrow> slotWorld \<Rightarrow> slotWorld option" where
  "slotStep n pa (SGrant x bindable preferred ts) w =
     (if length (places w) < n \<and> x \<notin> set (everBound w) then Some (serveGranted n x bindable preferred ts w) else None)"
| "slotStep n pa (SDone x isCut ts) w =
     (case map_of (beingServed w) x of None \<Rightarrow> None | Some h \<Rightarrow> Some (serveEnded x h isCut ts w))"
| "slotStep n pa (SObserve reading ts) w = Some (w\<lparr>table := observeSlots reading pa ts (table w)\<rparr>)"
| "slotStep n pa (SDeliver x) w =
     (if x \<in> set (freed (table w)) \<or> x \<in> set (waitingIdle w) \<and> x \<in> set (closedCh (table w))
      then Some (w\<lparr>places := removeAll x (places w), waitingIdle := removeAll x (waitingIdle w)\<rparr>) else None)"
| "slotStep n pa (SStale x ts) w =
     (if x \<in> set (waitingIdle w) \<and> \<not> observedWithin slotObserveStale ts (table w)
      then Some (w\<lparr>places := removeAll x (places w), waitingIdle := removeAll x (waitingIdle w)\<rparr>) else None)"

fun slotRun :: "nat \<Rightarrow> duration \<Rightarrow> slotEv list \<Rightarrow> slotWorld \<Rightarrow> slotWorld option" where
  "slotRun n pa [] w = Some w"
| "slotRun n pa (e # es) w = (case slotStep n pa e w of None \<Rightarrow> None | Some w' \<Rightarrow> slotRun n pa es w')"

fun isStale :: "slotEv \<Rightarrow> bool" where
  "isStale (SStale x ts) = True"
| "isStale e = False"

section \<open>The cells of the table\<close>

definition hAt :: "modelSlots \<Rightarrow> nat \<Rightarrow> slotHolder option" where
  "hAt ms i = (if i < length (holders ms) then holders ms ! i else None)"

definition oAt :: "modelSlots \<Rightarrow> nat \<Rightarrow> nat option" where
  "oAt ms i = (if i < length (orphans ms) then orphans ms ! i else None)"

definition sameLength :: "modelSlots \<Rightarrow> bool" where
  "sameLength ms = (length (orphans ms) = length (holders ms))"

lemma modelLocked_cells [simp]:
  "hAt (modelLocked n ms) = hAt ms"
  "sameLength ms \<Longrightarrow> oAt (modelLocked n ms) = oAt ms"
  "sameLength ms \<Longrightarrow> sameLength (modelLocked n ms)"
  "freed (modelLocked n ms) = freed ms" "closedCh (modelLocked n ms) = closedCh ms"
  "length (holders (modelLocked n ms)) = max n (length (holders ms))"
  by (auto simp: modelLocked_def hAt_def oAt_def sameLength_def nth_append fun_eq_iff)

lemma hAt_update: "i < length (holders ms) \<Longrightarrow> hAt (ms\<lparr>holders := (holders ms)[i := h]\<rparr>) = (hAt ms)(i := h)"
  by (auto simp: hAt_def fun_eq_iff)

lemma oAt_update: "i < length (orphans ms) \<Longrightarrow> oAt (ms\<lparr>orphans := (orphans ms)[i := x]\<rparr>) = (oAt ms)(i := x)"
  by (auto simp: oAt_def fun_eq_iff)

lemma cells_frame [simp]:
  "oAt (ms\<lparr>holders := hs\<rparr>) = oAt ms" "hAt (ms\<lparr>orphans := os\<rparr>) = hAt ms"
  by (simp_all add: hAt_def oAt_def fun_eq_iff)

lemma slotFree_cells: "sameLength ms \<Longrightarrow> i < length (holders ms) \<Longrightarrow> slotFree ms i \<longleftrightarrow> hAt ms i = None \<and> oAt ms i = None"
  by (simp add: slotFree_def hAt_def oAt_def sameLength_def)

lemma lowestFree_Some: "lowestFree ms is = Some i \<Longrightarrow> i \<in> set is \<and> slotFree ms i"
  by (induction "is") (auto split: if_splits)

lemma lowestFree_None: "lowestFree ms is = None \<longleftrightarrow> (\<forall>i\<in>set is. \<not> slotFree ms i)"
  by (induction "is") auto

lemma bindSlots_cells:
  assumes "bindSlots n preferred x ts ms0 = (ms, h)" "sameLength ms0"
  shows "sameLength ms" "oAt ms = oAt ms0" "freed ms = freed ms0" "closedCh ms = closedCh ms0"
    and "h = None \<Longrightarrow> hAt ms = hAt ms0 \<and> (\<forall>i<n. hAt ms0 i \<noteq> None \<or> oAt ms0 i \<noteq> None)"
    and "h = Some g \<Longrightarrow> hid g = x \<and> slot g < n \<and> hAt ms0 (slot g) = None \<and> oAt ms0 (slot g) = None
      \<and> hAt ms = (hAt ms0)(slot g \<mapsto> g)"
    and "0 \<le> preferred \<Longrightarrow> preferred < int n \<Longrightarrow> hAt ms0 (nat preferred) = None \<Longrightarrow> oAt ms0 (nat preferred) = None \<Longrightarrow>
      \<exists>g. h = Some g \<and> slot g = nat preferred"
proof -
  let ?ms = "modelLocked n ms0"
  have same: "sameLength ?ms" using assms(2) by simp
  have len: "i < n \<Longrightarrow> i < length (holders ?ms)" for i by simp
  have free: "i < n \<Longrightarrow> slotFree ?ms i \<longleftrightarrow> hAt ms0 i = None \<and> oAt ms0 i = None" for i
    using slotFree_cells[OF same len] assms(2) by simp
  define pick where "pick = (if 0 \<le> preferred \<and> preferred < int n \<and> slotFree ?ms (nat preferred) then Some (nat preferred)
      else lowestFree ?ms [0..<n])"
  have some: "i < n \<and> slotFree ?ms i" if "pick = Some i" for i
    using that lowestFree_Some[of ?ms "[0..<n]" i] by (auto simp: pick_def split: if_splits)
  have none: "\<not> slotFree ?ms i" if "pick = None" "i < n" for i
    using that by (auto simp: pick_def lowestFree_None split: if_splits)
  have upd: "hAt (?ms\<lparr>holders := (holders ?ms)[i := Some h']\<rparr>) = (hAt ms0)(i \<mapsto> h')" if "i < n" for i h'
    using hAt_update[OF len[OF that]] by simp
  have res: "(ms, h) = (case pick of None \<Rightarrow> (?ms, None)
         | Some i \<Rightarrow> (?ms\<lparr>holders := (holders ?ms)[i := Some \<lparr>hid = x, slot = i, boundAt = ts, lastBusy = ts\<rparr>]\<rparr>,
             Some \<lparr>hid = x, slot = i, boundAt = ts, lastBusy = ts\<rparr>))"
    using assms(1)[symmetric] unfolding bindSlots_def Let_def pick_def .
  have frame: "sameLength (?ms\<lparr>holders := (holders ?ms)[i := h']\<rparr>)" "oAt (?ms\<lparr>holders := (holders ?ms)[i := h']\<rparr>) = oAt ms0" for i h'
    using same modelLocked_cells(2)[OF assms(2), of n] by (auto simp: sameLength_def oAt_def fun_eq_iff)
  show "sameLength ms" "oAt ms = oAt ms0" "freed ms = freed ms0" "closedCh ms = closedCh ms0"
    using res same assms(2) frame by (auto split: option.splits)
  show "h = None \<Longrightarrow> hAt ms = hAt ms0 \<and> (\<forall>i<n. hAt ms0 i \<noteq> None \<or> oAt ms0 i \<noteq> None)"
    using res none free by (auto split: option.splits)
  show "h = Some g \<Longrightarrow> hid g = x \<and> slot g < n \<and> hAt ms0 (slot g) = None \<and> oAt ms0 (slot g) = None
      \<and> hAt ms = (hAt ms0)(slot g \<mapsto> g)"
    using res some free upd by (auto split: option.splits)
  show "0 \<le> preferred \<Longrightarrow> preferred < int n \<Longrightarrow> hAt ms0 (nat preferred) = None \<Longrightarrow> oAt ms0 (nat preferred) = None \<Longrightarrow>
      \<exists>g. h = Some g \<and> slot g = nat preferred"
    using res free[of "nat preferred"] by (simp add: pick_def)
qed

lemma unbindSlots_cells:
  assumes "unbindSlots h isCut ts ms0 = (ms, orphan)" "sameLength ms0" "hid h \<notin> set (freed ms0)"
    and "hAt ms0 (slot h) = Some g" "hid g = hid h"
  shows "sameLength ms" "hAt ms = (hAt ms0)(slot h := None)" "freed ms = freed ms0" "closedCh ms = closedCh ms0"
    and "oAt ms = (if orphan then (oAt ms0)(slot h \<mapsto> hid h) else oAt ms0)"
proof -
  have lt: "slot h < length (holders ms0)" and cell: "holders ms0 ! slot h = Some g"
    using assms(4) by (auto simp: hAt_def split: if_splits)
  have lo: "slot h < length (orphans ms0)" using lt assms(2) by (simp add: sameLength_def)
  have H: "hAt (ms0\<lparr>holders := (holders ms0)[slot h := None]\<rparr>) = (hAt ms0)(slot h := None)" by (rule hAt_update[OF lt])
  have O: "oAt (ms0\<lparr>holders := (holders ms0)[slot h := None], orphans := (orphans ms0)[slot h := Some (hid h)]\<rparr>)
      = (oAt ms0)(slot h \<mapsto> hid h)"
    using oAt_update[of "slot h" "ms0\<lparr>holders := (holders ms0)[slot h := None]\<rparr>"] lo by simp
  show "sameLength ms" "hAt ms = (hAt ms0)(slot h := None)" "freed ms = freed ms0" "closedCh ms = closedCh ms0"
    "oAt ms = (if orphan then (oAt ms0)(slot h \<mapsto> hid h) else oAt ms0)"
    using assms(1,2,3,5) cell H O by (auto simp: unbindSlots_def Let_def sameLength_def split: if_splits)
qed

lemma unbindSlots_freed: "hid h \<in> set (freed ms) \<Longrightarrow> unbindSlots h isCut ts ms = (ms, False)"
  by (simp add: unbindSlots_def)

text \<open>What a reading leaves in the cells, and what it takes out of them.\<close>

definition keepsBusy :: "bool list option \<Rightarrow> nat \<Rightarrow> bool" where
  "keepsBusy reading i = (case reading of None \<Rightarrow> False | Some busy \<Rightarrow> isBusyAt busy i)"

definition isPhantom :: "bool list option \<Rightarrow> duration \<Rightarrow> gotime \<Rightarrow> slotHolder option \<Rightarrow> nat \<Rightarrow> bool" where
  "isPhantom reading pa ts h i = (case reading of None \<Rightarrow> False | Some busy \<Rightarrow> phantom pa ts (isBusyAt busy i) h)"

lemma observeSlots_cells:
  assumes "sameLength ms" and ms': "ms' = observeSlots reading pa ts ms"
  shows "sameLength ms'"
    and "oAt ms' i = (if keepsBusy reading i then oAt ms i else None)"
    and "hAt ms' i = None \<longleftrightarrow> hAt ms i = None \<or> isPhantom reading pa ts (hAt ms i) i"
    and "hAt ms' i = Some h' \<Longrightarrow> \<exists>h. hAt ms i = Some h \<and> \<not> isPhantom reading pa ts (Some h) i \<and> hid h' = hid h \<and> slot h' = slot h"
    and "set (closedCh ms') = set (closedCh ms) \<union> {x. \<exists>i. oAt ms i = Some x \<and> \<not> keepsBusy reading i}"
    and "set (freed ms') = set (freed ms) \<union> {hid h | h i. hAt ms i = Some h \<and> isPhantom reading pa ts (Some h) i}"
proof -
  have *: "sameLength ms'
    \<and> (\<forall>i. oAt ms' i = (if keepsBusy reading i then oAt ms i else None))
    \<and> (\<forall>i. hAt ms' i = (if isPhantom reading pa ts (hAt ms i) i then None
         else if keepsBusy reading i then map_option (\<lambda>h. h\<lparr>lastBusy := ts\<rparr>) (hAt ms i) else hAt ms i))
    \<and> set (closedCh ms') = set (closedCh ms) \<union> {x. \<exists>i. oAt ms i = Some x \<and> \<not> keepsBusy reading i}
    \<and> set (freed ms') = set (freed ms) \<union> {hid h | h i. hAt ms i = Some h \<and> isPhantom reading pa ts (Some h) i}"
  proof (cases reading)
    case None
    have "set (List.map_filter id (orphans ms)) = {x. \<exists>i. oAt ms i = Some x}"
      by (auto simp: set_map_filter oAt_def in_set_conv_nth split: if_splits)
    then show ?thesis
      using assms(1) None by (auto simp: ms' observeSlots_def sameLength_def oAt_def hAt_def keepsBusy_def isPhantom_def)
  next
    case (Some busy)
    define M where "M = modelLocked (length busy) ms"
    have M: "hAt M = hAt ms" "oAt M = oAt ms" "sameLength M" "freed M = freed ms" "closedCh M = closedCh ms"
      using assms(1) by (simp_all add: M_def)
    have h: "i < length (holders M) \<Longrightarrow> holders M ! i = hAt ms i" "\<not> i < length (holders M) \<Longrightarrow> hAt ms i = None" for i
      using M(1) by (auto simp: hAt_def fun_eq_iff dest: spec[of _ i] split: if_splits)
    have o: "i < length (holders M) \<Longrightarrow> orphans M ! i = oAt ms i" "\<not> i < length (holders M) \<Longrightarrow> oAt ms i = None" for i
      using M(2,3) by (auto simp: oAt_def sameLength_def fun_eq_iff dest: spec[of _ i] split: if_splits)
    have closed: "set (List.map_filter (\<lambda>i. if isBusyAt busy i then None else orphans M ! i) [0..<length (holders M)])
        = {x. \<exists>i. oAt ms i = Some x \<and> \<not> isBusyAt busy i}"
      using o by (auto simp: set_map_filter split: if_splits) (metis atLeast0LessThan lessThan_iff option.distinct(1))
    have freed: "set (List.map_filter (\<lambda>i. if phantom pa ts (isBusyAt busy i) (holders M ! i)
           then map_option hid (holders M ! i) else None) [0..<length (holders M)])
        = {hid h | h i. hAt ms i = Some h \<and> phantom pa ts (isBusyAt busy i) (Some h)}"
      (is "set (List.map_filter ?f ?is) = ?R")
    proof
      show "set (List.map_filter ?f ?is) \<subseteq> ?R" using h(1) by (auto simp: set_map_filter split: if_splits) blast
      show "?R \<subseteq> set (List.map_filter ?f ?is)"
      proof
        fix y assume "y \<in> ?R"
        then obtain i g where y: "y = hid g" "hAt ms i = Some g" "phantom pa ts (isBusyAt busy i) (Some g)" by auto
        then have "i < length (holders M)" using h(2)[of i] by auto
        then have "i \<in> set ?is" "?f i = Some y" using h(1)[of i] y by simp_all
        then show "y \<in> set (List.map_filter ?f ?is)"
          unfolding set_map_filter mem_Collect_eq by (rule bexI[rotated])
      qed
    qed
    have obs: "ms' = M\<lparr>busySlots := busy, lastObserved := ts,
              closedCh := closedCh M @ List.map_filter (\<lambda>i. if isBusyAt busy i then None else orphans M ! i) [0..<length (holders M)],
              orphans := map (\<lambda>i. if isBusyAt busy i then orphans M ! i else None) [0..<length (holders M)],
              freed := freed M @ List.map_filter (\<lambda>i. if phantom pa ts (isBusyAt busy i) (holders M ! i)
                 then map_option hid (holders M ! i) else None) [0..<length (holders M)],
              holders := map (\<lambda>i. if phantom pa ts (isBusyAt busy i) (holders M ! i) then None
                 else if isBusyAt busy i then map_option (\<lambda>h. h\<lparr>lastBusy := ts\<rparr>) (holders M ! i) else holders M ! i)
                 [0..<length (holders M)]\<rparr>"
      unfolding ms' Some observeSlots_def M_def Let_def by (simp only: option.case)
    have len: "length (holders ms') = length (holders M)" "length (orphans ms') = length (holders M)"
      by (simp_all add: obs)
    have "oAt ms' i = (if isBusyAt busy i then oAt ms i else None)" for i
      using o[of i] unfolding oAt_def[of ms'] len by (simp add: obs)
    moreover have "hAt ms' i = (if phantom pa ts (isBusyAt busy i) (hAt ms i) then None
         else if isBusyAt busy i then map_option (\<lambda>h. h\<lparr>lastBusy := ts\<rparr>) (hAt ms i) else hAt ms i)" for i
      using h[of i] unfolding hAt_def[of ms'] len by (simp add: obs)
    ultimately show ?thesis
      using closed freed M(4,5) len unfolding Some keepsBusy_def isPhantom_def sameLength_def
      by (simp add: obs)
  qed
  then show "sameLength ms'" "oAt ms' i = (if keepsBusy reading i then oAt ms i else None)"
    "set (closedCh ms') = set (closedCh ms) \<union> {x. \<exists>i. oAt ms i = Some x \<and> \<not> keepsBusy reading i}"
    "set (freed ms') = set (freed ms) \<union> {hid h | h i. hAt ms i = Some h \<and> isPhantom reading pa ts (Some h) i}"
    by (elim conjE; simp)+
  from * show "hAt ms' i = None \<longleftrightarrow> hAt ms i = None \<or> isPhantom reading pa ts (hAt ms i) i" by auto
  from * show "hAt ms' i = Some h' \<Longrightarrow> \<exists>h. hAt ms i = Some h \<and> \<not> isPhantom reading pa ts (Some h) i \<and> hid h' = hid h \<and> slot h' = slot h"
    by (cases "hAt ms i") (auto split: if_splits)
qed

section \<open>The invariant of table and places\<close>

definition slotInv :: "slotWorld \<Rightarrow> bool" where
  "slotInv w \<longleftrightarrow>
     sameLength (table w)
     \<and> (\<forall>i h. hAt (table w) i = Some h \<longrightarrow> slot h = i \<and> hid h \<in> set (places w) \<and> hid h \<notin> set (freed (table w))
          \<and> (\<exists>g. map_of (beingServed w) (hid h) = Some (Some g) \<and> slot g = i))
     \<and> (\<forall>i x. oAt (table w) i = Some x \<longrightarrow> hAt (table w) i = None \<and> map_of (beingServed w) x = None \<and> x \<in> set (places w)
          \<and> x \<notin> set (freed (table w)) \<and> x \<notin> set (closedCh (table w)))
     \<and> (\<forall>i j x. oAt (table w) i = Some x \<longrightarrow> oAt (table w) j = Some x \<longrightarrow> i = j)
     \<and> (\<forall>y g. map_of (beingServed w) y = Some (Some g) \<longrightarrow> hid g = y
          \<and> (y \<notin> set (freed (table w)) \<longrightarrow> (\<exists>h. hAt (table w) (slot g) = Some h \<and> hid h = y)))
     \<and> distinct (places w)
     \<and> (\<forall>x. x \<in> set (places w) \<or> map_of (beingServed w) x \<noteq> None \<or> x \<in> set (freed (table w))
          \<or> x \<in> set (closedCh (table w)) \<or> x \<in> set (waitingIdle w) \<longrightarrow> x \<in> set (everBound w))
     \<and> (\<forall>x. x \<in> set (closedCh (table w)) \<or> x \<in> set (waitingIdle w) \<longrightarrow> map_of (beingServed w) x = None)"

lemma slotInv_holder:
  "slotInv w \<Longrightarrow> hAt (table w) i = Some h \<Longrightarrow> slot h = i \<and> hid h \<in> set (places w) \<and> hid h \<notin> set (freed (table w))
     \<and> (\<exists>g. map_of (beingServed w) (hid h) = Some (Some g) \<and> slot g = i)"
  unfolding slotInv_def by (elim conjE) (drule spec, drule spec, erule mp)

lemma slotInv_orphan:
  "slotInv w \<Longrightarrow> oAt (table w) i = Some x \<Longrightarrow> hAt (table w) i = None \<and> map_of (beingServed w) x = None \<and> x \<in> set (places w)
     \<and> x \<notin> set (freed (table w)) \<and> x \<notin> set (closedCh (table w))"
  by (simp add: slotInv_def)

lemma slotInv_orphan_inj:
  "slotInv w \<Longrightarrow> oAt (table w) i = Some x \<Longrightarrow> oAt (table w) j = Some x \<Longrightarrow> i = j"
  by (simp add: slotInv_def)

lemma slotInv_served:
  "slotInv w \<Longrightarrow> map_of (beingServed w) y = Some (Some g) \<Longrightarrow> hid g = y
     \<and> (y \<notin> set (freed (table w)) \<longrightarrow> (\<exists>h. hAt (table w) (slot g) = Some h \<and> hid h = y))"
  by (simp add: slotInv_def)

lemma slotInv_new: "slotInv newSlotWorld"
  by (simp add: slotInv_def newSlotWorld_def newModelSlots_def sameLength_def hAt_def oAt_def)

lemma slotInv_grant:
  assumes inv: "slotInv w" and "x \<notin> set (everBound w)"
  shows "slotInv (serveGranted n x bindable preferred ts w)"
proof -
  obtain ms h where b: "bindSlots n preferred x ts (table w) = (ms, h)" by (cases "bindSlots n preferred x ts (table w)")
  note inv' = inv[unfolded slotInv_def]
  have same: "sameLength (table w)" using inv' by simp
  note c = bindSlots_cells[OF b same]
  have x: "x \<notin> set (places w)" "map_of (beingServed w) x = None" "x \<notin> set (freed (table w))" "x \<notin> set (closedCh (table w))"
      "x \<notin> set (waitingIdle w)"
    using inv' assms(2) by blast+
  have nx: "hAt (table w) i = Some ha \<Longrightarrow> hid ha \<noteq> x" for i ha using inv' x(1) by blast
  have nslot: "hAt (table w) k = None \<Longrightarrow> map_of (beingServed w) y = Some (Some ga) \<Longrightarrow> y \<notin> set (freed (table w)) \<Longrightarrow>
      slot ga \<noteq> k" for k y ga using inv' by (metis option.distinct(1))
  show ?thesis
  proof (cases "bindable \<and> h \<noteq> None")
    case False
    then show ?thesis
      using inv' x c(1) c(2,3,4) c(5)
      by (cases bindable) (auto simp: slotInv_def serveGranted_def b)
  next
    case True
    then obtain g where g: "h = Some g" by blast
    show ?thesis
      using inv' x c(1) c(2,3,4) c(6)[OF g] True g nx nslot
      by (auto simp: slotInv_def serveGranted_def b)
  qed
qed

lemma slotInv_ended:
  assumes inv: "slotInv w" and x: "map_of (beingServed w) x = Some ho"
  shows "slotInv (serveEnded x ho isCut ts w)"
proof -
  note inv' = inv[unfolded slotInv_def]
  have same: "sameLength (table w)" using inv' by simp
  have nx: "hAt (table w) i = Some h \<Longrightarrow> slot h = i" for i h using inv' by blast
  show ?thesis
  proof (cases "\<exists>g. ho = Some g \<and> x \<notin> set (freed (table w))")
    case False
    have no: "hAt (table w) i = Some h \<Longrightarrow> hid h \<noteq> x" for i h using inv' False x by fastforce
    have eq: "serveEnded x ho isCut ts w = w\<lparr>beingServed := mdel x (beingServed w), places := removeAll x (places w)\<rparr>"
      using False inv' x by (cases ho) (simp_all add: serveEnded_def unbindSlots_freed)
    show ?thesis
      unfolding eq using inv' no x by (auto simp: slotInv_def distinct_removeAll)
  next
    case True
    then obtain g where ho: "ho = Some g" and xf: "x \<notin> set (freed (table w))" by auto
    have g: "hid g = x" using inv' x ho by blast
    obtain h where h: "hAt (table w) (slot g) = Some h" "hid h = x" using inv' x ho xf by blast
    obtain ms orphan where u: "unbindSlots g isCut ts (table w) = (ms, orphan)" by (cases "unbindSlots g isCut ts (table w)")
    have "hid g \<notin> set (freed (table w))" "hid h = hid g" using xf g h by simp_all
    note c = unbindSlots_cells[OF u same this(1) h(1) this(2)]
    have only: "hAt (table w) i = Some h' \<Longrightarrow> i \<noteq> slot g \<Longrightarrow> hid h' \<noteq> x" for i h'
      using inv' x ho by (metis option.inject)
    have opl: "oAt (table w) i = Some y \<Longrightarrow> y \<noteq> x" for i y using inv' x by (metis option.distinct(1))
    have other: "map_of (beingServed w) y = Some (Some ga) \<Longrightarrow> y \<notin> set (freed (table w)) \<Longrightarrow> y \<noteq> x \<Longrightarrow> slot ga \<noteq> slot g" for y ga
      using inv' h by (metis option.inject)
    have xc: "x \<notin> set (closedCh (table w))" using inv' x by (metis option.distinct(1))
    have pl: "x \<in> set (places w)" using inv' h by blast
    have oslot: "oAt (table w) (slot g) = None" using inv' h by (metis option.distinct(1) option.exhaust)
    show ?thesis
      using inv' ho u g c xf x only opl other xc pl oslot
      by (cases orphan) (auto simp: slotInv_def serveEnded_def Let_def distinct_removeAll)
  qed
qed

lemma slotInv_observe:
  assumes inv: "slotInv w"
  shows "slotInv (w\<lparr>table := observeSlots reading pa ts (table w)\<rparr>)"
proof -
  note inv' = inv[unfolded slotInv_def]
  have same: "sameLength (table w)" using inv' by simp
  define ms where "ms = observeSlots reading pa ts (table w)"
  note c = observeSlots_cells[OF same ms_def]
  have H: "slot h = i \<and> hid h \<in> set (places w) \<and> hid h \<notin> set (freed ms)
      \<and> (\<exists>g. map_of (beingServed w) (hid h) = Some (Some g) \<and> slot g = i)" if at': "hAt ms i = Some h" for i h
  proof -
    obtain h0 where h0: "hAt (table w) i = Some h0" "\<not> isPhantom reading pa ts (Some h0) i" "hid h = hid h0" "slot h = slot h0"
      using c(4)[OF at'] by blast
    obtain g where g: "slot h0 = i" "hid h0 \<in> set (places w)" "hid h0 \<notin> set (freed (table w))"
        "map_of (beingServed w) (hid h0) = Some (Some g)" "slot g = i"
      using inv' h0(1) by blast
    have "hid h0 \<noteq> hid h1" if "hAt (table w) j = Some h1" "isPhantom reading pa ts (Some h1) j" for j h1
    proof
      assume "hid h0 = hid h1"
      then have "j = i" using inv' that(1) g(4,5) by (metis option.inject)
      then show False using that h0(1,2) by simp
    qed
    then have "hid h0 \<notin> set (freed ms)" using g(3) unfolding c(6) by blast
    then show ?thesis using g h0(3,4) by auto
  qed
  have Oat: "oAt (table w) i = Some x \<and> keepsBusy reading i" if "oAt ms i = Some x" for i x
    using that c(2)[of i] by (auto split: if_splits)
  have O: "hAt ms i = None \<and> map_of (beingServed w) x = None \<and> x \<in> set (places w) \<and> x \<notin> set (freed ms) \<and> x \<notin> set (closedCh ms)"
    if at': "oAt ms i = Some x" for i x
  proof -
    have o: "hAt (table w) i = None" "map_of (beingServed w) x = None" "x \<in> set (places w)" "x \<notin> set (freed (table w))"
        "x \<notin> set (closedCh (table w))"
      using slotInv_orphan[OF inv conjunct1[OF Oat[OF at']]] by blast+
    have inj: "\<And>j. oAt (table w) j = Some x \<Longrightarrow> j = i"
      using slotInv_orphan_inj[OF inv _ conjunct1[OF Oat[OF at']]] .
    have "hAt ms i = None" using c(3)[of i] o(1) by simp
    moreover have "x \<notin> set (freed ms)" using o(2,4) inv' unfolding c(6) by fastforce
    moreover have "x \<notin> set (closedCh ms)" using o(5) inj Oat[OF at'] unfolding c(5) by blast
    ultimately show ?thesis using o by blast
  qed
  have I: "oAt ms i = Some x \<Longrightarrow> oAt ms j = Some x \<Longrightarrow> i = j" for i j x
    using slotInv_orphan_inj[OF inv] Oat by blast
  have S: "hid g = y \<and> (y \<notin> set (freed ms) \<longrightarrow> (\<exists>h. hAt ms (slot g) = Some h \<and> hid h = y))"
    if y: "map_of (beingServed w) y = Some (Some g)" for y g
  proof -
    have g: "hid g = y" and f: "y \<notin> set (freed (table w)) \<Longrightarrow> \<exists>h. hAt (table w) (slot g) = Some h \<and> hid h = y"
      using inv' y by blast+
    have "\<exists>h. hAt ms (slot g) = Some h \<and> hid h = y" if yf: "y \<notin> set (freed ms)"
    proof -
      obtain h where h: "hAt (table w) (slot g) = Some h" "hid h = y" using f yf unfolding c(6) by blast
      have "hAt ms (slot g) \<noteq> None" using h yf c(3)[of "slot g"] unfolding c(6) by auto
      then obtain h' where h': "hAt ms (slot g) = Some h'" by blast
      then show ?thesis using c(4)[OF h'] h by auto
    qed
    then show ?thesis using g by blast
  qed
  have E: "x \<in> set (places w) \<or> map_of (beingServed w) x \<noteq> None \<or> x \<in> set (freed ms) \<or> x \<in> set (closedCh ms)
      \<or> x \<in> set (waitingIdle w) \<longrightarrow> x \<in> set (everBound w)" for x
    using inv' unfolding c(5) c(6) by blast
  have C: "x \<in> set (closedCh ms) \<or> x \<in> set (waitingIdle w) \<longrightarrow> map_of (beingServed w) x = None" for x
    using inv' unfolding c(5) by blast
  show ?thesis
    unfolding slotInv_def ms_def[symmetric] using c(1) H O I S E C inv' by simp
qed

lemma slotInv_deliver:
  assumes inv: "slotInv w" and x: "x \<in> set (freed (table w)) \<or> x \<in> set (closedCh (table w))"
  shows "slotInv (w\<lparr>places := removeAll x (places w), waitingIdle := removeAll x (waitingIdle w)\<rparr>)"
proof -
  note inv' = inv[unfolded slotInv_def]
  have "hAt (table w) i = Some h \<Longrightarrow> hid h \<noteq> x" for i h using inv' x by (metis option.distinct(1))
  moreover have "oAt (table w) i = Some y \<Longrightarrow> y \<noteq> x" for i y using inv' x by metis
  ultimately show ?thesis
    using inv' by (auto simp: slotInv_def distinct_removeAll)
qed

lemma slotInv_step:
  assumes "slotInv w" "slotStep n pa e w = Some w'" "\<not> isStale e"
  shows "slotInv w'"
  using assms slotInv_grant slotInv_ended slotInv_observe slotInv_deliver
  by (cases e) (auto split: if_splits option.splits)

lemma slotInv_run:
  "slotRun n pa es w = Some w' \<Longrightarrow> \<not> list_ex isStale es \<Longrightarrow> slotInv w \<Longrightarrow> slotInv w'"
  by (induction es arbitrary: w) (auto split: option.splits dest: slotInv_step)

text \<open>A taken cell belongs to a taken place.\<close>

definition cellOwner :: "modelSlots \<Rightarrow> nat \<Rightarrow> nat" where
  "cellOwner ms i = (case hAt ms i of Some h \<Rightarrow> hid h | None \<Rightarrow> the (oAt ms i))"

lemma grant_finds_slot:
  assumes inv: "slotInv w" and room: "length (places w) < n"
  shows "\<exists>i<n. hAt (table w) i = None \<and> oAt (table w) i = None"
proof (rule ccontr)
  assume "\<not> ?thesis"
  then have full: "hAt (table w) i \<noteq> None \<or> oAt (table w) i \<noteq> None" if "i < n" for i using that by auto
  have "cellOwner (table w) i \<in> set (places w)" if "i < n" for i
    using full[OF that] slotInv_holder[OF inv, of i] slotInv_orphan[OF inv, of i]
    by (cases "hAt (table w) i") (auto simp: cellOwner_def)
  moreover have "inj_on (cellOwner (table w)) {..<n}"
  proof (rule inj_onI)
    fix i j assume ij: "i \<in> {..<n}" "j \<in> {..<n}" "cellOwner (table w) i = cellOwner (table w) j"
    have mixed: "hid h \<noteq> x" if "hAt (table w) k = Some h" "oAt (table w) l = Some x" for h x k l
      using slotInv_holder[OF inv that(1)] slotInv_orphan[OF inv that(2)] by auto
    have held: "k = l" if "hAt (table w) k = Some h" "hAt (table w) l = Some h'" "hid h = hid h'" for h h' k l
      using slotInv_holder[OF inv that(1)] slotInv_holder[OF inv that(2)] that(3) by auto
    consider h h' where "hAt (table w) i = Some h" "hAt (table w) j = Some h'"
      | h x where "hAt (table w) i = Some h" "hAt (table w) j = None" "oAt (table w) j = Some x"
      | h x where "hAt (table w) j = Some h" "hAt (table w) i = None" "oAt (table w) i = Some x"
      | x y where "hAt (table w) i = None" "oAt (table w) i = Some x" "hAt (table w) j = None" "oAt (table w) j = Some y"
      using full[of i] full[of j] ij(1,2) by (cases "hAt (table w) i"; cases "hAt (table w) j") auto
    then show "i = j"
    proof cases
      case 1 then show ?thesis using held ij(3) by (simp add: cellOwner_def)
    next
      case 2 then show ?thesis using mixed[OF 2(1,3)] ij(3) by (simp add: cellOwner_def)
    next
      case 3 then show ?thesis using mixed[OF 3(1,3)] ij(3) by (simp add: cellOwner_def)
    next
      case 4
      then have "y = x" using ij(3) by (simp add: cellOwner_def)
      then show ?thesis using slotInv_orphan_inj[OF inv 4(2), of j] 4(4) by blast
    qed
  qed
  ultimately have "card {..<n} \<le> card (set (places w))" by (intro card_inj_on_le) auto
  then show False using room card_length[of "places w"] by simp
qed

section \<open>Properties\<close>



text \<open>Once the poller falls silent the books diverge: the cut request's place is given back while its
  slot stays taken in the table, so the next grant below the limit gets no slot at all, and the one it asks
  for on the wire is held by another request.\<close>

theorem silent_poller_strands_slot:
  "\<exists>w w'. slotRun 2 60 [SGrant 1 True 0 5, SGrant 2 True 0 6, SObserve (Some [True, True]) 7, SDone 1 True 8,
       SStale 1 (8 + 31 * Second)] newSlotWorld = Some w
     \<and> length (places w) = 1 \<and> slotStep 2 60 (SGrant 3 True 1 (9 + 31 * Second)) w = Some w'
     \<and> map_of (beingServed w') 3 = Some None
     \<and> map_option (map_option slot) (map_of (beingServed w') 2) = Some (Some 1)"
proof -
  have "(case slotRun 2 60 [SGrant 1 True 0 5, SGrant 2 True 0 6, SObserve (Some [True, True]) 7, SDone 1 True 8,
         SStale 1 (8 + 31 * Second)] newSlotWorld of None \<Rightarrow> False
      | Some w \<Rightarrow> length (places w) = 1 \<and> (case slotStep 2 60 (SGrant 3 True 1 (9 + 31 * Second)) w of None \<Rightarrow> False
          | Some w' \<Rightarrow> map_of (beingServed w') 3 = Some None
              \<and> map_option (map_option slot) (map_of (beingServed w') 2) = Some (Some 1)))"
    by code_simp
  then show ?thesis by (auto split: option.splits simp del: slotRun.simps slotStep.simps)
qed

end
