(* ===== verification/SlotAffinity.thy ===== *)
theory SlotAffinity
  imports Prelude "HOL-Library.Product_Lexorder"
begin

text \<open>
  Slot affinity, \<open>internal/server/slot_affinity.go\<close>: per model, which slot of the child last served each
  session, where a new session is placed, how two sessions on one slot are pulled apart, and what the
  middleware injects into a request.

  A store operation takes the clock reading. The configuration is what the store asks of it, per model.
  Ranging over a session map follows the association list; the results that depend on the order are the
  evicted entry among equally old ones and the hot session among equally idle ones.
\<close>

section \<open>Entries and load\<close>

definition slotAffinityMaxSessions :: nat where "slotAffinityMaxSessions = 256"
definition slotAffinityMinLearnInputTokens :: int where "slotAffinityMinLearnInputTokens = 2048"
definition slotAffinityMinInjectBodyBytes :: int where "slotAffinityMinInjectBodyBytes = 16384"
definition slotAffinityActiveWindow :: duration where "slotAffinityActiveWindow = 15 * Minute"
definition slotAffinityLiveWindow :: duration where "slotAffinityLiveWindow = 2 * Minute"

record slotAffinityEntry =
  aslot :: int
  seen :: gotime
  assigned :: gotime
  inflightTurns :: int
  lastEnd :: gotime

type_synonym sessionMap = "(string, slotAffinityEntry) gomap"

record affinityModel =
  SlotAffinityOn :: bool
  HasSlotsEndpoint :: bool
  ConcurrencyLimit :: nat

record slotAffinityStore =
  acfg :: "(string, affinityModel) gomap"
  maxSessions :: nat
  minLearnInputTokens :: int
  minInjectBodyBytes :: int
  activeWindow :: duration
  liveWindow :: duration
  byModel :: "(string, sessionMap) gomap"

definition newSlotAffinityStore :: "(string, affinityModel) gomap \<Rightarrow> slotAffinityStore" where
  "newSlotAffinityStore cfg = \<lparr>acfg = cfg, maxSessions = slotAffinityMaxSessions,
     minLearnInputTokens = slotAffinityMinLearnInputTokens, minInjectBodyBytes = slotAffinityMinInjectBodyBytes,
     activeWindow = slotAffinityActiveWindow, liveWindow = slotAffinityLiveWindow, byModel = []\<rparr>"

definition sessionsOf :: "slotAffinityStore \<Rightarrow> string \<Rightarrow> sessionMap" where
  "sessionsOf s model = (case map_of (byModel s) model of None \<Rightarrow> [] | Some m \<Rightarrow> m)"

definition putSession :: "string \<Rightarrow> string \<Rightarrow> slotAffinityEntry \<Rightarrow> slotAffinityStore \<Rightarrow> slotAffinityStore" where
  "putSession model sid e s = s\<lparr>byModel := mput model (mput sid e (sessionsOf s model)) (byModel s)\<rparr>"

definition lastUseOf :: "slotAffinityEntry \<Rightarrow> gotime" where
  "lastUseOf e = (if lastEnd e > seen e then lastEnd e else seen e)"

definition liveLocked :: "duration \<Rightarrow> slotAffinityEntry \<Rightarrow> gotime \<Rightarrow> bool" where
  "liveLocked window e ts = (if inflightTurns e > 0 then True else ts - lastUseOf e \<le> window)"

definition addLoad :: "duration \<Rightarrow> string \<Rightarrow> nat \<Rightarrow> gotime \<Rightarrow> nat list \<times> gotime list \<Rightarrow> string \<times> slotAffinityEntry \<Rightarrow> nat list \<times> gotime list" where
  "addLoad window exclude nSlots ts acc ke =
     (case acc of (live, lastUsed) \<Rightarrow> case ke of (key, e) \<Rightarrow>
        (if aslot e < 0 \<or> aslot e \<ge> int nSlots then (live, lastUsed)
         else let i = nat (aslot e) in
           (if key \<noteq> exclude \<and> liveLocked window e ts then live[i := live ! i + 1] else live,
            if lastUseOf e > lastUsed ! i then lastUsed[i := lastUseOf e] else lastUsed)))"

definition slotLoadLocked :: "duration \<Rightarrow> sessionMap \<Rightarrow> string \<Rightarrow> nat \<Rightarrow> gotime \<Rightarrow> nat list \<times> gotime list" where
  "slotLoadLocked window sessions exclude nSlots ts =
     foldl (addLoad window exclude nSlots ts) (replicate nSlots 0, replicate nSlots zeroTime) sessions"

definition pickSlotLocked :: "nat list \<Rightarrow> gotime list \<Rightarrow> nat" where
  "pickSlotLocked live lastUsed =
     foldl (\<lambda>best i. if live ! i < live ! best then i
                     else if live ! i = live ! best \<and> lastUsed ! i < lastUsed ! best then i else best)
       0 [1..<length live]"

section \<open>The store's operations\<close>

definition affinityLaneKey :: "(string, string) gomap \<Rightarrow> string" where
  "affinityLaneKey metadata =
     (case map_of metadata ''session_id'' of None \<Rightarrow> ''''
      | Some sid \<Rightarrow>
          (if sid = '''' then ''''
           else case map_of metadata ''agent_id'' of None \<Rightarrow> sid
             | Some aid \<Rightarrow> (if aid \<noteq> '''' then sid @ ''/'' @ aid else sid)))"

definition affinityEnabled :: "slotAffinityStore \<Rightarrow> string \<Rightarrow> bool" where
  "affinityEnabled s model = (case map_of (acfg s) model of None \<Rightarrow> False | Some mc \<Rightarrow> SlotAffinityOn mc \<and> HasSlotsEndpoint mc)"

definition evictOldestLocked :: "sessionMap \<Rightarrow> sessionMap" where
  "evictOldestLocked sessions =
     (case foldl (\<lambda>acc (k, e). case acc of None \<Rightarrow> Some (k, seen e)
                    | Some (ok, o1) \<Rightarrow> if seen e < o1 then Some (k, seen e) else acc) None sessions of
        None \<Rightarrow> sessions | Some (k, _) \<Rightarrow> mdel k sessions)"

definition learn :: "string \<Rightarrow> string \<Rightarrow> int \<Rightarrow> gotime \<Rightarrow> slotAffinityStore \<Rightarrow> slotAffinityStore" where
  "learn model sid sl ts s =
     (if \<not> affinityEnabled s model \<or> sid = '''' \<or> sl < 0 then s
      else let sessions = sessionsOf s model; old = map_of sessions sid;
               sessions = (if old = None \<and> length sessions \<ge> maxSessions s then evictOldestLocked sessions else sessions);
               e = (case old of None \<Rightarrow> \<lparr>aslot = 0, seen = zeroTime, assigned = zeroTime, inflightTurns = 0, lastEnd = zeroTime\<rparr> | Some e \<Rightarrow> e);
               e = (if old = None \<or> aslot e \<noteq> sl then e\<lparr>assigned := ts\<rparr> else e)
           in s\<lparr>byModel := mput model (mput sid (e\<lparr>aslot := sl, seen := ts\<rparr>) sessions) (byModel s)\<rparr>)"

definition lookup :: "string \<Rightarrow> string \<Rightarrow> gotime \<Rightarrow> slotAffinityStore \<Rightarrow> slotAffinityStore \<times> int option" where
  "lookup model sid ts s =
     (if \<not> affinityEnabled s model \<or> sid = '''' then (s, None)
      else case map_of (sessionsOf s model) sid of None \<Rightarrow> (s, None)
           | Some e \<Rightarrow> (putSession model sid (e\<lparr>seen := ts\<rparr>) s, Some (aslot e)))"

definition assign :: "string \<Rightarrow> string \<Rightarrow> nat \<Rightarrow> gotime \<Rightarrow> slotAffinityStore \<Rightarrow> slotAffinityStore \<times> int option" where
  "assign model sid nSlots ts s =
     (if \<not> affinityEnabled s model \<or> sid = '''' \<or> nSlots \<le> 1 then (s, None)
      else let sessions = sessionsOf s model in
           case map_of sessions sid of
             Some e \<Rightarrow> (putSession model sid (e\<lparr>seen := ts\<rparr>) s, Some (aslot e))
           | None \<Rightarrow>
               (case slotLoadLocked (liveWindow s) sessions sid nSlots ts of (live, lastUsed) \<Rightarrow>
                 (let best = int (pickSlotLocked live lastUsed);
                      sessions = (if length sessions \<ge> maxSessions s then evictOldestLocked sessions else sessions);
                      e = \<lparr>aslot = best, seen = ts, assigned = ts, inflightTurns = 0, lastEnd = zeroTime\<rparr>
                  in (s\<lparr>byModel := mput model (mput sid e sessions) (byModel s)\<rparr>, Some best))))"

definition sharedWithOlder :: "duration \<Rightarrow> sessionMap \<Rightarrow> string \<Rightarrow> slotAffinityEntry \<Rightarrow> gotime \<Rightarrow> bool" where
  "sharedWithOlder window sessions sid e ts =
     list_ex (\<lambda>(key, other). \<not> (key = sid \<or> aslot other \<noteq> aslot e \<or> \<not> liveLocked window other ts)
        \<and> (assigned other < assigned e \<or> assigned other = assigned e \<and> key < sid)) sessions"

definition lookupRepair :: "string \<Rightarrow> string \<Rightarrow> nat \<Rightarrow> gotime \<Rightarrow> slotAffinityStore \<Rightarrow> slotAffinityStore \<times> int option" where
  "lookupRepair model sid nSlots ts s =
     (if \<not> affinityEnabled s model \<or> sid = '''' then (s, None)
      else let sessions = sessionsOf s model in
           case map_of sessions sid of None \<Rightarrow> (s, None)
           | Some e \<Rightarrow>
               (let e1 = (if nSlots > 1 \<and> aslot e \<ge> 0 \<and> aslot e < int nSlots \<and> sharedWithOlder (liveWindow s) sessions sid e ts then
                            (case slotLoadLocked (liveWindow s) sessions sid nSlots ts of (live, lastUsed) \<Rightarrow>
                              (let target = pickSlotLocked live lastUsed in
                               if live ! target = 0 \<and> int target \<noteq> aslot e then e\<lparr>aslot := int target, assigned := ts\<rparr> else e))
                          else e)
                in (putSession model sid (e1\<lparr>seen := ts\<rparr>) s, Some (aslot e1))))"

definition adjustInflight :: "string \<Rightarrow> string \<Rightarrow> int \<Rightarrow> gotime \<Rightarrow> slotAffinityStore \<Rightarrow> slotAffinityStore" where
  "adjustInflight model sid delta ts s =
     (if sid = '''' then s
      else case map_of (sessionsOf s model) sid of None \<Rightarrow> s
        | Some e \<Rightarrow>
            (let e1 = e\<lparr>inflightTurns := (if inflightTurns e + delta < 0 then 0 else inflightTurns e + delta)\<rparr>;
                 e2 = (if delta < 0 then e1\<lparr>lastEnd := ts\<rparr> else e1)
             in putSession model sid e2 s))"

definition forget :: "string \<Rightarrow> slotAffinityStore \<Rightarrow> slotAffinityStore" where
  "forget model s = s\<lparr>byModel := mdel model (byModel s)\<rparr>"

definition onProcessStateChange :: "string \<Rightarrow> string \<Rightarrow> slotAffinityStore \<Rightarrow> slotAffinityStore" where
  "onProcessStateChange name newState s =
     (if newState = ''stopping'' \<or> newState = ''stopped'' \<or> newState = ''shutdown'' then forget name s else s)"

section \<open>Slots for requests without a lane, and the display\<close>

definition activeCount :: "gotime \<Rightarrow> sessionMap \<Rightarrow> nat \<Rightarrow> nat" where
  "activeCount cutoff sessions i = length (filter (\<lambda>(k, e). seen e > cutoff \<and> aslot e = int i) sessions)"

definition scratchSlot :: "string \<Rightarrow> nat \<Rightarrow> gotime \<Rightarrow> slotAffinityStore \<Rightarrow> int option" where
  "scratchSlot model nSlots ts s =
     (if \<not> affinityEnabled s model \<or> nSlots \<le> 1 then None
      else let sessions = sessionsOf s model;
               live = fst (slotLoadLocked (liveWindow s) sessions '''' nSlots ts);
               counts = activeCount (ts - activeWindow s) sessions
           in Some (int (foldl (\<lambda>best i. if live ! i < live ! best \<or> live ! i = live ! best \<and> counts i < counts best then i else best)
                (nSlots - 1) (rev [0..<nSlots - 1]))))"

record HotSlot =
  Slot :: int
  SessionID :: string
  IdleSeconds :: int

definition hotSlots :: "string \<Rightarrow> nat \<Rightarrow> gotime \<Rightarrow> slotAffinityStore \<Rightarrow> HotSlot list" where
  "hotSlots model nSlots ts s =
     foldl (\<lambda>out (sid, e).
        if aslot e < 0 \<or> aslot e \<ge> int nSlots \<or> \<not> seen e > ts - activeWindow s then out
        else let idle = (ts - seen e) div Second; cur = out ! nat (aslot e) in
             if SessionID cur = '''' \<or> idle < IdleSeconds cur
             then out[nat (aslot e) := \<lparr>Slot = aslot e, SessionID = sid, IdleSeconds = idle\<rparr>] else out)
       (map (\<lambda>i. \<lparr>Slot = int i, SessionID = '''', IdleSeconds = 0\<rparr>) [0..<nSlots]) (sessionsOf s model)"

section \<open>The middleware\<close>

text \<open>\<open>resolveResident\<close> maps an alias to the model that serves it.\<close>

record affinityRequest =
  areqModel :: string
  areqMeta :: "(string, string) gomap"
  areqBytes :: int
  areqJson :: bool

definition affinityModelOf :: "(string \<Rightarrow> string option) \<Rightarrow> slotAffinityStore \<Rightarrow> string \<Rightarrow> string" where
  "affinityModelOf resolveResident s model =
     (if map_of (acfg s) model = None then (case resolveResident model of Some r \<Rightarrow> r | None \<Rightarrow> model) else model)"

text \<open>For a JSON POST: the slot to inject and the lane it is for (empty for a scratch slot).\<close>

definition affinityDecide ::
  "(string \<Rightarrow> string option) \<Rightarrow> affinityRequest \<Rightarrow> gotime \<Rightarrow> slotAffinityStore \<Rightarrow> slotAffinityStore \<times> (int \<times> string) option" where
  "affinityDecide resolveResident r ts s =
     (let model = affinityModelOf resolveResident s (areqModel r);
          nSlots = (case map_of (acfg s) model of None \<Rightarrow> 0 | Some mc \<Rightarrow> ConcurrencyLimit mc);
          (s1, sl, lane) =
            (if areqBytes r < minInjectBodyBytes s then (s, scratchSlot model nSlots ts s, '''')
             else let lane = affinityLaneKey (areqMeta r) in
               case lookupRepair model lane nSlots ts s of
                 (s1, Some sl) \<Rightarrow> (s1, Some sl, lane)
               | (s1, None) \<Rightarrow> (case assign model lane nSlots ts s1 of (s2, sl) \<Rightarrow> (s2, sl, lane)))
      in case sl of None \<Rightarrow> (s1, None)
         | Some sl \<Rightarrow>
             (if \<not> areqJson r then (s1, None)
              else (adjustInflight model lane 1 ts s1, Some (sl, lane))))"

end
