(* ===== verification/AffinitySafety.thy ===== *)
theory AffinitySafety
  imports SlotAffinity
begin

text \<open>
  What the slot table of sessions guarantees: where a session is placed, which of two sessions on one slot
  moves and when, and that the table stays bounded.
\<close>

section \<open>The load of a slot\<close>

definition otherLive :: "duration \<Rightarrow> sessionMap \<Rightarrow> string \<Rightarrow> gotime \<Rightarrow> nat \<Rightarrow> nat" where
  "otherLive window sessions sid ts i =
     length (filter (\<lambda>(k, e). aslot e = int i \<and> k \<noteq> sid \<and> liveLocked window e ts) sessions)"

definition lastUsedOn :: "sessionMap \<Rightarrow> nat \<Rightarrow> gotime" where
  "lastUsedOn sessions i = Max (insert zeroTime (lastUseOf ` snd ` set (filter (\<lambda>(k, e). aslot e = int i) sessions)))"

lemma Max_insert_max: "finite A \<Longrightarrow> Max (insert (max a b) A) = max a (Max (insert b (A :: gotime set)))"
  by (cases "A = {}") (simp_all add: max.assoc)

lemma Max_insert_swap: "finite A \<Longrightarrow> max a (Max (insert b A)) = max b (Max (insert a (A :: gotime set)))"
  by (cases "A = {}") (simp_all add: max.commute max.left_commute)

lemma addLoad_fold:
  "length live = n \<Longrightarrow> length lastUsed = n \<Longrightarrow> foldl (addLoad window sid n ts) (live, lastUsed) sessions = (live', lastUsed') \<Longrightarrow>
     length live' = n \<and> length lastUsed' = n \<and>
     (\<forall>i<n. live' ! i = live ! i + otherLive window sessions sid ts i
        \<and> lastUsed' ! i = Max (insert (lastUsed ! i) (lastUseOf ` snd ` set (filter (\<lambda>(k, e). aslot e = int i) sessions))))"
proof (induction sessions arbitrary: live lastUsed)
  case Nil
  then show ?case by (simp add: otherLive_def)
next
  case (Cons ke sessions)
  obtain k e where ke: "ke = (k, e)" by (cases ke)
  obtain l u where lu: "addLoad window sid n ts (live, lastUsed) (k, e) = (l, u)" by (cases "addLoad window sid n ts (live, lastUsed) (k, e)")
  have len: "length l = n" "length u = n"
    using lu Cons.prems(1,2) by (auto simp: addLoad_def Let_def split: if_splits)
  have cell: "l ! i = live ! i + (if aslot e = int i \<and> k \<noteq> sid \<and> liveLocked window e ts then 1 else 0)"
    "u ! i = (if aslot e = int i then max (lastUseOf e) (lastUsed ! i) else lastUsed ! i)" if "i < n" for i
    using lu that Cons.prems(1,2) by (auto simp: addLoad_def Let_def nth_list_update max_def split: if_splits)
  have fin: "finite (lastUseOf ` snd ` set (filter (\<lambda>(k, e). aslot e = int i) sessions))" for i by simp
  show ?case
    using Cons.IH[OF len] Cons.prems(3) cell lu fin
    by (auto simp: ke otherLive_def Max_insert_max Max_insert_swap)
qed

lemma slotLoadLocked_spec:
  assumes "slotLoadLocked window sessions sid n ts = (live, lastUsed)"
  shows "length live = n" "length lastUsed = n"
    "i < n \<Longrightarrow> live ! i = otherLive window sessions sid ts i" "i < n \<Longrightarrow> lastUsed ! i = lastUsedOn sessions i"
  using addLoad_fold[of "replicate n 0" n "replicate n zeroTime" window sid ts sessions live lastUsed] assms
  by (simp_all add: slotLoadLocked_def lastUsedOn_def)

lemma pickSlotLocked_spec:
  assumes "0 < n" "length live = n"
  shows "pickSlotLocked live lastUsed < n \<and>
    (\<forall>i<n. (live ! pickSlotLocked live lastUsed, lastUsed ! pickSlotLocked live lastUsed, pickSlotLocked live lastUsed)
        \<le> (live ! i, lastUsed ! i, i))"
proof -
  define f where "f = (\<lambda>best i. if live ! i < live ! best then i
                     else if live ! i = live ! best \<and> lastUsed ! i < lastUsed ! best then i else best)"
  have "foldl f 0 [1..<m] < m \<and> (\<forall>i<m. (live ! foldl f 0 [1..<m], lastUsed ! foldl f 0 [1..<m], foldl f 0 [1..<m])
        \<le> (live ! i, lastUsed ! i, i))" if "0 < m" for m
    using that
  proof (induction m)
    case (Suc m)
    show ?case
    proof (cases "m = 0")
      case False
      then have IH: "foldl f 0 [1..<m] < m" "\<And>i. i < m \<Longrightarrow> (live ! foldl f 0 [1..<m], lastUsed ! foldl f 0 [1..<m], foldl f 0 [1..<m])
        \<le> (live ! i, lastUsed ! i, i)" using Suc.IH by auto
      define b where "b = foldl f 0 [1..<m]"
      have next': "foldl f 0 [1..<Suc m] = f b m" using False by (simp add: b_def)
      have b: "b < m" "\<And>i. i < m \<Longrightarrow> (live ! b, lastUsed ! b, b) \<le> (live ! i, lastUsed ! i, i)" using IH by (simp_all add: b_def)
      have "(live ! f b m, lastUsed ! f b m, f b m) \<le> (live ! b, lastUsed ! b, b)"
        by (auto simp: f_def less_eq_prod_def)
      then have below: "(live ! f b m, lastUsed ! f b m, f b m) \<le> (live ! i, lastUsed ! i, i)" if "i < m" for i
        using order_trans[OF _ b(2)[OF that]] by blast
      have top: "(live ! f b m, lastUsed ! f b m, f b m) \<le> (live ! m, lastUsed ! m, m)"
        using b(1) by (auto simp: f_def less_eq_prod_def)
      have "(live ! f b m, lastUsed ! f b m, f b m) \<le> (live ! i, lastUsed ! i, i)" if "i < Suc m" for i
      proof (cases "i = m")
        case True show ?thesis unfolding True by (rule top)
      next
        case False then show ?thesis using that by (intro below) simp
      qed
      moreover have "f b m < Suc m" using b(1) by (simp add: f_def)
      ultimately show ?thesis unfolding next' by blast
    qed simp
  qed simp
  then show ?thesis using assms by (simp add: pickSlotLocked_def f_def)
qed

lemma otherLive_zero:
  "otherLive window sessions sid ts i = 0 \<longleftrightarrow>
     \<not> (\<exists>(k, o1)\<in>set sessions. k \<noteq> sid \<and> aslot o1 = int i \<and> liveLocked window o1 ts)"
  by (auto simp: otherLive_def filter_empty_conv)

section \<open>Placement and repair\<close>

text \<open>A session without a slot is placed on the one with the fewest live sessions, among those the one
  used longest ago, among those the lowest, and nothing else in the table changes but for the session least
  recently seen when the table is full.\<close>

theorem assign_places_best:
  assumes "affinityEnabled s model" "sid \<noteq> ''''" "1 < n" "map_of (sessionsOf s model) sid = None"
    and "assign model sid n ts s = (s', res)"
  shows "\<exists>sl<n. res = Some (int sl)
    \<and> (\<forall>i<n. (otherLive (liveWindow s) (sessionsOf s model) sid ts sl, lastUsedOn (sessionsOf s model) sl, sl)
            \<le> (otherLive (liveWindow s) (sessionsOf s model) sid ts i, lastUsedOn (sessionsOf s model) i, i))
    \<and> sessionsOf s' model = mput sid \<lparr>aslot = int sl, seen = ts, assigned = ts, inflightTurns = 0, lastEnd = zeroTime\<rparr>
        (if length (sessionsOf s model) < maxSessions s then sessionsOf s model else evictOldestLocked (sessionsOf s model))"
proof -
  obtain live lastUsed where l: "slotLoadLocked (liveWindow s) (sessionsOf s model) sid n ts = (live, lastUsed)"
    by (cases "slotLoadLocked (liveWindow s) (sessionsOf s model) sid n ts")
  note sp = slotLoadLocked_spec[OF l]
  have "0 < n" using assms(3) by simp
  note pk = pickSlotLocked_spec[OF this sp(1), of lastUsed]
  have eq: "s' = s\<lparr>byModel := mput model (mput sid \<lparr>aslot = int (pickSlotLocked live lastUsed), seen = ts, assigned = ts,
        inflightTurns = 0, lastEnd = zeroTime\<rparr>
        (if length (sessionsOf s model) < maxSessions s then sessionsOf s model else evictOldestLocked (sessionsOf s model))) (byModel s)\<rparr>"
    "res = Some (int (pickSlotLocked live lastUsed))"
    using assms l by (auto simp: assign_def Let_def not_le[symmetric])
  have "sessionsOf s' model = mput sid \<lparr>aslot = int (pickSlotLocked live lastUsed), seen = ts, assigned = ts,
        inflightTurns = 0, lastEnd = zeroTime\<rparr>
        (if length (sessionsOf s model) < maxSessions s then sessionsOf s model else evictOldestLocked (sessionsOf s model))"
    by (simp add: eq(1) sessionsOf_def)
  then show ?thesis
    using pk eq(2) sp(3,4)
    by (intro exI[of _ "pickSlotLocked live lastUsed"]) (simp add: sp(3,4)[OF conjunct1[OF pk]])
qed

lemma assign_places_best_witness:
  "let cfg = [(''m'', \<lparr>SlotAffinityOn = True, HasSlotsEndpoint = True, ConcurrencyLimit = 2\<rparr>)];
       (s, r) = assign ''m'' ''a'' 2 5 (newSlotAffinityStore cfg)
   in \<exists>sl<2. snd (assign ''m'' ''b'' 2 6 s) = Some (int sl) \<and> sl = 1"
proof -
  define cfg where "cfg = [(''m'', \<lparr>SlotAffinityOn = True, HasSlotsEndpoint = True, ConcurrencyLimit = 2\<rparr>)]"
  define s where "s = fst (assign ''m'' ''a'' 2 5 (newSlotAffinityStore cfg))"
  have e: "affinityEnabled s ''m''" "map_of (sessionsOf s ''m'') ''b'' = None"
    and one: "snd (assign ''m'' ''b'' 2 6 s) = Some 1"
    unfolding s_def cfg_def by code_simp+
  have "\<exists>sl<2. snd (assign ''m'' ''b'' 2 6 s) = Some (int sl)"
    using assign_places_best[OF e(1) _ _ e(2), of 2 6] by (cases "assign ''m'' ''b'' 2 6 s") auto
  then show ?thesis using one unfolding Let_def cfg_def[symmetric] case_prod_beta s_def[symmetric] by auto
qed

text \<open>A session about to be served is moved exactly when it shares its slot with a live session placed
  there before it (by its key at equal times) and some slot has no other live session; it then gets such
  a slot. Nothing else in the table changes but its own recency, so the older of the two never moves.\<close>

theorem repair_moves_the_newer:
  assumes "affinityEnabled s model" "sid \<noteq> ''''" "map_of (sessionsOf s model) sid = Some e"
    and "lookupRepair model sid n ts s = (s', res)"
  shows "\<exists>e'. res = Some (aslot e') \<and> sessionsOf s' model = mput sid e' (sessionsOf s model) \<and> seen e' = ts
    \<and> (aslot e' \<noteq> aslot e \<longleftrightarrow> 1 < n \<and> 0 \<le> aslot e \<and> aslot e < int n
         \<and> (\<exists>(k, o1)\<in>set (sessionsOf s model). k \<noteq> sid \<and> aslot o1 = aslot e \<and> liveLocked (liveWindow s) o1 ts
              \<and> (assigned o1, k) < (assigned e, sid))
         \<and> (\<exists>i<n. otherLive (liveWindow s) (sessionsOf s model) sid ts i = 0))
    \<and> (aslot e' \<noteq> aslot e \<longrightarrow> (\<exists>sl<n. aslot e' = int sl \<and> otherLive (liveWindow s) (sessionsOf s model) sid ts sl = 0))
    \<and> (aslot e' = aslot e \<longrightarrow> e' = e\<lparr>seen := ts\<rparr>)"
proof -
  let ?ss = "sessionsOf s model" and ?w = "liveWindow s"
  obtain live lastUsed where l: "slotLoadLocked ?w ?ss sid n ts = (live, lastUsed)"
    by (cases "slotLoadLocked ?w ?ss sid n ts")
  note sp = slotLoadLocked_spec[OF l]
  define target where "target = pickSlotLocked live lastUsed"
  have shared: "sharedWithOlder ?w ?ss sid e ts \<longleftrightarrow>
      (\<exists>(k, o1)\<in>set ?ss. k \<noteq> sid \<and> aslot o1 = aslot e \<and> liveLocked ?w o1 ts \<and> (assigned o1, k) < (assigned e, sid))"
    by (auto simp: sharedWithOlder_def list_ex_iff less_prod_def)
  have target: "target < n" "(\<exists>i<n. otherLive ?w ?ss sid ts i = 0) \<longleftrightarrow> otherLive ?w ?ss sid ts target = 0"
    "live ! target = otherLive ?w ?ss sid ts target" if "1 < n"
  proof -
    have pk: "target < n \<and> (\<forall>i<n. (live ! target, lastUsed ! target, target) \<le> (live ! i, lastUsed ! i, i))"
      using pickSlotLocked_spec[OF _ sp(1), of lastUsed] that by (simp add: target_def)
    then show lt: "target < n" by simp
    then show here: "live ! target = otherLive ?w ?ss sid ts target" using sp(3) by simp
    have least: "live ! target \<le> live ! i" if "i < n" for i using pk that by (auto simp: less_eq_prod_def dest!: spec[of _ i])
    show "(\<exists>i<n. otherLive ?w ?ss sid ts i = 0) \<longleftrightarrow> otherLive ?w ?ss sid ts target = 0"
      using lt here least sp(3) by (metis le_zero_eq)
  qed
  have away: "otherLive ?w ?ss sid ts target \<noteq> 0" if "sharedWithOlder ?w ?ss sid e ts" "int target = aslot e"
    using that unfolding shared otherLive_zero by fastforce
  define moves where "moves = (1 < n \<and> 0 \<le> aslot e \<and> aslot e < int n \<and> sharedWithOlder ?w ?ss sid e ts
      \<and> otherLive ?w ?ss sid ts target = 0)"
  define e' where "e' = (if moves then e\<lparr>aslot := int target, assigned := ts, seen := ts\<rparr> else e\<lparr>seen := ts\<rparr>)"
  have run: "s' = putSession model sid e' s \<and> res = Some (aslot e')"
    using assms l target(3) away
    by (auto simp: lookupRepair_def Let_def target_def[symmetric] e'_def moves_def split: if_splits)
  have move: "aslot e' \<noteq> aslot e \<longleftrightarrow> moves" using away by (auto simp: e'_def moves_def)
  have sessions: "sessionsOf s' model = mput sid e' ?ss" using run by (simp add: putSession_def sessionsOf_def)
  have moves: "moves \<longleftrightarrow> 1 < n \<and> 0 \<le> aslot e \<and> aslot e < int n
         \<and> (\<exists>(k, o1)\<in>set ?ss. k \<noteq> sid \<and> aslot o1 = aslot e \<and> liveLocked ?w o1 ts \<and> (assigned o1, k) < (assigned e, sid))
         \<and> (\<exists>i<n. otherLive ?w ?ss sid ts i = 0)"
    unfolding moves_def shared using target(2) by blast
  have moved: "aslot e' \<noteq> aslot e \<longrightarrow> (\<exists>sl<n. aslot e' = int sl \<and> otherLive ?w ?ss sid ts sl = 0)"
    unfolding move using target(1) by (auto simp: e'_def moves_def)
  have stays: "aslot e' = aslot e \<longrightarrow> e' = e\<lparr>seen := ts\<rparr>"
  proof
    assume "aslot e' = aslot e"
    then have "\<not> moves" using move by blast
    then show "e' = e\<lparr>seen := ts\<rparr>" by (simp add: e'_def)
  qed
  have seen: "seen e' = ts" by (simp add: e'_def)
  show ?thesis
    by (rule exI[of _ e'], intro conjI conjunct2[OF run] sessions seen moved stays) (unfold move, rule moves)
qed

lemma repair_moves_the_newer_witness:
  "let cfg = [(''m'', \<lparr>SlotAffinityOn = True, HasSlotsEndpoint = True, ConcurrencyLimit = 2\<rparr>)];
       s = learn ''m'' ''b'' 0 6 (learn ''m'' ''a'' 0 5 (newSlotAffinityStore cfg))
   in snd (lookupRepair ''m'' ''b'' 2 7 s) = Some 1 \<and>
      (\<exists>e :: slotAffinityEntry. snd (lookupRepair ''m'' ''a'' 2 7 s) = Some (aslot e) \<and> aslot e = 0)"
proof -
  define cfg where "cfg = [(''m'', \<lparr>SlotAffinityOn = True, HasSlotsEndpoint = True, ConcurrencyLimit = 2\<rparr>)]"
  define s where "s = learn ''m'' ''b'' 0 6 (learn ''m'' ''a'' 0 5 (newSlotAffinityStore cfg))"
  have en: "affinityEnabled s ''m''" and a: "map_option aslot (map_of (sessionsOf s ''m'') ''a'') = Some 0"
    and res: "snd (lookupRepair ''m'' ''b'' 2 7 s) = Some 1" "snd (lookupRepair ''m'' ''a'' 2 7 s) = Some 0"
    unfolding s_def cfg_def by code_simp+
  obtain e where e: "map_of (sessionsOf s ''m'') ''a'' = Some e" using a by auto
  have "\<exists>e' :: slotAffinityEntry. snd (lookupRepair ''m'' ''a'' 2 7 s) = Some (aslot e')"
  proof -
    obtain s' r where r: "lookupRepair ''m'' ''a'' 2 7 s = (s', r)" by (cases "lookupRepair ''m'' ''a'' 2 7 s")
    have "''a'' \<noteq> ''''" by simp
    from repair_moves_the_newer[OF en this e r] have "\<exists>e' :: slotAffinityEntry. r = Some (aslot e')" by (elim exE conjE) (rule exI, assumption)
    then show ?thesis using r by simp
  qed
  then show ?thesis using res unfolding Let_def cfg_def[symmetric] s_def[symmetric] by auto
qed

section \<open>The table is bounded\<close>

datatype affinityOp = ALearn string string int gotime | ALookup string string gotime | AAssign string string nat gotime
  | ARepair string string nat gotime | AAdjust string string int gotime | AState string string

fun affinityStep :: "affinityOp \<Rightarrow> slotAffinityStore \<Rightarrow> slotAffinityStore" where
  "affinityStep (ALearn m sid sl ts) s = learn m sid sl ts s"
| "affinityStep (ALookup m sid ts) s = fst (lookup m sid ts s)"
| "affinityStep (AAssign m sid n ts) s = fst (assign m sid n ts s)"
| "affinityStep (ARepair m sid n ts) s = fst (lookupRepair m sid n ts s)"
| "affinityStep (AAdjust m sid d ts) s = adjustInflight m sid d ts s"
| "affinityStep (AState name st) s = onProcessStateChange name st s"

definition bounded :: "nat \<Rightarrow> sessionMap \<Rightarrow> bool" where
  "bounded k m = (distinct (map fst m) \<and> length m \<le> k)"

lemma length_mput: "distinct (map fst m) \<Longrightarrow> length (mput k v m) = (if map_of m k = None then length m + 1 else length m)"
  unfolding mput_def by (induction m) (auto split: if_splits)

lemma delete_none: "k \<notin> fst ` set m \<Longrightarrow> AList.delete k m = m"
  by (induction m) auto

lemma length_mdel: "distinct (map fst m) \<Longrightarrow> map_of m k \<noteq> None \<Longrightarrow> Suc (length (mdel k m)) = length m"
  unfolding mdel_def by (induction m) (auto simp: delete_none split: if_splits)

lemma evictOldest_key:
  "foldl (\<lambda>acc (k, e). case acc of None \<Rightarrow> Some (k, seen e)
      | Some (ok, o1) \<Rightarrow> if seen e < o1 then Some (k, seen e) else acc) acc m = Some (k, t) \<Longrightarrow>
   k \<in> fst ` set m \<or> acc = Some (k, t)"
  by (induction m arbitrary: acc) (fastforce split: option.splits if_splits)+

lemma evictOldest_some:
  "m \<noteq> [] \<or> acc \<noteq> None \<Longrightarrow> foldl (\<lambda>acc (k, e). case acc of None \<Rightarrow> Some (k, seen e)
      | Some (ok, o1) \<Rightarrow> if seen e < o1 then Some (k, seen e) else acc) acc m \<noteq> None"
  by (induction m arbitrary: acc) (auto split: option.splits if_splits)

lemma evictOldest_length:
  assumes "distinct (map fst m)"
  shows "distinct (map fst (evictOldestLocked m))" "m \<noteq> [] \<Longrightarrow> length (evictOldestLocked m) = length m - 1"
    "map_of m k = None \<Longrightarrow> map_of (evictOldestLocked m) k = None"
proof -
  let ?f = "\<lambda>acc (k, e). case acc of None \<Rightarrow> Some (k, seen e)
      | Some (ok, o1) \<Rightarrow> if seen e < o1 then Some (k, seen e) else acc"
  show "distinct (map fst (evictOldestLocked m))" "map_of m k = None \<Longrightarrow> map_of (evictOldestLocked m) k = None"
    using assms by (auto simp: evictOldestLocked_def split: option.splits)
  show "length (evictOldestLocked m) = length m - 1" if ne: "m \<noteq> []"
  proof -
    obtain ok t where kt: "foldl ?f None m = Some (ok, t)" using evictOldest_some[of m None] ne by auto
    then have "map_of m ok \<noteq> None" using evictOldest_key[OF kt] by (auto simp: map_of_eq_None_iff)
    then show ?thesis using kt length_mdel[OF assms, of ok] by (simp add: evictOldestLocked_def)
  qed
qed

lemma sessionsOf_put: "sessionsOf (s\<lparr>byModel := mput m x (byModel s)\<rparr>) m' = (if m' = m then x else sessionsOf s m')"
  by (simp add: sessionsOf_def)

lemma bounded_putSession:
  assumes "bounded k (sessionsOf s m')" "map_of (sessionsOf s m) sid \<noteq> None" "bounded k (sessionsOf s m)"
  shows "bounded k (sessionsOf (putSession m sid e s) m')"
  using assms by (auto simp: putSession_def sessionsOf_put bounded_def length_mput)

lemma bounded_insert:
  assumes "bounded k m" "0 < k" "map_of m sid = None"
  shows "bounded k (mput sid e (if length m \<ge> k then evictOldestLocked m else m))"
  using assms evictOldest_length[of m] by (cases "m = []") (auto simp: bounded_def length_mput)

lemma affinityStep_bounded:
  assumes "\<forall>m. bounded (maxSessions s) (sessionsOf s m)" "0 < maxSessions s"
  shows "bounded (maxSessions s) (sessionsOf (affinityStep a s) m) \<and> maxSessions (affinityStep a s) = maxSessions s"
proof (cases a)
  case (ALearn m1 sid sl ts)
  show ?thesis
    using assms bounded_insert[of "maxSessions s" "sessionsOf s m1" sid]
    by (cases "map_of (sessionsOf s m1) sid") (auto simp: ALearn learn_def Let_def sessionsOf_put bounded_def length_mput)
next
  case (ALookup m1 sid ts)
  then show ?thesis using assms bounded_putSession by (auto simp: lookup_def putSession_def split: option.splits)
next
  case (AAssign m1 sid n ts)
  then show ?thesis using assms bounded_putSession bounded_insert[of "maxSessions s" "sessionsOf s m1" sid]
    by (cases "slotLoadLocked (liveWindow s) (sessionsOf s m1) sid n ts")
      (auto simp: assign_def Let_def sessionsOf_put putSession_def split: option.splits)
next
  case (ARepair m1 sid n ts)
  then show ?thesis using assms bounded_putSession by (auto simp: lookupRepair_def Let_def putSession_def split: option.splits)
next
  case (AAdjust m1 sid d ts)
  then show ?thesis using assms bounded_putSession by (auto simp: adjustInflight_def Let_def putSession_def split: option.splits)
next
  case (AState name st)
  have "bounded (maxSessions s) []" by (simp add: bounded_def)
  then show ?thesis using assms(1) by (auto simp: AState onProcessStateChange_def forget_def sessionsOf_def)
qed

text \<open>Whatever is done to a new table, no model ever remembers more than 256 sessions, each once.\<close>

lemma affinity_bounded:
  "length (sessionsOf (foldl (\<lambda>s a. affinityStep a s) (newSlotAffinityStore cfg) ops) m) \<le> 256
   \<and> distinct (map fst (sessionsOf (foldl (\<lambda>s a. affinityStep a s) (newSlotAffinityStore cfg) ops) m))"
proof -
  have "(\<forall>m. bounded 256 (sessionsOf s m)) \<and> maxSessions s = 256" if "s = foldl (\<lambda>s a. affinityStep a s) (newSlotAffinityStore cfg) ops" for s
    using that
  proof (induction ops arbitrary: s rule: rev_induct)
    case Nil
    then show ?case by (simp add: newSlotAffinityStore_def slotAffinityMaxSessions_def sessionsOf_def bounded_def)
  next
    case (snoc a ops)
    show ?case using snoc.IH[OF refl] affinityStep_bounded[of "foldl (\<lambda>s a. affinityStep a s) (newSlotAffinityStore cfg) ops"] snoc.prems
      by simp
  qed
  then show ?thesis by (simp add: bounded_def)
qed

end
