(* ===== verification/PrefillStall.thy ===== *)
theory PrefillStall
  imports Prelude
begin

text \<open>
  The prefill watcher, \<open>internal/router/prefillstall.go\<close>: it reads the child's slots, follows per slot how
  long one task's prompt counter has stood still, cuts the requests that may own a stuck one, and restarts
  the child when that did not help. A poll that failed is no sample. A holder is a granted request: when it
  was granted, and its stream if it is on the Anthropic path, with whether a token has gone out.
\<close>

section \<open>Data\<close>

record upstreamSlot =
  ID :: int
  IDTask :: int
  Processing :: bool
  NPrompt :: int
  Processed :: int
  Decoded :: int

definition inPrefill :: "upstreamSlot \<Rightarrow> bool" where
  "inPrefill s = (Processing s \<and> Decoded s = 0 \<and> (NPrompt s = 0 \<or> Processed s < NPrompt s))"

record pingStream =
  streamOf :: nat
  preFirstToken :: bool

record prefillHolder =
  holderKey :: nat
  pw :: "pingStream option"
  granted :: gotime

record slotTrack =
  idTask :: int
  processed :: int
  since :: gotime
  lastSeen :: gotime
  cutAt :: gotime
  restarted :: bool

record prefillWatch =
  budget :: duration
  restartAfter :: duration
  holders :: "prefillHolder list"
  running :: bool

definition newPrefillWatch :: "duration \<Rightarrow> duration \<Rightarrow> prefillWatch" where
  "newPrefillWatch b r = \<lparr>budget = b, restartAfter = r, holders = [], running = False\<rparr>"

definition addHolder :: "prefillHolder \<Rightarrow> prefillWatch \<Rightarrow> prefillWatch" where
  "addHolder h w = w\<lparr>holders := h # holders w, running := True\<rparr>"

definition removeHolder :: "nat \<Rightarrow> prefillWatch \<Rightarrow> prefillWatch" where
  "removeHolder k w =
     (let hs = filter (\<lambda>h. holderKey h \<noteq> k) (holders w)
      in w\<lparr>holders := hs, running := (if hs = [] then False else running w)\<rparr>)"

section \<open>One sample\<close>

type_synonym tracks = "(int, slotTrack) gomap"

datatype verdict = VCut int gotime "nat list" | VRestart int

definition noteSlot :: "gotime \<Rightarrow> tracks \<Rightarrow> upstreamSlot \<Rightarrow> tracks" where
  "noteSlot ts tracks s =
     (if \<not> inPrefill s then tracks
      else let fresh = \<lparr>idTask = IDTask s, processed = Processed s, since = ts, lastSeen = ts, cutAt = zeroTime, restarted = False\<rparr> in
        case map_of tracks (ID s) of
          None \<Rightarrow> mput (ID s) fresh tracks
        | Some tr \<Rightarrow>
            (if idTask tr \<noteq> IDTask s \<or> processed tr \<noteq> Processed s then mput (ID s) fresh tracks
             else mput (ID s) (tr\<lparr>lastSeen := ts\<rparr>) tracks))"

definition dropUnseen :: "upstreamSlot list \<Rightarrow> tracks \<Rightarrow> tracks" where
  "dropUnseen slots tracks = filter (\<lambda>(i, tr). i \<in> ID ` set (filter inPrefill slots)) tracks"

definition otherSlotAdvancing :: "prefillWatch \<Rightarrow> tracks \<Rightarrow> int \<Rightarrow> gotime \<Rightarrow> bool" where
  "otherSlotAdvancing w tracks i ts = list_ex (\<lambda>(other, tr). other \<noteq> i \<and> ts - since tr < budget w) tracks"

definition cutHolders :: "prefillWatch \<Rightarrow> gotime \<Rightarrow> nat list" where
  "cutHolders w flatSince =
     List.map_filter (\<lambda>h. case pw h of None \<Rightarrow> None
        | Some p \<Rightarrow> if \<not> granted h > flatSince \<and> preFirstToken p then Some (streamOf p) else None) (holders w)"

definition judge :: "prefillWatch \<Rightarrow> tracks \<Rightarrow> gotime \<Rightarrow> int \<Rightarrow> slotTrack \<Rightarrow> slotTrack \<times> verdict list" where
  "judge w tracks ts i tr =
     (if processed tr \<le> 0 then (tr, [])
      else if lastSeen tr - since tr < budget w then (tr, [])
      else if cutAt tr = zeroTime then
        (if otherSlotAdvancing w tracks i ts then (tr, [])
         else (tr\<lparr>cutAt := ts\<rparr>, [VCut i (since tr) (cutHolders w (since tr))]))
      else if restartAfter w > 0 \<and> \<not> restarted tr \<and> ts - cutAt tr \<ge> restartAfter w
        then (tr\<lparr>restarted := True\<rparr>, [VRestart i])
      else (tr, []))"

definition observePrefill :: "prefillWatch \<Rightarrow> upstreamSlot list \<Rightarrow> gotime \<Rightarrow> tracks \<Rightarrow> tracks \<times> verdict list" where
  "observePrefill w slots ts tracks =
     (let t1 = dropUnseen slots (foldl (noteSlot ts) tracks slots) in
      (map (\<lambda>(i, tr). (i, fst (judge w t1 ts i tr))) t1,
       concat (map (\<lambda>(i, tr). snd (judge w t1 ts i tr)) t1)))"

section \<open>The samples of a watch\<close>

text \<open>The loop: successful samples in order, with the watch as it was at each (its requests come and go).\<close>

type_synonym sample = "prefillWatch \<times> gotime \<times> upstreamSlot list"

fun watchLoop :: "sample list \<Rightarrow> tracks \<times> verdict list list \<Rightarrow> tracks \<times> verdict list list" where
  "watchLoop [] acc = acc"
| "watchLoop ((w, ts, slots) # rest) (tracks, vs) =
     (case observePrefill w slots ts tracks of (tracks', v) \<Rightarrow> watchLoop rest (tracks', vs @ [v]))"

text \<open>The slot has shown one task with one count in every sample from the \<open>j\<close>-th to the last.\<close>

definition flatFrom :: "sample list \<Rightarrow> nat \<Rightarrow> int \<Rightarrow> int \<Rightarrow> int \<Rightarrow> bool" where
  "flatFrom ss j i task count \<longleftrightarrow> j < length ss \<and>
     (\<forall>k. j \<le> k \<longrightarrow> k < length ss \<longrightarrow>
        (\<exists>s\<in>set (snd (snd (ss ! k))). ID s = i \<and> inPrefill s \<and> IDTask s = task \<and> Processed s = count))"

definition trackSound :: "sample list \<Rightarrow> verdict list list \<Rightarrow> int \<Rightarrow> slotTrack \<Rightarrow> bool" where
  "trackSound ss vs i tr \<longleftrightarrow>
     (\<exists>j. flatFrom ss j i (idTask tr) (processed tr) \<and> fst (snd (ss ! j)) = since tr
        \<and> (cutAt tr \<noteq> zeroTime \<longrightarrow>
             (\<exists>k c. j \<le> k \<and> k < length ss \<and> fst (snd (ss ! k)) = cutAt tr \<and> VCut i (since tr) c \<in> set (vs ! k))))
     \<and> lastSeen tr = fst (snd (last ss))"

section \<open>What a sample does to a track\<close>

definition showsTask :: "upstreamSlot list \<Rightarrow> int \<Rightarrow> slotTrack \<Rightarrow> bool" where
  "showsTask slots i tr = (\<exists>s\<in>set slots. ID s = i \<and> inPrefill s \<and> IDTask s = idTask tr \<and> Processed s = processed tr)"

definition freshAt :: "gotime \<Rightarrow> slotTrack \<Rightarrow> bool" where
  "freshAt ts tr = (since tr = ts \<and> cutAt tr = zeroTime \<and> \<not> restarted tr)"

definition goesOn :: "slotTrack \<Rightarrow> slotTrack \<Rightarrow> bool" where
  "goesOn tr0 tr = (idTask tr = idTask tr0 \<and> processed tr = processed tr0 \<and> since tr = since tr0 \<and> cutAt tr = cutAt tr0
     \<and> restarted tr = restarted tr0)"

lemma noteSlot_other: "\<not> (inPrefill s \<and> ID s = i) \<Longrightarrow> map_of (noteSlot ts t s) i = map_of t i"
  by (auto simp: noteSlot_def Let_def split: option.splits)

lemma noteSlot_own:
  "inPrefill s \<Longrightarrow> map_of (noteSlot ts t s) (ID s) = Some tr \<Longrightarrow>
     idTask tr = IDTask s \<and> processed tr = Processed s \<and> lastSeen tr = ts
     \<and> (freshAt ts tr \<or> (\<exists>tr1. map_of t (ID s) = Some tr1 \<and> goesOn tr1 tr))"
  by (auto simp: noteSlot_def Let_def freshAt_def goesOn_def split: option.splits if_splits)

lemma noteSlot_fold:
  "map_of (foldl (noteSlot ts) t0 slots) i = Some tr \<Longrightarrow>
     (i \<notin> ID ` set (filter inPrefill slots) \<and> map_of t0 i = Some tr)
     \<or> (i \<in> ID ` set (filter inPrefill slots) \<and> showsTask slots i tr \<and> lastSeen tr = ts
        \<and> (freshAt ts tr \<or> (\<exists>tr0. map_of t0 i = Some tr0 \<and> goesOn tr0 tr)))"
proof (induction slots arbitrary: tr rule: rev_induct)
  case (snoc s slots)
  let ?t = "foldl (noteSlot ts) t0 slots"
  have more: "showsTask slots i tr' \<Longrightarrow> showsTask (slots @ [s]) i tr'" for tr' by (auto simp: showsTask_def)
  show ?case
  proof (cases "inPrefill s \<and> ID s = i")
    case False
    then have "map_of ?t i = Some tr"
      using snoc.prems noteSlot_other[of s i ts ?t] by simp
    then show ?thesis using snoc.IH[of tr] more[of tr] False by auto
  next
    case True
    then have own: "idTask tr = IDTask s" "processed tr = Processed s" "lastSeen tr = ts"
      "freshAt ts tr \<or> (\<exists>tr1. map_of ?t i = Some tr1 \<and> goesOn tr1 tr)"
      using noteSlot_own[of s ts ?t tr] snoc.prems by auto
    then have here: "showsTask (slots @ [s]) i tr" "lastSeen tr = ts" "i \<in> ID ` set (filter inPrefill (slots @ [s]))"
      using True by (auto simp: showsTask_def)
    note own(4)
    moreover have "freshAt ts tr \<or> (\<exists>tr0. map_of t0 i = Some tr0 \<and> goesOn tr0 tr)"
      if "map_of ?t i = Some tr1" "goesOn tr1 tr" for tr1
      using snoc.IH[OF that(1)] that(2) by (auto simp: freshAt_def goesOn_def)
    ultimately show ?thesis using here by blast
  qed
qed simp

lemma noteSlot_distinct: "distinct (map fst t) \<Longrightarrow> distinct (map fst (foldl (noteSlot ts) t slots))"
  by (induction slots arbitrary: t) (auto simp: noteSlot_def Let_def split: option.splits)

lemma noteSlot_dom: "dom (map_of (foldl (noteSlot ts) t slots)) = dom (map_of t) \<union> ID ` set (filter inPrefill slots)"
proof (induction slots arbitrary: t)
  case (Cons s slots)
  have "dom (map_of (noteSlot ts t s)) = dom (map_of t) \<union> (if inPrefill s then {ID s} else {})"
    by (auto simp: noteSlot_def Let_def split: option.splits)
  then show ?case using Cons.IH[of "noteSlot ts t s"] by auto
qed simp

text \<open>The tracks a verdict is given on.\<close>

definition judged :: "upstreamSlot list \<Rightarrow> gotime \<Rightarrow> tracks \<Rightarrow> tracks" where
  "judged slots ts tracks = dropUnseen slots (foldl (noteSlot ts) tracks slots)"

lemma judged_spec:
  assumes "distinct (map fst tracks)" "(i, tr) \<in> set (judged slots ts tracks)"
  shows "showsTask slots i tr \<and> lastSeen tr = ts \<and> (freshAt ts tr \<or> (\<exists>tr0. (i, tr0) \<in> set tracks \<and> goesOn tr0 tr))"
proof -
  have m: "map_of (foldl (noteSlot ts) tracks slots) i = Some tr" and seen: "i \<in> ID ` set (filter inPrefill slots)"
    using assms noteSlot_distinct[OF assms(1)] by (auto simp: judged_def dropUnseen_def)
  show ?thesis using noteSlot_fold[OF m] seen by (auto dest: map_of_SomeD)
qed

lemma judged_has: "s \<in> set slots \<Longrightarrow> inPrefill s \<Longrightarrow> \<exists>tr. (ID s, tr) \<in> set (judged slots ts tracks)"
proof -
  assume "s \<in> set slots" "inPrefill s"
  then have "ID s \<in> dom (map_of (foldl (noteSlot ts) tracks slots))" by (simp add: noteSlot_dom)
  then show ?thesis using \<open>s \<in> set slots\<close> \<open>inPrefill s\<close>
    by (auto simp: judged_def dropUnseen_def dest!: map_of_SomeD)
qed

lemma judged_distinct: "distinct (map fst tracks) \<Longrightarrow> distinct (map fst (judged slots ts tracks))"
  unfolding judged_def dropUnseen_def using noteSlot_distinct by (auto intro: distinct_map_filter)

lemma observePrefill_eq:
  "observePrefill w slots ts tracks =
     (map (\<lambda>(i, tr). (i, fst (judge w (judged slots ts tracks) ts i tr))) (judged slots ts tracks),
      concat (map (\<lambda>(i, tr). snd (judge w (judged slots ts tracks) ts i tr)) (judged slots ts tracks)))"
  by (simp add: observePrefill_def judged_def Let_def)

lemma watchLoop_snoc:
  "watchLoop (ss @ [(w, ts, slots)]) acc =
     (case watchLoop ss acc of (tracks, vs) \<Rightarrow>
        case observePrefill w slots ts tracks of (tracks', v) \<Rightarrow> (tracks', vs @ [v]))"
  by (induction ss acc rule: watchLoop.induct) (auto split: prod.splits)

lemma flatFrom_snoc:
  assumes "flatFrom ss j i task count" "\<exists>s\<in>set slots. ID s = i \<and> inPrefill s \<and> IDTask s = task \<and> Processed s = count"
  shows "flatFrom (ss @ [(w, ts, slots)]) j i task count"
  using assms unfolding flatFrom_def by (auto simp: nth_append less_Suc_eq)

lemma flatFrom_here:
  assumes "\<exists>s\<in>set slots. ID s = i \<and> inPrefill s \<and> IDTask s = task \<and> Processed s = count"
  shows "flatFrom (ss @ [(w, ts, slots)]) (length ss) i task count"
  using assms unfolding flatFrom_def by (auto simp: nth_append less_Suc_eq)

lemma trackSound_sample:
  assumes sound: "\<forall>(i, tr)\<in>set tracks. trackSound ss vs i tr" and "length vs = length ss" and d: "distinct (map fst tracks)"
    and tr: "(i, tr) \<in> set (judged slots ts tracks)"
  shows "trackSound (ss @ [(w, ts, slots)]) (vs @ [v]) i tr"
proof -
  note sp = judged_spec[OF d tr]
  have here: "\<exists>s\<in>set slots. ID s = i \<and> inPrefill s \<and> IDTask s = idTask tr \<and> Processed s = processed tr"
    using sp by (simp add: showsTask_def)
  consider "freshAt ts tr" | tr0 where "(i, tr0) \<in> set tracks" "goesOn tr0 tr" using sp by blast
  then show ?thesis
  proof cases
    case 1
    then show ?thesis
      unfolding trackSound_def using sp flatFrom_here[OF here, of ss w ts]
      by (intro conjI exI[of _ "length ss"]) (simp_all add: freshAt_def)
  next
    case 2
    then obtain j where j: "flatFrom ss j i (idTask tr0) (processed tr0)" "fst (snd (ss ! j)) = since tr0"
      "cutAt tr0 \<noteq> zeroTime \<longrightarrow> (\<exists>k c. j \<le> k \<and> k < length ss \<and> fst (snd (ss ! k)) = cutAt tr0 \<and> VCut i (since tr0) c \<in> set (vs ! k))"
      using sound unfolding trackSound_def by blast
    have lt: "j < length ss" using j(1) by (simp add: flatFrom_def)
    have same: "idTask tr = idTask tr0" "processed tr = processed tr0" "since tr = since tr0" "cutAt tr = cutAt tr0"
      using 2(2) by (simp_all add: goesOn_def)
    have "flatFrom (ss @ [(w, ts, slots)]) j i (idTask tr) (processed tr)"
      using flatFrom_snoc[OF j(1)] here same by simp
    moreover have "fst (snd ((ss @ [(w, ts, slots)]) ! j)) = since tr" using j(2) lt same by (simp add: nth_append)
    moreover have "cutAt tr \<noteq> zeroTime \<longrightarrow> (\<exists>k c. j \<le> k \<and> k < length (ss @ [(w, ts, slots)])
        \<and> fst (snd ((ss @ [(w, ts, slots)]) ! k)) = cutAt tr \<and> VCut i (since tr) c \<in> set ((vs @ [v]) ! k))"
    proof
      assume "cutAt tr \<noteq> zeroTime"
      then obtain k c where "j \<le> k" "k < length ss" "fst (snd (ss ! k)) = cutAt tr0" "VCut i (since tr0) c \<in> set (vs ! k)"
        using j(3) same by auto
      then show "\<exists>k c. j \<le> k \<and> k < length (ss @ [(w, ts, slots)])
        \<and> fst (snd ((ss @ [(w, ts, slots)]) ! k)) = cutAt tr \<and> VCut i (since tr) c \<in> set ((vs @ [v]) ! k)"
        using assms(2) same by (intro exI[of _ k] exI[of _ c]) (simp add: nth_append)
    qed
    ultimately show ?thesis using sp unfolding trackSound_def by (intro conjI exI[of _ j]) simp_all
  qed
qed

lemma judge_keeps:
  assumes sound: "trackSound ss vs i tr" and "vs \<noteq> []" "length vs = length ss" and ts: "ts = fst (snd (last ss))"
    and v: "set (snd (judge w t ts i tr)) \<subseteq> set (last vs)"
  shows "trackSound ss vs i (fst (judge w t ts i tr))"
proof -
  obtain j where j: "flatFrom ss j i (idTask tr) (processed tr)" "fst (snd (ss ! j)) = since tr"
    "cutAt tr \<noteq> zeroTime \<longrightarrow> (\<exists>k c. j \<le> k \<and> k < length ss \<and> fst (snd (ss ! k)) = cutAt tr \<and> VCut i (since tr) c \<in> set (vs ! k))"
    and seen: "lastSeen tr = fst (snd (last ss))"
    using sound unfolding trackSound_def by blast
  have "ss \<noteq> []" using assms(2,3) by auto
  then have last: "last ss = ss ! (length ss - 1)" "last vs = vs ! (length ss - 1)" "j \<le> length ss - 1" "length ss - 1 < length ss"
    using assms(2,3) j(1) last_conv_nth[of ss] last_conv_nth[of vs] by (auto simp: flatFrom_def)
  consider "fst (judge w t ts i tr) = tr" | "fst (judge w t ts i tr) = tr\<lparr>restarted := True\<rparr>"
    | c where "fst (judge w t ts i tr) = tr\<lparr>cutAt := ts\<rparr>" "VCut i (since tr) c \<in> set (last vs)"
    using v by (auto simp: judge_def split: if_splits)
  then show ?thesis
  proof cases
    case 1 then show ?thesis using sound by simp
  next
    case 2 then show ?thesis using sound by (simp add: trackSound_def)
  next
    case 3
    have "\<exists>k c. j \<le> k \<and> k < length ss \<and> fst (snd (ss ! k)) = ts \<and> VCut i (since tr) c \<in> set (vs ! k)"
      using last ts 3(2) by (intro exI[of _ "length ss - 1"] exI[of _ c]) simp
    then show ?thesis using 3(1) j(1,2) seen by (auto simp: trackSound_def)
  qed
qed

definition watchInv :: "sample list \<Rightarrow> tracks \<times> verdict list list \<Rightarrow> bool" where
  "watchInv ss st \<longleftrightarrow> length (snd st) = length ss \<and> distinct (map fst (fst st))
     \<and> (\<forall>(i, tr)\<in>set (fst st). trackSound ss (snd st) i tr)"

lemma watchInv_sample:
  assumes inv: "watchInv ss (tracks, vs)" and obs: "observePrefill w slots ts tracks = (tracks', v)"
  shows "watchInv (ss @ [(w, ts, slots)]) (tracks', vs @ [v])"
proof -
  have d: "distinct (map fst tracks)" and len: "length vs = length ss"
    and sound: "\<forall>(i, tr)\<in>set tracks. trackSound ss vs i tr"
    using inv by (simp_all add: watchInv_def)
  let ?t = "judged slots ts tracks"
  have t': "tracks' = map (\<lambda>(i, tr). (i, fst (judge w ?t ts i tr))) ?t"
    and v: "v = concat (map (\<lambda>(i, tr). snd (judge w ?t ts i tr)) ?t)"
    using obs by (simp_all add: observePrefill_eq)
  have "map fst tracks' = map fst ?t" unfolding t' by (simp add: case_prod_beta o_def)
  then have "distinct (map fst tracks')" using judged_distinct[OF d] by simp
  moreover have "trackSound (ss @ [(w, ts, slots)]) (vs @ [v]) i tr'" if tr': "(i, tr') \<in> set tracks'" for i tr'
  proof -
    obtain tr where tr: "(i, tr) \<in> set ?t" "tr' = fst (judge w ?t ts i tr)" using tr' by (auto simp: t')
    have "set (snd (judge w ?t ts i tr)) \<subseteq> set v" using tr(1) by (auto simp: v)
    then show ?thesis
      using judge_keeps[OF trackSound_sample[OF sound len d tr(1), where w = w and v = v], where ts = ts and w = w and t = ?t] tr(2) len by simp
  qed
  ultimately show ?thesis using len by (auto simp: watchInv_def)
qed

lemma watchInv_loop: "watchInv ss (watchLoop ss ([], []))"
proof (induction ss rule: rev_induct)
  case Nil
  then show ?case by (simp add: watchInv_def)
next
  case (snoc x ss)
  obtain w ts slots where x: "x = (w, ts, slots)" by (cases x)
  obtain tracks vs where l: "watchLoop ss ([], []) = (tracks, vs)" by (cases "watchLoop ss ([], [])")
  obtain tracks' v where o: "observePrefill w slots ts tracks = (tracks', v)" by (cases "observePrefill w slots ts tracks")
  show ?case using watchInv_sample[OF snoc.IH[unfolded l] o] by (simp add: x watchLoop_snoc l o)
qed

text \<open>What the last sample's verdicts stand on.\<close>

lemma last_verdict:
  assumes loop: "watchLoop (ss @ [(w, ts, slots)]) ([], []) = (tracks, vs)" and v: "x \<in> set (last vs)"
  obtains tracks0 vs0 i tr where "watchLoop ss ([], []) = (tracks0, vs0)" "(i, tr) \<in> set (judged slots ts tracks0)"
    "x \<in> set (snd (judge w (judged slots ts tracks0) ts i tr))"
proof -
  obtain tracks0 vs0 where l: "watchLoop ss ([], []) = (tracks0, vs0)" by (cases "watchLoop ss ([], [])")
  then have "last vs = snd (observePrefill w slots ts tracks0)"
    using loop by (auto simp: watchLoop_snoc split: prod.splits)
  then show ?thesis using v that[OF l] by (auto simp: observePrefill_eq)
qed

text \<open>C22. The watcher cuts only for a task that is stuck: the slot has shown one task and one positive count
  in every sample over the whole budget, and so has every other slot still in its prompt. Those cut have sent
  no token and were granted no later than the standstill began. It restarts the child only when the same
  standstill has gone on for the given time after such a cut.\<close>

theorem prefill_verdicts_sound:
  assumes "watchLoop (ss @ [(w, ts, slots)]) ([], []) = (tracks, vs)" "x \<in> set (last vs)"
  shows "case x of
      VCut i flat cutees \<Rightarrow> \<exists>j task count. 0 < count \<and> flatFrom (ss @ [(w, ts, slots)]) j i task count
          \<and> fst (snd ((ss @ [(w, ts, slots)]) ! j)) = flat \<and> budget w \<le> ts - flat
          \<and> (\<forall>s\<in>set slots. inPrefill s \<longrightarrow> ID s \<noteq> i \<longrightarrow> (\<exists>j' task' count'. flatFrom (ss @ [(w, ts, slots)]) j' (ID s) task' count'
                \<and> budget w \<le> ts - fst (snd ((ss @ [(w, ts, slots)]) ! j'))))
          \<and> (\<forall>c\<in>set cutees. \<exists>h\<in>set (holders w). \<exists>p. pw h = Some p \<and> streamOf p = c \<and> preFirstToken p \<and> granted h \<le> flat)
    | VRestart i \<Rightarrow> \<exists>j k task count cutees. 0 < count \<and> flatFrom (ss @ [(w, ts, slots)]) j i task count \<and> j \<le> k \<and> k < length ss
          \<and> VCut i (fst (snd (ss ! j))) cutees \<in> set (vs ! k) \<and> 0 < restartAfter w \<and> restartAfter w \<le> ts - fst (snd (ss ! k))"
proof -
  let ?all = "ss @ [(w, ts, slots)]"
  obtain tracks0 vs0 i tr where l: "watchLoop ss ([], []) = (tracks0, vs0)" and tr: "(i, tr) \<in> set (judged slots ts tracks0)"
    and x: "x \<in> set (snd (judge w (judged slots ts tracks0) ts i tr))"
    using last_verdict[OF assms] .
  have inv: "watchInv ss (tracks0, vs0)" using watchInv_loop[of ss] l by simp
  then have d: "distinct (map fst tracks0)" and len: "length vs0 = length ss"
    and sound: "\<forall>(i, tr)\<in>set tracks0. trackSound ss vs0 i tr" by (simp_all add: watchInv_def)
  have vs: "\<exists>v. vs = vs0 @ [v]" using assms(1) l by (auto simp: watchLoop_snoc split: prod.splits)
  have snd: "trackSound ?all (vs0 @ [[]]) k t" "lastSeen t = ts" if "(k, t) \<in> set (judged slots ts tracks0)" for k t
    using trackSound_sample[OF sound len d that] judged_spec[OF d that] by blast+
  obtain j where j: "flatFrom ?all j i (idTask tr) (processed tr)" "fst (snd (?all ! j)) = since tr"
    "cutAt tr \<noteq> zeroTime \<longrightarrow> (\<exists>k c. j \<le> k \<and> k < length ?all \<and> fst (snd (?all ! k)) = cutAt tr \<and> VCut i (since tr) c \<in> set ((vs0 @ [[]]) ! k))"
    using snd(1)[OF tr] unfolding trackSound_def by blast
  show ?thesis
  proof (cases x)
    case (VCut i' flat cutees)
    have v: "0 < processed tr" "budget w \<le> ts - since tr" "\<not> otherSlotAdvancing w (judged slots ts tracks0) i ts"
      "i' = i" "flat = since tr" "cutees = cutHolders w (since tr)"
      using x snd(2)[OF tr] by (auto simp: judge_def VCut split: if_splits)
    have others: "\<exists>j' task' count'. flatFrom ?all j' (ID s) task' count' \<and> budget w \<le> ts - fst (snd (?all ! j'))"
      if s: "s \<in> set slots" "inPrefill s" "ID s \<noteq> i" for s
    proof -
      obtain t where t: "(ID s, t) \<in> set (judged slots ts tracks0)" using judged_has[OF s(1,2)] by blast
      obtain j' where "flatFrom ?all j' (ID s) (idTask t) (processed t)" "fst (snd (?all ! j')) = since t"
        using snd(1)[OF t] unfolding trackSound_def by blast
      moreover have "budget w \<le> ts - since t" using v(3) t s(3) by (fastforce simp: otherSlotAdvancing_def list_ex_iff)
      ultimately show ?thesis by metis
    qed
    have cutees: "\<exists>h\<in>set (holders w). \<exists>p. pw h = Some p \<and> streamOf p = c \<and> preFirstToken p \<and> granted h \<le> flat"
      if "c \<in> set cutees" for c
      using that v(5,6) by (fastforce simp: cutHolders_def set_map_filter split: option.splits if_splits)
    show ?thesis
      unfolding VCut verdict.case
      using v j(1,2) others cutees by (intro exI[of _ j] exI[of _ "idTask tr"] exI[of _ "processed tr"]) simp
  next
    case (VRestart i')
    have v: "0 < processed tr" "cutAt tr \<noteq> zeroTime" "0 < restartAfter w" "restartAfter w \<le> ts - cutAt tr" "i' = i"
      using x by (auto simp: judge_def VRestart split: if_splits)
    obtain k c where k: "j \<le> k" "k < length ?all" "fst (snd (?all ! k)) = cutAt tr" "VCut i (since tr) c \<in> set ((vs0 @ [[]]) ! k)"
      using j(3) v(2) by blast
    have lt: "k < length ss" using k(2,4) len by (cases "k = length ss") (auto simp: nth_append)
    have "VCut i (fst (snd (ss ! j))) c \<in> set (vs ! k)" using k j(2) lt len vs by (auto simp: nth_append)
    moreover have "restartAfter w \<le> ts - fst (snd (ss ! k))" using v(4) k(3) lt by (simp add: nth_append)
    ultimately show ?thesis
      unfolding VRestart verdict.case
      using v(1,3,5) j(1) k(1) lt
      by (intro exI[of _ j] exI[of _ k] exI[of _ "idTask tr"] exI[of _ "processed tr"] exI[of _ c]) simp
  qed
qed

lemma prefill_verdicts_sound_witness:
  "let w = \<lparr>budget = 10, restartAfter = 20, holders = [\<lparr>holderKey = 1, pw = Some \<lparr>streamOf = 3, preFirstToken = True\<rparr>, granted = 1\<rparr>], running = True\<rparr>;
       slots = [\<lparr>ID = 0, IDTask = 7, Processing = True, NPrompt = 500, Processed = 100, Decoded = 0\<rparr>];
       vs = snd (watchLoop [(w, 1, slots), (w, 6, slots), (w, 12, slots)] ([], []))
   in last vs = [VCut 0 1 [3]] \<and> (\<exists>j task count. flatFrom [(w, 1, slots), (w, 6, slots), (w, 12, slots)] j 0 task count)"
proof -
  define w where "w = \<lparr>budget = 10, restartAfter = 20, holders = [\<lparr>holderKey = 1, pw = Some \<lparr>streamOf = 3, preFirstToken = True\<rparr>, granted = 1\<rparr>], running = True\<rparr>"
  define slots where "slots = [\<lparr>ID = 0, IDTask = 7, Processing = True, NPrompt = 500, Processed = 100, Decoded = 0\<rparr>]"
  obtain tracks vs where l: "watchLoop ([(w, 1, slots), (w, 6, slots)] @ [(w, 12, slots)]) ([], []) = (tracks, vs)"
    by (cases "watchLoop ([(w, 1, slots), (w, 6, slots)] @ [(w, 12, slots)]) ([], [])")
  have last: "last (snd (watchLoop [(w, 1, slots), (w, 6, slots), (w, 12, slots)] ([], []))) = [VCut 0 1 [3]]"
    unfolding w_def slots_def by code_simp
  then have "VCut 0 1 [3] \<in> set (last vs)" using l by simp
  from prefill_verdicts_sound[OF l this]
  have "\<exists>j task count. flatFrom [(w, 1, slots), (w, 6, slots), (w, 12, slots)] j 0 task count"
    unfolding verdict.case append.simps by (elim exE conjE) (intro exI, assumption)
  then show ?thesis using last unfolding Let_def w_def[symmetric] slots_def[symmetric] by (intro conjI)
qed

end
