(* ===== verification/TailBuffer.thy ===== *)
theory TailBuffer
  imports Prelude
begin

text \<open>
  The response tee's bounded buffer, \<open>cappedTailBuffer\<close> of \<open>internal/server/metrics.go\<close>: it grows like a slice
  until \<open>cap\<close> bytes, then turns into a ring. It refines the list of the last \<open>cap\<close> bytes written.
\<close>

record cappedTailBuffer =
  tbuf :: string
  tcap :: nat
  tpos :: nat
  twrapped :: bool

definition newCappedTailBuffer :: "nat \<Rightarrow> cappedTailBuffer" where
  "newCappedTailBuffer capBytes = \<lparr>tbuf = [], tcap = capBytes, tpos = 0, twrapped = False\<rparr>"

text \<open>Go's \<open>copy(dst[i:], src)\<close>.\<close>

definition copyAt :: "'a list \<Rightarrow> nat \<Rightarrow> 'a list \<Rightarrow> 'a list" where
  "copyAt dst i src = take i dst @ take (length dst - i) src @ drop (i + length src) dst"

definition ringWrite :: "cappedTailBuffer \<Rightarrow> string \<Rightarrow> cappedTailBuffer" where
  "ringWrite c p =
     (let n = length p in
      if n = 0 then c
      else if n \<ge> tcap c then c\<lparr>tbuf := copyAt (tbuf c) 0 (drop (n - tcap c) p), tpos := 0\<rparr>
      else if tpos c + n \<le> tcap c then c\<lparr>tbuf := copyAt (tbuf c) (tpos c) p, tpos := (tpos c + n) mod tcap c\<rparr>
      else (let first = tcap c - tpos c in
            c\<lparr>tbuf := copyAt (copyAt (tbuf c) (tpos c) (take first p)) 0 (drop first p), tpos := n - first\<rparr>))"

definition tailWrite :: "cappedTailBuffer \<Rightarrow> string \<Rightarrow> cappedTailBuffer" where
  "tailWrite c p =
     (if p = [] \<or> tcap c = 0 then c
      else if \<not> twrapped c then
        (let room = tcap c - length (tbuf c) in
         if length p \<le> room then
           (let b = tbuf c @ p in
            if length b = tcap c then c\<lparr>tbuf := b, tpos := 0, twrapped := True\<rparr>
            else c\<lparr>tbuf := b, tpos := length b\<rparr>)
         else ringWrite (c\<lparr>tbuf := tbuf c @ take room p, twrapped := True, tpos := 0\<rparr>) (drop room p))
      else ringWrite c p)"

definition tailBytes :: "cappedTailBuffer \<Rightarrow> string" where
  "tailBytes c = (if \<not> twrapped c then take (tpos c) (tbuf c) else drop (tpos c) (tbuf c) @ take (tpos c) (tbuf c))"

definition tailLen :: "cappedTailBuffer \<Rightarrow> nat" where
  "tailLen c = (if \<not> twrapped c then tpos c else tcap c)"

section \<open>The last bytes\<close>

definition lastN :: "nat \<Rightarrow> 'a list \<Rightarrow> 'a list" where
  "lastN n xs = drop (length xs - n) xs"

definition tailInv :: "cappedTailBuffer \<Rightarrow> bool" where
  "tailInv c \<longleftrightarrow>
     (if twrapped c then length (tbuf c) = tcap c \<and> tpos c < tcap c else tpos c = length (tbuf c) \<and> (tpos c < tcap c \<or> tcap c = 0 \<and> tbuf c = []))"

lemma lastN_Nil [simp]: "lastN n [] = []"
  by (simp add: lastN_def)

lemma lastN_lastN: "lastN n (lastN n xs @ ys) = lastN n (xs @ ys)"
proof (cases "length xs \<le> n")
  case False
  then have "length xs - n + (length ys - 0) = length xs + length ys - n" by simp
  then show ?thesis using False by (simp add: lastN_def add.commute)
qed (simp add: lastN_def)

lemma ringWrite_step:
  assumes "tailInv c" "twrapped c"
  shows "tailInv (ringWrite c p)" "twrapped (ringWrite c p)" "tcap (ringWrite c p) = tcap c"
    "tailBytes (ringWrite c p) = lastN (tcap c) (tailBytes c @ p)"
proof -
  have l: "length (tbuf c) = tcap c" "tpos c < tcap c" using assms by (simp_all add: tailInv_def)
  show "tailInv (ringWrite c p)" "twrapped (ringWrite c p)" "tcap (ringWrite c p) = tcap c"
    using assms l by (auto simp: tailInv_def ringWrite_def Let_def copyAt_def min_def)
  consider "p = []" | "tcap c \<le> length p" "p \<noteq> []" | "length p < tcap c" "tpos c + length p < tcap c" "p \<noteq> []"
    | "length p < tcap c" "tpos c + length p = tcap c" "p \<noteq> []" | "length p < tcap c" "tpos c + length p > tcap c" "p \<noteq> []"
    by linarith
  then show "tailBytes (ringWrite c p) = lastN (tcap c) (tailBytes c @ p)"
  proof cases
    case 1
    then show ?thesis using assms l by (simp add: ringWrite_def tailBytes_def lastN_def)
  next
    case 2
    then show ?thesis using assms l by (simp add: ringWrite_def tailBytes_def lastN_def copyAt_def)
  next
    case 3
    then show ?thesis using assms l by (simp add: ringWrite_def tailBytes_def lastN_def copyAt_def Let_def min_def add.commute)
  next
    case 4
    then show ?thesis using assms l by (simp add: ringWrite_def tailBytes_def lastN_def copyAt_def Let_def min_def)
  next
    case 5
    then show ?thesis using assms l by (simp add: ringWrite_def tailBytes_def lastN_def copyAt_def Let_def min_def)
  qed
qed

lemma tailWrite_step:
  assumes "tailInv c"
  shows "tailInv (tailWrite c p) \<and> tcap (tailWrite c p) = tcap c
    \<and> tailBytes (tailWrite c p) = lastN (tcap c) (tailBytes c @ p)"
proof (cases "p = [] \<or> tcap c = 0 \<or> twrapped c")
  case True
  then show ?thesis
    using assms ringWrite_step[OF assms, of p] by (auto simp: tailWrite_def tailInv_def tailBytes_def lastN_def)
next
  case False
  then have c: "\<not> twrapped c" "tpos c = length (tbuf c)" "length (tbuf c) < tcap c" "p \<noteq> []"
    using assms by (auto simp: tailInv_def)
  let ?room = "tcap c - length (tbuf c)"
  show ?thesis
  proof (cases "length p \<le> ?room")
    case True
    then show ?thesis using c by (auto simp: tailWrite_def tailInv_def tailBytes_def lastN_def Let_def)
  next
    case False
    let ?c = "c\<lparr>tbuf := tbuf c @ take ?room p, twrapped := True, tpos := 0\<rparr>"
    have i: "tailInv ?c" using c False by (simp add: tailInv_def min_def)
    have w: "tailWrite c p = ringWrite ?c (drop ?room p)" using c False by (auto simp: tailWrite_def Let_def)
    have b: "tailBytes ?c @ drop ?room p = tailBytes c @ p" using c by (simp add: tailBytes_def)
    show ?thesis unfolding w using ringWrite_step[OF i, of "drop ?room p"] b by simp
  qed
qed

text \<open>Whatever is written to the buffer, it holds exactly the last \<open>cap\<close> bytes in order.\<close>

theorem tail_buffer_refines_last_bytes:
  "tailBytes (foldl tailWrite (newCappedTailBuffer n) ps) = lastN n (concat ps)
   \<and> tailLen (foldl tailWrite (newCappedTailBuffer n) ps) = length (lastN n (concat ps))"
proof -
  have "tailInv (foldl tailWrite c ps) \<and> tcap (foldl tailWrite c ps) = tcap c
      \<and> tailBytes (foldl tailWrite c ps) = lastN (tcap c) (tailBytes c @ concat ps)"
    if "tailInv c" "tailBytes c = lastN (tcap c) (tailBytes c)" for c
    using that
  proof (induction ps arbitrary: c)
    case (Cons p ps)
    note s = tailWrite_step[OF Cons.prems(1), of p]
    have "lastN (tcap c) (lastN (tcap c) (tailBytes c @ p)) = lastN (tcap c) (tailBytes c @ p)"
      using lastN_lastN[of "tcap c" "tailBytes c @ p" "[]"] by simp
    then show ?case using Cons.IH[of "tailWrite c p"] s lastN_lastN[of "tcap c" "tailBytes c @ p" "concat ps"] by simp
  qed simp
  moreover have "tailInv (newCappedTailBuffer n)" "tailBytes (newCappedTailBuffer n) = []" "tcap (newCappedTailBuffer n) = n"
    by (auto simp: newCappedTailBuffer_def tailInv_def tailBytes_def)
  ultimately have r: "tailInv (foldl tailWrite (newCappedTailBuffer n) ps)"
      "tcap (foldl tailWrite (newCappedTailBuffer n) ps) = n"
      "tailBytes (foldl tailWrite (newCappedTailBuffer n) ps) = lastN n (concat ps)"
    using lastN_Nil[of n] by simp_all
  have "tailLen c = length (tailBytes c)" if "tailInv c" for c
    using that by (auto simp: tailInv_def tailLen_def tailBytes_def)
  with r show ?thesis by simp
qed

end
