(* ===== verification/ResponseWriter.thy ===== *)
theory ResponseWriter
  imports TailBuffer GoStrings
begin

text \<open>
  Response writers. \<open>http.ResponseWriter\<close> and the optional interfaces the code asks for by type assertion are a
  record of operations, as a Go interface value carries its method table: a writer that embeds another is a
  function from the operations of the inner one to its own. This theory holds the connection of \<open>net/http\<close>, the
  middleware's writers (\<open>server/log.go\<close>, \<open>server/inflight.go\<close>, \<open>server/metrics.go\<close>), the error helpers of
  \<open>swaputil/http.go\<close> and the handler of a model's reverse proxy (\<open>process/process_command.go\<close>).
\<close>

section \<open>Headers and the connection\<close>

type_synonym header = "(string, string list) gomap"

definition hGet :: "header \<Rightarrow> string \<Rightarrow> string" where
  "hGet h k = (case mlist h k of [] \<Rightarrow> '''' | v # _ \<Rightarrow> v)"

definition hSet :: "string \<Rightarrow> string \<Rightarrow> header \<Rightarrow> header" where
  "hSet k v h = mput k [v] h"

definition hAdd :: "string \<Rightarrow> string \<Rightarrow> header \<Rightarrow> header" where
  "hAdd k v h = mput k (mlist h k @ [v]) h"

datatype ioError = DeadlineExceeded | OtherError

text \<open>How the connection treats one call: the time, how long it blocks, and where it fails, if it does.\<close>

record io =
  ionow :: gotime
  ioblocked :: duration
  iofail :: "(nat \<times> ioError) option"

text \<open>The response of \<open>net/http\<close>: the live header map, the status line sent with the headers of that moment,
  the interim statuses and the body sent.\<close>

record conn =
  cheader :: header
  cstatus :: "(nat \<times> header) option"
  cinterim :: "nat list"
  cbody :: string

definition newConn :: conn where
  "newConn = \<lparr>cheader = [], cstatus = None, cinterim = [], cbody = []\<rparr>"

definition connWriteHeader :: "nat \<Rightarrow> conn \<Rightarrow> conn" where
  "connWriteHeader code c =
     (if cstatus c \<noteq> None then c
      else if 100 \<le> code \<and> code \<le> 199 \<and> code \<noteq> 101 then c\<lparr>cinterim := cinterim c @ [code]\<rparr>
      else c\<lparr>cstatus := Some (code, cheader c)\<rparr>)"

type_synonym wresult = "nat \<times> ioError option"

definition connWrite :: "io \<Rightarrow> string \<Rightarrow> conn \<Rightarrow> conn \<times> wresult" where
  "connWrite io b c =
     (let c' = connWriteHeader 200 c in
      case iofail io of
        None \<Rightarrow> (c'\<lparr>cbody := cbody c' @ b\<rparr>, length b, None)
      | Some (n, e) \<Rightarrow> (c'\<lparr>cbody := cbody c' @ take n b\<rparr>, min n (length b), Some e))"

section \<open>Operations of a writer\<close>

text \<open>\<open>deadline\<close>: \<open>SetWriteDeadline\<close> is reached through \<open>Unwrap\<close>. \<open>MarkTermination\<close> is the identity where
  that walk finds no marker. \<open>statusMarker\<close> and \<open>replayGate\<close> are the type assertions; every writer here is a
  \<open>Flusher\<close>.\<close>

record 'w ops =
  getHeader :: "'w \<Rightarrow> header"
  setHeader :: "header \<Rightarrow> 'w \<Rightarrow> 'w"
  WriteHeader :: "io \<Rightarrow> nat \<Rightarrow> 'w \<Rightarrow> 'w"
  Write :: "io \<Rightarrow> string \<Rightarrow> 'w \<Rightarrow> 'w \<times> wresult"
  Flush :: "io \<Rightarrow> 'w \<Rightarrow> 'w"
  deadline :: bool
  MarkTermination :: "string \<Rightarrow> 'w \<Rightarrow> 'w"
  statusMarker :: "(('w \<Rightarrow> bool) \<times> (nat \<Rightarrow> 'w \<Rightarrow> 'w)) option"
  replayGate :: "('w \<Rightarrow> bool) option"

definition connOps :: "conn ops" where
  "connOps = \<lparr>getHeader = cheader, setHeader = (\<lambda>h c. c\<lparr>cheader := h\<rparr>), WriteHeader = (\<lambda>io. connWriteHeader),
     Write = connWrite, Flush = (\<lambda>io. connWriteHeader 200), deadline = True, MarkTermination = (\<lambda>r c. c),
     statusMarker = None, replayGate = None\<rparr>"

definition modifyHeader :: "'w ops \<Rightarrow> (header \<Rightarrow> header) \<Rightarrow> 'w \<Rightarrow> 'w" where
  "modifyHeader W f w = setHeader W (f (getHeader W w)) w"

section \<open>The access log's recorder\<close>

record statusRecorder =
  srStatus :: nat
  srSize :: nat
  srWroteHeader :: bool
  srTermination :: string

definition newStatusRecorder :: statusRecorder where
  "newStatusRecorder = \<lparr>srStatus = 200, srSize = 0, srWroteHeader = False, srTermination = ''''\<rparr>"

definition recorderWriteHeader :: "'w ops \<Rightarrow> io \<Rightarrow> nat \<Rightarrow> statusRecorder \<times> 'w \<Rightarrow> statusRecorder \<times> 'w" where
  "recorderWriteHeader W io code x =
     (case x of (s, w) \<Rightarrow>
        if srWroteHeader s then (s, w)
        else (s\<lparr>srStatus := code, srWroteHeader := True\<rparr>, WriteHeader W io code w))"

definition recorderWrite :: "'w ops \<Rightarrow> io \<Rightarrow> string \<Rightarrow> statusRecorder \<times> 'w \<Rightarrow> (statusRecorder \<times> 'w) \<times> wresult" where
  "recorderWrite W io b x =
     (case x of (s, w) \<Rightarrow> case Write W io b w of (w', n, err) \<Rightarrow>
        ((s\<lparr>srWroteHeader := True, srSize := srSize s + n\<rparr>, w'), n, err))"

definition recorderFlush :: "'w ops \<Rightarrow> io \<Rightarrow> statusRecorder \<times> 'w \<Rightarrow> statusRecorder \<times> 'w" where
  "recorderFlush W io x = (case x of (s, w) \<Rightarrow> (s\<lparr>srWroteHeader := True\<rparr>, Flush W io w))"

definition recorderMarkStatus :: "nat \<Rightarrow> statusRecorder \<times> 'w \<Rightarrow> statusRecorder \<times> 'w" where
  "recorderMarkStatus code x = (case x of (s, w) \<Rightarrow> (s\<lparr>srStatus := code\<rparr>, w))"

definition recorderMarkTermination :: "string \<Rightarrow> statusRecorder \<times> 'w \<Rightarrow> statusRecorder \<times> 'w" where
  "recorderMarkTermination reason x = (case x of (s, w) \<Rightarrow> (s\<lparr>srTermination := reason\<rparr>, w))"

definition recorderOps :: "'w ops \<Rightarrow> (statusRecorder \<times> 'w) ops" where
  "recorderOps W = \<lparr>getHeader = getHeader W \<circ> snd, setHeader = (\<lambda>h (s, w). (s, setHeader W h w)),
     WriteHeader = recorderWriteHeader W, Write = recorderWrite W, Flush = recorderFlush W, deadline = deadline W,
     MarkTermination = recorderMarkTermination,
     statusMarker = Some (\<lambda>(s, w). srWroteHeader s, recorderMarkStatus), replayGate = None\<rparr>"

section \<open>The in-flight tracker's writer\<close>

text \<open>\<open>iwHeaders\<close> and \<open>iwBytes\<close> are what the tracker is told: the headers at the first status, and each
  non-empty write as far as it went out.\<close>

record inflightResponseWriter =
  iwWroteHeader :: bool
  iwHeaders :: "header option"
  iwBytes :: "string list"

definition newInflightResponseWriter :: inflightResponseWriter where
  "newInflightResponseWriter = \<lparr>iwWroteHeader = False, iwHeaders = None, iwBytes = []\<rparr>"

definition inflightWriteHeader :: "'w ops \<Rightarrow> io \<Rightarrow> nat \<Rightarrow> inflightResponseWriter \<times> 'w \<Rightarrow> inflightResponseWriter \<times> 'w" where
  "inflightWriteHeader W io code x =
     (case x of (s, w) \<Rightarrow>
        if iwWroteHeader s then (s, w)
        else (s\<lparr>iwWroteHeader := True, iwHeaders := Some (getHeader W w)\<rparr>, WriteHeader W io code w))"

definition inflightWrite :: "'w ops \<Rightarrow> io \<Rightarrow> string \<Rightarrow> inflightResponseWriter \<times> 'w \<Rightarrow> (inflightResponseWriter \<times> 'w) \<times> wresult" where
  "inflightWrite W io b x =
     (case (if \<not> iwWroteHeader (fst x) then inflightWriteHeader W io 200 x else x) of (s, w) \<Rightarrow>
        case Write W io b w of (w', n, err) \<Rightarrow>
          ((if take n b = [] then s else s\<lparr>iwBytes := iwBytes s @ [take n b]\<rparr>, w'), n, err))"

definition inflightFlush :: "'w ops \<Rightarrow> io \<Rightarrow> inflightResponseWriter \<times> 'w \<Rightarrow> inflightResponseWriter \<times> 'w" where
  "inflightFlush W io x =
     (case (if \<not> iwWroteHeader (fst x) then inflightWriteHeader W io 200 x else x) of (s, w) \<Rightarrow> (s, Flush W io w))"

definition markInner :: "'w ops \<Rightarrow> nat \<Rightarrow> 'w \<Rightarrow> 'w" where
  "markInner W code w = (case statusMarker W of None \<Rightarrow> w | Some (_, m) \<Rightarrow> m code w)"

text \<open>The type has no \<open>Unwrap\<close>, so neither a deadline nor a termination mark gets past it.\<close>

definition inflightOps :: "'w ops \<Rightarrow> (inflightResponseWriter \<times> 'w) ops" where
  "inflightOps W = \<lparr>getHeader = getHeader W \<circ> snd, setHeader = (\<lambda>h (s, w). (s, setHeader W h w)),
     WriteHeader = inflightWriteHeader W, Write = inflightWrite W, Flush = inflightFlush W, deadline = False,
     MarkTermination = (\<lambda>r x. x),
     statusMarker = Some (\<lambda>(s, w). iwWroteHeader s, \<lambda>code (s, w). (s, markInner W code w)), replayGate = None\<rparr>"

section \<open>The metrics tee\<close>

definition responseTeeCapBytes :: nat where "responseTeeCapBytes = 16 * 1024 * 1024"

datatype teeBuffer = Unbounded string | Capped cappedTailBuffer

fun teeWrite :: "teeBuffer \<Rightarrow> string \<Rightarrow> teeBuffer" where
  "teeWrite (Unbounded s) b = Unbounded (s @ b)"
| "teeWrite (Capped c) b = Capped (tailWrite c b)"

fun teeBytes :: "teeBuffer \<Rightarrow> string" where
  "teeBytes (Unbounded s) = s"
| "teeBytes (Capped c) = tailBytes c"

record responseBodyCopier =
  bcBody :: teeBuffer
  bcStatus :: nat
  bcWroteHeader :: bool

definition newBodyCopier :: responseBodyCopier where
  "newBodyCopier = \<lparr>bcBody = Unbounded [], bcStatus = 200, bcWroteHeader = False\<rparr>"

definition selectBuffer :: "header \<Rightarrow> teeBuffer" where
  "selectBuffer h =
     (if containsSub ''text/event-stream'' (hGet h ''Content-Type'') \<and> hGet h ''Content-Encoding'' = ''''
      then Capped (newCappedTailBuffer responseTeeCapBytes) else Unbounded [])"

definition copierWriteHeader :: "'w ops \<Rightarrow> io \<Rightarrow> nat \<Rightarrow> responseBodyCopier \<times> 'w \<Rightarrow> responseBodyCopier \<times> 'w" where
  "copierWriteHeader W io code x =
     (case x of (s, w) \<Rightarrow>
        if bcWroteHeader s then (s, w)
        else (s\<lparr>bcWroteHeader := True, bcStatus := code, bcBody := selectBuffer (getHeader W w)\<rparr>, WriteHeader W io code w))"

text \<open>\<open>io.MultiWriter\<close> stops at a failed or short write to the client.\<close>

definition copierWrite :: "'w ops \<Rightarrow> io \<Rightarrow> string \<Rightarrow> responseBodyCopier \<times> 'w \<Rightarrow> (responseBodyCopier \<times> 'w) \<times> wresult" where
  "copierWrite W io b x =
     (case (if \<not> bcWroteHeader (fst x) then copierWriteHeader W io 200 x else x) of (s, w) \<Rightarrow>
        case Write W io b w of (w', n, err) \<Rightarrow>
          if bcStatus s = 101 then ((s, w'), n, err)
          else if err \<noteq> None then ((s, w'), n, err)
          else if n \<noteq> length b then ((s, w'), n, Some OtherError)
          else ((s\<lparr>bcBody := teeWrite (bcBody s) b\<rparr>, w'), length b, None))"

definition copierFlush :: "'w ops \<Rightarrow> io \<Rightarrow> responseBodyCopier \<times> 'w \<Rightarrow> responseBodyCopier \<times> 'w" where
  "copierFlush W io x =
     (case (if \<not> bcWroteHeader (fst x) then copierWriteHeader W io 200 x else x) of (s, w) \<Rightarrow> (s, Flush W io w))"

definition copierOps :: "'w ops \<Rightarrow> (responseBodyCopier \<times> 'w) ops" where
  "copierOps W = \<lparr>getHeader = getHeader W \<circ> snd, setHeader = (\<lambda>h (s, w). (s, setHeader W h w)),
     WriteHeader = copierWriteHeader W, Write = copierWrite W, Flush = copierFlush W, deadline = deadline W,
     MarkTermination = (\<lambda>r (s, w). (s, MarkTermination W r w)),
     statusMarker = Some (\<lambda>(s, w). bcWroteHeader s, \<lambda>code (s, w). (s\<lparr>bcStatus := code\<rparr>, markInner W code w)),
     replayGate = None\<rparr>"

text \<open>The writer a model request's handler gets: \<open>routes\<close> of \<open>server/server.go\<close> puts the access log outside
  the in-flight tracker, and that outside the metrics; no other middleware on the way wraps the writer.\<close>

type_synonym serverWriter = "responseBodyCopier \<times> inflightResponseWriter \<times> statusRecorder \<times> conn"

definition serverOps :: "serverWriter ops" where
  "serverOps = copierOps (inflightOps (recorderOps connOps))"

definition newServerWriter :: serverWriter where
  "newServerWriter = (newBodyCopier, newInflightResponseWriter, newStatusRecorder, newConn)"

section \<open>Marks and error responses\<close>

definition StatusClientClosedRequest :: nat where "StatusClientClosedRequest = 499"

definition ResponseStarted :: "'w ops \<Rightarrow> 'w \<Rightarrow> bool" where
  "ResponseStarted W w = (case statusMarker W of None \<Rightarrow> False | Some (wrote, mark) \<Rightarrow> wrote w)"

text \<open>\<open>gone\<close>: the client's own context is done.\<close>

definition MarkClientClosed :: "'w ops \<Rightarrow> bool \<Rightarrow> 'w \<Rightarrow> 'w \<times> bool" where
  "MarkClientClosed W gone w =
     (case statusMarker W of
        None \<Rightarrow> (w, False)
      | Some (wrote, mark) \<Rightarrow> if wrote w \<or> \<not> gone then (w, False) else (mark StatusClientClosedRequest w, True))"

definition errorTypeForStatus :: "nat \<Rightarrow> string \<times> string" where
  "errorTypeForStatus status =
     (if status = 400 then (''invalid_request_error'', ''bad_request'')
      else if status = 401 then (''authentication_error'', ''unauthorized'')
      else if status = 403 then (''authentication_error'', ''forbidden'')
      else if status = 404 then (''invalid_request_error'', ''not_found'')
      else if status = 409 then (''invalid_request_error'', ''conflict'')
      else if status = 429 then (''rate_limit_error'', ''rate_limit_exceeded'')
      else if status = 502 then (''server_error'', ''bad_gateway'')
      else if status = 503 then (''server_error'', ''service_unavailable'')
      else if status = 504 then (''server_error'', ''gateway_timeout'')
      else if status \<ge> 400 \<and> status < 500 then (''invalid_request_error'', ''invalid_request'')
      else (''server_error'', ''internal_error''))"

record errorEnvelope =
  eeMessage :: string
  eeType :: string
  eeCode :: string

definition NewErrorEnvelope :: "nat \<Rightarrow> string \<Rightarrow> string \<Rightarrow> errorEnvelope" where
  "NewErrorEnvelope status message code =
     (case errorTypeForStatus status of (errType, defaultCode) \<Rightarrow>
        \<lparr>eeMessage = message, eeType = errType, eeCode = (if code = '''' then defaultCode else code)\<rparr>)"

definition escapeHTML :: "char \<Rightarrow> string" where
  "escapeHTML c =
     (if c = CHR ''&'' then ''&amp;'' else if c = CHR 39 then ''&#39;'' else if c = CHR ''<'' then ''&lt;''
      else if c = CHR ''>'' then ''&gt;'' else if c = CHR 34 then ''&#34;'' else [c])"

text \<open>\<open>enc\<close> is \<open>json.Marshal\<close> of the envelope.\<close>

definition sendBody :: "'w ops \<Rightarrow> io \<Rightarrow> string \<Rightarrow> nat \<Rightarrow> string \<Rightarrow> 'w \<Rightarrow> 'w" where
  "sendBody W io contentType status body w =
     fst (Write W io body (WriteHeader W io status (modifyHeader W (hSet ''Content-Type'' contentType) w)))"

definition SendResponse :: "(errorEnvelope \<Rightarrow> string) \<Rightarrow> 'w ops \<Rightarrow> io \<Rightarrow> string \<Rightarrow> nat \<Rightarrow> string \<Rightarrow> 'w \<Rightarrow> 'w" where
  "SendResponse enc W io accept status message w =
     (if ResponseStarted W w then w
      else if containsSub ''text/plain'' accept then sendBody W io ''text/plain'' status (''llama-swap: '' @ message) w
      else if containsSub ''text/html'' accept then
        sendBody W io ''text/html'' status
          (''<html><body><h1>llama-swap</h1><p>'' @ concat (map escapeHTML message) @ ''</p></body></html>'') w
      else sendBody W io ''application/json'' status (enc (NewErrorEnvelope status message '''')) w)"

datatype routeError = ErrNoModelInContext | ErrNoRouterFound | ErrNoPeerModelFound | ErrNoLocalModelFound
  | ErrModelNotLoaded | HTTPErr nat header string | OtherErr string

fun SendError :: "(errorEnvelope \<Rightarrow> string) \<Rightarrow> 'w ops \<Rightarrow> io \<Rightarrow> string \<Rightarrow> routeError \<Rightarrow> 'w \<Rightarrow> 'w" where
  "SendError enc W io accept (HTTPErr code h body) w =
     (if ResponseStarted W w then w
      else fst (Write W io body (WriteHeader W io code (modifyHeader W (\<lambda>m. foldl (\<lambda>m (k, v). mput k v m) m h) w))))"
| "SendError enc W io accept ErrNoModelInContext w = SendResponse enc W io accept 404 ''no model id could be identified'' w"
| "SendError enc W io accept ErrNoPeerModelFound w = SendResponse enc W io accept 404 ''no peer found for requested model'' w"
| "SendError enc W io accept ErrNoLocalModelFound w =
     SendResponse enc W io accept 404 ''no local server found for requested model'' w"
| "SendError enc W io accept ErrNoRouterFound w = SendResponse enc W io accept 404 ''no router for requested model'' w"
| "SendError enc W io accept ErrModelNotLoaded w =
     SendResponse enc W io accept 503 ''model not loaded; status reads do not trigger a load'' w"
| "SendError enc W io accept (OtherErr e) w = SendResponse enc W io accept 500 (''unspecific error: '' @ e) w"

section \<open>The reverse proxy\<close>

text \<open>What \<open>httputil.ReverseProxy\<close> does with its writer: interim answers, the answer, its body and the flushes, no
  answer at all, or a connection that breaks after the headers. \<open>Cut\<close> is no call: another goroutine sets the
  request's preemption flag.\<close>

datatype proxyEvent = Interim header nat | Answer header nat | Body string | FlushBody | Unreachable | Aborted | Cut

definition copyHeader :: "header \<Rightarrow> header \<Rightarrow> header" where
  "copyHeader src dst = foldl (\<lambda>m (k, vs). foldl (\<lambda>m v. hAdd k v m) m vs) dst src"

definition isEventStream :: "header \<Rightarrow> bool" where
  "isEventStream h = containsSub ''text/event-stream'' (ToLower (hGet h ''Content-Type''))"

definition modifyResponse :: "header \<Rightarrow> header" where
  "modifyResponse h = (if isEventStream h then hSet ''X-Accel-Buffering'' ''no'' h else h)"

definition proxyErrorHandler :: "'w ops \<Rightarrow> bool \<Rightarrow> io \<Rightarrow> 'w \<Rightarrow> 'w" where
  "proxyErrorHandler W gone io w =
     (case MarkClientClosed W gone w of (w', marked) \<Rightarrow>
        if marked \<or> ResponseStarted W w' then w' else WriteHeader W io 502 w')"

definition disconnectedEvent :: string where
  "disconnectedEvent = [CHR 10, CHR 10] @ ''event: error'' @ [CHR 10]
     @ ''data: {\"type\":\"error\",\"error\":{\"type\":\"api_error\",\"message\":\"llama-swap: upstream disconnected mid-stream\"}}''
     @ [CHR 10, CHR 10]"

definition proxyStep :: "'w ops \<Rightarrow> ('w \<Rightarrow> 'w) \<Rightarrow> bool \<Rightarrow> io \<times> proxyEvent \<Rightarrow> 'w \<Rightarrow> 'w" where
  "proxyStep W cutFlag gone ev w =
     (case ev of (io, e) \<Rightarrow> case e of
        Interim h code \<Rightarrow> setHeader W [] (WriteHeader W io code (modifyHeader W (copyHeader h) w))
      | Answer h code \<Rightarrow> WriteHeader W io code (modifyHeader W (copyHeader (modifyResponse h)) w)
      | Body b \<Rightarrow> fst (Write W io b w)
      | FlushBody \<Rightarrow> Flush W io w
      | Unreachable \<Rightarrow> proxyErrorHandler W gone io w
      | Aborted \<Rightarrow> (if isEventStream (getHeader W w) then Flush W io (fst (Write W io disconnectedEvent w)) else w)
      | Cut \<Rightarrow> cutFlag w)"

definition proxyRun :: "'w ops \<Rightarrow> ('w \<Rightarrow> 'w) \<Rightarrow> bool \<Rightarrow> (io \<times> proxyEvent) list \<Rightarrow> 'w \<Rightarrow> 'w" where
  "proxyRun W cutFlag gone evs w = foldl (\<lambda>w ev. proxyStep W cutFlag gone ev w) w evs"

end
