(* ===== verification/SSEAdmission.thy ===== *)
theory SSEAdmission
  imports GoStrings
begin

text \<open>
  Admission frames, \<open>internal/router/sseadmission.go\<close>: a byte-wise scan of the event stream of one attempt.
  It tells when the stream carries content, and for a replayed attempt takes its \<open>message_start\<close> frames out.
  A byte is a \<open>char\<close>. \<open>bytes.TrimSpaceUTF8\<close> strips what \<open>unicode.IsSpace\<close> accepts, given by its UTF-8 encodings.
\<close>

section \<open>The event line\<close>

definition admLineCap :: nat where "admLineCap = 64"

abbreviation "LF \<equiv> CHR 10"
abbreviation "CR \<equiv> CHR 13"

definition TrimRightCR :: "string \<Rightarrow> string" where
  "TrimRightCR s = rev (dropWhile (\<lambda>c. c = CR) (rev s))"

definition eventName :: "string \<Rightarrow> string" where
  "eventName line =
     (let l = TrimRightCR line in if \<not> hasPrefix l ''event:'' then '''' else TrimSpaceUTF8 (drop 6 l))"

section \<open>The scan\<close>

datatype admState = admFrameStart | admComment | admEventLine | admPassFrame | admDropFrame | admDone

record admissionResult =
  content :: bool
  msgStart :: bool
  dropped :: bool

definition noResult :: admissionResult where
  "noResult = \<lparr>content = False, msgStart = False, dropped = False\<rparr>"

record admissionScan =
  astate :: admState
  afilter :: bool
  aline :: string
  lineLen :: nat

definition resetScan :: "bool \<Rightarrow> admissionScan" where
  "resetScan f = \<lparr>astate = admFrameStart, afilter = f, aline = [], lineLen = 0\<rparr>"

text \<open>\<open>p\<close> is the rest of the chunk, from the byte that proved content on.\<close>

definition finish :: "admissionScan \<Rightarrow> string \<Rightarrow> admissionResult \<Rightarrow> string \<Rightarrow> admissionScan \<times> string \<times> admissionResult" where
  "finish s out res p =
     (s\<lparr>astate := admDone\<rparr>,
      if afilter s then out @ (if astate s = admEventLine then aline s else []) @ p else out,
      res\<lparr>content := True\<rparr>)"

definition forward :: "admissionScan \<Rightarrow> string \<Rightarrow> string \<Rightarrow> string" where
  "forward s out p = (if afilter s then out @ p else out)"

fun feedLoop :: "admissionScan \<Rightarrow> string \<Rightarrow> admissionResult \<Rightarrow> string \<Rightarrow> admissionScan \<times> string \<times> admissionResult" where
  "feedLoop s out res [] = (s, out, res)"
| "feedLoop s out res (b # p) =
     (case astate s of
        admFrameStart \<Rightarrow>
          (if b = LF \<or> b = CR then feedLoop s (forward s out [b]) res p
           else if b = CHR '':'' then feedLoop (s\<lparr>astate := admComment\<rparr>) (forward s out [b]) res p
           else if b = CHR ''e'' then feedLoop (s\<lparr>astate := admEventLine, aline := [b]\<rparr>) out res p
           else finish s out res (b # p))
      | admComment \<Rightarrow>
          feedLoop (if b = LF then s\<lparr>astate := admFrameStart\<rparr> else s) (forward s out [b]) res p
      | admEventLine \<Rightarrow>
          (if b \<noteq> LF then
             (if length (aline s) = admLineCap then finish s out res (b # p)
              else feedLoop (s\<lparr>aline := aline s @ [b]\<rparr>) out res p)
           else if eventName (aline s) = ''message_start'' then
             (if afilter s then feedLoop (s\<lparr>astate := admDropFrame, aline := [], lineLen := 0\<rparr>) out (res\<lparr>dropped := True\<rparr>) p
              else feedLoop (s\<lparr>astate := admPassFrame, aline := [], lineLen := 0\<rparr>) out (res\<lparr>msgStart := True\<rparr>) p)
           else if eventName (aline s) = ''ping'' then
             feedLoop (s\<lparr>astate := admPassFrame, aline := [], lineLen := 0\<rparr>) (forward s out (aline s @ [b])) res p
           else finish s out res (b # p))
      | admDone \<Rightarrow> (s, out @ b # p, res)
      | _ \<Rightarrow>
          (let out' = (if astate s = admPassFrame then forward s out [b] else out);
               s' = (if b = LF then (if lineLen s = 0 then s\<lparr>astate := admFrameStart\<rparr> else s\<lparr>lineLen := 0\<rparr>)
                     else if b \<noteq> CR then s\<lparr>lineLen := lineLen s + 1\<rparr> else s)
           in feedLoop s' out' res p))"

definition feed :: "admissionScan \<Rightarrow> string \<Rightarrow> admissionScan \<times> string \<times> admissionResult" where
  "feed s p =
     (if astate s = admDone \<or> p = [] then (s, p, noResult)
      else case feedLoop s [] noResult p of (s', out, res) \<Rightarrow> (s', if afilter s then out else p, res))"

section \<open>Chunks\<close>

definition orResult :: "admissionResult \<Rightarrow> admissionResult \<Rightarrow> admissionResult" where
  "orResult a b = \<lparr>content = (content a \<or> content b), msgStart = (msgStart a \<or> msgStart b), dropped = (dropped a \<or> dropped b)\<rparr>"

lemma orResult_simps [simp]: "orResult noResult r = r" "orResult r noResult = r" "orResult (orResult a b) c = orResult a (orResult b c)"
  by (auto simp: orResult_def noResult_def)

lemma orResult_set [simp]:
  "orResult res (noResult\<lparr>content := True\<rparr>) = res\<lparr>content := True\<rparr>"
  "orResult res (noResult\<lparr>dropped := True\<rparr>) = res\<lparr>dropped := True\<rparr>"
  "orResult res (noResult\<lparr>msgStart := True\<rparr>) = res\<lparr>msgStart := True\<rparr>"
  by (auto simp: orResult_def noResult_def)

text \<open>The same scan one byte at a time, as a reference: once content is seen every byte goes through.\<close>

definition endScan :: "admissionScan \<Rightarrow> char \<Rightarrow> admissionScan \<times> string \<times> admissionResult" where
  "endScan s b = (s\<lparr>astate := admDone\<rparr>, forward s [] ((if astate s = admEventLine then aline s else []) @ [b]),
     noResult\<lparr>content := True\<rparr>)"

definition admByte :: "admissionScan \<Rightarrow> char \<Rightarrow> admissionScan \<times> string \<times> admissionResult" where
  "admByte s b =
     (case astate s of
        admFrameStart \<Rightarrow>
          (if b = LF \<or> b = CR then (s, forward s [] [b], noResult)
           else if b = CHR '':'' then (s\<lparr>astate := admComment\<rparr>, forward s [] [b], noResult)
           else if b = CHR ''e'' then (s\<lparr>astate := admEventLine, aline := [b]\<rparr>, [], noResult)
           else endScan s b)
      | admComment \<Rightarrow> (if b = LF then s\<lparr>astate := admFrameStart\<rparr> else s, forward s [] [b], noResult)
      | admEventLine \<Rightarrow>
          (if b \<noteq> LF then
             (if length (aline s) = admLineCap then endScan s b else (s\<lparr>aline := aline s @ [b]\<rparr>, [], noResult))
           else if eventName (aline s) = ''message_start'' then
             (if afilter s then (s\<lparr>astate := admDropFrame, aline := [], lineLen := 0\<rparr>, [], noResult\<lparr>dropped := True\<rparr>)
              else (s\<lparr>astate := admPassFrame, aline := [], lineLen := 0\<rparr>, [], noResult\<lparr>msgStart := True\<rparr>))
           else if eventName (aline s) = ''ping'' then
             (s\<lparr>astate := admPassFrame, aline := [], lineLen := 0\<rparr>, forward s [] (aline s @ [b]), noResult)
           else endScan s b)
      | admDone \<Rightarrow> (s, forward s [] [b], noResult)
      | _ \<Rightarrow>
          (if b = LF then (if lineLen s = 0 then s\<lparr>astate := admFrameStart\<rparr> else s\<lparr>lineLen := 0\<rparr>)
           else if b \<noteq> CR then s\<lparr>lineLen := lineLen s + 1\<rparr> else s,
           if astate s = admPassFrame then forward s [] [b] else [], noResult))"

fun scanBytes :: "admissionScan \<Rightarrow> string \<Rightarrow> admissionScan \<times> string \<times> admissionResult" where
  "scanBytes s [] = (s, [], noResult)"
| "scanBytes s (b # p) =
     (case admByte s b of (s1, o1, r1) \<Rightarrow> case scanBytes s1 p of (s2, o2, r2) \<Rightarrow> (s2, o1 @ o2, orResult r1 r2))"

lemma scanBytes_append:
  "scanBytes s (p @ q) = (case scanBytes s p of (s1, o1, r1) \<Rightarrow> case scanBytes s1 q of (s2, o2, r2) \<Rightarrow> (s2, o1 @ o2, orResult r1 r2))"
  by (induction p arbitrary: s) (auto split: prod.splits)

lemma scanBytes_done: "astate s = admDone \<Longrightarrow> scanBytes s p = (s, forward s [] p, noResult)"
  by (induction p) (simp_all add: admByte_def forward_def)

lemma admByte_filter: "admByte s b = (s', o', r') \<Longrightarrow> afilter s' = afilter s \<and> (\<not> afilter s \<longrightarrow> o' = [])"
  by (auto simp: admByte_def endScan_def forward_def split: admState.splits if_splits)

lemma forward_append: "forward s out q = out @ forward s [] q"
  by (simp add: forward_def)

lemma feedLoop_step:
  assumes "astate s \<noteq> admDone" "admByte s b = (s1, o1, r1)"
  shows "feedLoop s out res (b # p) =
    (if astate s1 = admDone then finish s out res (b # p) else feedLoop s1 (out @ o1) (orResult res r1) p)"
proof (cases "astate s")
  case admFrameStart
  then show ?thesis
    using assms(2) forward_append[of s out] by (simp add: admByte_def endScan_def split: if_splits) auto
next
  case admComment
  then show ?thesis
    using assms(2) forward_append[of s out] by (simp add: admByte_def split: if_splits) auto
next
  case admEventLine
  then show ?thesis
    using assms(2) forward_append[of s out]
    by (simp add: admByte_def endScan_def split: if_splits) auto
next
  case admPassFrame
  then show ?thesis
    using assms(2) forward_append[of s out] by (simp add: admByte_def Let_def split: if_splits) auto
next
  case admDropFrame
  then show ?thesis
    using assms(2) by (simp add: admByte_def Let_def split: if_splits) auto
next
  case admDone
  then show ?thesis using assms(1) by simp
qed

lemma admByte_end: "astate s \<noteq> admDone \<Longrightarrow> admByte s b = (s1, o1, r1) \<Longrightarrow> astate s1 = admDone \<Longrightarrow> admByte s b = endScan s b"
  by (auto simp: admByte_def split: admState.splits if_splits)

lemma feedLoop_scan:
  "astate s \<noteq> admDone \<Longrightarrow> feedLoop s out res p = (case scanBytes s p of (s', o', r') \<Rightarrow> (s', out @ o', orResult res r'))"
proof (induction p arbitrary: s out res)
  case (Cons b p)
  obtain s1 o1 r1 where b: "admByte s b = (s1, o1, r1)" by (cases "admByte s b")
  show ?case
  proof (cases "astate s1 = admDone")
    case True
    then have e: "admByte s b = endScan s b" using admByte_end[OF Cons.prems b] by simp
    have "scanBytes (s\<lparr>astate := admDone\<rparr>) p = (s\<lparr>astate := admDone\<rparr>, forward s [] p, noResult)"
      using scanBytes_done[of "s\<lparr>astate := admDone\<rparr>" p] by (simp add: forward_def)
    then show ?thesis
      using feedLoop_step[OF Cons.prems b, of out res p] True e b
      by (simp add: finish_def endScan_def forward_def)
  next
    case False
    show ?thesis
      using feedLoop_step[OF Cons.prems b, of out res p] False Cons.IH[OF False] b by (simp split: prod.splits)
  qed
qed simp

lemma feed_scan: "feed s p = (case scanBytes s p of (s', o', r') \<Rightarrow> (s', if afilter s then o' else p, r'))"
proof (cases "astate s = admDone \<or> p = []")
  case True
  then show ?thesis by (cases "astate s = admDone") (auto simp: feed_def scanBytes_done forward_def)
next
  case False
  then show ?thesis using feedLoop_scan[of s "[]" noResult p] by (auto simp: feed_def split: prod.splits)
qed

lemma scanBytes_filter: "scanBytes s p = (s', o', r') \<Longrightarrow> afilter s' = afilter s \<and> (\<not> afilter s \<longrightarrow> o' = [])"
proof (induction p arbitrary: s s' o' r')
  case (Cons b p)
  obtain s1 o1 r1 where b: "admByte s b = (s1, o1, r1)" by (cases "admByte s b")
  obtain s2 o2 r2 where p: "scanBytes s1 p = (s2, o2, r2)" by (cases "scanBytes s1 p")
  show ?case using Cons.IH[OF p] admByte_filter[OF b] Cons.prems b p by auto
qed simp

text \<open>The chunks of a stream, one call each.\<close>

fun feedAll :: "admissionScan \<Rightarrow> string list \<Rightarrow> admissionScan \<times> string \<times> admissionResult" where
  "feedAll s [] = (s, [], noResult)"
| "feedAll s (p # ps) =
     (case feed s p of (s1, o1, r1) \<Rightarrow> case feedAll s1 ps of (s2, o2, r2) \<Rightarrow> (s2, o1 @ o2, orResult r1 r2))"

text \<open>What the scan forwards and reports does not depend on how the stream was cut into chunks.\<close>

lemma chunks_do_not_matter: "feedAll s ps = feed s (concat ps)"
proof (induction ps arbitrary: s)
  case Nil
  then show ?case by (simp add: feed_def)
next
  case (Cons p ps)
  obtain s1 o1 r1 where p: "scanBytes s p = (s1, o1, r1)" by (cases "scanBytes s p")
  obtain s2 o2 r2 where q: "scanBytes s1 (concat ps) = (s2, o2, r2)" by (cases "scanBytes s1 (concat ps)")
  show ?case
    using p q scanBytes_filter[OF p] by (simp add: Cons.IH feed_scan scanBytes_append)
qed

section \<open>Frames\<close>

text \<open>What may come before the content: an empty line, a comment, a frame with its event line, its other
  lines and the line of carriage returns at most that ends it.\<close>

datatype frame = FBlank char | FComment string | FEvent string "string list" string

fun render :: "frame \<Rightarrow> string" where
  "render (FBlank c) = [c]"
| "render (FComment t) = CHR '':'' # t @ [LF]"
| "render (FEvent l ls t) = l @ LF # concat (map (\<lambda>x. x @ [LF]) ls) @ t @ [LF]"

definition plainLine :: "string \<Rightarrow> bool" where
  "plainLine x = (LF \<notin> set x \<and> (\<exists>c\<in>set x. c \<noteq> CR))"

fun admissible :: "frame \<Rightarrow> bool" where
  "admissible (FBlank c) = (c = LF \<or> c = CR)"
| "admissible (FComment t) = (LF \<notin> set t)"
| "admissible (FEvent l ls t) =
     (l \<noteq> [] \<and> hd l = CHR ''e'' \<and> LF \<notin> set l \<and> length l \<le> admLineCap
      \<and> (eventName l = ''message_start'' \<or> eventName l = ''ping'') \<and> (\<forall>x\<in>set ls. plainLine x) \<and> set t \<subseteq> {CR})"

fun startsMessage :: "frame \<Rightarrow> bool" where
  "startsMessage (FEvent l ls t) = (eventName l = ''message_start'')"
| "startsMessage _ = False"

text \<open>What ends the scan: any other byte, an event line of another name, one too long to be either.\<close>

definition startsContent :: "string \<Rightarrow> bool" where
  "startsContent c \<longleftrightarrow> c \<noteq> [] \<and>
     (hd c \<notin> {LF, CR, CHR '':'', CHR ''e''}
      \<or> (\<exists>l rest. c = l @ LF # rest \<and> l \<noteq> [] \<and> hd l = CHR ''e'' \<and> LF \<notin> set l \<and> length l \<le> admLineCap
           \<and> eventName l \<noteq> ''message_start'' \<and> eventName l \<noteq> ''ping'')
      \<or> (\<exists>l rest. c = l @ rest \<and> l \<noteq> [] \<and> hd l = CHR ''e'' \<and> LF \<notin> set l \<and> length l = admLineCap + 1))"

lemma scan_comment: "astate s = admComment \<Longrightarrow> LF \<notin> set t \<Longrightarrow> scanBytes s t = (s, forward s [] t, noResult)"
  by (induction t) (auto simp: admByte_def forward_def)

lemma scan_line:
  "astate s = admEventLine \<Longrightarrow> LF \<notin> set t \<Longrightarrow> length (aline s) + length t \<le> admLineCap \<Longrightarrow>
     scanBytes s t = (s\<lparr>aline := aline s @ t\<rparr>, [], noResult)"
  by (induction t arbitrary: s) (auto simp: admByte_def)

definition passing :: "admissionScan \<Rightarrow> string \<Rightarrow> string" where
  "passing s p = (if astate s = admPassFrame then forward s [] p else [])"

lemma rest_byte:
  "astate s = admPassFrame \<or> astate s = admDropFrame \<Longrightarrow> b \<noteq> LF \<Longrightarrow>
     admByte s b = (s\<lparr>lineLen := lineLen s + (if b \<noteq> CR then 1 else 0)\<rparr>, passing s [b], noResult)"
  by (auto simp: admByte_def passing_def)

lemma passing_append: "passing s p @ passing s q = passing s (p @ q)"
  by (simp add: passing_def forward_def)

lemma passing_upd [simp]: "passing (s\<lparr>lineLen := n\<rparr>) p = passing s p"
  by (simp add: passing_def forward_def)

lemma passing_Nil [simp]: "passing s [] = []"
  by (simp add: passing_def forward_def)

lemma scan_rest:
  "astate s = admPassFrame \<or> astate s = admDropFrame \<Longrightarrow> LF \<notin> set t \<Longrightarrow>
     scanBytes s t = (s\<lparr>lineLen := lineLen s + length (filter (\<lambda>c. c \<noteq> CR) t)\<rparr>, passing s t, noResult)"
proof (induction t arbitrary: s)
  case (Cons b t)
  let ?s = "s\<lparr>lineLen := lineLen s + (if b \<noteq> CR then 1 else 0)\<rparr>"
  have "scanBytes ?s t = (?s\<lparr>lineLen := lineLen ?s + length (filter (\<lambda>c. c \<noteq> CR) t)\<rparr>, passing ?s t, noResult)"
    using Cons.prems by (intro Cons.IH) auto
  moreover have "b \<noteq> LF" using Cons.prems(2) by auto
  ultimately show ?case
    using rest_byte[OF Cons.prems(1), of b] passing_append[of s "[b]" t] by simp
qed simp

lemma scan_one_line:
  assumes "astate s = admPassFrame \<or> astate s = admDropFrame" "LF \<notin> set x"
  shows "scanBytes s (x @ [LF]) =
    (if lineLen s + length (filter (\<lambda>c. c \<noteq> CR) x) = 0 then s\<lparr>astate := admFrameStart\<rparr> else s\<lparr>lineLen := 0\<rparr>,
     passing s (x @ [LF]), noResult)"
proof -
  let ?s = "s\<lparr>lineLen := lineLen s + length (filter (\<lambda>c. c \<noteq> CR) x)\<rparr>"
  have "admByte ?s LF = (if lineLen ?s = 0 then ?s\<lparr>astate := admFrameStart\<rparr> else ?s\<lparr>lineLen := 0\<rparr>, passing ?s [LF], noResult)"
    using assms(1) by (auto simp: admByte_def passing_def)
  then show ?thesis
    using scan_rest[OF assms] by (simp add: scanBytes_append passing_append)
qed

lemma scan_lines:
  "astate s = admPassFrame \<or> astate s = admDropFrame \<Longrightarrow> lineLen s = 0 \<Longrightarrow> \<forall>x\<in>set ls. plainLine x \<Longrightarrow>
     scanBytes s (concat (map (\<lambda>x. x @ [LF]) ls)) = (s, passing s (concat (map (\<lambda>x. x @ [LF]) ls)), noResult)"
proof (induction ls)
  case (Cons x ls)
  have x: "LF \<notin> set x" "filter (\<lambda>c. c \<noteq> CR) x \<noteq> []"
    using Cons.prems(3) by (auto simp: plainLine_def filter_empty_conv)
  have "s\<lparr>lineLen := 0\<rparr> = s" using Cons.prems(2) by simp
  then have "scanBytes s (x @ [LF]) = (s, passing s (x @ [LF]), noResult)"
    using scan_one_line[OF Cons.prems(1) x(1)] x(2) by simp
  then show ?case
    using Cons.IH[OF Cons.prems(1,2)] Cons.prems(3) scanBytes_append[of s "x @ [LF]" "concat (map (\<lambda>x. x @ [LF]) ls)"]
    by (simp add: passing_append)
qed simp

text \<open>A frame from the start of a line back to the start of a line: what goes out and what is reported.\<close>

definition frameOut :: "bool \<Rightarrow> frame \<Rightarrow> string" where
  "frameOut f it = (if f \<and> \<not> startsMessage it then render it else [])"

definition frameResult :: "bool \<Rightarrow> frame \<Rightarrow> admissionResult" where
  "frameResult f it = noResult\<lparr>msgStart := startsMessage it \<and> \<not> f, dropped := startsMessage it \<and> f\<rparr>"

definition atStart :: "admissionScan \<Rightarrow> bool" where
  "atStart s = (astate s = admFrameStart)"

lemma scan_event:
  assumes "atStart s" "admissible (FEvent l ls t)"
  shows "\<exists>s'. scanBytes s (render (FEvent l ls t)) = (s', frameOut (afilter s) (FEvent l ls t), frameResult (afilter s) (FEvent l ls t))
    \<and> atStart s' \<and> afilter s' = afilter s"
proof -
  let ?lines = "concat (map (\<lambda>x. x @ [LF]) ls)"
  obtain l' where l: "l = CHR ''e'' # l'" using assms(2) by (cases l) auto
  have pl: "\<forall>x\<in>set ls. plainLine x" and t: "LF \<notin> set t" "filter (\<lambda>c. c \<noteq> CR) t = []" using assms(2) by (auto simp: filter_empty_conv)
  define s1 where "s1 = s\<lparr>astate := admEventLine, aline := l\<rparr>"
  have first: "scanBytes s l = (s1, [], noResult)"
    using scan_line[of "s\<lparr>astate := admEventLine, aline := [CHR ''e'']\<rparr>" l'] assms l
    by (simp add: admByte_def atStart_def s1_def)
  define s2 where "s2 = s\<lparr>astate := (if startsMessage (FEvent l ls t) \<and> afilter s then admDropFrame else admPassFrame), aline := [], lineLen := 0\<rparr>"
  have second: "admByte s1 LF = (s2, if startsMessage (FEvent l ls t) then [] else forward s [] (l @ [LF]), frameResult (afilter s) (FEvent l ls t))"
    using assms(2) by (auto simp: admByte_def s1_def s2_def frameResult_def forward_def noResult_def)
  have st: "astate s2 = admPassFrame \<or> astate s2 = admDropFrame" "lineLen s2 = 0" by (simp_all add: s2_def)
  define s3 where "s3 = s2\<lparr>astate := admFrameStart\<rparr>"
  have third: "scanBytes s2 (?lines @ t @ [LF]) = (s3, passing s2 (?lines @ t @ [LF]), noResult)"
    using scan_lines[OF st pl] scan_one_line[OF st(1) t(1)] t(2) st(2)
    by (simp add: scanBytes_append[of s2 ?lines] passing_append s3_def)
  have "render (FEvent l ls t) = l @ [LF] @ (?lines @ t @ [LF])" by simp
  then have "scanBytes s (render (FEvent l ls t)) =
      (s3, (if startsMessage (FEvent l ls t) then [] else forward s [] (l @ [LF])) @ passing s2 (?lines @ t @ [LF]),
       frameResult (afilter s) (FEvent l ls t))"
    by (simp only: scanBytes_append[of s l] scanBytes_append[of s1 "[LF]"] first second third) (simp add: first second third)
  then show ?thesis
    by (auto simp: frameOut_def s3_def s2_def atStart_def passing_def forward_def)
qed

lemma frameResult_quiet: "\<not> startsMessage it \<Longrightarrow> frameResult f it = noResult"
  by (simp add: frameResult_def noResult_def)

lemma scan_frame:
  assumes "atStart s" "admissible it"
  shows "\<exists>s'. scanBytes s (render it) = (s', frameOut (afilter s) it, frameResult (afilter s) it) \<and> atStart s' \<and> afilter s' = afilter s"
proof (cases it)
  case (FBlank c)
  then show ?thesis
    using assms by (auto simp: admByte_def atStart_def frameOut_def frameResult_quiet forward_def)
next
  case (FComment t)
  have "scanBytes (s\<lparr>astate := admComment\<rparr>) (t @ [LF]) =
      (s\<lparr>astate := admFrameStart\<rparr>, forward s [] t @ forward s [] [LF], noResult)"
    using scan_comment[of "s\<lparr>astate := admComment\<rparr>" t] assms(2) FComment
    by (simp add: scanBytes_append admByte_def forward_def)
  then show ?thesis
    using assms(1) FComment
    by (auto simp: admByte_def atStart_def frameOut_def frameResult_quiet forward_def)
next
  case (FEvent l ls t)
  show ?thesis using scan_event[OF assms(1), of l ls t] assms(2) unfolding FEvent by blast
qed

lemma scan_frames:
  "atStart s \<Longrightarrow> \<forall>it\<in>set fs. admissible it \<Longrightarrow>
     \<exists>s'. scanBytes s (concat (map render fs)) =
         (s', concat (map (frameOut (afilter s)) fs),
          noResult\<lparr>msgStart := list_ex startsMessage fs \<and> \<not> afilter s, dropped := list_ex startsMessage fs \<and> afilter s\<rparr>)
       \<and> atStart s' \<and> afilter s' = afilter s"
proof (induction fs arbitrary: s)
  case Nil
  then show ?case by (auto simp: noResult_def)
next
  case (Cons it fs)
  obtain s1 where 1: "scanBytes s (render it) = (s1, frameOut (afilter s) it, frameResult (afilter s) it)"
      "atStart s1" "afilter s1 = afilter s"
    using scan_frame[OF Cons.prems(1), of it] Cons.prems(2) by auto
  obtain s2 where 2: "scanBytes s1 (concat (map render fs)) = (s2, concat (map (frameOut (afilter s)) fs),
      noResult\<lparr>msgStart := list_ex startsMessage fs \<and> \<not> afilter s, dropped := list_ex startsMessage fs \<and> afilter s\<rparr>)"
      "atStart s2" "afilter s2 = afilter s"
    using Cons.IH[OF 1(2)] Cons.prems(2) 1(3) by auto
  have "orResult (frameResult (afilter s) it)
      (noResult\<lparr>msgStart := list_ex startsMessage fs \<and> \<not> afilter s, dropped := list_ex startsMessage fs \<and> afilter s\<rparr>)
    = noResult\<lparr>msgStart := list_ex startsMessage (it # fs) \<and> \<not> afilter s, dropped := list_ex startsMessage (it # fs) \<and> afilter s\<rparr>"
    by (auto simp: orResult_def frameResult_def noResult_def)
  then show ?case using 1 2 by (simp add: scanBytes_append)
qed

lemma scan_end:
  assumes "astate s \<noteq> admDone" "admByte s b = endScan s b"
  shows "\<exists>s'. scanBytes s (b # p) = (s', forward s [] ((if astate s = admEventLine then aline s else []) @ b # p), noResult\<lparr>content := True\<rparr>)
    \<and> astate s' = admDone"
  using scanBytes_done[of "s\<lparr>astate := admDone\<rparr>" p]
  by (simp add: assms(2) endScan_def) (simp add: forward_def)

lemma scan_content:
  assumes s: "atStart s" and c: "startsContent c"
  shows "\<exists>s'. scanBytes s c = (s', forward s [] c, noResult\<lparr>content := True\<rparr>) \<and> astate s' = admDone"
proof -
  have line: "scanBytes s l = (s\<lparr>astate := admEventLine, aline := l\<rparr>, [], noResult)"
    if "l \<noteq> []" "hd l = CHR ''e''" "LF \<notin> set l" "length l \<le> admLineCap" for l
    using that scan_line[of "s\<lparr>astate := admEventLine, aline := [CHR ''e'']\<rparr>" "tl l"] s
    by (cases l) (simp_all add: admByte_def atStart_def)
  have ends: "\<exists>s'. scanBytes s (l @ b # p) = (s', forward s [] (l @ b # p), noResult\<lparr>content := True\<rparr>) \<and> astate s' = admDone"
    if l: "l \<noteq> []" "hd l = CHR ''e''" "LF \<notin> set l" "length l \<le> admLineCap"
      and b: "admByte (s\<lparr>astate := admEventLine, aline := l\<rparr>) b = endScan (s\<lparr>astate := admEventLine, aline := l\<rparr>) b" for l b p
    using scan_end[OF _ b, of p] by (auto simp: scanBytes_append[of s l] line[OF l] forward_def simp del: scanBytes.simps)
  consider (other) b p where "c = b # p" "b \<notin> {LF, CR, CHR '':'', CHR ''e''}"
    | (name) l p where "c = l @ LF # p" "l \<noteq> []" "hd l = CHR ''e''" "LF \<notin> set l" "length l \<le> admLineCap"
        "eventName l \<noteq> ''message_start''" "eventName l \<noteq> ''ping''"
    | (long) l p where "c = l @ p" "l \<noteq> []" "hd l = CHR ''e''" "LF \<notin> set l" "length l = admLineCap + 1"
    using c unfolding startsContent_def by (metis list.exhaust_sel)
  then show ?thesis
  proof cases
    case other
    then have "admByte s b = endScan s b" using s by (simp add: admByte_def atStart_def)
    then show ?thesis using scan_end[of s b p] s other(1) by (simp add: atStart_def)
  next
    case name
    show ?thesis unfolding name(1) by (rule ends[OF name(2-5)]) (simp add: admByte_def name(6,7))
  next
    case long
    obtain l' b where l: "l = l' @ [b]" using long(2) by (cases l rule: rev_cases) auto
    have "l' \<noteq> []" "length l' = admLineCap" "LF \<notin> set l'" "b \<noteq> LF" using long(4,5) l by (auto simp: admLineCap_def)
    moreover have "hd l' = CHR ''e''" using long(3) l \<open>l' \<noteq> []\<close> by simp
    ultimately show ?thesis
      using ends[of l' b p] by (simp add: long(1) l admByte_def)
  qed
qed

lemma feed_frames:
  assumes "\<forall>it\<in>set fs. admissible it"
  shows "\<exists>s'. feed (resetScan f) (concat (map render fs)) =
      (s', concat (map render (if f then filter (\<lambda>it. \<not> startsMessage it) fs else fs)),
       noResult\<lparr>msgStart := list_ex startsMessage fs \<and> \<not> f, dropped := list_ex startsMessage fs \<and> f\<rparr>)"
proof -
  have o: "concat (map (frameOut True) fs) = concat (map render (filter (\<lambda>it. \<not> startsMessage it) fs))"
    by (induction fs) (simp_all add: frameOut_def)
  show ?thesis
    using scan_frames[of "resetScan f" fs] assms o by (auto simp: feed_scan resetScan_def atStart_def)
qed

lemma feed_admission:
  assumes "\<forall>it\<in>set fs. admissible it" "startsContent c"
  shows "\<exists>s'. feed (resetScan f) (concat (map render fs) @ c) =
      (s', concat (map render (if f then filter (\<lambda>it. \<not> startsMessage it) fs else fs)) @ c,
       \<lparr>content = True, msgStart = (list_ex startsMessage fs \<and> \<not> f), dropped = (list_ex startsMessage fs \<and> f)\<rparr>)
    \<and> astate s' = admDone"
proof -
  have r: "atStart (resetScan f)" "afilter (resetScan f) = f" by (simp_all add: resetScan_def atStart_def)
  obtain s1 where 1: "scanBytes (resetScan f) (concat (map render fs)) = (s1, concat (map (frameOut f) fs),
      noResult\<lparr>msgStart := list_ex startsMessage fs \<and> \<not> f, dropped := list_ex startsMessage fs \<and> f\<rparr>)"
      "atStart s1" "afilter s1 = f"
    using scan_frames[OF r(1) assms(1)] unfolding r(2) by blast
  obtain s2 where 2: "scanBytes s1 c = (s2, forward s1 [] c, noResult\<lparr>content := True\<rparr>)" "astate s2 = admDone"
    using scan_content[OF 1(2) assms(2)] by blast
  have o: "concat (map (frameOut True) fs) = concat (map render (filter (\<lambda>it. \<not> startsMessage it) fs))"
    by (induction fs) (simp_all add: frameOut_def)
  show ?thesis
    using 1 2 o by (auto simp: feed_scan scanBytes_append r(2) forward_def orResult_def noResult_def)
qed

text \<open>A stream that opens with admission frames and goes on with content, in any chunks: the filter takes
  out its \<open>message_start\<close> frames and no other byte, without the filter nothing changes, content is reported,
  and so is whether a \<open>message_start\<close> was let through or dropped.\<close>

theorem admission_filtered:
  assumes "\<forall>it\<in>set fs. admissible it" "startsContent c" "concat ps = concat (map render fs) @ c"
  shows "\<exists>s'. feedAll (resetScan f) ps =
      (s', concat (map render (if f then filter (\<lambda>it. \<not> startsMessage it) fs else fs)) @ c,
       \<lparr>content = True, msgStart = (list_ex startsMessage fs \<and> \<not> f), dropped = (list_ex startsMessage fs \<and> f)\<rparr>)
    \<and> astate s' = admDone"
  unfolding chunks_do_not_matter assms(3) by (rule feed_admission[OF assms(1,2)])

theorem admission_filtered_witness:
  "\<exists>s'. feedAll (resetScan True) [''event: messa'', ''ge_start'' @ [LF] @ ''data: {}'' @ [LF], [LF, CHR '':'', LF] @ ''ev'', ''ent: ping'' @ [LF, CR, LF] @ ''data: x''] =
      (s', [CHR '':'', LF] @ ''event: ping'' @ [LF, CR, LF] @ ''data: x'',
       \<lparr>content = True, msgStart = False, dropped = True\<rparr>)
    \<and> astate s' = admDone"
proof -
  let ?fs = "[FEvent ''event: message_start'' [''data: {}''] [], FComment [], FEvent ''event: ping'' [] [CR]]"
  have n: "eventName ''event: message_start'' = ''message_start''" "eventName ''event: ping'' = ''ping''" by code_simp+
  have a: "\<forall>it\<in>set ?fs. admissible it" by (simp add: n plainLine_def admLineCap_def)
  have c: "startsContent ''data: x''" by (simp add: startsContent_def)
  show ?thesis
    using admission_filtered[OF a c, of "[''event: messa'', ''ge_start'' @ [LF] @ ''data: {}'' @ [LF], [LF, CHR '':'', LF] @ ''ev'', ''ent: ping'' @ [LF, CR, LF] @ ''data: x'']" True]
    by (simp add: n)
qed

end
