(* ===== verification/PingWriter.thy ===== *)
theory PingWriter
  imports ResponseWriter SSEAdmission
begin

text \<open>
  The keep-alive writer of an Anthropic stream, \<open>internal/router/pinging.go\<close>, with the guard that gives a slot
  back, \<open>peerstall.go\<close>. Writes of the upstream, ticks of the ping loop and verdicts of the watchers are calls
  with the state passed explicitly; the lock makes each of them one step. A request's cancel function is a
  number, and cancelling records it.
\<close>

section \<open>The stall guard\<close>

record peerStallGuard =
  gTimeout :: duration
  gSlotTimeout :: duration
  gFired :: bool
  gVerdicts :: "string list"
  gCancel :: "nat option"
  gCancelled :: "nat list"

definition newPeerStallGuard :: "duration \<Rightarrow> duration \<Rightarrow> peerStallGuard" where
  "newPeerStallGuard timeout slotTimeout =
     \<lparr>gTimeout = timeout, gSlotTimeout = slotTimeout, gFired = False, gVerdicts = [], gCancel = None, gCancelled = []\<rparr>"

definition setCancel :: "nat \<Rightarrow> peerStallGuard \<Rightarrow> peerStallGuard" where
  "setCancel fn g = g\<lparr>gCancel := Some fn\<rparr>"

definition fire :: "'w ops \<Rightarrow> string \<Rightarrow> peerStallGuard \<Rightarrow> 'w \<Rightarrow> peerStallGuard \<times> 'w" where
  "fire W verdict g w =
     (if gFired g then (g, w)
      else (g\<lparr>gFired := True, gVerdicts := gVerdicts g @ [verdict],
              gCancelled := gCancelled g @ (case gCancel g of None \<Rightarrow> [] | Some fn \<Rightarrow> [fn])\<rparr>,
            MarkTermination W verdict w))"

text \<open>\<open>write\<close>: the call \<open>fn\<close> under the stall budget. A chain that carries no deadline is left alone.\<close>

definition isWriteDeadlineErr :: "ioError option \<Rightarrow> bool" where
  "isWriteDeadlineErr err = (err = Some DeadlineExceeded)"

definition guardedWrite ::
    "'w ops \<Rightarrow> io \<Rightarrow> peerStallGuard \<Rightarrow> ('w \<Rightarrow> 'w \<times> wresult) \<Rightarrow> 'w \<Rightarrow> peerStallGuard \<times> 'w \<times> wresult" where
  "guardedWrite W io g fn w =
     (if gTimeout g \<le> 0 then (g, fn w)
      else case fn w of (w', n, err) \<Rightarrow>
        if deadline W \<and> (isWriteDeadlineErr err \<or> ioblocked io \<ge> gTimeout g) then
          (case fire W ''peer-stalled'' g w' of (g', w'') \<Rightarrow> (g', w'', n, err))
        else (g, w', n, err))"

section \<open>State\<close>

definition pingQuietDelay :: duration where "pingQuietDelay = 20 * Second"
definition pingInterval :: duration where "pingInterval = 15 * Second"
definition maxReplayHeld :: duration where "maxReplayHeld = 270 * Second"
definition pingZeroBudget :: duration where "pingZeroBudget = maxReplayHeld"

definition isAnthropicStreamPath :: "string \<Rightarrow> bool" where
  "isAnthropicStreamPath path = (hasPrefix path ''/v1/messages'' \<and> \<not> hasSuffix path ''/count_tokens'')"

record pingWriter =
  pwStopped :: bool
  pwErrored :: bool
  pwStart :: gotime
  lastPing :: gotime
  headersSent :: bool
  pingsStarted :: bool
  wroteBody :: bool
  pingedThisGap :: bool
  lastBodyWrite :: gotime
  pwTail :: string
  wroteContent :: bool
  pastAdmission :: bool
  msgStartSent :: bool
  scan :: admissionScan
  slotStart :: gotime
  allowed :: bool
  stall :: peerStallGuard

definition newPingWriter :: "gotime \<Rightarrow> bool \<Rightarrow> peerStallGuard \<Rightarrow> pingWriter" where
  "newPingWriter start allow g =
     \<lparr>pwStopped = False, pwErrored = False, pwStart = start, lastPing = zeroTime, headersSent = False,
      pingsStarted = False, wroteBody = False, pingedThisGap = False, lastBodyWrite = zeroTime, pwTail = [],
      wroteContent = False, pastAdmission = False, msgStartSent = False, scan = resetScan False,
      slotStart = zeroTime, allowed = allow, stall = g\<rparr>"

definition allowPings :: "pingWriter \<Rightarrow> pingWriter" where
  "allowPings pw = pw\<lparr>allowed := True\<rparr>"

definition slotGranted :: "gotime \<Rightarrow> pingWriter \<Rightarrow> pingWriter" where
  "slotGranted t pw = pw\<lparr>slotStart := t\<rparr>"

definition replaySafe :: "pingWriter \<Rightarrow> bool" where
  "replaySafe pw \<longleftrightarrow> \<not> pastAdmission pw \<and> (pwTail pw = [] \<or> pwTail pw = [LF, LF])"

definition preFirstToken :: "pingWriter \<Rightarrow> bool" where
  "preFirstToken pw = (\<not> wroteContent pw)"

definition stopPing :: "pingWriter \<Rightarrow> pingWriter" where
  "stopPing pw = pw\<lparr>pwStopped := True\<rparr>"

section \<open>Frames of its own\<close>

definition sseEvent :: "string \<Rightarrow> string \<Rightarrow> string" where
  "sseEvent name payload = ''event: '' @ name @ [LF] @ ''data: '' @ payload @ [LF, LF]"

definition pingEvent :: string where
  "pingEvent = sseEvent ''ping'' ''{\"type\": \"ping\"}''"

definition errorEvent :: "string \<Rightarrow> string \<Rightarrow> string" where
  "errorEvent errType message =
     sseEvent ''error'' (''{\"type\":\"error\",\"error\":{\"type\":\"'' @ errType @ ''\",\"message\":\"'' @ message @ ''\"}}'')"

text \<open>\<open>Duration.String\<close> of whole seconds, the only durations printed here.\<close>

definition durationString :: "duration \<Rightarrow> string" where
  "durationString d =
     (let s = nat (d div Second) in
      (if s \<ge> 3600 then itoa (s div 3600) @ ''h'' else []) @ (if s \<ge> 60 then itoa (s div 60 mod 60) @ ''m'' else [])
      @ itoa (s mod 60) @ ''s'')"

text \<open>\<open>Round(time.Second)\<close>: halves go up.\<close>

definition roundSecond :: "duration \<Rightarrow> duration" where
  "roundSecond d = (d + 500000000) div Second * Second"

definition zeroBudgetMessage :: string where
  "zeroBudgetMessage = ''llama-swap: no output was produced in '' @ itoa (nat (pingZeroBudget div Second)) @ ''s and the stream was ended so this request can be retried. It held a slot without emitting a token.''"

definition slotStallMessage :: "duration \<Rightarrow> string" where
  "slotStallMessage d = ''llama-swap: no upstream token reached the client for '' @ durationString d @ '' and the stream was ended so this request can be retried. It went flat mid-stream.''"

definition prefillStallMessage :: "duration \<Rightarrow> string" where
  "prefillStallMessage d = ''llama-swap: the upstream prefill made no progress for '' @ durationString (roundSecond d) @ '' and the stream was ended so this request can be retried. The prompt stopped being processed.''"

definition upstreamFailedMessage :: "nat \<Rightarrow> string" where
  "upstreamFailedMessage code = ''llama-swap: upstream failed with status '' @ itoa code @ '' during load/prefill''"

text \<open>The shared ending of every verdict: mark, write, flush. Failures are not looked at.\<close>

definition writeSSEErrorLocked :: "'w ops \<Rightarrow> io \<Rightarrow> string \<Rightarrow> string \<Rightarrow> pingWriter \<times> 'w \<Rightarrow> pingWriter \<times> 'w" where
  "writeSSEErrorLocked W io errType message x =
     (case x of (pw, w) \<Rightarrow> (pw\<lparr>pwErrored := True\<rparr>, Flush W io (fst (Write W io (errorEvent errType message) w))))"

definition commitSSE :: "'w ops \<Rightarrow> io \<Rightarrow> pingWriter \<times> 'w \<Rightarrow> pingWriter \<times> 'w" where
  "commitSSE W io x =
     (case x of (pw, w) \<Rightarrow>
        if headersSent pw then (pw, w)
        else (pw\<lparr>headersSent := True, pingsStarted := True\<rparr>,
              WriteHeader W io 200 (modifyHeader W (hSet ''Cache-Control'' ''no-cache'' \<circ> hSet ''Content-Type'' ''text/event-stream'') w)))"

definition reclaim :: "'w ops \<Rightarrow> string \<Rightarrow> pingWriter \<times> 'w \<Rightarrow> pingWriter \<times> 'w" where
  "reclaim W verdict x = (case x of (pw, w) \<Rightarrow> case fire W verdict (stall pw) w of (g, w') \<Rightarrow> (pw\<lparr>stall := g\<rparr>, w'))"

section \<open>A tick of the ping loop\<close>

text \<open>The result is the delay until the next tick, \<open>None\<close> when the loop ends.\<close>

definition sendPing :: "'w ops \<Rightarrow> io \<Rightarrow> pingWriter \<times> 'w \<Rightarrow> (pingWriter \<times> 'w) \<times> duration option" where
  "sendPing W io x =
     (case x of (pw, w) \<Rightarrow>
        case guardedWrite W io (stall pw)
            (\<lambda>v. case Write W io pingEvent v of (v', n, err) \<Rightarrow> if err \<noteq> None then (v', n, err) else (Flush W io v', n, None)) w
        of (g, w', n, err) \<Rightarrow>
          (let pw' = pw\<lparr>stall := g\<rparr> in
           if err \<noteq> None \<or> gFired g then ((pw', w'), None)
           else ((pw'\<lparr>lastPing := ionow io, pingedThisGap := True\<rparr>, w'), Some pingInterval)))"

definition zeroBudgetSpent :: "gotime \<Rightarrow> pingWriter \<Rightarrow> bool" where
  "zeroBudgetSpent ts pw \<longleftrightarrow>
     \<not> wroteBody pw \<and> pingsStarted pw \<and> slotStart pw \<noteq> zeroTime \<and> ts - slotStart pw \<ge> pingZeroBudget"

definition slotStalled :: "gotime \<Rightarrow> pingWriter \<Rightarrow> bool" where
  "slotStalled ts pw \<longleftrightarrow>
     gSlotTimeout (stall pw) > 0 \<and> wroteBody pw \<and> slotStart pw \<noteq> zeroTime \<and> ts - lastBodyWrite pw \<ge> gSlotTimeout (stall pw)"

definition pingDue :: "pingWriter \<Rightarrow> gotime" where
  "pingDue pw =
     (if pingedThisGap pw then lastPing pw + pingInterval
      else (if wroteBody pw then lastBodyWrite pw else pwStart pw) + pingQuietDelay)"

definition tryPing :: "'w ops \<Rightarrow> io \<Rightarrow> pingWriter \<times> 'w \<Rightarrow> (pingWriter \<times> 'w) \<times> duration option" where
  "tryPing W io x =
     (case x of (pw, w) \<Rightarrow>
        if pwStopped pw \<or> pwErrored pw then (x, None)
        else if \<not> allowed pw then (x, Some pingInterval)
        else if zeroBudgetSpent (ionow io) pw then
          (reclaim W ''zero-output-budget'' (writeSSEErrorLocked W io ''overloaded_error'' zeroBudgetMessage x), None)
        else if slotStalled (ionow io) pw then
          (reclaim W ''slot-stalled''
             (writeSSEErrorLocked W io ''api_error'' (slotStallMessage (gSlotTimeout (stall pw))) x), None)
        else if pingDue pw - ionow io > 0 then (x, Some (pingDue pw - ionow io))
        else if wroteBody pw \<and> \<not> hasSuffix (pwTail pw) [LF, LF] then (x, Some pingInterval)
        else sendPing W io (commitSSE W io x))"

section \<open>Calls of the upstream\<close>

definition commentLine :: "string \<Rightarrow> string" where
  "commentLine l = (if hasSuffix l [CR] then butlast l else l)"

fun commentLines :: "bool \<Rightarrow> string list \<Rightarrow> bool" where
  "commentLines seen [] = seen"
| "commentLines seen (l # ls) =
     (if commentLine l = [] then commentLines seen ls
      else if hasPrefix (commentLine l) '':'' then commentLines True ls
      else False)"

definition isSSECommentOnly :: "string \<Rightarrow> bool" where
  "isSSECommentOnly p = commentLines False (splitByte LF p)"

definition newTail :: "string \<Rightarrow> string \<Rightarrow> string" where
  "newTail old out = (if length out \<ge> 2 then lastN 2 out else lastN 2 (old @ out))"

text \<open>The bookkeeping of \<open>Write\<close> under the lock, with the bytes to forward.\<close>

definition noteWrite :: "gotime \<Rightarrow> string \<Rightarrow> pingWriter \<Rightarrow> pingWriter \<times> string" where
  "noteWrite ts p pw =
     (let (scan', out, res) = (if \<not> pastAdmission pw then feed (scan pw) p else (scan pw, p, noResult)) in
      (pw\<lparr>wroteBody := True, lastBodyWrite := ts, wroteContent := wroteContent pw \<or> \<not> isSSECommentOnly p,
          pastAdmission := pastAdmission pw \<or> content res, msgStartSent := msgStartSent pw \<or> msgStart res,
          scan := scan', pingedThisGap := False, pwTail := newTail (pwTail pw) out\<rparr>, out))"

definition pingWrite :: "'w ops \<Rightarrow> io \<Rightarrow> string \<Rightarrow> pingWriter \<times> 'w \<Rightarrow> (pingWriter \<times> 'w) \<times> wresult" where
  "pingWrite W io p x =
     (case x of (pw0, w) \<Rightarrow> case noteWrite (ionow io) p pw0 of (pw, out) \<Rightarrow>
        if pwErrored pw then ((pw, w), length p, None)
        else if out = [] then ((pw, w), length p, None)
        else (case guardedWrite W io (stall pw) (Write W io out) w of (g, w', n, err) \<Rightarrow>
                ((pw\<lparr>stall := g\<rparr>, w'), if err = None \<and> n = length out then length p else n, err)))"

definition pingWriteHeader :: "'w ops \<Rightarrow> io \<Rightarrow> nat \<Rightarrow> pingWriter \<times> 'w \<Rightarrow> pingWriter \<times> 'w" where
  "pingWriteHeader W io code x =
     (case x of (pw0, w) \<Rightarrow>
        (let pw = pw0\<lparr>scan := resetScan (msgStartSent pw0)\<rparr> in
         if \<not> pingsStarted pw \<and> \<not> headersSent pw then (pw\<lparr>headersSent := True\<rparr>, WriteHeader W io code w)
         else if code \<ge> 400 \<and> \<not> pwErrored pw then writeSSEErrorLocked W io ''api_error'' (upstreamFailedMessage code) (pw, w)
         else (pw, w)))"

definition pingFlush :: "'w ops \<Rightarrow> io \<Rightarrow> pingWriter \<times> 'w \<Rightarrow> pingWriter \<times> 'w" where
  "pingFlush W io x =
     (case x of (pw, w) \<Rightarrow>
        case guardedWrite W io (stall pw) (\<lambda>v. (Flush W io v, 0, None)) w of (g, w', _) \<Rightarrow> (pw\<lparr>stall := g\<rparr>, w'))"

definition prefillStallCut :: "'w ops \<Rightarrow> io \<Rightarrow> duration \<Rightarrow> pingWriter \<times> 'w \<Rightarrow> (pingWriter \<times> 'w) \<times> bool" where
  "prefillStallCut W io flat x =
     (if pwStopped (fst x) \<or> pwErrored (fst x) \<or> wroteContent (fst x) then (x, False)
      else (reclaim W ''prefill-stalled''
              (writeSSEErrorLocked W io ''api_error'' (prefillStallMessage flat) (commitSSE W io x)), True))"

definition pingOps :: "'w ops \<Rightarrow> (pingWriter \<times> 'w) ops" where
  "pingOps W = \<lparr>getHeader = getHeader W \<circ> snd, setHeader = (\<lambda>h (pw, w). (pw, setHeader W h w)),
     WriteHeader = pingWriteHeader W, Write = pingWrite W, Flush = pingFlush W, deadline = False,
     MarkTermination = (\<lambda>r x. x), statusMarker = None, replayGate = Some (replaySafe \<circ> fst)\<rparr>"

end
