(* ===== verification/Preempt.thy ===== *)
theory Preempt
  imports ResponseWriter
begin

text \<open>
  The two writers a granted request's answer passes before it meets the rest of the chain:
  \<open>preemptResponseWriter\<close> (\<open>internal/router/preempt.go\<close>), which turns the answer of a preempted request into a
  503 or swallows it for a replay, and \<open>refusalWriter\<close> (\<open>refusalhold.go\<close>), which withholds a refusal that is the
  shadow of a cut request; and \<open>forward\<close> of \<open>base.go\<close>, which sends the request again under the same grant.
\<close>

section \<open>The preemption writer\<close>

text \<open>\<open>preempted\<close> and \<open>replayWanted\<close> are shared flags; \<open>None\<close> says that the attempt may not be replayed.\<close>

record preemptResponseWriter =
  preempted :: bool
  replayWanted :: "bool option"
  prWroteHeader :: bool

definition newPreemptResponseWriter :: "bool \<Rightarrow> bool option \<Rightarrow> preemptResponseWriter" where
  "newPreemptResponseWriter pre replay = \<lparr>preempted = pre, replayWanted = replay, prWroteHeader = False\<rparr>"

text \<open>\<open>preemptGiveUpBody\<close> is a constant of the code: the marshalled envelope, its keys in order.\<close>

definition preemptGiveUpBody :: string where
  "preemptGiveUpBody = ''{\"error\":{\"message\":\"llama-swap: the model is busy and this request was never started. It held a queue position and was given up on before any work was done, so retrying it is safe.\",\"type\":\"overloaded_error\"},\"type\":\"error\"}''"

definition giveUpHeader :: "header \<Rightarrow> header" where
  "giveUpHeader h = hSet ''Content-Type'' ''application/json'' (hSet ''Retry-After'' ''1'' (hSet ''X-Llamaswap-Preempted'' ''1'' h))"

definition writePreemptGiveUp :: "'w ops \<Rightarrow> io \<Rightarrow> 'w \<Rightarrow> 'w" where
  "writePreemptGiveUp W io w = fst (Write W io preemptGiveUpBody (WriteHeader W io 503 (modifyHeader W giveUpHeader w)))"

definition preemptWriteHeader :: "'w ops \<Rightarrow> io \<Rightarrow> nat \<Rightarrow> preemptResponseWriter \<times> 'w \<Rightarrow> preemptResponseWriter \<times> 'w" where
  "preemptWriteHeader W io code x =
     (case x of (p, w) \<Rightarrow>
        if prWroteHeader p then (p, WriteHeader W io code w)
        else (let p' = p\<lparr>prWroteHeader := True\<rparr> in
          if preempted p then
            (if replayWanted p \<noteq> None then (p'\<lparr>replayWanted := Some True\<rparr>, w) else (p', writePreemptGiveUp W io w))
          else (p', WriteHeader W io code w)))"

definition gateOpen :: "'w ops \<Rightarrow> 'w \<Rightarrow> bool" where
  "gateOpen W w = (case replayGate W of None \<Rightarrow> False | Some safe \<Rightarrow> safe w)"

definition preemptWrite :: "'w ops \<Rightarrow> io \<Rightarrow> string \<Rightarrow> preemptResponseWriter \<times> 'w \<Rightarrow> (preemptResponseWriter \<times> 'w) \<times> wresult" where
  "preemptWrite W io b x =
     (case (if \<not> prWroteHeader (fst x) then preemptWriteHeader W io 200 x else x) of (p, w) \<Rightarrow>
        if replayWanted p = Some True then ((p, w), length b, None)
        else if preempted p \<and> replayWanted p \<noteq> None \<and> gateOpen W w then ((p, w), length b, None)
        else (case Write W io b w of (w', r) \<Rightarrow> ((p, w'), r)))"

text \<open>No \<open>Unwrap\<close> and no \<open>StatusMarker\<close>: the embedded interface promotes neither.\<close>

definition preemptOps :: "'w ops \<Rightarrow> (preemptResponseWriter \<times> 'w) ops" where
  "preemptOps W = \<lparr>getHeader = getHeader W \<circ> snd, setHeader = (\<lambda>h (p, w). (p, setHeader W h w)),
     WriteHeader = preemptWriteHeader W, Write = preemptWrite W, Flush = (\<lambda>io (p, w). (p, Flush W io w)),
     deadline = False, MarkTermination = (\<lambda>r x. x), statusMarker = None, replayGate = None\<rparr>"

definition setPreempted :: "preemptResponseWriter \<times> 'w \<Rightarrow> preemptResponseWriter \<times> 'w" where
  "setPreempted x = (case x of (p, w) \<Rightarrow> (p\<lparr>preempted := True\<rparr>, w))"

section \<open>The refusal writer\<close>

definition cutLingerWindow :: duration where "cutLingerWindow = 60 * Second"
definition refusalRetryBudget :: duration where "refusalRetryBudget = 60 * Second"
definition refusalRetryDefault :: duration where "refusalRetryDefault = 500000000"
definition refusalRetryMin :: duration where "refusalRetryMin = 250000000"
definition refusalRetryMax :: duration where "refusalRetryMax = 2 * Second"

definition retryableRefusal :: "nat \<Rightarrow> bool" where
  "retryableRefusal code \<longleftrightarrow> code = 503 \<or> code = 529"

text \<open>\<open>strconv.Atoi\<close>: an optional sign and digits, within 64 bits.\<close>

definition digitVal :: "char \<Rightarrow> nat option" where
  "digitVal c = (let n = of_char c in if 48 \<le> n \<and> n \<le> (57 :: nat) then Some (n - 48) else None)"

fun digits :: "nat \<Rightarrow> string \<Rightarrow> nat option" where
  "digits acc [] = Some acc"
| "digits acc (c # s) = (case digitVal c of None \<Rightarrow> None | Some d \<Rightarrow> digits (acc * 10 + d) s)"

definition Atoi :: "string \<Rightarrow> int option" where
  "Atoi s =
     (let neg = (s \<noteq> [] \<and> hd s = CHR ''-''); body = (if s \<noteq> [] \<and> hd s \<in> {CHR ''-'', CHR ''+''} then tl s else s) in
      if body = [] then None
      else case digits 0 body of
        None \<Rightarrow> None
      | Some n \<Rightarrow> (let v = (if neg then - int n else int n) in
          if - (2 ^ 63) \<le> v \<and> v < 2 ^ 63 then Some v else None))"

text \<open>\<open>time.Duration(s) * time.Second\<close> wraps around at 64 bits.\<close>

definition wrap64 :: "int \<Rightarrow> int" where
  "wrap64 v = (v + 2 ^ 63) mod 2 ^ 64 - 2 ^ 63"

definition parseRetryAfter :: "string \<Rightarrow> duration" where
  "parseRetryAfter v =
     (case Atoi (TrimSpaceUTF8 v) of None \<Rightarrow> 0 | Some s \<Rightarrow> if s < 0 then 0 else wrap64 (s * Second))"

definition refusalWait :: "duration \<Rightarrow> duration" where
  "refusalWait retryAfter =
     (let w1 = (if retryAfter \<le> 0 then refusalRetryDefault else retryAfter);
          w2 = (if w1 < refusalRetryMin then refusalRetryMin else w1)
      in if w2 > refusalRetryMax then refusalRetryMax else w2)"

definition noteCut :: "string \<Rightarrow> gotime \<Rightarrow> (string, gotime) gomap \<Rightarrow> (string, gotime) gomap" where
  "noteCut model ts cuts = mput model ts cuts"

definition sinceCut :: "(string, gotime) gomap \<Rightarrow> string \<Rightarrow> gotime \<Rightarrow> duration option" where
  "sinceCut cuts model ts = map_option (\<lambda>t. ts - t) (map_of cuts model)"

record refusalWriter =
  snap :: header
  decided :: bool
  wasRefused :: bool
  retryAfter :: duration
  rwStatus :: nat

definition newRefusalWriter :: "'w ops \<Rightarrow> 'w \<Rightarrow> refusalWriter" where
  "newRefusalWriter W w = \<lparr>snap = getHeader W w, decided = False, wasRefused = False, retryAfter = 0, rwStatus = 0\<rparr>"

definition refusalWriteHeader :: "'w ops \<Rightarrow> io \<Rightarrow> nat \<Rightarrow> refusalWriter \<times> 'w \<Rightarrow> refusalWriter \<times> 'w" where
  "refusalWriteHeader W io code x =
     (case x of (r, w) \<Rightarrow>
        if \<not> decided r \<and> code \<ge> 200 then
          (let r1 = r\<lparr>decided := True\<rparr> in
           if retryableRefusal code then
             (r1\<lparr>rwStatus := code, retryAfter := parseRetryAfter (hGet (getHeader W w) ''Retry-After''), wasRefused := True\<rparr>,
              setHeader W (snap r1) w)
           else (r1, WriteHeader W io code w))
        else (r, WriteHeader W io code w))"

definition refusalWrite :: "'w ops \<Rightarrow> io \<Rightarrow> string \<Rightarrow> refusalWriter \<times> 'w \<Rightarrow> (refusalWriter \<times> 'w) \<times> wresult" where
  "refusalWrite W io b x =
     (case x of (r, w) \<Rightarrow>
        if wasRefused r then ((r, w), length b, None)
        else (case Write W io b w of (w', res) \<Rightarrow> ((r\<lparr>decided := True\<rparr>, w'), res)))"

definition refusalFlush :: "'w ops \<Rightarrow> io \<Rightarrow> refusalWriter \<times> 'w \<Rightarrow> refusalWriter \<times> 'w" where
  "refusalFlush W io x = (case x of (r, w) \<Rightarrow> if wasRefused r then (r, w) else (r, Flush W io w))"

definition refusalOps :: "'w ops \<Rightarrow> (refusalWriter \<times> 'w) ops" where
  "refusalOps W = \<lparr>getHeader = getHeader W \<circ> snd, setHeader = (\<lambda>h (r, w). (r, setHeader W h w)),
     WriteHeader = refusalWriteHeader W, Write = refusalWrite W, Flush = refusalFlush W,
     deadline = False, MarkTermination = (\<lambda>r x. x), statusMarker = None, replayGate = None\<rparr>"

section \<open>Forwarding under one grant\<close>

definition refusalHoldArmed :: "bool \<Rightarrow> gotime option \<Rightarrow> gotime \<Rightarrow> duration option \<Rightarrow> bool" where
  "refusalHoldArmed resendable first ts since =
     (if \<not> resendable then False
      else case first of
        Some t \<Rightarrow> ts - t < refusalRetryBudget
      | None \<Rightarrow> (case since of None \<Rightarrow> False | Some d \<Rightarrow> d < cutLingerWindow))"

text \<open>What one round of the loop reads: the time and the model's last cut when the hold is armed, the child's
  answer, the time the wait is measured from, how the wait ended, the time after it, and whether the body could
  be had again. The channels are inputs: which one fires is not the code's choice.\<close>

datatype wakeup = TimerFired | RequestDone | ShutdownDone

record forwardRound =
  rdArm :: gotime
  rdSince :: "duration option"
  rdAnswer :: "(io \<times> proxyEvent) list"
  rdRefused :: gotime
  rdWake :: wakeup
  rdAfter :: gotime
  rdBody :: bool

record 'w forwarded =
  fwPreempted :: bool
  fwReplay :: "bool option"
  fwInner :: 'w

text \<open>An attempt that may be held passes both writers, the others only the first. The flags are the grant's, the
  writers are made anew for each attempt.\<close>

definition forwardHeld :: "'w ops \<Rightarrow> bool \<Rightarrow> (io \<times> proxyEvent) list \<Rightarrow> 'w forwarded \<Rightarrow> refusalWriter \<times> 'w forwarded" where
  "forwardHeld W gone evs f =
     (let p0 = (newPreemptResponseWriter (fwPreempted f) (fwReplay f), fwInner f);
          (r, p, w) = proxyRun (refusalOps (preemptOps W)) (\<lambda>(r, x). (r, setPreempted x)) gone evs
                        (newRefusalWriter (preemptOps W) p0, p0)
      in (r, \<lparr>fwPreempted = preempted p, fwReplay = replayWanted p, fwInner = w\<rparr>))"

definition forwardOnce :: "'w ops \<Rightarrow> bool \<Rightarrow> (io \<times> proxyEvent) list \<Rightarrow> 'w forwarded \<Rightarrow> 'w forwarded" where
  "forwardOnce W gone evs f =
     (let (p, w) = proxyRun (preemptOps W) setPreempted gone evs
                     (newPreemptResponseWriter (fwPreempted f) (fwReplay f), fwInner f)
      in \<lparr>fwPreempted = preempted p, fwReplay = replayWanted p, fwInner = w\<rparr>)"

text \<open>The loop. \<open>None\<close>: the rounds given were not enough.\<close>

fun forwardLoop :: "'w ops \<Rightarrow> bool \<Rightarrow> bool \<Rightarrow> bool \<Rightarrow> gotime option \<Rightarrow> bool \<Rightarrow> forwardRound list \<Rightarrow> 'w forwarded \<Rightarrow> 'w forwarded option" where
  "forwardLoop W gone holdsSlot resendable first spent [] f = None"
| "forwardLoop W gone holdsSlot resendable first spent (rd # rds) f =
     (if holdsSlot \<and> \<not> spent \<and> refusalHoldArmed resendable first (rdArm rd) (rdSince rd) then
        (case forwardHeld W gone (rdAnswer rd) f of (r, f') \<Rightarrow>
           if \<not> wasRefused r then Some f'
           else (let first' = (case first of None \<Rightarrow> rdRefused rd | Some t \<Rightarrow> t);
                     spent' = (rdWake rd \<noteq> TimerFired \<or> rdAfter rd - first' \<ge> refusalRetryBudget \<or> \<not> rdBody rd)
                 in forwardLoop W gone holdsSlot resendable (Some first') spent' rds f'))
      else Some (forwardOnce W gone (rdAnswer rd) f))"

definition forwardGrant :: "'w ops \<Rightarrow> bool \<Rightarrow> bool \<Rightarrow> bool \<Rightarrow> forwardRound list \<Rightarrow> 'w forwarded \<Rightarrow> 'w forwarded option" where
  "forwardGrant W gone holdsSlot resendable rds f = forwardLoop W gone holdsSlot resendable None False rds f"

section \<open>Withheld attempts\<close>

text \<open>What the proofs need of a chain of writers: its header map is a cell of its own.\<close>

locale header_cell =
  fixes W :: "'w ops"
  assumes get_set: "getHeader W (setHeader W h w) = h"
    and set_get: "setHeader W (getHeader W w) w = w"
    and set_set: "setHeader W h (setHeader W h' w) = setHeader W h w"

lemma connOps_header_cell: "header_cell connOps"
  by unfold_locales (simp_all add: connOps_def)

lemma pair_header_cell:
  assumes "header_cell W" "getHeader V = getHeader W \<circ> snd" "setHeader V = (\<lambda>h (s, w). (s, setHeader W h w))"
  shows "header_cell V"
  using assms(1) by (simp add: header_cell_def assms(2,3) split: prod.splits)

lemma inflight_header_cell: "header_cell W \<Longrightarrow> header_cell (inflightOps W)"
  and recorder_header_cell: "header_cell W \<Longrightarrow> header_cell (recorderOps W)"
  and copier_header_cell: "header_cell W \<Longrightarrow> header_cell (copierOps W)"
  and preempt_header_cell: "header_cell W \<Longrightarrow> header_cell (preemptOps W)"
  by (erule pair_header_cell; simp add: inflightOps_def recorderOps_def copierOps_def preemptOps_def)+

interpretation serverHeader: header_cell serverOps
  unfolding serverOps_def by (intro copier_header_cell inflight_header_cell recorder_header_cell connOps_header_cell)

text \<open>The attempts considered: the child answers or does not, then only its body, flushes and a break follow.
  An interim answer is not withheld.\<close>

fun bodyEvent :: "proxyEvent \<Rightarrow> bool" where
  "bodyEvent (Body b) = True"
| "bodyEvent FlushBody = True"
| "bodyEvent Aborted = True"
| "bodyEvent Cut = True"
| "bodyEvent _ = False"

fun plainAnswer :: "(io \<times> proxyEvent) list \<Rightarrow> bool" where
  "plainAnswer [] = True"
| "plainAnswer ((io, Cut) # evs) = plainAnswer evs"
| "plainAnswer ((io, Answer h code) # evs) = list_all (bodyEvent \<circ> snd) evs"
| "plainAnswer ((io, Unreachable) # evs) = list_all (bodyEvent \<circ> snd) evs"
| "plainAnswer _ = False"

definition cutIn :: "(io \<times> proxyEvent) list \<Rightarrow> bool" where
  "cutIn evs = list_ex (\<lambda>ev. snd ev = Cut) evs"

abbreviation setHeldPreempted :: "refusalWriter \<times> preemptResponseWriter \<times> 'w \<Rightarrow> refusalWriter \<times> preemptResponseWriter \<times> 'w" where
  "setHeldPreempted \<equiv> (\<lambda>(r, x). (r, setPreempted x))"

lemma held_refused_run:
  assumes "wasRefused r" "list_all (bodyEvent \<circ> snd) evs"
  shows "proxyRun (refusalOps (preemptOps W)) setHeldPreempted gone evs (r, p, w) = (r, p\<lparr>preempted := preempted p \<or> cutIn evs\<rparr>, w)"
  using assms(2)
proof (induction evs arbitrary: p)
  case Nil
  then show ?case by (simp add: proxyRun_def cutIn_def)
next
  case (Cons ev evs)
  obtain io e where ev: "ev = (io, e)" by (cases ev)
  have step: "proxyStep (refusalOps (preemptOps W)) setHeldPreempted gone ev (r, p, w) =
      (r, p\<lparr>preempted := preempted p \<or> e = Cut\<rparr>, w)"
    using assms(1) Cons.prems ev
    by (cases e) (auto simp: proxyStep_def refusalOps_def refusalWrite_def refusalFlush_def setPreempted_def)
  show ?case
    using Cons.IH[of "p\<lparr>preempted := preempted p \<or> e = Cut\<rparr>"] Cons.prems step ev
    by (simp add: proxyRun_def cutIn_def disj_assoc)
qed

lemma proxyRun_Cons: "proxyRun W cutFlag gone (ev # evs) w = proxyRun W cutFlag gone evs (proxyStep W cutFlag gone ev w)"
  by (simp add: proxyRun_def)

text \<open>While nothing is refused the refusal writer changes nothing for those behind it.\<close>

lemma refused_stays: "wasRefused r \<Longrightarrow>
    wasRefused (fst (proxyRun (refusalOps V) (\<lambda>(r, x). (r, c x)) gone evs (r, x)))"
proof (induction evs arbitrary: r x)
  case (Cons ev evs)
  obtain r' x' where "proxyStep (refusalOps V) (\<lambda>(r, x). (r, c x)) gone ev (r, x) = (r', x')" by fastforce
  moreover from this Cons.prems have "wasRefused r'"
    by (auto simp: proxyStep_def refusalOps_def refusalWrite_def refusalFlush_def refusalWriteHeader_def
        modifyHeader_def proxyErrorHandler_def MarkClientClosed_def ResponseStarted_def Let_def
        split: prod.splits proxyEvent.splits if_splits)
  ultimately show ?case using Cons.IH[of r' x'] by (simp add: proxyRun_Cons)
qed (simp add: proxyRun_def)

lemma passing_step:
  assumes "statusMarker V = None" "\<not> wasRefused r"
    and "proxyStep (refusalOps V) (\<lambda>(r, x). (r, c x)) gone ev (r, x) = (r', x')" "\<not> wasRefused r'"
  shows "x' = proxyStep V c gone ev x"
  using assms
  by (auto simp: proxyStep_def refusalOps_def refusalWrite_def refusalFlush_def refusalWriteHeader_def
      modifyHeader_def proxyErrorHandler_def MarkClientClosed_def ResponseStarted_def Let_def
      split: prod.splits proxyEvent.splits if_splits)

lemma passing_run:
  assumes "statusMarker V = None" "\<not> wasRefused r"
    and "proxyRun (refusalOps V) (\<lambda>(r, x). (r, c x)) gone evs (r, x) = (r', x')" "\<not> wasRefused r'"
  shows "x' = proxyRun V c gone evs x"
  using assms(2-)
proof (induction evs arbitrary: r x)
  case (Cons ev evs)
  obtain r1 x1 where 1: "proxyStep (refusalOps V) (\<lambda>(r, x). (r, c x)) gone ev (r, x) = (r1, x1)" by fastforce
  have "\<not> wasRefused r1"
    using refused_stays[of r1 V c gone evs x1] Cons.prems(2,3) 1 by (auto simp: proxyRun_Cons)
  then show ?case
    using Cons.IH[of r1 x1] passing_step[OF assms(1) Cons.prems(1) 1] Cons.prems(2,3) 1 by (simp add: proxyRun_Cons)
qed (simp add: proxyRun_def)

text \<open>A body refuses nothing.\<close>

lemma body_refuses_nothing:
  "\<not> wasRefused r \<Longrightarrow> list_all (bodyEvent \<circ> snd) evs \<Longrightarrow>
     \<not> wasRefused (fst (proxyRun (refusalOps V) (\<lambda>(r, x). (r, c x)) gone evs (r, x)))"
proof (induction evs arbitrary: r x)
  case (Cons ev evs)
  obtain io e where ev: "ev = (io, e)" by (cases ev)
  obtain r1 x1 where 1: "proxyStep (refusalOps V) (\<lambda>(r, x). (r, c x)) gone ev (r, x) = (r1, x1)" by fastforce
  have "\<not> wasRefused r1" using 1 Cons.prems ev
    by (cases e) (auto simp: proxyStep_def refusalOps_def refusalWrite_def refusalFlush_def split: prod.splits if_splits)
  then show ?case using Cons 1 ev by (simp add: proxyRun_Cons)
qed (simp add: proxyRun_def)

context header_cell
begin

lemma answer_step:
  assumes "\<not> decided r" "\<not> wasRefused r" "snap r = getHeader W w"
    and "proxyStep (refusalOps (preemptOps W)) setHeldPreempted gone (io, Answer h code) (r, p, w) = (r1, p1, w1)" "wasRefused r1"
  shows "p1 = p \<and> w1 = w"
  using assms(4,5,1-3)
  by (auto simp: proxyStep_def refusalOps_def preemptOps_def refusalWriteHeader_def modifyHeader_def Let_def
      set_set set_get split: if_splits)

lemma unreachable_step:
  "\<not> wasRefused r \<Longrightarrow> \<not> wasRefused (fst (proxyStep (refusalOps V) c gone (io, Unreachable) (r, x)))"
  by (auto simp: proxyStep_def proxyErrorHandler_def MarkClientClosed_def ResponseStarted_def refusalOps_def
      refusalWriteHeader_def retryableRefusal_def Let_def split: if_splits)

lemma refused_run:
  assumes "plainAnswer evs" "\<not> decided r" "\<not> wasRefused r" "snap r = getHeader W w"
    and "proxyRun (refusalOps (preemptOps W)) setHeldPreempted gone evs (r, p, w) = (r', p', w')" "wasRefused r'"
  shows "p' = p\<lparr>preempted := preempted p \<or> cutIn evs\<rparr> \<and> w' = w"
  using assms(1,5)
proof (induction evs arbitrary: p)
  case Nil
  then show ?case using assms(3,6) by (simp add: proxyRun_def)
next
  case (Cons ev evs)
  obtain io e where ev: "ev = (io, e)" by (cases ev)
  obtain r1 p1 w1 where 1: "proxyStep (refusalOps (preemptOps W)) setHeldPreempted gone ev (r, p, w) = (r1, p1, w1)"
    using prod_cases3 by blast
  consider (cut) "e = Cut" | (answer) h code where "e = Answer h code" | (unreachable) "e = Unreachable"
    using Cons.prems(1) ev by (cases e) auto
  then show ?case
  proof cases
    case cut
    then show ?thesis
      using Cons.IH[of "p\<lparr>preempted := True\<rparr>"] Cons.prems ev
      by (simp add: proxyRun_Cons proxyStep_def setPreempted_def cutIn_def)
  next
    case answer
    have b: "list_all (bodyEvent \<circ> snd) evs" using Cons.prems(1) ev answer by simp
    have w: "wasRefused r1"
      using body_refuses_nothing[OF _ b, of r1 "preemptOps W" setPreempted gone "(p1, w1)"] Cons.prems(2) assms(6) 1
      by (auto simp: proxyRun_Cons)
    show ?thesis
      using answer_step[OF assms(2-4) 1[unfolded ev answer] w] held_refused_run[OF w b, of W gone p1 w1] Cons.prems(2) 1 ev answer
      by (simp add: proxyRun_Cons cutIn_def)
  next
    case unreachable
    have b: "list_all (bodyEvent \<circ> snd) evs" using Cons.prems(1) ev unreachable by simp
    have "\<not> wasRefused r1"
      using unreachable_step[OF assms(3), of "preemptOps W" setHeldPreempted gone io "(p, w)"] 1 ev unreachable by simp
    then show ?thesis
      using body_refuses_nothing[OF _ b, of r1 "preemptOps W" setPreempted gone "(p1, w1)"] Cons.prems(2) assms(6) 1
      by (auto simp: proxyRun_Cons)
  qed
qed

lemma held_attempt:
  assumes "plainAnswer evs" "forwardHeld W gone evs f = (r, f')"
  shows "f' = (if wasRefused r then f\<lparr>fwPreempted := fwPreempted f \<or> cutIn evs\<rparr> else forwardOnce W gone evs f)"
proof -
  let ?p = "newPreemptResponseWriter (fwPreempted f) (fwReplay f)"
  let ?r = "newRefusalWriter (preemptOps W) (?p, fwInner f)"
  have r0: "\<not> decided ?r" "\<not> wasRefused ?r" "snap ?r = getHeader W (fwInner f)"
    by (simp_all add: newRefusalWriter_def preemptOps_def)
  obtain r' p' w' where run: "proxyRun (refusalOps (preemptOps W)) setHeldPreempted gone evs (?r, ?p, fwInner f) = (r', p', w')"
    using prod_cases3 by blast
  have f': "r = r'" "f' = \<lparr>fwPreempted = preempted p', fwReplay = replayWanted p', fwInner = w'\<rparr>"
    using assms(2) run by (simp_all add: forwardHeld_def)
  show ?thesis
  proof (cases "wasRefused r'")
    case True
    then show ?thesis using refused_run[OF assms(1) r0 run] f' by (simp add: newPreemptResponseWriter_def)
  next
    case False
    have "statusMarker (preemptOps W) = None" by (simp add: preemptOps_def)
    from passing_run[OF this r0(2) run False, symmetric] show ?thesis using False f' by (simp add: forwardOnce_def case_prod_unfold Let_def)
  qed
qed

lemma forwardLoop_transparent:
  assumes "\<forall>rd\<in>set rds. plainAnswer (rdAnswer rd)" "forwardLoop W gone holdsSlot resendable first spent rds f = Some f'"
  shows "\<exists>k<length rds. f' = forwardOnce W gone (rdAnswer (rds ! k))
      (f\<lparr>fwPreempted := fwPreempted f \<or> list_ex (cutIn \<circ> rdAnswer) (take k rds)\<rparr>)"
  using assms
proof (induction rds arbitrary: first spent f)
  case (Cons rd rds)
  show ?case
  proof (cases "holdsSlot \<and> \<not> spent \<and> refusalHoldArmed resendable first (rdArm rd) (rdSince rd)
      \<and> wasRefused (fst (forwardHeld W gone (rdAnswer rd) f))")
    case True
    obtain r f1 where h: "forwardHeld W gone (rdAnswer rd) f = (r, f1)" by (cases "forwardHeld W gone (rdAnswer rd) f")
    have f1: "f1 = f\<lparr>fwPreempted := fwPreempted f \<or> cutIn (rdAnswer rd)\<rparr>"
      using held_attempt[OF _ h] Cons.prems(1) True h by simp
    obtain first' spent' where l: "forwardLoop W gone holdsSlot resendable first' spent' rds f1 = Some f'"
      using Cons.prems(2) True h by (auto simp: Let_def split: if_splits)
    have "\<forall>rd\<in>set rds. plainAnswer (rdAnswer rd)" using Cons.prems(1) by simp
    from Cons.IH[OF this l] obtain k where k: "k < length rds" "f' = forwardOnce W gone (rdAnswer (rds ! k))
        (f1\<lparr>fwPreempted := fwPreempted f1 \<or> list_ex (cutIn \<circ> rdAnswer) (take k rds)\<rparr>)"
      by blast
    show ?thesis using k f1 by (intro exI[of _ "Suc k"]) (simp add: disj_assoc o_def)
  next
    case False
    obtain r f1 where h: "forwardHeld W gone (rdAnswer rd) f = (r, f1)" by (cases "forwardHeld W gone (rdAnswer rd) f")
    have "f' = forwardOnce W gone (rdAnswer rd) f"
      using held_attempt[OF _ h] Cons.prems False h by (auto simp: Let_def split: if_splits)
    then show ?thesis by (intro exI[of _ 0]) simp
  qed
qed simp

end

section \<open>The hold ends\<close>

text \<open>Clocks: a round's wait is measured before it, a fired timer has run its time, rounds follow each other.\<close>

fun roundsInOrder :: "gotime \<Rightarrow> forwardRound list \<Rightarrow> bool" where
  "roundsInOrder t [] = True"
| "roundsInOrder t (rd # rds) \<longleftrightarrow>
     t \<le> rdArm rd \<and> rdArm rd \<le> rdRefused rd \<and> (rdWake rd = TimerFired \<longrightarrow> rdRefused rd + refusalRetryMin \<le> rdAfter rd)
     \<and> rdRefused rd \<le> rdAfter rd \<and> roundsInOrder (rdAfter rd) rds"

lemma refusalWait_within: "refusalRetryMin \<le> refusalWait v \<and> refusalWait v \<le> refusalRetryMax"
  by (simp add: refusalWait_def Let_def refusalRetryMin_def refusalRetryMax_def refusalRetryDefault_def)

lemma forwardLoop_spent: "rds \<noteq> [] \<Longrightarrow> spent \<Longrightarrow> forwardLoop W gone holdsSlot resendable first spent rds f \<noteq> None"
  by (cases rds) auto

lemma forwardLoop_ends:
  assumes "roundsInOrder t rds" "t0 + refusalRetryMin * int k \<le> t" "k \<le> 240" "k + length rds > 240"
  shows "forwardLoop W gone holdsSlot resendable (Some t0) spent rds f \<noteq> None"
  using assms
proof (induction rds arbitrary: t k spent f)
  case (Cons rd rds)
  show ?case
  proof (cases "holdsSlot \<and> \<not> spent \<and> refusalHoldArmed resendable (Some t0) (rdArm rd) (rdSince rd)
      \<and> wasRefused (fst (forwardHeld W gone (rdAnswer rd) f))")
    case False
    then show ?thesis by (auto split: prod.splits)
  next
    case True
    obtain r f1 where h: "forwardHeld W gone (rdAnswer rd) f = (r, f1)" by (cases "forwardHeld W gone (rdAnswer rd) f")
    have "rdArm rd - t0 < refusalRetryBudget" using True by (auto simp: refusalHoldArmed_def split: if_splits)
    then have k: "k < 240"
      using Cons.prems(1,2) by (simp add: refusalRetryMin_def refusalRetryBudget_def)
    define spent' where "spent' = (rdWake rd \<noteq> TimerFired \<or> rdAfter rd - t0 \<ge> refusalRetryBudget \<or> \<not> rdBody rd)"
    have l: "forwardLoop W gone holdsSlot resendable (Some t0) spent (rd # rds) f =
        forwardLoop W gone holdsSlot resendable (Some t0) spent' rds f1"
      using True h by (simp add: spent'_def Let_def)
    show ?thesis
    proof (cases spent')
      case True
      moreover have "rds \<noteq> []" using k Cons.prems(4) by auto
      ultimately show ?thesis unfolding l by (intro forwardLoop_spent)
    next
      case False
      have "t0 + refusalRetryMin * int (Suc k) \<le> rdAfter rd"
        using Cons.prems(1,2) False by (simp add: spent'_def distrib_left)
      then show ?thesis unfolding l using Cons.IH[of "rdAfter rd" "Suc k" spent' f1] Cons.prems(1,4) k by auto
    qed
  qed
qed simp

lemma forwardGrant_ends:
  assumes "roundsInOrder t rds" "length rds \<ge> 241"
  shows "forwardGrant W gone holdsSlot resendable rds f \<noteq> None"
proof -
  obtain rd rds' where rds: "rds = rd # rds'" using assms(2) by (cases rds) auto
  show ?thesis
  proof (cases "holdsSlot \<and> refusalHoldArmed resendable None (rdArm rd) (rdSince rd)
      \<and> wasRefused (fst (forwardHeld W gone (rdAnswer rd) f))")
    case False
    then show ?thesis unfolding rds forwardGrant_def by (auto split: prod.splits)
  next
    case True
    obtain r f1 where h: "forwardHeld W gone (rdAnswer rd) f = (r, f1)" by (cases "forwardHeld W gone (rdAnswer rd) f")
    define spent' where "spent' = (rdWake rd \<noteq> TimerFired \<or> rdAfter rd - rdRefused rd \<ge> refusalRetryBudget \<or> \<not> rdBody rd)"
    have l: "forwardGrant W gone holdsSlot resendable rds f =
        forwardLoop W gone holdsSlot resendable (Some (rdRefused rd)) spent' rds' f1"
      using True h by (simp add: forwardGrant_def rds spent'_def Let_def)
    show ?thesis
    proof (cases spent')
      case True
      moreover have "rds' \<noteq> []" using assms(2) rds by auto
      ultimately show ?thesis unfolding l by (intro forwardLoop_spent)
    next
      case False
      then show ?thesis
        unfolding l using forwardLoop_ends[of "rdAfter rd" rds' "rdRefused rd" 1] assms rds by (simp add: spent'_def)
    qed
  qed
qed

end
