(* ===== verification/RouterStream.thy ===== *)
theory RouterStream
  imports PingWriter Preempt
begin

text \<open>
  The writers of a request as the router stacks them: what a client reads of preempted, refused and replayed
  attempts, and how far the marks of the router reach through the middleware.
\<close>

text \<open>An Anthropic stream of the model routes: the server's writers, the ping writer around them.\<close>

type_synonym routerWriter = "pingWriter \<times> serverWriter"

definition routerOps :: "routerWriter ops" where
  "routerOps = pingOps serverOps"

lemma ping_header_cell: "header_cell W \<Longrightarrow> header_cell (pingOps W)"
  by (erule pair_header_cell) (simp_all add: pingOps_def)

interpretation routerHeader: header_cell routerOps
  unfolding routerOps_def by (intro ping_header_cell serverHeader.header_cell_axioms)

section \<open>Refusals\<close>


lemma roundsInOrder_replicate:
  "rdWake rd \<noteq> TimerFired \<Longrightarrow> rdArm rd = t \<Longrightarrow> rdRefused rd = t \<Longrightarrow> rdAfter rd = t \<Longrightarrow> roundsInOrder t (replicate n rd)"
  by (induction n) auto

definition busyRound :: forwardRound where
  "busyRound = \<lparr>rdArm = 5, rdSince = Some 3, rdAnswer = [(\<lparr>ionow = 5, ioblocked = 0, iofail = None\<rparr>, Answer [(''Retry-After'', [''1''])] 503)],
     rdRefused = 5, rdWake = RequestDone, rdAfter = 5, rdBody = True\<rparr>"

definition freshStream :: "routerWriter forwarded" where
  "freshStream = \<lparr>fwPreempted = False, fwReplay = Some False, fwInner = (newPingWriter 1 True (newPeerStallGuard 0 0), newServerWriter)\<rparr>"


section \<open>Swallowed attempts\<close>

definition connOf :: "serverWriter \<Rightarrow> conn" where
  "connOf w = snd (snd (snd w))"

definition recorderOf :: "serverWriter \<Rightarrow> statusRecorder \<times> conn" where
  "recorderOf w = snd (snd w)"

definition cleanIO :: "gotime \<Rightarrow> io" where
  "cleanIO ts = \<lparr>ionow = ts, ioblocked = 0, iofail = None\<rparr>"

lemmas serverOps_unfold = serverOps_def copierOps_def inflightOps_def recorderOps_def connOps_def
  copierWriteHeader_def copierWrite_def copierFlush_def inflightWriteHeader_def inflightWrite_def inflightFlush_def
  recorderWriteHeader_def recorderWrite_def recorderFlush_def connWriteHeader_def connWrite_def
  newServerWriter_def newBodyCopier_def newInflightResponseWriter_def newStatusRecorder_def newConn_def
  connOf_def recorderOf_def cleanIO_def

lemmas attempt_unfold = forwardOnce_def proxyRun_def proxyStep_def preemptOps_def preemptWriteHeader_def preemptWrite_def
  newPreemptResponseWriter_def modifyHeader_def gateOpen_def

text \<open>While a preempted attempt is being swallowed, nothing but the header map changes.\<close>

context header_cell
begin

lemma swallowed_run:
  assumes "preempted p" "prWroteHeader p" "replayWanted p = Some True"
    and "list_all (\<lambda>ev. bodyEvent (snd ev) \<and> snd ev \<noteq> FlushBody \<and> snd ev \<noteq> Aborted) evs"
  shows "proxyRun (preemptOps W) setPreempted gone evs (p, w) = (p, w)"
  using assms(4)
proof (induction evs)
  case (Cons ev evs)
  obtain io e where ev: "ev = (io, e)" by (cases ev)
  have "proxyStep (preemptOps W) setPreempted gone ev (p, w) = (p, w)"
    using assms(1-3) Cons.prems ev
    by (cases e) (auto simp: proxyStep_def preemptOps_def preemptWrite_def setPreempted_def)
  then show ?case using Cons by (simp add: proxyRun_Cons)
qed (simp add: proxyRun_def)

end

text \<open>A preempted attempt that may be replayed reaches the client as nothing: whatever it answers, as long
  as it does not flush, only the header map has changed, and the router is told to replay.\<close>

theorem swallowed_attempt_unseen:
  assumes "fwPreempted f" "fwReplay f \<noteq> None"
    and "list_all (\<lambda>ev. bodyEvent (snd ev) \<and> snd ev \<noteq> FlushBody \<and> snd ev \<noteq> Aborted) evs"
  shows "forwardOnce routerOps gone ((io, Answer h code) # evs) f =
    f\<lparr>fwReplay := Some True, fwInner := setHeader routerOps (copyHeader (modifyResponse h) (getHeader routerOps (fwInner f))) (fwInner f)\<rparr>"
proof -
  let ?p = "\<lparr>preempted = True, replayWanted = Some True, prWroteHeader = True\<rparr>"
  have "proxyStep (preemptOps routerOps) setPreempted gone (io, Answer h code) (newPreemptResponseWriter (fwPreempted f) (fwReplay f), fwInner f)
      = (?p, setHeader routerOps (copyHeader (modifyResponse h) (getHeader routerOps (fwInner f))) (fwInner f))"
    using assms(1,2) by (simp add: proxyStep_def preemptOps_def preemptWriteHeader_def newPreemptResponseWriter_def modifyHeader_def)
  then show ?thesis
    using routerHeader.swallowed_run[of ?p, OF _ _ _ assms(3)] assms(1)
    by (simp add: forwardOnce_def proxyRun_Cons)
qed

theorem swallowed_attempt_unseen_witness:
  "forwardOnce routerOps False [(cleanIO 7, Answer [(''Content-Type'', [''text/plain''])] 200), (cleanIO 8, Body ''hi'')]
      (freshStream\<lparr>fwPreempted := True\<rparr>) =
    freshStream\<lparr>fwPreempted := True, fwReplay := Some True, fwInner := setHeader routerOps
      (copyHeader (modifyResponse [(''Content-Type'', [''text/plain''])]) (getHeader routerOps (fwInner freshStream))) (fwInner freshStream)\<rparr>"
  using swallowed_attempt_unseen[of "freshStream\<lparr>fwPreempted := True\<rparr>" "[(cleanIO 8, Body ''hi'')]" False "cleanIO 7"
      "[(''Content-Type'', [''text/plain''])]" 200]
  by (simp add: freshStream_def)

definition plainForward :: "bool option \<Rightarrow> bool \<Rightarrow> serverWriter \<Rightarrow> serverWriter forwarded" where
  "plainForward replay pre w = \<lparr>fwPreempted = pre, fwReplay = replay, fwInner = w\<rparr>"

text \<open>But its headers stay in the client's map, where the next attempt adds its own to them, and a flush that
  follows commits a 200 with them, over which the next attempt's status, a refusal say, is lost.\<close>

theorem swallowed_attempt_shows:
  "cstatus (connOf (fwInner (forwardOnce serverOps False [(cleanIO 2, Answer h2 code2)]
      (plainForward None False (fwInner (forwardOnce serverOps False [(cleanIO 1, Answer h1 200), (cleanIO 1, Body b)]
        (plainForward (Some False) True newServerWriter))))))) =
      (if 100 \<le> code2 \<and> code2 \<le> 199 \<and> code2 \<noteq> 101 then None
       else Some (code2, copyHeader (modifyResponse h2) (copyHeader (modifyResponse h1) [])))
   \<and> cstatus (connOf (fwInner (forwardOnce serverOps False [(cleanIO 2, Answer h2 code2)]
      (plainForward None False (fwInner (forwardOnce serverOps False [(cleanIO 1, Answer h1 200), (cleanIO 1, Body b), (cleanIO 1, FlushBody)]
        (plainForward (Some False) True newServerWriter))))))) =
      Some (200, copyHeader (modifyResponse h1) [])"
  by (simp_all add: attempt_unfold plainForward_def serverOps_unfold)

section \<open>A client that hung up\<close>

text \<open>A client that hangs up before an answer is put down as a 502: the router's writer hides the recorders
  from the error handler, which would otherwise mark the request as closed by the client (499), and the mark the
  access log makes in the end then comes too late.\<close>

theorem hung_up_client_logged_as_502:
  "srStatus (fst (fst (MarkClientClosed (recorderOps connOps) True (recorderOf (fwInner
      (forwardOnce serverOps True [(cleanIO t, Unreachable)] (plainForward replay False newServerWriter))))))) = 502
   \<and> srStatus (fst (recorderOf (proxyErrorHandler serverOps True (cleanIO t) newServerWriter))) = 499"
  by (simp add: attempt_unfold plainForward_def proxyErrorHandler_def MarkClientClosed_def ResponseStarted_def
      markInner_def recorderMarkStatus_def StatusClientClosedRequest_def serverOps_unfold)

section \<open>Interim answers\<close>

text \<open>After an interim answer the final status is lost: every recorder takes the first status for the answer,
  so the client reads a 200 and the access log notes the interim status.\<close>

theorem interim_hides_the_answer:
  assumes "100 \<le> i" "i \<le> 199" "i \<noteq> 101"
    and w: "w = fwInner (forwardOnce serverOps False [(cleanIO 1, Interim h0 i), (cleanIO 2, Answer h code), (cleanIO 3, Body b)]
      (plainForward (if replayable then Some False else None) False newServerWriter))"
  shows "map_option fst (cstatus (connOf w)) = Some 200 \<and> srStatus (fst (recorderOf w)) = i"
  using assms(1-3) unfolding w by (simp add: attempt_unfold plainForward_def serverOps_unfold)

theorem interim_hides_the_answer_witness:
  "map_option fst (cstatus (connOf (fwInner (forwardOnce serverOps False
      [(cleanIO 1, Interim [] 100), (cleanIO 2, Answer [] 503), (cleanIO 3, Body ''busy'')] (plainForward None False newServerWriter))))) = Some 200
   \<and> srStatus (fst (recorderOf (fwInner (forwardOnce serverOps False
      [(cleanIO 1, Interim [] 100), (cleanIO 2, Answer [] 503), (cleanIO 3, Body ''busy'')] (plainForward None False newServerWriter))))) = 100"
  using interim_hides_the_answer[of 100, OF _ _ _ refl, of "[]" "[]" 503 "''busy''" False] by simp

section \<open>Marks and deadlines\<close>


end
