(* ===== verification/PingSafety.thy ===== *)
theory PingSafety
  imports RouterStream
begin

text \<open>
  What a client reads of a kept-alive stream: the upstream's bytes with pings between its events and at most one
  error event, the last thing of all; and of a replayed request one message only.
\<close>

section \<open>Writers that pass their bytes on\<close>

locale byte_sink =
  fixes W :: "'w ops" and body :: "'w \<Rightarrow> string"
  assumes wrote: "iofail io = None \<Longrightarrow> fst (Write W io b w) = w' \<Longrightarrow> body w' = body w @ b"
    and written: "iofail io = None \<Longrightarrow> snd (Write W io b w) = (length b, None)"
    and write_header: "body (WriteHeader W io code w) = body w"
    and flush: "body (Flush W io w) = body w"
    and set_header: "body (setHeader W h w) = body w"
    and mark: "body (MarkTermination W r w) = body w"

lemma conn_sink: "byte_sink connOps cbody"
  by unfold_locales (auto simp: connOps_def connWrite_def connWriteHeader_def Let_def)

lemma recorder_sink: "byte_sink W body \<Longrightarrow> byte_sink (recorderOps W) (body \<circ> snd)"
  by (auto simp: byte_sink_def recorderOps_def recorderWrite_def recorderWriteHeader_def recorderFlush_def
      recorderMarkTermination_def case_prod_unfold)

lemma inflight_sink: "byte_sink W body \<Longrightarrow> byte_sink (inflightOps W) (body \<circ> snd)"
  by (auto simp: byte_sink_def inflightOps_def inflightWrite_def inflightWriteHeader_def inflightFlush_def case_prod_unfold)

lemma copier_sink: "byte_sink W body \<Longrightarrow> byte_sink (copierOps W) (body \<circ> snd)"
  by (auto simp: byte_sink_def copierOps_def copierWrite_def copierWriteHeader_def copierFlush_def case_prod_unfold)

interpretation server: byte_sink serverOps "cbody \<circ> snd \<circ> snd \<circ> snd"
  unfolding serverOps_def by (intro copier_sink inflight_sink recorder_sink conn_sink)

section \<open>Calls of a stream\<close>

datatype streamEvent = SHeader nat | SWrite string | SFlush | STick | SGranted | SAllow | SPrefillCut duration | SStop | SAttempt nat

fun streamStep :: "'w ops \<Rightarrow> io \<Rightarrow> streamEvent \<Rightarrow> pingWriter \<times> 'w \<Rightarrow> pingWriter \<times> 'w" where
  "streamStep W io (SHeader code) x = pingWriteHeader W io code x"
| "streamStep W io (SWrite p) x = fst (pingWrite W io p x)"
| "streamStep W io SFlush x = pingFlush W io x"
| "streamStep W io STick x = fst (tryPing W io x)"
| "streamStep W io SGranted (pw, w) = (slotGranted (ionow io) pw, w)"
| "streamStep W io SAllow (pw, w) = (allowPings pw, w)"
| "streamStep W io (SPrefillCut d) x = fst (prefillStallCut W io d x)"
| "streamStep W io SStop (pw, w) = (stopPing pw, w)"
| "streamStep W io (SAttempt fn) (pw, w) = (pw\<lparr>stall := setCancel fn (stall pw)\<rparr>, w)"

definition isWriteEvent :: "streamEvent \<Rightarrow> bool" where
  "isWriteEvent ev = (case ev of SWrite p \<Rightarrow> True | _ \<Rightarrow> False)"

text \<open>A stream so far: the pieces the client was sent, each with whether the upstream wrote it.\<close>

inductive streamed :: "'w ops \<Rightarrow> ('w \<Rightarrow> string) \<Rightarrow> (bool \<times> string) list \<Rightarrow> pingWriter \<Rightarrow> 'w \<Rightarrow> bool"
  for W body where
  start: "body w = [] \<Longrightarrow> streamed W body [] (newPingWriter t allow g) w"
| step: "streamed W body log pw w \<Longrightarrow> iofail io = None \<Longrightarrow> streamStep W io ev (pw, w) = (pw', w') \<Longrightarrow>
    body w' = body w @ d \<Longrightarrow> streamed W body (if d = [] then log else log @ [(isWriteEvent ev, d)]) pw' w'"

definition upstreamOf :: "(bool \<times> string) list \<Rightarrow> string" where
  "upstreamOf log = concat (map snd (filter fst log))"

definition sameText :: "pingWriter \<Rightarrow> pingWriter \<Rightarrow> bool" where
  "sameText pw pw' \<longleftrightarrow> pwTail pw' = pwTail pw \<and> wroteBody pw' = wroteBody pw"

text \<open>What any call but \<open>Write\<close> may add: nothing, a ping between events, or the error that ends the stream.\<close>

definition ownEffect :: "pingWriter \<Rightarrow> pingWriter \<Rightarrow> string \<Rightarrow> bool" where
  "ownEffect pw pw' d \<longleftrightarrow> sameText pw pw' \<and>
     (d = [] \<and> pwErrored pw' = pwErrored pw
      \<or> d = pingEvent \<and> \<not> pwErrored pw \<and> \<not> pwErrored pw' \<and> (wroteBody pw \<longrightarrow> hasSuffix (pwTail pw) [LF, LF])
      \<or> (\<exists>typ msg. d = errorEvent typ msg) \<and> \<not> pwErrored pw \<and> pwErrored pw')"

context byte_sink
begin

lemma guarded_write:
  assumes "iofail io = None" "guardedWrite W io g (Write W io b) w = (g', w', n, err)"
  shows "body w' = body w @ b \<and> n = length b \<and> err = None"
  using assms wrote[of io b w] written[of io b w] mark
  by (auto simp: guardedWrite_def fire_def split: prod.splits if_splits)

lemma error_effect:
  assumes "iofail io = None" "writeSSEErrorLocked W io typ msg (pw, w) = (pw', w')"
  shows "pw' = pw\<lparr>pwErrored := True\<rparr> \<and> body w' = body w @ errorEvent typ msg"
  using assms by (auto simp: writeSSEErrorLocked_def flush wrote)

lemma commit_effect:
  "commitSSE W io (pw, w) = (pw', w') \<Longrightarrow> body w' = body w \<and> sameText pw pw' \<and> pwErrored pw' = pwErrored pw
    \<and> pwStopped pw' = pwStopped pw \<and> stall pw' = stall pw"
  by (auto simp: commitSSE_def write_header modifyHeader_def set_header sameText_def split: if_splits)

lemma reclaim_effect:
  "reclaim W v (pw, w) = (pw', w') \<Longrightarrow> body w' = body w \<and> sameText pw pw' \<and> pwErrored pw' = pwErrored pw"
  by (auto simp: reclaim_def fire_def mark sameText_def split: if_splits)

lemma guarded_body:
  assumes "guardedWrite W io g fn w = (g', w', r)"
  shows "body w' = body (fst (fn w)) \<and> r = snd (fn w)"
  using assms by (auto simp: guardedWrite_def fire_def mark split: prod.splits if_splits)

lemma send_effect:
  assumes "iofail io = None" "fst (sendPing W io (pw, w)) = (pw', w')"
  shows "body w' = body w @ pingEvent \<and> sameText pw pw' \<and> pwErrored pw' = pwErrored pw"
proof -
  let ?fn = "\<lambda>v. case Write W io pingEvent v of (v', n, err) \<Rightarrow> if err \<noteq> None then (v', n, err) else (Flush W io v', n, None)"
  obtain v0 where v0: "Write W io pingEvent w = (v0, length pingEvent, None)" "body v0 = body w @ pingEvent"
    using wrote[OF assms(1), of pingEvent w] written[OF assms(1), of pingEvent w] by (metis prod.collapse)
  obtain g v r where g: "guardedWrite W io (stall pw) ?fn w = (g, v, r)"
    by (cases "guardedWrite W io (stall pw) ?fn w" rule: prod_cases3)
  have b: "body v = body w @ pingEvent" "snd r = None" using guarded_body[OF g] v0 by (simp_all add: flush)
  obtain n where r: "r = (n, None)" using b(2) by (cases r) simp
  show ?thesis using assms(2) g b(1) unfolding r
    by (simp add: sendPing_def Let_def sameText_def split: if_splits) auto
qed

lemma tick_effect:
  assumes "iofail io = None" "fst (tryPing W io (pw, w)) = (pw', w')"
  shows "\<exists>d. body w' = body w @ d \<and> ownEffect pw pw' d"
proof -
  have quiet: ?thesis if "(pw', w') = (pw, w)" using that by (intro exI[of _ "[]"]) (simp add: ownEffect_def sameText_def)
  have verdict: ?thesis if "(pw', w') = reclaim W v (writeSSEErrorLocked W io et em (pw, w))" "\<not> pwErrored pw" for v et em
  proof -
    obtain pw1 w1 where 1: "writeSSEErrorLocked W io et em (pw, w) = (pw1, w1)" by (cases "writeSSEErrorLocked W io et em (pw, w)")
    show ?thesis
      using error_effect[OF assms(1) 1] reclaim_effect[of v pw1 w1 pw' w'] that 1
      by (intro exI[of _ "errorEvent et em"]) (auto simp: ownEffect_def sameText_def)
  qed
  have ping: ?thesis
    if "(pw', w') = fst (sendPing W io (commitSSE W io (pw, w)))" "\<not> pwErrored pw" "wroteBody pw \<longrightarrow> hasSuffix (pwTail pw) [LF, LF]"
  proof -
    obtain pw1 w1 where 1: "commitSSE W io (pw, w) = (pw1, w1)" by (cases "commitSSE W io (pw, w)")
    show ?thesis
      using commit_effect[OF 1] send_effect[OF assms(1), of pw1 w1 pw' w'] that 1
      by (intro exI[of _ pingEvent]) (auto simp: ownEffect_def sameText_def)
  qed
  show ?thesis
    using assms(2) quiet verdict[of "''zero-output-budget''"] verdict[of "''slot-stalled''"] ping unfolding tryPing_def
    by (simp split: if_splits) metis+
qed

end

text \<open>Where pings stand: after a whole number of the upstream's events, or before all of them.\<close>

definition atBoundary :: "string \<Rightarrow> bool" where
  "atBoundary u \<longleftrightarrow> u = [] \<or> hasSuffix u [LF, LF]"

definition pingsPlaced :: "(bool \<times> string) list \<Rightarrow> bool" where
  "pingsPlaced log \<longleftrightarrow> (\<forall>pre e post. log = pre @ (False, e) # post \<longrightarrow> e = pingEvent \<and> atBoundary (upstreamOf pre))"

definition wellPlaced :: "(bool \<times> string) list \<Rightarrow> bool" where
  "wellPlaced log \<longleftrightarrow> pingsPlaced log \<or> (\<exists>l typ msg. log = l @ [(False, errorEvent typ msg)] \<and> pingsPlaced l)"

lemma pingsPlaced_Nil [simp]: "pingsPlaced []"
  by (simp add: pingsPlaced_def)

lemma pingsPlaced_snoc:
  assumes "pingsPlaced log" "\<not> own \<longrightarrow> e = pingEvent \<and> atBoundary (upstreamOf log)"
  shows "pingsPlaced (log @ [(own, e)])"
  unfolding pingsPlaced_def
proof (intro allI impI)
  fix pre e' post
  assume eq: "log @ [(own, e)] = pre @ (False, e') # post"
  show "e' = pingEvent \<and> atBoundary (upstreamOf pre)"
  proof (cases post rule: rev_cases)
    case Nil
    then show ?thesis using eq assms(2) by simp
  next
    case (snoc p x)
    then have "log = pre @ (False, e') # p" using eq by simp
    then show ?thesis using assms(1) unfolding pingsPlaced_def by blast
  qed
qed

lemma upstreamOf_snoc [simp]: "upstreamOf (log @ [(True, d)]) = upstreamOf log @ d" "upstreamOf (log @ [(False, d)]) = upstreamOf log"
  by (simp_all add: upstreamOf_def)

lemma newTail_lastN: "newTail (lastN 2 u) d = lastN 2 (u @ d)"
  using lastN_lastN[of 2 u d] by (auto simp: newTail_def lastN_def)

lemma lastN_boundary: "hasSuffix (lastN 2 u) [LF, LF] \<Longrightarrow> hasSuffix u [LF, LF]"
  by (cases "length u < 2") (auto simp: hasSuffix_def lastN_def numeral_2_eq_2)

definition streamInv :: "(bool \<times> string) list \<Rightarrow> pingWriter \<Rightarrow> string \<Rightarrow> bool" where
  "streamInv log pw sent \<longleftrightarrow>
     sent = concat (map snd log) \<and> (if pwErrored pw then wellPlaced log else pingsPlaced log \<and> pwTail pw = lastN 2 (upstreamOf log))
     \<and> (\<not> wroteBody pw \<longrightarrow> upstreamOf log = [])"

lemma streamInv_own:
  assumes "streamInv log pw sent" "ownEffect pw pw' d"
  shows "streamInv (if d = [] then log else log @ [(False, d)]) pw' (sent @ d)"
proof -
  note i = assms(1)[unfolded streamInv_def]
  have s: "pwTail pw' = pwTail pw" "wroteBody pw' = wroteBody pw" using assms(2) by (simp_all add: ownEffect_def sameText_def)
  have p: "pingEvent \<noteq> []" "errorEvent t m \<noteq> []" for t m by (simp_all add: pingEvent_def errorEvent_def sseEvent_def)
  consider "d = []" "pwErrored pw' = pwErrored pw"
    | "d = pingEvent" "\<not> pwErrored pw" "\<not> pwErrored pw'" "wroteBody pw \<longrightarrow> hasSuffix (pwTail pw) [LF, LF]"
    | t m where "d = errorEvent t m" "\<not> pwErrored pw" "pwErrored pw'"
    using assms(2) unfolding ownEffect_def by blast
  then show ?thesis
  proof cases
    case 1
    then show ?thesis using i s by (simp add: streamInv_def)
  next
    case 2
    then have "atBoundary (upstreamOf log)" using i lastN_boundary[of "upstreamOf log"] by (auto simp: atBoundary_def)
    then show ?thesis using 2 i s p by (auto simp: streamInv_def intro!: pingsPlaced_snoc)
  next
    case 3
    then have "wellPlaced (log @ [(False, d)])" using i unfolding wellPlaced_def by auto
    then show ?thesis using 3 i s p by (simp add: streamInv_def)
  qed
qed

context byte_sink
begin

lemma write_effect:
  assumes "iofail io = None" "fst (pingWrite W io p (pw, w)) = (pw', w')"
  shows "\<exists>d. body w' = body w @ d \<and> pwErrored pw' = pwErrored pw \<and> wroteBody pw'
    \<and> (if pwErrored pw then d = [] else pwTail pw' = newTail (pwTail pw) d)"
proof -
  obtain pw1 out where n: "noteWrite (ionow io) p pw = (pw1, out)" by (cases "noteWrite (ionow io) p pw")
  have pw1: "pwErrored pw1 = pwErrored pw" "wroteBody pw1" "pwTail pw1 = newTail (pwTail pw) out"
    using n by (auto simp: noteWrite_def split: prod.splits)
  show ?thesis
  proof (cases "pwErrored pw \<or> out = []")
    case True
    then show ?thesis using assms(2) n pw1 by (intro exI[of _ "[]"]) (auto simp: pingWrite_def split: if_splits)
  next
    case False
    obtain g v k e where g: "guardedWrite W io (stall pw1) (Write W io out) w = (g, v, k, e)"
      by (cases "guardedWrite W io (stall pw1) (Write W io out) w" rule: prod_cases4)
    have "pw' = pw1\<lparr>stall := g\<rparr>" "w' = v"
      using assms(2) False pw1(1) by (simp_all add: pingWrite_def n g)
    then show ?thesis using pw1 False guarded_write[OF assms(1) g] by (intro exI[of _ out]) simp
  qed
qed

lemma header_effect:
  assumes "iofail io = None" "pingWriteHeader W io code (pw, w) = (pw', w')"
  shows "\<exists>d. body w' = body w @ d \<and> ownEffect pw pw' d"
proof -
  let ?pw = "pw\<lparr>scan := resetScan (msgStartSent pw)\<rparr>"
  show ?thesis
  proof (cases "\<not> pingsStarted pw \<and> \<not> headersSent pw")
    case True
    then have "pw' = ?pw\<lparr>headersSent := True\<rparr>" "w' = WriteHeader W io code w"
      using assms(2) by (simp_all add: pingWriteHeader_def Let_def)
    then show ?thesis by (intro exI[of _ "[]"]) (simp add: ownEffect_def sameText_def write_header)
  next
    case started: False
    show ?thesis
    proof (cases "code \<ge> 400 \<and> \<not> pwErrored pw")
      case True
      then have "writeSSEErrorLocked W io ''api_error'' (upstreamFailedMessage code) (?pw, w) = (pw', w')"
        using assms(2) started by (auto simp: pingWriteHeader_def Let_def)
      from error_effect[OF assms(1) this] True show ?thesis
        by (intro exI[of _ "errorEvent ''api_error'' (upstreamFailedMessage code)"]) (auto simp: ownEffect_def sameText_def)
    next
      case False
      then have "pw' = ?pw" "w' = w" using assms(2) started by (auto simp: pingWriteHeader_def Let_def)
      then show ?thesis by (intro exI[of _ "[]"]) (simp add: ownEffect_def sameText_def)
    qed
  qed
qed

lemma cut_effect:
  assumes "iofail io = None" "fst (prefillStallCut W io d (pw, w)) = (pw', w')"
  shows "\<exists>d. body w' = body w @ d \<and> ownEffect pw pw' d"
proof (cases "pwStopped pw \<or> pwErrored pw \<or> wroteContent pw")
  case True
  then show ?thesis using assms(2) by (auto simp: prefillStallCut_def ownEffect_def sameText_def)
next
  case False
  obtain pw1 w1 where 1: "commitSSE W io (pw, w) = (pw1, w1)" by (cases "commitSSE W io (pw, w)")
  obtain pw2 w2 where 2: "writeSSEErrorLocked W io ''api_error'' (prefillStallMessage d) (pw1, w1) = (pw2, w2)"
    by (cases "writeSSEErrorLocked W io ''api_error'' (prefillStallMessage d) (pw1, w1)")
  show ?thesis
    using False assms(2) 1 2 commit_effect[OF 1] error_effect[OF assms(1) 2] reclaim_effect[of "''prefill-stalled''" pw2 w2 pw' w']
    by (intro exI[of _ "errorEvent ''api_error'' (prefillStallMessage d)"])
      (auto simp: prefillStallCut_def ownEffect_def sameText_def)
qed

end

context byte_sink
begin

lemma flush_effect:
  "pingFlush W io (pw, w) = (pw', w') \<Longrightarrow> body w' = body w \<and> ownEffect pw pw' []"
  using guarded_body[of io "stall pw" "\<lambda>v. (Flush W io v, 0, None)" w]
  by (auto simp: pingFlush_def flush ownEffect_def sameText_def split: prod.splits)

lemma own_step:
  assumes "iofail io = None" "streamStep W io ev (pw, w) = (pw', w')" "\<not> isWriteEvent ev"
  shows "\<exists>d. body w' = body w @ d \<and> ownEffect pw pw' d"
proof -
  have quiet: ?thesis if "w' = w" "sameText pw pw'" "pwErrored pw' = pwErrored pw"
    using that by (intro exI[of _ "[]"]) (simp add: ownEffect_def)
  show ?thesis
  proof (cases ev)
    case (SHeader code)
    then show ?thesis using header_effect[OF assms(1), of code pw w pw' w'] assms(2) by simp
  next
    case SFlush
    then show ?thesis using flush_effect[of io pw w pw' w'] assms(2) by (intro exI[of _ "[]"]) simp
  next
    case STick
    then show ?thesis using tick_effect[OF assms(1), of pw w pw' w'] assms(2) by simp
  next
    case (SPrefillCut d)
    then show ?thesis using cut_effect[OF assms(1), of d pw w pw' w'] assms(2) by simp
  qed (use assms(2,3) quiet in \<open>auto simp: isWriteEvent_def sameText_def slotGranted_def allowPings_def stopPing_def\<close>)
qed

lemma streamed_inv: "streamed W body log pw w \<Longrightarrow> streamInv log pw (body w)"
proof (induction rule: streamed.induct)
  case (start w t allow g)
  then show ?case by (simp add: streamInv_def newPingWriter_def upstreamOf_def)
next
  case (step log pw w io ev pw' w' d)
  show ?case
  proof (cases "isWriteEvent ev")
    case False
    obtain d' where "body w' = body w @ d'" "ownEffect pw pw' d'" using own_step[OF step.hyps(2,3) False] by blast
    then show ?thesis using streamInv_own[OF step.IH, of pw' d'] step.hyps(4) False by (auto split: if_splits)
  next
    case True
    then obtain p where "fst (pingWrite W io p (pw, w)) = (pw', w')"
      using step.hyps(3) by (auto simp: isWriteEvent_def split: streamEvent.splits)
    from write_effect[OF step.hyps(2) this] have e: "pwErrored pw' = pwErrored pw" "wroteBody pw'"
        "if pwErrored pw then d = [] else pwTail pw' = newTail (pwTail pw) d"
      using step.hyps(4) by auto
    then show ?thesis
      using step.IH step.hyps(4) True newTail_lastN[of "upstreamOf log" d]
      by (auto simp: streamInv_def intro!: pingsPlaced_snoc split: if_splits)
  qed
qed

end


lemma streamed_next:
  "streamed W body log (fst x) (snd x) \<Longrightarrow> iofail io = None \<Longrightarrow> body (snd (streamStep W io ev x)) = body (snd x) @ d \<Longrightarrow>
     streamed W body (if d = [] then log else log @ [(isWriteEvent ev, d)]) (fst (streamStep W io ev x)) (snd (streamStep W io ev x))"
  using streamed.step[of W body log "fst x" "snd x" io ev] by simp

definition sampleStart :: routerWriter where
  "sampleStart = (newPingWriter 1 True (newPeerStallGuard 0 0), newServerWriter)"

definition sampleWritten :: routerWriter where
  "sampleWritten = streamStep serverOps (cleanIO 3) (SWrite (''data: x'' @ [LF, LF])) (streamStep serverOps (cleanIO 2) (SHeader 200) sampleStart)"

definition samplePinged :: routerWriter where
  "samplePinged = streamStep serverOps (cleanIO (60 * Second)) STick sampleWritten"


lemma feed_unfiltered: "\<not> afilter s \<Longrightarrow> fst (snd (feed s p)) = p"
  by (simp add: feed_scan split: prod.splits)

context byte_sink
begin

lemma unfiltered_write:
  assumes "iofail io = None" "\<not> afilter (scan pw)" "\<not> pwErrored pw" "p \<noteq> []" "fst (pingWrite W io p (pw, w)) = (pw', w')"
  shows "body w' = body w @ p \<and> \<not> pwErrored pw' \<and> pwStopped pw' = pwStopped pw \<and> allowed pw' = allowed pw \<and> wroteBody pw'
    \<and> lastBodyWrite pw' = ionow io \<and> slotStart pw' = slotStart pw \<and> gSlotTimeout (stall pw') = gSlotTimeout (stall pw)"
proof -
  obtain pw1 out where n: "noteWrite (ionow io) p pw = (pw1, out)" by (cases "noteWrite (ionow io) p pw")
  have out: "out = p" using n feed_unfiltered[OF assms(2), of p] by (auto simp: noteWrite_def split: prod.splits if_splits)
  have pw1: "pwErrored pw1 = pwErrored pw" "wroteBody pw1" "pwStopped pw1 = pwStopped pw" "allowed pw1 = allowed pw"
      "lastBodyWrite pw1 = ionow io" "slotStart pw1 = slotStart pw" "stall pw1 = stall pw"
    using n by (auto simp: noteWrite_def split: prod.splits)
  obtain g v k e where g: "guardedWrite W io (stall pw1) (Write W io out) w = (g, v, k, e)"
    by (cases "guardedWrite W io (stall pw1) (Write W io out) w" rule: prod_cases4)
  have "gSlotTimeout g = gSlotTimeout (stall pw1)"
    using g by (auto simp: guardedWrite_def fire_def split: prod.splits if_splits)
  moreover have "pw' = pw1\<lparr>stall := g\<rparr>" "w' = v"
    using assms(3-5) pw1(1) out by (simp_all add: pingWrite_def n g[unfolded out])
  ultimately show ?thesis using pw1 assms(3) out guarded_write[OF assms(1) g] by simp
qed

lemma stall_verdict:
  assumes "iofail io = None" "\<not> pwStopped pw" "\<not> pwErrored pw" "allowed pw" "wroteBody pw" "slotStalled (ionow io) pw"
  shows "body (snd (fst (tryPing W io (pw, w)))) = body w @ errorEvent ''api_error'' (slotStallMessage (gSlotTimeout (stall pw)))"
proof -
  let ?m = "slotStallMessage (gSlotTimeout (stall pw))"
  obtain pw1 w1 where 1: "writeSSEErrorLocked W io ''api_error'' ?m (pw, w) = (pw1, w1)"
    by (cases "writeSSEErrorLocked W io ''api_error'' ?m (pw, w)")
  obtain pw2 w2 where 2: "reclaim W ''slot-stalled'' (pw1, w1) = (pw2, w2)" by (cases "reclaim W ''slot-stalled'' (pw1, w1)")
  have "fst (tryPing W io (pw, w)) = (pw2, w2)" using assms 1 2 by (simp add: tryPing_def zeroBudgetSpent_def)
  then show ?thesis using error_effect[OF assms(1) 1] reclaim_effect[OF 2] by simp
qed

end

text \<open>The error event of the slot-stall verdict is put right behind the last byte of the upstream, be it in the
  middle of an event: there is no boundary before it that would let a client's parser see it.\<close>

theorem slot_stall_error_glued:
  "cbody (connOf (snd (streamStep serverOps (cleanIO (181 * Second)) STick
      (streamStep serverOps (cleanIO Second) (SWrite (c # cs))
        (streamStep serverOps (cleanIO 2) SGranted
          (streamStep serverOps (cleanIO 1) (SHeader 200)
            (newPingWriter 1 True (newPeerStallGuard 0 (180 * Second)), newServerWriter))))))) =
   (c # cs) @ errorEvent ''api_error'' (slotStallMessage (180 * Second))"
proof -
  let ?b = "cbody \<circ> snd \<circ> snd \<circ> snd"
  let ?x = "streamStep serverOps (cleanIO 2) SGranted
          (streamStep serverOps (cleanIO 1) (SHeader 200)
            (newPingWriter 1 True (newPeerStallGuard 0 (180 * Second)), newServerWriter))"
  obtain pw w where x: "?x = (pw, w)" by (cases ?x)
  have pw: "\<not> afilter (scan pw)" "\<not> pwErrored pw" "\<not> pwStopped pw" "allowed pw" "slotStart pw = 2" "gSlotTimeout (stall pw) = 180 * Second"
    and w: "?b w = []"
    using x by (auto simp: pingWriteHeader_def newPingWriter_def resetScan_def slotGranted_def newPeerStallGuard_def Let_def serverOps_unfold)
  obtain pw1 w1 where 1: "fst (pingWrite serverOps (cleanIO Second) (c # cs) (pw, w)) = (pw1, w1)"
    by (cases "fst (pingWrite serverOps (cleanIO Second) (c # cs) (pw, w))")
  have io: "iofail (cleanIO t) = None" "ionow (cleanIO t) = t" for t by (simp_all add: cleanIO_def)
  note u = server.unfiltered_write[OF io(1) pw(1,2) _ 1]
  have "slotStalled (ionow (cleanIO (181 * Second))) pw1" using u pw by (simp add: slotStalled_def io)
  then have "?b (snd (fst (tryPing serverOps (cleanIO (181 * Second)) (pw1, w1)))) =
      ?b w1 @ errorEvent ''api_error'' (slotStallMessage (180 * Second))"
    using server.stall_verdict[OF io(1), of pw1 "181 * Second" w1] u pw by simp
  then show ?thesis using u w x 1 by (simp add: connOf_def)
qed

section \<open>One message for a replayed request\<close>

text \<open>The attempts of one request on its stream: each a status and the chunks of its answer.\<close>

fun writeChunks :: "'w ops \<Rightarrow> (io \<times> string) list \<Rightarrow> pingWriter \<times> 'w \<Rightarrow> pingWriter \<times> 'w" where
  "writeChunks W [] x = x"
| "writeChunks W ((io, p) # ps) x = writeChunks W ps (fst (pingWrite W io p x))"

fun runAttempts :: "'w ops \<Rightarrow> (nat \<times> (io \<times> string) list) list \<Rightarrow> pingWriter \<times> 'w \<Rightarrow> pingWriter \<times> 'w" where
  "runAttempts W [] x = x"
| "runAttempts W ((code, ps) # as) x = runAttempts W as (writeChunks W ps (pingWriteHeader W (cleanIO 0) code x))"

text \<open>The frames of the attempts without the \<open>message_start\<close> of each one that follows one that had it.\<close>

fun onceStarted :: "bool \<Rightarrow> frame list list \<Rightarrow> frame list" where
  "onceStarted seen [] = []"
| "onceStarted seen (fs # fss) =
     (if seen then filter (\<lambda>it. \<not> startsMessage it) fs else fs) @ onceStarted (seen \<or> list_ex startsMessage fs) fss"

definition freshWriter :: "pingWriter \<Rightarrow> bool" where
  "freshWriter pw \<longleftrightarrow> \<not> pwErrored pw \<and> \<not> pastAdmission pw"

lemma feed_admDone: "astate s = admDone \<Longrightarrow> feed s p = (s, p, noResult)"
  by (simp add: feed_def)

lemma scanBytes_content: "scanBytes s p = (s', o', r') \<Longrightarrow> astate s' = admDone \<or> \<not> content r'"
proof (induction p arbitrary: s s' o' r')
  case (Cons b p)
  obtain s1 o1 r1 where b: "admByte s b = (s1, o1, r1)" by (cases "admByte s b")
  obtain s2 o2 r2 where p: "scanBytes s1 p = (s2, o2, r2)" by (cases "scanBytes s1 p")
  have "astate s1 = admDone \<or> \<not> content r1"
    using b by (auto simp: admByte_def endScan_def noResult_def split: admState.splits if_splits)
  moreover have "s2 = s1 \<and> r2 = noResult" if "astate s1 = admDone"
    using scanBytes_done[OF that, of p] p by simp
  ultimately show ?case using Cons.IH[OF p] Cons.prems b p by (auto simp: orResult_def noResult_def)
qed (simp add: noResult_def)

context byte_sink
begin

text \<open>The chunks of an attempt go out as the scan of their bytes says.\<close>

lemma chunks_effect:
  assumes "\<forall>(io, p)\<in>set ps. iofail io = None" "\<not> pwErrored pw" "pastAdmission pw \<longrightarrow> astate (scan pw) = admDone"
    and "feedAll (scan pw) (map snd ps) = (s', o', r')" "writeChunks W ps (pw, w) = (pw', w')"
  shows "body w' = body w @ o' \<and> \<not> pwErrored pw' \<and> msgStartSent pw' = (msgStartSent pw \<or> msgStart r')
    \<and> pastAdmission pw' = (pastAdmission pw \<or> content r') \<and> headersSent pw' = headersSent pw"
  using assms
proof (induction ps arbitrary: pw w s' o' r')
  case Nil
  then show ?case by (auto simp: noResult_def)
next
  case (Cons iop ps)
  obtain io p where iop: "iop = (io, p)" by (cases iop)
  have io: "iofail io = None" using Cons.prems(1) iop by auto
  obtain s1 o1 r1 where 1: "feed (scan pw) p = (s1, o1, r1)" by (cases "feed (scan pw) p")
  obtain s2 o2 r2 where 2: "feedAll s1 (map snd ps) = (s2, o2, r2)" by (cases "feedAll s1 (map snd ps)")
  have res: "o' = o1 @ o2" "r' = orResult r1 r2" using Cons.prems(4) 1 2 iop by simp_all
  obtain pw1 out where n: "noteWrite (ionow io) p pw = (pw1, out)" by (cases "noteWrite (ionow io) p pw")
  have k: "pastAdmission pw \<Longrightarrow> s1 = scan pw \<and> o1 = p \<and> r1 = noResult"
    using Cons.prems(3) 1 by (simp add: feed_admDone)
  have out: "out = o1" "scan pw1 = s1" "msgStartSent pw1 = (msgStartSent pw \<or> msgStart r1)"
      "pastAdmission pw1 = (pastAdmission pw \<or> content r1)" "pwErrored pw1 = pwErrored pw" "headersSent pw1 = headersSent pw"
    using n 1 k by (auto simp: noteWrite_def noResult_def split: if_splits)
  have d: "pastAdmission pw1 \<longrightarrow> astate s1 = admDone"
    using 1 k Cons.prems(3) out(4) scanBytes_content[of "scan pw" p]
    by (cases "pastAdmission pw") (auto simp: feed_scan split: prod.splits)
  obtain pw2 w2 where 3: "fst (pingWrite W io p (pw, w)) = (pw2, w2)" by (cases "fst (pingWrite W io p (pw, w))")
  have e: "body w2 = body w @ o1 \<and> (\<exists>g. pw2 = pw1\<lparr>stall := g\<rparr>)"
  proof (cases "o1 = []")
    case True
    then have "pw2 = pw1" "w2 = w" using 3 Cons.prems(2) out n by (simp_all add: pingWrite_def)
    then show ?thesis using True by (auto intro: exI[of _ "stall pw1"])
  next
    case False
    obtain g v j f where g: "guardedWrite W io (stall pw1) (Write W io o1) w = (g, v, j, f)"
      by (cases "guardedWrite W io (stall pw1) (Write W io o1) w" rule: prod_cases4)
    have "pw2 = pw1\<lparr>stall := g\<rparr>" "w2 = v"
      using 3 Cons.prems(2) out False n by (simp_all add: pingWrite_def g)
    then show ?thesis using guarded_write[OF io g] by blast
  qed
  then obtain g where pw2: "pw2 = pw1\<lparr>stall := g\<rparr>" by blast
  have "writeChunks W ps (pw2, w2) = (pw', w')" using Cons.prems(5) 3 iop by simp
  from Cons.IH[OF _ _ _ _ this, of s2 o2 r2] show ?case
    using Cons.prems(1,2) d out pw2 2 e res by (auto simp: orResult_def)
qed

end

context byte_sink
begin

lemma attempt_header:
  assumes "code < 400" "pingWriteHeader W io code (pw, w) = (pw', w')"
  shows "body w' = body w \<and> scan pw' = resetScan (msgStartSent pw) \<and> msgStartSent pw' = msgStartSent pw
    \<and> pwErrored pw' = pwErrored pw \<and> pastAdmission pw' = pastAdmission pw"
  using assms by (auto simp: pingWriteHeader_def Let_def write_header split: if_splits)

lemma admission_attempt:
  assumes "code < 400" "\<forall>(io, p)\<in>set ps. iofail io = None" "concat (map snd ps) = concat (map render fs)"
    and "\<forall>it\<in>set fs. admissible it" "freshWriter pw"
    and "writeChunks W ps (pingWriteHeader W io0 code (pw, w)) = (pw', w')"
  shows "body w' = body w @ concat (map render (if msgStartSent pw then filter (\<lambda>it. \<not> startsMessage it) fs else fs))
    \<and> freshWriter pw' \<and> msgStartSent pw' = (msgStartSent pw \<or> list_ex startsMessage fs)"
proof -
  obtain pw1 w1 where 1: "pingWriteHeader W io0 code (pw, w) = (pw1, w1)" by (cases "pingWriteHeader W io0 code (pw, w)")
  note h = attempt_header[OF assms(1) 1]
  obtain s' where f: "feedAll (scan pw1) (map snd ps) =
      (s', concat (map render (if msgStartSent pw then filter (\<lambda>it. \<not> startsMessage it) fs else fs)),
       noResult\<lparr>msgStart := list_ex startsMessage fs \<and> \<not> msgStartSent pw, dropped := list_ex startsMessage fs \<and> msgStartSent pw\<rparr>)"
    using feed_frames[OF assms(4), of "msgStartSent pw"] h assms(3) by (auto simp: chunks_do_not_matter)
  have "\<not> pwErrored pw1" "pastAdmission pw1 \<longrightarrow> astate (scan pw1) = admDone" using h assms(5) by (simp_all add: freshWriter_def)
  from chunks_effect[OF assms(2) this f, of w1 pw' w'] show ?thesis
    using assms(5,6) h 1 by (auto simp: freshWriter_def noResult_def)
qed

lemma admission_attempts:
  assumes "list_all2 (\<lambda>(code, ps) fs. code < 400 \<and> (\<forall>(io, p)\<in>set ps. iofail io = None)
      \<and> concat (map snd ps) = concat (map render fs) \<and> (\<forall>it\<in>set fs. admissible it)) as fss"
    and "freshWriter pw" "runAttempts W as (pw, w) = (pw', w')"
  shows "body w' = body w @ concat (map render (onceStarted (msgStartSent pw) fss)) \<and> freshWriter pw'
    \<and> msgStartSent pw' = (msgStartSent pw \<or> list_ex (list_ex startsMessage) fss)"
  using assms
proof (induction as fss arbitrary: pw w rule: list_all2_induct)
  case (Cons a as fs fss)
  obtain code ps where a: "a = (code, ps)" by (cases a)
  obtain pw1 w1 where 1: "writeChunks W ps (pingWriteHeader W (cleanIO 0) code (pw, w)) = (pw1, w1)"
    by (cases "writeChunks W ps (pingWriteHeader W (cleanIO 0) code (pw, w))")
  have f: "body w1 = body w @ concat (map render (if msgStartSent pw then filter (\<lambda>it. \<not> startsMessage it) fs else fs))"
      "freshWriter pw1" "msgStartSent pw1 = (msgStartSent pw \<or> list_ex startsMessage fs)"
    using admission_attempt[OF _ _ _ _ Cons.prems(1) 1, of fs] Cons.hyps(1) a by auto
  have "runAttempts W as (pw1, w1) = (pw', w')" using Cons.prems(2) 1 a by simp
  from Cons.IH[OF f(2) this] show ?case using f by (auto simp: f(3))
qed simp

lemma final_attempt:
  assumes "code < 400" "\<forall>(io, p)\<in>set ps. iofail io = None" "concat (map snd ps) = concat (map render fs) @ c"
    and "\<forall>it\<in>set fs. admissible it" "startsContent c" "freshWriter pw"
    and "writeChunks W ps (pingWriteHeader W io0 code (pw, w)) = (pw', w')"
  shows "body w' = body w @ concat (map render (if msgStartSent pw then filter (\<lambda>it. \<not> startsMessage it) fs else fs)) @ c"
proof -
  obtain pw1 w1 where 1: "pingWriteHeader W io0 code (pw, w) = (pw1, w1)" by (cases "pingWriteHeader W io0 code (pw, w)")
  note h = attempt_header[OF assms(1) 1]
  obtain s' r' where f: "feedAll (scan pw1) (map snd ps) =
      (s', concat (map render (if msgStartSent pw then filter (\<lambda>it. \<not> startsMessage it) fs else fs)) @ c, r')"
    using feed_admission[OF assms(4,5), of "msgStartSent pw"] h assms(3) by (auto simp: chunks_do_not_matter)
  have "\<not> pwErrored pw1" "pastAdmission pw1 \<longrightarrow> astate (scan pw1) = admDone" using h assms(6) by (simp_all add: freshWriter_def)
  from chunks_effect[OF assms(2) this f, of w1 pw' w'] show ?thesis using assms(7) h 1 by simp
qed

end

lemma runAttempts_append: "runAttempts W (as @ bs) x = runAttempts W bs (runAttempts W as x)"
proof (induction as arbitrary: x)
  case (Cons a as)
  then show ?case by (cases a) simp
qed simp

lemma onceStarted_append: "onceStarted f (fss @ gss) = onceStarted f fss @ onceStarted (f \<or> list_ex (list_ex startsMessage) fss) gss"
  by (induction fss arbitrary: f) (auto simp: disj_assoc)

lemma onceStarted_single:
  "\<forall>fs\<in>set fss. length (filter startsMessage fs) \<le> 1 \<Longrightarrow> length (filter startsMessage (onceStarted f fss)) \<le> (if f then 0 else 1)"
proof (induction fss arbitrary: f)
  case (Cons fs fss)
  have e: "\<not> list_ex startsMessage fs \<Longrightarrow> filter startsMessage fs = []" by (auto simp: list_ex_iff filter_empty_conv)
  have "length (filter startsMessage (onceStarted (f \<or> list_ex startsMessage fs) fss)) \<le> (if f \<or> list_ex startsMessage fs then 0 else 1)"
    using Cons by simp
  then show ?case using Cons.prems e by (cases f; cases "list_ex startsMessage fs") auto
qed simp

text \<open>C28. However often a request is cut and replayed while the client has read only admission frames, and however
  the answers are chunked: the client reads the frames of all attempts in order, then the content of the last,
  and of the \<open>message_start\<close> frames only those of the first attempt that had one.\<close>

theorem replays_continue_one_message:
  assumes "list_all2 (\<lambda>(code, ps) fs. code < 400 \<and> (\<forall>(io, p)\<in>set ps. iofail io = None)
      \<and> concat (map snd ps) = concat (map render fs) \<and> (\<forall>it\<in>set fs. admissible it)) as fss"
    and "code < 400" "\<forall>(io, p)\<in>set ps. iofail io = None" "concat (map snd ps) = concat (map render fs) @ c"
    and "\<forall>it\<in>set fs. admissible it" "startsContent c"
    and "\<forall>gs\<in>set (fss @ [fs]). length (filter startsMessage gs) \<le> 1"
  shows "cbody (connOf (snd (runAttempts serverOps (as @ [(code, ps)]) (newPingWriter t allow g, w)))) =
      cbody (connOf w) @ concat (map render (onceStarted False (fss @ [fs]))) @ c
    \<and> length (filter startsMessage (onceStarted False (fss @ [fs]))) \<le> 1"
proof -
  let ?pw = "newPingWriter t allow g"
  have fr: "freshWriter ?pw" "\<not> msgStartSent ?pw" by (simp_all add: freshWriter_def newPingWriter_def)
  obtain pw1 w1 where 1: "runAttempts serverOps as (?pw, w) = (pw1, w1)" by (cases "runAttempts serverOps as (?pw, w)")
  note a = server.admission_attempts[OF assms(1) fr(1) 1]
  obtain pw2 w2 where 2: "writeChunks serverOps ps (pingWriteHeader serverOps (cleanIO 0) code (pw1, w1)) = (pw2, w2)"
    by (cases "writeChunks serverOps ps (pingWriteHeader serverOps (cleanIO 0) code (pw1, w1))")
  note b = server.final_attempt[OF assms(2-6) _ 2]
  show ?thesis
    using a b fr(2) 1 2 onceStarted_single[OF assms(7), of False]
    by (simp add: runAttempts_append onceStarted_append connOf_def)
qed

theorem replays_continue_one_message_witness:
  "cbody (connOf (snd (runAttempts serverOps
      [(200, [(cleanIO 1, ''event: message_start'' @ [LF]), (cleanIO 2, ''data: 1'' @ [LF, LF])]),
       (200, [(cleanIO 3, ''event: message_start'' @ [LF] @ ''data: 2'' @ [LF, LF] @ ''data: x'')])]
      (newPingWriter 1 True (newPeerStallGuard 0 0), newServerWriter)))) =
    cbody (connOf newServerWriter) @ (''event: message_start'' @ [LF] @ ''data: 1'' @ [LF, LF]) @ ''data: x''"
proof -
  let ?fs = "[FEvent ''event: message_start'' [''data: 1''] []]" and ?gs = "[FEvent ''event: message_start'' [''data: 2''] []]"
  have n: "eventName ''event: message_start'' = ''message_start''" by code_simp
  have a: "\<forall>it\<in>set ?fs. admissible it" "\<forall>it\<in>set ?gs. admissible it" by (simp_all add: n plainLine_def admLineCap_def)
  have c: "startsContent ''data: x''" by (simp add: startsContent_def)
  have io: "iofail (cleanIO t) = None" for t by (simp add: cleanIO_def)
  have "concat (map render (onceStarted False ([?fs] @ [?gs]))) = ''event: message_start'' @ [LF] @ ''data: 1'' @ [LF, LF]"
    by (simp add: n)
  then show ?thesis
    using replays_continue_one_message[of
        "[(200, [(cleanIO 1, ''event: message_start'' @ [LF]), (cleanIO 2, ''data: 1'' @ [LF, LF])])]" "[?fs]" 200
        "[(cleanIO 3, ''event: message_start'' @ [LF] @ ''data: 2'' @ [LF, LF] @ ''data: x'')]" ?gs "''data: x''"
        1 True "newPeerStallGuard 0 0" newServerWriter, OF _ _ _ _ a(2) c] a(1) n io
    by (simp del: runAttempts.simps)
qed

end
