(* ===== verification/LoadingWriter.thy ===== *)
theory LoadingWriter
  imports ResponseWriter
begin

text \<open>
  The loading stream of the OpenAI path, \<open>internal/router/loading.go\<close>: progress texts in the client's event
  stream while a model loads. A text is a list of runes, each its UTF-8 bytes. The goroutine's ticks are calls;
  the remarks and the pauses between them, random in the code, are inputs of a tick. \<open>enc\<close> is \<open>json.Marshal\<close> of
  the message with one reasoning delta.
\<close>

definition loadingPaths :: "string list" where
  "loadingPaths = [''/v1/chat/completions'']"

definition isLoadingPath :: "string \<Rightarrow> bool" where
  "isLoadingPath path = list_ex (hasPrefix path) loadingPaths"

type_synonym runes = "string list"

record loadingWriter =
  hasWritten :: bool
  pendingUpdate :: runes
  released :: bool
  lastRemarkTime :: gotime
  nextRemarkIn :: duration

definition runesOf :: "string \<Rightarrow> runes" where
  "runesOf s = map (\<lambda>c. [c]) s"

text \<open>U+2501, five times.\<close>

definition rule5 :: runes where
  "rule5 = replicate 5 [CHR 0xE2, CHR 0x94, CHR 0x81]"

definition sendData :: "(string \<Rightarrow> string) \<Rightarrow> 'w ops \<Rightarrow> io \<Rightarrow> string \<Rightarrow> loadingWriter \<times> 'w \<Rightarrow> loadingWriter \<times> 'w" where
  "sendData enc W io text x =
     (case x of (s, w) \<Rightarrow>
        if released s then (s, w)
        else (case Write W io (''data: '' @ enc text @ [CHR 10, CHR 10]) w of (w', n, err) \<Rightarrow>
                (s, if err \<noteq> None then w' else Flush W io w')))"

text \<open>\<open>chunkSize\<close> is \<open>max(3, 75/15)\<close>; \<open>open\<close> says whether the request's context still lives at each chunk.\<close>

definition chunkSize :: nat where "chunkSize = 5"

fun sendInline :: "(string \<Rightarrow> string) \<Rightarrow> 'w ops \<Rightarrow> io \<Rightarrow> bool list \<Rightarrow> runes \<Rightarrow> loadingWriter \<times> 'w \<Rightarrow> loadingWriter \<times> 'w" where
  "sendInline enc W io alive [] x = x"
| "sendInline enc W io [] text x = x"
| "sendInline enc W io (a # alive) (r # text) x =
     (if \<not> a then x
      else sendInline enc W io alive (drop chunkSize (r # text)) (sendData enc W io (concat (take chunkSize (r # text))) x))"

definition sendLine :: "(string \<Rightarrow> string) \<Rightarrow> 'w ops \<Rightarrow> io \<Rightarrow> bool list \<Rightarrow> runes \<Rightarrow> loadingWriter \<times> 'w \<Rightarrow> loadingWriter \<times> 'w" where
  "sendLine enc W io alive line x =
     (if line = [] then sendData enc W io [CHR 10] x
      else sendData enc W io [CHR 10] (sendInline enc W io alive line x))"

definition loadingWriteHeader :: "'w ops \<Rightarrow> io \<Rightarrow> nat \<Rightarrow> loadingWriter \<times> 'w \<Rightarrow> loadingWriter \<times> 'w" where
  "loadingWriteHeader W io code x =
     (case x of (s, w) \<Rightarrow> if hasWritten s then (s, w) else (s\<lparr>hasWritten := True\<rparr>, Flush W io (WriteHeader W io code w)))"

definition newLoadingWriter :: "(string \<Rightarrow> string) \<Rightarrow> 'w ops \<Rightarrow> io \<Rightarrow> bool list \<Rightarrow> bool list \<Rightarrow> runes \<Rightarrow> duration \<Rightarrow> 'w \<Rightarrow> loadingWriter \<times> 'w" where
  "newLoadingWriter enc W io alive1 alive2 modelName next w =
     (let s = \<lparr>hasWritten = False, pendingUpdate = [], released = False, lastRemarkTime = zeroTime, nextRemarkIn = next\<rparr>;
          w1 = modifyHeader W (hSet ''Connection'' ''keep-alive'' \<circ> hSet ''Cache-Control'' ''no-cache''
                 \<circ> hSet ''Content-Type'' ''text/event-stream'') w;
          x = loadingWriteHeader W io 200 (s, w1)
      in sendLine enc W io alive2 (runesOf ''llama-swap loading model: '' @ modelName) (sendLine enc W io alive1 rule5 x))"

definition setUpdate :: "runes \<Rightarrow> loadingWriter \<Rightarrow> loadingWriter" where
  "setUpdate msg s = s\<lparr>pendingUpdate := msg\<rparr>"

text \<open>A tick: a pending update, a remark when one is due, or a dot. \<open>remark\<close> and \<open>next\<close> are drawn at random.\<close>

definition loadingTick :: "(string \<Rightarrow> string) \<Rightarrow> 'w ops \<Rightarrow> io \<Rightarrow> bool list \<Rightarrow> runes \<Rightarrow> duration \<Rightarrow> loadingWriter \<times> 'w \<Rightarrow> loadingWriter \<times> 'w" where
  "loadingTick enc W io alive remark next x =
     (let update = pendingUpdate (fst x);
          x0 = (fst x\<lparr>pendingUpdate := []\<rparr>, snd x);
          say = (\<lambda>text. case sendData enc W io '' '' (sendInline enc W io alive text (sendData enc W io [CHR 10] x0)) of
                   (s, w) \<Rightarrow> (s\<lparr>lastRemarkTime := ionow io, nextRemarkIn := next\<rparr>, w))
      in if update \<noteq> [] then say update
         else if ionow io - lastRemarkTime (fst x) \<ge> nextRemarkIn (fst x) then say remark
         else sendData enc W io ''.'' x0)"

text \<open>What the goroutine writes when it is told to end: nothing when the client has gone. \<open>doneText\<close> is the line
  with the seconds taken; \<open>alive\<close> has one list for each of the three lines.\<close>

definition loadingCleanup :: "(string \<Rightarrow> string) \<Rightarrow> 'w ops \<Rightarrow> io \<Rightarrow> bool \<Rightarrow> bool list list \<Rightarrow> runes \<Rightarrow> loadingWriter \<times> 'w \<Rightarrow> loadingWriter \<times> 'w" where
  "loadingCleanup enc W io gone alive doneText x =
     (if gone then x
      else foldl (\<lambda>x (a, line). sendLine enc W io a line x) (sendData enc W io [CHR 10] x)
             (zip alive [doneText, rule5, [[CHR 32]]]))"

definition loadingError :: "(errorEnvelope \<Rightarrow> string) \<Rightarrow> 'w ops \<Rightarrow> io \<Rightarrow> string \<Rightarrow> loadingWriter \<times> 'w \<Rightarrow> loadingWriter \<times> 'w" where
  "loadingError encErr W io err x =
     (case x of (s, w) \<Rightarrow>
        if released s then (s, w)
        else (case Write W io (''data: '' @ encErr (NewErrorEnvelope 500 err '''') @ [CHR 10, CHR 10] @ ''data: [DONE]'' @ [CHR 10, CHR 10]) w of
                (w', n, e) \<Rightarrow> (s, if e \<noteq> None then w' else Flush W io w')))"

definition release :: "loadingWriter \<Rightarrow> loadingWriter" where
  "release s = s\<lparr>released := True\<rparr>"

text \<open>Once released it never touches the writer again.\<close>

lemma sendData_released: "released s \<Longrightarrow> sendData enc W io b (s, w) = (s, w)"
  by (simp add: sendData_def)

lemma sendInline_released: "released s \<Longrightarrow> sendInline enc W io alive rs (s, w) = (s, w)"
  by (induction enc W io alive rs "(s, w)" rule: sendInline.induct) (simp_all add: sendData_released)

lemma sendLine_released: "released s \<Longrightarrow> sendLine enc W io alive line (s, w) = (s, w)"
  by (simp add: sendLine_def sendData_released sendInline_released)

lemma tick_released: "released s \<Longrightarrow> snd (loadingTick enc W io alive remark next (s, w)) = w"
  by (simp add: loadingTick_def Let_def sendData_released sendInline_released)

lemma cleanup_released: "released s \<Longrightarrow> loadingCleanup enc W io gone alive doneText (s, w) = (s, w)"
proof -
  have "foldl (\<lambda>x (a, line). sendLine enc W io a line x) (s, w) ls = (s, w)" if "released s" for ls
    using that by (induction ls) (auto simp: sendLine_released)
  then show "released s \<Longrightarrow> ?thesis" by (simp add: loadingCleanup_def sendData_released)
qed

lemma error_released: "released s \<Longrightarrow> loadingError encErr W io err (s, w) = (s, w)"
  by (simp add: loadingError_def)

end
