(* ===== verification/RequestFlow.thy ===== *)
theory RequestFlow
  imports Complex_Main PingSafety LoadingWriter
begin

text \<open>
  One request in the router: \<open>ServeHTTP\<close> of \<open>internal/router/base.go\<close> with its give-ups, replays and refusals.
  What the goroutine reads from channels, clocks and timers is the script of an attempt; what it does to the
  scheduler and the request's context is a list of effects, and what it writes goes to the modelled writers.
\<close>

section \<open>Give-ups and refusals\<close>

definition parkGiveUpBudget :: duration where "parkGiveUpBudget = maxReplayHeld"
definition deadlineBudget :: duration where "deadlineBudget = maxReplayHeld"
definition defaultPrefillRate :: rat where "defaultPrefillRate = 75"
definition maxReplays :: nat where "maxReplays = 5"

text \<open>The delay of the timer, \<open>None\<close> when there is none.\<close>

definition armParkGiveUp :: "bool \<Rightarrow> bool \<Rightarrow> duration \<Rightarrow> duration option" where
  "armParkGiveUp preemptible committed elapsed =
     (if \<not> preemptible \<or> committed then None
      else Some (let remaining = parkGiveUpBudget - elapsed in if remaining < 0 then 0 else remaining))"

definition laneKeyOf :: "(string, string) gomap \<Rightarrow> string" where
  "laneKeyOf metadata =
     (let get = (\<lambda>k. case map_of metadata k of None \<Rightarrow> '''' | Some v \<Rightarrow> v); sessionID = get ''session_id''; agentID = get ''agent_id''
      in if sessionID = '''' then '''' else if agentID \<noteq> '''' then sessionID @ ''/'' @ agentID else sessionID)"

definition sessionExemptID8 :: "(string, string) gomap \<Rightarrow> string option" where
  "sessionExemptID8 metadata =
     (case map_of metadata ''session_id'' of
        None \<Rightarrow> None
      | Some sessionID \<Rightarrow> if sessionID = '''' then None else Some (take 8 sessionID))"

definition prefillRate :: "rat option \<Rightarrow> rat" where
  "prefillRate configured = (case configured of Some r \<Rightarrow> if r > 0 then r else defaultPrefillRate | None \<Rightarrow> defaultPrefillRate)"

definition isCountTokensPath :: "string \<Rightarrow> bool" where
  "isCountTokensPath p = hasSuffix p ''/count_tokens''"

definition isSlotFreeRequest :: "string \<Rightarrow> string \<Rightarrow> bool" where
  "isSlotFreeRequest method path \<longleftrightarrow> method = ''GET'' \<or> method = ''HEAD'' \<or> isCountTokensPath path"

definition EstimateTokens :: "string \<Rightarrow> nat" where
  "EstimateTokens body = length body div 4"

text \<open>A request as it arrives, with what the configuration says of its model. \<open>qIgnoreWs\<close>: a websocket kept out
  of the scheduler, with its process's readiness, if it has a process.\<close>

record inbound =
  qShuttingDown :: bool
  qFetchErr :: "routeError option"
  qIgnoreWs :: "bool option option"
  qMethod :: string
  qPath :: string
  qAccept :: string
  qUpgrade :: bool
  qStreaming :: bool
  qSendLoading :: bool
  qPreemptible :: bool
  qModel :: string
  qMetadata :: "(string, string) gomap"
  qBody :: string
  qRate :: "rat option"
  qStall :: duration
  qSlotStall :: duration
  qName :: string

definition keepaliveArmed :: "inbound \<Rightarrow> bool" where
  "keepaliveArmed q \<longleftrightarrow> qStreaming q \<and> qSendLoading q \<and> isAnthropicStreamPath (qPath q)"

definition IsStatusRead :: "inbound \<Rightarrow> bool" where
  "IsStatusRead q \<longleftrightarrow> (qMethod q = ''GET'' \<or> qMethod q = ''HEAD'') \<and> \<not> qUpgrade q"

definition holdsSlot :: "inbound \<Rightarrow> bool" where
  "holdsSlot q \<longleftrightarrow> \<not> IsStatusRead q \<and> \<not> isSlotFreeRequest (qMethod q) (qPath q)"

definition deadlineRefuse :: "inbound \<Rightarrow> bool \<Rightarrow> duration \<Rightarrow> bool" where
  "deadlineRefuse q committed elapsed =
     (if \<not> qPreemptible q \<or> committed then False
      else if of_nat (EstimateTokens (qBody q)) / prefillRate (qRate q) \<le> of_int (deadlineBudget - elapsed) / of_int Second then False
      else sessionExemptID8 (qMetadata q) = None)"

section \<open>Waiting\<close>

text \<open>What wakes a waiting request, in order. A timer that was not armed, or is spent, does not fire.\<close>

datatype waitEvent = Answered "routeError option" | BudgetOver | ReqDone | RouterDone

datatype waitResult = WAnswer "routeError option" | WGiveUp | WGone | WDown | WWaiting

fun waitFor :: "bool \<Rightarrow> bool \<Rightarrow> waitEvent list \<Rightarrow> waitResult" where
  "waitFor timer exempt [] = WWaiting"
| "waitFor timer exempt (Answered e # evs) = WAnswer e"
| "waitFor timer exempt (ReqDone # evs) = WGone"
| "waitFor timer exempt (RouterDone # evs) = WDown"
| "waitFor timer exempt (BudgetOver # evs) =
     (if \<not> timer then waitFor timer exempt evs
      else if exempt then waitFor False exempt evs
      else WGiveUp)"

section \<open>The writers of a request\<close>

text \<open>The ping writer is there when the keep-alive is armed; otherwise the request writes to the server's writers.\<close>

definition unarmedOps :: "'w ops \<Rightarrow> ('s \<times> 'w) ops" where
  "unarmedOps W = \<lparr>getHeader = getHeader W \<circ> snd, setHeader = (\<lambda>h (s, w). (s, setHeader W h w)),
     WriteHeader = (\<lambda>io code (s, w). (s, WriteHeader W io code w)),
     Write = (\<lambda>io b (s, w). case Write W io b w of (w', r) \<Rightarrow> ((s, w'), r)),
     Flush = (\<lambda>io (s, w). (s, Flush W io w)), deadline = deadline W,
     MarkTermination = (\<lambda>r (s, w). (s, MarkTermination W r w)),
     statusMarker = map_option (\<lambda>(wrote, mark). (\<lambda>(s, w). wrote w, \<lambda>code (s, w). (s, mark code w))) (statusMarker W),
     replayGate = map_option (\<lambda>g (s, w). g w) (replayGate W)\<rparr>"

definition flowOps :: "bool \<Rightarrow> routerWriter ops" where
  "flowOps armed = (if armed then routerOps else unarmedOps serverOps)"

text \<open>The loading stream, from its start to its release, with what its goroutine did in between.\<close>

datatype loadStep = LTick "bool list" runes duration | LUpdate runes | LCleanup bool "bool list list" runes

record loadInput =
  liIO :: io
  liAlive :: "bool list \<times> bool list"
  liNext :: duration
  liSteps :: "(io \<times> loadStep) list"

definition loadingStep :: "(string \<Rightarrow> string) \<Rightarrow> io \<times> loadStep \<Rightarrow> loadingWriter \<times> serverWriter \<Rightarrow> loadingWriter \<times> serverWriter" where
  "loadingStep enc st x =
     (case st of (io, LTick alive remark next) \<Rightarrow> loadingTick enc serverOps io alive remark next x
      | (io, LUpdate msg) \<Rightarrow> (setUpdate msg (fst x), snd x)
      | (io, LCleanup gone alive doneText) \<Rightarrow> loadingCleanup enc serverOps io gone alive doneText x)"

definition loadingRun ::
    "(string \<Rightarrow> string) \<Rightarrow> (errorEnvelope \<Rightarrow> string) \<Rightarrow> string \<Rightarrow> loadInput \<Rightarrow> string option \<Rightarrow> serverWriter \<Rightarrow> serverWriter" where
  "loadingRun enc encErr model li streamErr w =
     (let x = foldl (\<lambda>x st. loadingStep enc st x) (newLoadingWriter enc serverOps (liIO li) (fst (liAlive li)) (snd (liAlive li)) (runesOf model) (liNext li) w) (liSteps li)
      in case streamErr of None \<Rightarrow> snd x | Some err \<Rightarrow> snd (loadingError encErr serverOps (liIO li) err x))"

section \<open>An attempt\<close>

datatype handOver = Taken | HandGone | HandDown

record attemptInput =
  atIO :: io
  atDeadline :: duration
  atEligible :: duration
  atHand :: handOver
  atAdmit :: "waitEvent list"
  atReady :: bool
  atLoading :: loadInput
  atParked :: "(io \<times> streamEvent) list"
  atGrant :: "waitEvent list"
  atCut :: bool
  atGone :: bool
  atResend :: bool
  atRounds :: "forwardRound list"

text \<open>What the attempt does besides writing: hand the request to the scheduler, hear its answer, cancel the
  request's context, give up, prune it from the scheduler, leave with the router.\<close>

datatype flowEffect = Handed nat | Heard nat | CtxCancelled nat | GaveUp nat | Pruned nat | LeftDown nat | Refused nat

record flow =
  flCount :: nat
  flW :: routerWriter
  flEffects :: "flowEffect list"

datatype attemptResult = Finished | Again | Waiting

definition addE :: "flowEffect list \<Rightarrow> flow \<Rightarrow> flow" where
  "addE es fl = fl\<lparr>flEffects := flEffects fl @ es\<rparr>"

definition mapW :: "(routerWriter \<Rightarrow> routerWriter) \<Rightarrow> flow \<Rightarrow> flow" where
  "mapW f fl = fl\<lparr>flW := f (flW fl)\<rparr>"

record params =
  encJSON :: "errorEnvelope \<Rightarrow> string"
  encDelta :: "string \<Rightarrow> string"

definition shutdownText :: "inbound \<Rightarrow> string" where
  "shutdownText q = qName q @ '' is shutting down''"

definition sendErr :: "params \<Rightarrow> inbound \<Rightarrow> io \<Rightarrow> routeError \<Rightarrow> flow \<Rightarrow> flow" where
  "sendErr P q io e = mapW (SendError (encJSON P) (flowOps (keepaliveArmed q)) io (qAccept q) e)"

text \<open>\<open>giveUpParked\<close>: cancel first, then answer, then prune.\<close>

definition giveUpParked :: "inbound \<Rightarrow> io \<Rightarrow> nat \<Rightarrow> flow \<Rightarrow> flow" where
  "giveUpParked q io n fl =
     addE [Pruned n] (addE [GaveUp n] (mapW (writePreemptGiveUp (flowOps (keepaliveArmed q)) io) (addE [CtxCancelled n] fl)))"

fun errText :: "routeError \<Rightarrow> string" where
  "errText ErrNoModelInContext = ''no model in request context''"
| "errText ErrNoRouterFound = ''no router found for model''"
| "errText ErrNoPeerModelFound = ''peer model not found''"
| "errText ErrNoLocalModelFound = ''local model not found''"
| "errText ErrModelNotLoaded = ''model not loaded''"
| "errText (HTTPErr code h body) = ''concurrency limit reached''"
| "errText (OtherErr e) = e"

text \<open>The attempt has its grant: serve it, and see whether it is to be replayed.\<close>

definition attemptGranted :: "inbound \<Rightarrow> attemptInput \<Rightarrow> bool option \<Rightarrow> flow \<Rightarrow> attemptResult \<times> flow" where
  "attemptGranted q ai replay fl =
     (let armed = keepaliveArmed q; W = flowOps armed;
          fl1 = (if armed then mapW (\<lambda>(pw, w). (slotGranted (ionow (atIO ai)) pw, w)) fl else fl)
      in case forwardGrant W (atGone ai) (holdsSlot q) (atResend ai) (atRounds ai)
                \<lparr>fwPreempted = atCut ai, fwReplay = replay, fwInner = flW fl1\<rparr> of
           None \<Rightarrow> (Waiting, fl1)
         | Some f \<Rightarrow>
             (let fl2 = fl1\<lparr>flW := fwInner f\<rparr>; safe = replaySafe (fst (fwInner f));
                  wanted = (fwReplay f = Some True \<or> fwReplay f \<noteq> None \<and> fwPreempted f \<and> armed \<and> safe)
              in if \<not> wanted then (Finished, fl2)
                 else if armed \<and> \<not> safe then (Finished, mapW (WriteHeader W (atIO ai) 503) fl2)
                 else (Again, fl2\<lparr>flCount := flCount fl2 + 1\<rparr>)))"

definition replayEligible :: "inbound \<Rightarrow> attemptInput \<Rightarrow> flow \<Rightarrow> bool" where
  "replayEligible q ai fl \<longleftrightarrow>
     keepaliveArmed q \<and> allowed (fst (flW fl)) \<or> flCount fl < maxReplays \<and> atEligible ai < maxReplayHeld"

text \<open>The stall guard gets the attempt's cancel, and pings go out from when no replay is left.\<close>

definition startAttempt :: "inbound \<Rightarrow> attemptInput \<Rightarrow> flow \<Rightarrow> flow" where
  "startAttempt q ai fl =
     (if keepaliveArmed q then
        mapW (\<lambda>(pw, w). (let pw' = pw\<lparr>stall := setCancel (flCount fl + 1) (stall pw)\<rparr> in
                         if replayEligible q ai fl then pw' else allowPings pw', w)) fl
      else fl)"

definition shouldShowLoading :: "inbound \<Rightarrow> attemptInput \<Rightarrow> nat \<Rightarrow> bool" where
  "shouldShowLoading q ai n \<longleftrightarrow> n = 1 \<and> qStreaming q \<and> qSendLoading q \<and> isLoadingPath (qPath q) \<and> \<not> atReady ai"

definition finishLoading :: "params \<Rightarrow> inbound \<Rightarrow> attemptInput \<Rightarrow> nat \<Rightarrow> string option \<Rightarrow> flow \<Rightarrow> flow" where
  "finishLoading P q ai n err fl =
     (if shouldShowLoading q ai n
      then mapW (\<lambda>(pw, w). (pw, loadingRun (encDelta P) (encJSON P) (qModel q) (atLoading ai) err w)) fl else fl)"

text \<open>While it is parked the pinger writes.\<close>

definition parkWrites :: "inbound \<Rightarrow> attemptInput \<Rightarrow> flow \<Rightarrow> flow" where
  "parkWrites q ai fl =
     (if keepaliveArmed q then mapW (\<lambda>x. foldl (\<lambda>x (io, ev). streamStep serverOps io ev x) x (atParked ai)) fl else fl)"

definition reportError :: "params \<Rightarrow> inbound \<Rightarrow> attemptInput \<Rightarrow> nat \<Rightarrow> routeError \<Rightarrow> flow \<Rightarrow> flow" where
  "reportError P q ai n e fl = (if shouldShowLoading q ai n then fl else sendErr P q (atIO ai) e fl)"

definition parkTimer :: "inbound \<Rightarrow> bool" where
  "parkTimer q \<longleftrightarrow> qPreemptible q \<and> \<not> keepaliveArmed q"

definition sessionExempt :: "inbound \<Rightarrow> bool" where
  "sessionExempt q \<longleftrightarrow> sessionExemptID8 (qMetadata q) \<noteq> None"

definition awaitGrant :: "params \<Rightarrow> inbound \<Rightarrow> attemptInput \<Rightarrow> bool option \<Rightarrow> nat \<Rightarrow> flow \<Rightarrow> attemptResult \<times> flow" where
  "awaitGrant P q ai replay n fl =
     (let fl1 = parkWrites q ai fl; down = OtherErr (shutdownText q) in
      case waitFor (parkTimer q \<and> \<not> shouldShowLoading q ai n) (sessionExempt q) (atGrant ai) of
        WWaiting \<Rightarrow> (Waiting, fl1)
      | WGone \<Rightarrow> (Finished, addE [Pruned n] (finishLoading P q ai n None fl1))
      | WDown \<Rightarrow> (Finished, reportError P q ai n down (addE [LeftDown n] (finishLoading P q ai n (Some (shutdownText q)) fl1)))
      | WGiveUp \<Rightarrow> (Finished, giveUpParked q (atIO ai) n (finishLoading P q ai n None fl1))
      | WAnswer (Some e) \<Rightarrow> (Finished, reportError P q ai n e (addE [Heard n] (finishLoading P q ai n (Some (errText e)) fl1)))
      | WAnswer None \<Rightarrow> attemptGranted q ai replay (addE [Heard n] (finishLoading P q ai n None fl1)))"

definition serveAttempt :: "params \<Rightarrow> inbound \<Rightarrow> attemptInput \<Rightarrow> flow \<Rightarrow> attemptResult \<times> flow" where
  "serveAttempt P q ai fl =
     (let io = atIO ai; n = flCount fl + 1; down = OtherErr (shutdownText q) in
      if deadlineRefuse q (keepaliveArmed q) (atDeadline ai)
      then (Finished, addE [Refused n] (mapW (writePreemptGiveUp (flowOps (keepaliveArmed q)) io) fl))
      else
        let fl1 = startAttempt q ai fl; fl2 = addE [Handed n] fl1 in
        case atHand ai of
          HandGone \<Rightarrow> (Finished, fl1)
        | HandDown \<Rightarrow> (Finished, sendErr P q io down fl1)
        | Taken \<Rightarrow>
            (case waitFor (parkTimer q) (sessionExempt q) (atAdmit ai) of
               WWaiting \<Rightarrow> (Waiting, fl2)
             | WGone \<Rightarrow> (Finished, addE [Pruned n] fl2)
             | WDown \<Rightarrow> (Finished, sendErr P q io down (addE [LeftDown n] fl2))
             | WGiveUp \<Rightarrow> (Finished, giveUpParked q io n fl2)
             | WAnswer (Some e) \<Rightarrow> (Finished, sendErr P q io e (addE [Heard n] fl2))
             | WAnswer None \<Rightarrow> awaitGrant P q ai (if replayEligible q ai fl then Some False else None) n fl2))"

fun serveLoop :: "params \<Rightarrow> inbound \<Rightarrow> attemptInput list \<Rightarrow> flow \<Rightarrow> (attemptResult \<times> flow) option" where
  "serveLoop P q [] fl = None"
| "serveLoop P q (ai # ais) fl =
     (case serveAttempt P q ai fl of
        (Again, fl') \<Rightarrow> serveLoop P q ais fl'
      | r \<Rightarrow> Some r)"

text \<open>The whole handler. The scripts beyond the attempts: the clock and the answer of an ignored websocket's process.\<close>

definition ServeHTTP ::
    "params \<Rightarrow> inbound \<Rightarrow> io \<Rightarrow> (io \<times> proxyEvent) list \<Rightarrow> bool \<Rightarrow> attemptInput list \<Rightarrow> serverWriter \<Rightarrow> (attemptResult \<times> flow) option" where
  "ServeHTTP P q io ws gone ais w =
     (let pw = newPingWriter (ionow io) (\<not> qPreemptible q) (newPeerStallGuard (qStall q) (qSlotStall q));
          done = (\<lambda>w'. Some (Finished, \<lparr>flCount = 0, flW = (pw, w'), flEffects = []\<rparr>));
          sendError = (\<lambda>e. SendError (encJSON P) serverOps io (qAccept q) e w)
      in if qShuttingDown q then done (sendError (OtherErr (shutdownText q)))
         else case qFetchErr q of
           Some e \<Rightarrow> done (sendError e)
         | None \<Rightarrow>
             (case qIgnoreWs q of
                Some None \<Rightarrow> done (sendError ErrNoLocalModelFound)
              | Some (Some False) \<Rightarrow>
                  done (SendResponse (encJSON P) serverOps io (qAccept q) 409
                    (''model '' @ qModel q @ '' is not loaded; ignored websocket requests cannot start it'') w)
              | Some (Some True) \<Rightarrow> done (proxyRun serverOps id gone ws w)
              | None \<Rightarrow>
                  (case serveLoop P q ais \<lparr>flCount = 0, flW = (pw, w), flEffects = []\<rparr> of
                     None \<Rightarrow> None
                   | Some (Finished, fl) \<Rightarrow>
                       Some (Finished, if keepaliveArmed q then mapW (\<lambda>(pw, w). (stopPing pw, w)) fl else fl)
                   | Some r \<Rightarrow> Some r)))"

section \<open>Replays are counted\<close>

text \<open>A predicate every operation of a writer keeps is kept by what the reverse proxy does with it.\<close>

definition kept :: "'w ops \<Rightarrow> ('w \<Rightarrow> 'w) \<Rightarrow> ('w \<Rightarrow> bool) \<Rightarrow> bool" where
  "kept W c I \<longleftrightarrow> statusMarker W = None \<and> (\<forall>w. I w \<longrightarrow> I (c w) \<and> (\<forall>h. I (setHeader W h w)) \<and>
     (\<forall>io code. I (WriteHeader W io code w)) \<and> (\<forall>io b. I (fst (Write W io b w))) \<and> (\<forall>io. I (Flush W io w)))"

lemma kept_run:
  assumes "kept W c I" "I w"
  shows "I (proxyRun W c gone evs w)"
  using assms(2)
proof (induction evs arbitrary: w)
  case (Cons ev evs)
  obtain io e where ev: "ev = (io, e)" by (cases ev)
  have "I (proxyStep W c gone ev w)"
    using Cons.prems assms(1)
    by (cases e) (auto simp: ev proxyStep_def kept_def modifyHeader_def proxyErrorHandler_def MarkClientClosed_def ResponseStarted_def)
  then show ?case using Cons.IH by (simp add: proxyRun_Cons)
qed (simp add: proxyRun_def)

lemma kept_preempt: "kept (preemptOps W) setPreempted (\<lambda>(p, w). replayWanted p = None)"
  by (auto simp: kept_def preemptOps_def preemptWriteHeader_def preemptWrite_def setPreempted_def Let_def
      split: prod.splits if_splits)

lemma kept_refusal:
  assumes "kept V c I"
  shows "kept (refusalOps V) (\<lambda>(r, x). (r, c x)) (\<lambda>(r, x). I x)"
  unfolding kept_def
proof (intro conjI allI impI)
  show "statusMarker (refusalOps V) = None" by (simp add: refusalOps_def)
  fix y :: "refusalWriter \<times> 'a" assume "case y of (r, x) \<Rightarrow> I x"
  then obtain r x where y: "y = (r, x)" "I x" by (cases y) auto
  note k = assms[unfolded kept_def]
  show "case (case y of (r, x) \<Rightarrow> (r, c x)) of (r, x) \<Rightarrow> I x" using y k by auto
  show "case setHeader (refusalOps V) h y of (r, x) \<Rightarrow> I x" for h using y k by (simp add: refusalOps_def)
  show "case WriteHeader (refusalOps V) io code y of (r, x) \<Rightarrow> I x" for io code
    using y k by (simp add: refusalOps_def refusalWriteHeader_def Let_def)
  show "case fst (Write (refusalOps V) io b y) of (r, x) \<Rightarrow> I x" for io b
    using y k by (auto simp: refusalOps_def refusalWrite_def case_prod_unfold)
  show "case Flush (refusalOps V) io y of (r, x) \<Rightarrow> I x" for io
    using y k by (simp add: refusalOps_def refusalFlush_def)
qed

lemma forwardOnce_None: "fwReplay f = None \<Longrightarrow> fwReplay (forwardOnce W gone evs f) = None"
  using kept_run[OF kept_preempt[of W], of "(newPreemptResponseWriter (fwPreempted f) (fwReplay f), fwInner f)" gone evs]
  by (simp add: forwardOnce_def newPreemptResponseWriter_def case_prod_unfold Let_def)

lemma forwardHeld_None: "fwReplay f = None \<Longrightarrow> fwReplay (snd (forwardHeld W gone evs f)) = None"
  using kept_run[OF kept_refusal[OF kept_preempt[of W]],
      of "(newRefusalWriter (preemptOps W) (newPreemptResponseWriter (fwPreempted f) (fwReplay f), fwInner f),
           newPreemptResponseWriter (fwPreempted f) (fwReplay f), fwInner f)" gone evs]
  by (simp add: forwardHeld_def newPreemptResponseWriter_def case_prod_unfold Let_def)

lemma forwardLoop_None:
  "fwReplay f = None \<Longrightarrow> forwardLoop W gone hold resend first spent rds f = Some f' \<Longrightarrow> fwReplay f' = None"
proof (induction rds arbitrary: first spent f)
  case (Cons rd rds)
  obtain r f1 where h: "forwardHeld W gone (rdAnswer rd) f = (r, f1)" by (cases "forwardHeld W gone (rdAnswer rd) f")
  have "fwReplay f1 = None" using forwardHeld_None[OF Cons.prems(1), of W gone "rdAnswer rd"] h by simp
  then show ?case using Cons h forwardOnce_None[OF Cons.prems(1), of W gone "rdAnswer rd"] by (auto simp: Let_def split: if_splits)
qed simp

lemma granted_again:
  assumes "attemptGranted q ai replay fl = (Again, fl')"
  shows "replay \<noteq> None" "flCount fl' = flCount fl + 1" "flEffects fl' = flEffects fl"
proof -
  define fl1 where "fl1 = (if keepaliveArmed q then mapW (\<lambda>(pw, w). (slotGranted (ionow (atIO ai)) pw, w)) fl else fl)"
  have c: "flCount fl1 = flCount fl" "flEffects fl1 = flEffects fl" by (simp_all add: fl1_def mapW_def)
  obtain f where f: "forwardGrant (flowOps (keepaliveArmed q)) (atGone ai) (holdsSlot q) (atResend ai) (atRounds ai)
        \<lparr>fwPreempted = atCut ai, fwReplay = replay, fwInner = flW fl1\<rparr> = Some f"
    and w: "fwReplay f \<noteq> None" and e: "fl' = fl1\<lparr>flW := fwInner f, flCount := flCount fl1 + 1\<rparr>"
    using assms by (auto simp: attemptGranted_def Let_def fl1_def[symmetric] split: option.splits if_splits)
  show "flCount fl' = flCount fl + 1" "flEffects fl' = flEffects fl" using e c by simp_all
  show "replay \<noteq> None"
  proof
    assume "replay = None"
    then show False using w f[unfolded forwardGrant_def]
      by (auto dest!: forwardLoop_None[rotated])
  qed
qed

text \<open>A granted attempt writes and counts; it has no other effect.\<close>

lemma granted_effects: "flEffects (snd (attemptGranted q ai replay fl)) = flEffects fl"
  by (simp add: attemptGranted_def mapW_def Let_def split: option.splits)

lemma flow_parts [simp]:
  "flEffects (mapW f fl) = flEffects fl" "flCount (mapW f fl) = flCount fl"
  "flEffects (addE es fl) = flEffects fl @ es" "flCount (addE es fl) = flCount fl" "flW (addE es fl) = flW fl"
  "flEffects (sendErr P q io e fl) = flEffects fl" "flCount (sendErr P q io e fl) = flCount fl"
  by (simp_all add: mapW_def addE_def sendErr_def)

definition givesUp :: "inbound \<Rightarrow> bool" where
  "givesUp q \<longleftrightarrow> qPreemptible q \<and> \<not> keepaliveArmed q \<and> sessionExemptID8 (qMetadata q) = None"

text \<open>How an attempt leaves the scheduler and the request's context.\<close>

definition attemptSettled :: "inbound \<Rightarrow> nat \<Rightarrow> attemptResult \<Rightarrow> flowEffect list \<Rightarrow> bool" where
  "attemptSettled q n r es =
     (case r of
        Again \<Rightarrow> es = [Handed n, Heard n]
      | Waiting \<Rightarrow> es \<in> {[Handed n], [Handed n, Heard n]}
      | Finished \<Rightarrow> es \<in> {[], [Handed n, Heard n], [Handed n, Pruned n], [Handed n, LeftDown n]}
          \<or> givesUp q \<and> es \<in> {[Refused n], [Handed n, CtxCancelled n, GaveUp n, Pruned n]})"

lemma waitFor_giveUp: "waitFor timer exempt evs = WGiveUp \<Longrightarrow> timer \<and> \<not> exempt"
  by (induction timer exempt evs rule: waitFor.induct) (auto split: if_splits)

lemma refuse_givesUp: "deadlineRefuse q (keepaliveArmed q) d \<Longrightarrow> givesUp q"
  by (auto simp: deadlineRefuse_def givesUp_def split: if_splits)

lemma giveUpParked_effects:
  "flEffects (giveUpParked q io n fl) = flEffects fl @ [CtxCancelled n, GaveUp n, Pruned n]"
  "flCount (giveUpParked q io n fl) = flCount fl"
  by (simp_all add: giveUpParked_def)

lemma stage_parts [simp]:
  "flEffects (startAttempt q ai fl) = flEffects fl" "flCount (startAttempt q ai fl) = flCount fl"
  "flEffects (parkWrites q ai fl) = flEffects fl" "flCount (parkWrites q ai fl) = flCount fl"
  "flEffects (finishLoading P q ai n err fl) = flEffects fl" "flCount (finishLoading P q ai n err fl) = flCount fl"
  "flEffects (reportError P q ai n e fl) = flEffects fl" "flCount (reportError P q ai n e fl) = flCount fl"
  by (simp_all add: startAttempt_def parkWrites_def finishLoading_def reportError_def)

lemma parked_givesUp: "waitFor (parkTimer q \<and> c) (sessionExempt q) evs = WGiveUp \<Longrightarrow> givesUp q"
  using waitFor_giveUp[of "parkTimer q \<and> c" "sessionExempt q" evs] by (simp add: parkTimer_def sessionExempt_def givesUp_def)

definition attemptOutcome :: "inbound \<Rightarrow> flow \<Rightarrow> attemptResult \<Rightarrow> flow \<Rightarrow> bool" where
  "attemptOutcome q fl r fl' \<longleftrightarrow> (\<exists>es. flEffects fl' = flEffects fl @ es \<and> attemptSettled q (flCount fl + 1) r es) \<and>
     flCount fl' = flCount fl + (if r = Again then 1 else 0)"

lemma outcomeI:
  "flEffects fl' = flEffects fl @ es \<Longrightarrow> attemptSettled q (flCount fl + 1) r es \<Longrightarrow>
     flCount fl' = flCount fl + (if r = Again then 1 else 0) \<Longrightarrow> attemptOutcome q fl r fl'"
  by (auto simp: attemptOutcome_def)

lemma granted_outcome:
  assumes "attemptGranted q ai replay fl = (r, fl')"
  shows "flEffects fl' = flEffects fl" "flCount fl' = flCount fl + (if r = Again then 1 else 0)"
    "attemptSettled q n r [Handed n, Heard n]" "r = Again \<Longrightarrow> replay \<noteq> None"
proof -
  show "flEffects fl' = flEffects fl" using granted_effects[of q ai replay fl] assms by simp
  show "flCount fl' = flCount fl + (if r = Again then 1 else 0)"
    using assms by (auto simp: attemptGranted_def Let_def split: option.splits if_splits)
  show "attemptSettled q n r [Handed n, Heard n]" by (cases r) (auto simp: attemptSettled_def)
  show "replay \<noteq> None" if "r = Again" using granted_again[of q ai replay fl fl'] assms that by simp
qed

lemma await_outcome:
  assumes "awaitGrant P q ai replay n fl = (r, fl')"
  shows "(\<exists>es. flEffects fl' = flEffects fl @ es \<and> attemptSettled q n r (Handed n # es)) \<and>
    flCount fl' = flCount fl + (if r = Again then 1 else 0) \<and> (r = Again \<longrightarrow> replay \<noteq> None)"
proof (cases "waitFor (parkTimer q \<and> \<not> shouldShowLoading q ai n) (sessionExempt q) (atGrant ai)")
  case (WAnswer e)
  show ?thesis
  proof (cases e)
    case None
    let ?fl = "addE [Heard n] (finishLoading P q ai n None (parkWrites q ai fl))"
    have s: "attemptGranted q ai replay ?fl = (r, fl')" using assms WAnswer None by (simp add: awaitGrant_def)
    show ?thesis using granted_outcome(1,2,4)[OF s] granted_outcome(3)[OF s, of n] by simp
  next
    case (Some e')
    then show ?thesis using assms WAnswer by (auto simp: awaitGrant_def attemptSettled_def)
  qed
next
  case WGiveUp
  then show ?thesis using assms parked_givesUp[OF WGiveUp] by (auto simp: awaitGrant_def attemptSettled_def giveUpParked_effects)
qed (use assms in \<open>auto simp: awaitGrant_def attemptSettled_def\<close>)

text \<open>Every attempt hands its request over at most once and settles it by itself.\<close>

lemma attempt_outcome:
  assumes "serveAttempt P q ai fl = (r, fl')"
  shows "attemptOutcome q fl r fl'" "r = Again \<Longrightarrow> replayEligible q ai fl"
proof -
  have "attemptOutcome q fl r fl' \<and> (r = Again \<longrightarrow> replayEligible q ai fl)"
  proof (cases "deadlineRefuse q (keepaliveArmed q) (atDeadline ai)")
    case True
    then show ?thesis using assms refuse_givesUp[OF True] by (auto simp: serveAttempt_def Let_def attemptSettled_def attemptOutcome_def)
  next
    case ok: False
    show ?thesis
    proof (cases "atHand ai")
      case Taken
      show ?thesis
      proof (cases "waitFor (parkTimer q) (sessionExempt q) (atAdmit ai)")
        case (WAnswer e)
        show ?thesis
        proof (cases e)
          case None
          let ?replay = "if replayEligible q ai fl then Some False else None" and ?n = "flCount fl + 1"
          have w: "awaitGrant P q ai ?replay ?n (addE [Handed ?n] (startAttempt q ai fl)) = (r, fl')"
            using assms ok Taken WAnswer None by (simp add: serveAttempt_def)
          show ?thesis using await_outcome[OF w] by (auto simp: attemptOutcome_def split: if_splits)
        qed (use assms ok Taken WAnswer in \<open>auto simp: serveAttempt_def attemptSettled_def attemptOutcome_def\<close>)
      next
        case WGiveUp
        then show ?thesis using assms ok Taken parked_givesUp[of q True]
          by (auto simp: serveAttempt_def attemptSettled_def attemptOutcome_def giveUpParked_effects)
      qed (use assms ok Taken in \<open>auto simp: serveAttempt_def attemptSettled_def attemptOutcome_def\<close>)
    qed (use assms ok in \<open>auto simp: serveAttempt_def attemptSettled_def attemptOutcome_def\<close>)
  qed
  then show "attemptOutcome q fl r fl'" "r = Again \<Longrightarrow> replayEligible q ai fl" by auto
qed

section \<open>A request in the router\<close>

text \<open>Before the last attempt each one was handed over and heard its answer.\<close>

definition servedBefore :: "nat \<Rightarrow> nat \<Rightarrow> flowEffect list" where
  "servedBefore c d = concat (map (\<lambda>n. [Handed n, Heard n]) [c + 1..<d + 1])"

lemma servedBefore_step: "c < d \<Longrightarrow> servedBefore c d = Handed (c + 1) # Heard (c + 1) # servedBefore (c + 1) d"
  by (simp add: servedBefore_def upt_conv_Cons)

lemma loop_settled:
  "serveLoop P q ais fl = Some (r, fl') \<Longrightarrow>
     r \<noteq> Again \<and> flCount fl \<le> flCount fl' \<and>
     (\<exists>es. attemptSettled q (flCount fl' + 1) r es \<and> flEffects fl' = flEffects fl @ servedBefore (flCount fl) (flCount fl') @ es)"
proof (induction ais arbitrary: fl)
  case (Cons ai ais)
  obtain r1 fl1 where s: "serveAttempt P q ai fl = (r1, fl1)" by (cases "serveAttempt P q ai fl")
  note o = attempt_outcome(1)[OF s, unfolded attemptOutcome_def]
  show ?case
  proof (cases "r1 = Again")
    case True
    then have l: "serveLoop P q ais fl1 = Some (r, fl')" using Cons.prems s by simp
    have e: "flEffects fl1 = flEffects fl @ [Handed (flCount fl + 1), Heard (flCount fl + 1)]" "flCount fl1 = flCount fl + 1"
      using o True by (auto simp: attemptSettled_def)
    then show ?thesis using Cons.IH[OF l] by (auto simp: servedBefore_step)
  next
    case False
    then have "r = r1" "fl' = fl1" using Cons.prems s by (cases r1; simp)+
    then show ?thesis using o False by (auto simp: servedBefore_def)
  qed
qed simp

lemma loop_bounded:
  assumes "\<not> keepaliveArmed q"
  shows "flCount fl \<le> maxReplays \<Longrightarrow> length ais > maxReplays - flCount fl \<Longrightarrow>
    \<exists>r fl'. serveLoop P q ais fl = Some (r, fl') \<and> flCount fl' \<le> maxReplays"
proof (induction ais arbitrary: fl)
  case (Cons ai ais)
  obtain r1 fl1 where s: "serveAttempt P q ai fl = (r1, fl1)" by (cases "serveAttempt P q ai fl")
  note o = attempt_outcome[OF s]
  show ?case
  proof (cases "r1 = Again")
    case True
    then have "flCount fl1 = flCount fl + 1" "flCount fl < maxReplays"
      using o assms by (auto simp: attemptOutcome_def replayEligible_def)
    then show ?thesis using Cons.IH[of fl1] Cons.prems s True by simp
  next
    case False
    then have "flCount fl1 = flCount fl" using o by (simp add: attemptOutcome_def)
    then show ?thesis using Cons.prems s False by (cases r1) auto
  qed
qed simp

definition handled :: "nat \<Rightarrow> flowEffect list \<Rightarrow> bool" where
  "handled n es \<longleftrightarrow> Heard n \<in> set es \<or> Pruned n \<in> set es \<or> LeftDown n \<in> set es"

lemma ServeHTTP_early:
  assumes "qShuttingDown q \<or> qFetchErr q \<noteq> None \<or> qIgnoreWs q \<noteq> None"
  shows "\<exists>fl. ServeHTTP P q io ws gone ais w = Some (Finished, fl) \<and> flCount fl = 0 \<and> flEffects fl = []"
proof (cases "qShuttingDown q")
  case no: False
  show ?thesis
  proof (cases "qFetchErr q")
    case None
    then obtain p where "qIgnoreWs q = Some p" using assms no by auto
    then show ?thesis using None no by (cases p; cases "p = Some True") (auto simp: ServeHTTP_def Let_def)
  qed (simp add: ServeHTTP_def Let_def no)
qed (simp add: ServeHTTP_def Let_def)

lemma ServeHTTP_loop:
  assumes "\<not> qShuttingDown q" "qFetchErr q = None" "qIgnoreWs q = None"
  shows "ServeHTTP P q io ws gone ais w =
    map_option (\<lambda>(r, fl). (r, if r = Finished \<and> keepaliveArmed q then mapW (\<lambda>(pw, w). (stopPing pw, w)) fl else fl))
      (serveLoop P q ais \<lparr>flCount = 0,
         flW = (newPingWriter (ionow io) (\<not> qPreemptible q) (newPeerStallGuard (qStall q) (qSlotStall q)), w), flEffects = []\<rparr>)"
  unfolding ServeHTTP_def Let_def using assms
  by (simp split: option.splits prod.splits attemptResult.splits)

lemma served_flow:
  assumes "ServeHTTP P q io ws gone ais w = Some (r, fl)"
  shows "r \<noteq> Again \<and> (\<exists>es. attemptSettled q (flCount fl + 1) r es \<and> flEffects fl = servedBefore 0 (flCount fl) @ es)"
proof (cases "qShuttingDown q \<or> qFetchErr q \<noteq> None \<or> qIgnoreWs q \<noteq> None")
  case False
  then obtain fl1 where l: "serveLoop P q ais \<lparr>flCount = 0,
         flW = (newPingWriter (ionow io) (\<not> qPreemptible q) (newPeerStallGuard (qStall q) (qSlotStall q)), w), flEffects = []\<rparr> = Some (r, fl1)"
    and "flCount fl = flCount fl1" "flEffects fl = flEffects fl1"
    using assms by (auto simp: ServeHTTP_loop split: if_splits)
  then show ?thesis using loop_settled[OF l] by simp
next
  case True
  then show ?thesis using ServeHTTP_early[OF True, of P io ws gone ais w] assms by (auto simp: attemptSettled_def servedBefore_def)
qed

lemma giveUp_unarmed:
  "writePreemptGiveUp (unarmedOps W) io x = (fst x, writePreemptGiveUp W io (snd x))"
  by (cases x) (simp add: writePreemptGiveUp_def modifyHeader_def unarmedOps_def case_prod_unfold)

lemma flow_writers [simp]:
  "flW (mapW f fl) = f (flW fl)" "\<not> keepaliveArmed q \<Longrightarrow> startAttempt q ai fl = fl"
  "\<not> keepaliveArmed q \<Longrightarrow> parkWrites q ai fl = fl"
  by (simp_all add: mapW_def startAttempt_def parkWrites_def)

lemma await_given_up:
  assumes "awaitGrant P q ai replay n fl = (r, fl')" "\<not> keepaliveArmed q" "GaveUp n \<in> set (flEffects fl')" "GaveUp n \<notin> set (flEffects fl)"
  shows "flW fl' = (fst (flW fl), writePreemptGiveUp serverOps (atIO ai) (snd (flW fl)))"
proof (cases "waitFor (parkTimer q \<and> \<not> shouldShowLoading q ai n) (sessionExempt q) (atGrant ai)")
  case WGiveUp
  then have "\<not> shouldShowLoading q ai n" using waitFor_giveUp by blast
  then show ?thesis using assms WGiveUp
    by (auto simp: awaitGrant_def giveUpParked_def finishLoading_def flowOps_def giveUp_unarmed)
next
  case (WAnswer e)
  show ?thesis
  proof (cases e)
    case None
    let ?fl = "addE [Heard n] (finishLoading P q ai n None (parkWrites q ai fl))"
    have s: "attemptGranted q ai replay ?fl = (r, fl')" using assms WAnswer None by (simp add: awaitGrant_def)
    then show ?thesis using assms granted_outcome(1)[OF s] by simp
  qed (use assms WAnswer in \<open>auto simp: awaitGrant_def\<close>)
qed (use assms in \<open>auto simp: awaitGrant_def\<close>)

lemma attempt_given_up:
  assumes "serveAttempt P q ai fl = (r, fl')" "\<not> keepaliveArmed q" "flEffects fl = []"
    and "GaveUp n \<in> set (flEffects fl') \<or> Refused n \<in> set (flEffects fl')"
  shows "flW fl' = (fst (flW fl), writePreemptGiveUp serverOps (atIO ai) (snd (flW fl)))"
proof (cases "deadlineRefuse q (keepaliveArmed q) (atDeadline ai)")
  case True
  then show ?thesis using assms by (auto simp: serveAttempt_def Let_def flowOps_def giveUp_unarmed)
next
  case ok: False
  show ?thesis
  proof (cases "atHand ai")
    case Taken
    show ?thesis
    proof (cases "waitFor (parkTimer q) (sessionExempt q) (atAdmit ai)")
      case WGiveUp
      then show ?thesis using assms ok Taken
        by (auto simp: serveAttempt_def Let_def giveUpParked_def flowOps_def giveUp_unarmed)
    next
      case (WAnswer e)
      show ?thesis
      proof (cases e)
        case None
        let ?replay = "if replayEligible q ai fl then Some False else None" and ?n = "flCount fl + 1"
        have w: "awaitGrant P q ai ?replay ?n (addE [Handed ?n] (startAttempt q ai fl)) = (r, fl')"
          using assms ok Taken WAnswer None by (simp add: serveAttempt_def)
        obtain es where "flEffects fl' = Handed ?n # es" "attemptSettled q ?n r (Handed ?n # es)"
          using await_outcome[OF w] assms(3) by auto
        then have "GaveUp ?n \<in> set (flEffects fl')" using assms(4) by (cases r) (auto simp: attemptSettled_def)
        then show ?thesis using await_given_up[OF w assms(2)] assms by simp
      qed (use assms ok Taken WAnswer in \<open>auto simp: serveAttempt_def Let_def\<close>)
    qed (use assms ok Taken in \<open>auto simp: serveAttempt_def Let_def\<close>)
  qed (use assms ok in \<open>auto simp: serveAttempt_def Let_def\<close>)
qed

lemma given_up_answer:
  assumes "writePreemptGiveUp serverOps io newServerWriter = w" "iofail io = None"
  shows "cstatus (connOf w) = Some (503, giveUpHeader [])" "cbody (connOf w) = preemptGiveUpBody"
  unfolding assms(1)[symmetric] using assms(2)
  by (simp_all add: writePreemptGiveUp_def serverOps_unfold modifyHeader_def Let_def)

section \<open>Properties\<close>

text \<open>C23. What \<open>ServeHTTP\<close> does to the scheduler: the attempts before the last were each handed over and heard
  their grant; the last was not handed over, or heard its answer, or was pruned, or left with the router, or the
  request is still waiting. Only a preemptible request without keep-alive and without a session is given up on
  or refused, and a give-up cancels before it answers and prunes after it.\<close>

theorem handed_requests_settled:
  assumes "ServeHTTP P q io ws gone ais w = Some (r, fl)"
  shows "\<exists>es. flEffects fl = servedBefore 0 (flCount fl) @ es \<and> attemptSettled q (flCount fl + 1) r es \<and>
    (r = Finished \<longrightarrow> (\<forall>n. Handed n \<in> set (flEffects fl) \<longrightarrow> handled n (flEffects fl))) \<and>
    (\<forall>n. GaveUp n \<in> set (flEffects fl) \<or> Refused n \<in> set (flEffects fl) \<longrightarrow> n = flCount fl + 1 \<and> givesUp q)"
proof -
  obtain es where e: "attemptSettled q (flCount fl + 1) r es" "flEffects fl = servedBefore 0 (flCount fl) @ es"
    using served_flow[OF assms] by blast
  have b: "x \<in> set (servedBefore 0 (flCount fl)) \<longleftrightarrow> (\<exists>n. 1 \<le> n \<and> n \<le> flCount fl \<and> (x = Handed n \<or> x = Heard n))" for x
    by (auto simp: servedBefore_def)
  have "r = Finished \<longrightarrow> (\<forall>n. Handed n \<in> set (flEffects fl) \<longrightarrow> handled n (flEffects fl))"
    using e by (auto simp: handled_def attemptSettled_def b)
  moreover have "\<forall>n. GaveUp n \<in> set (flEffects fl) \<or> Refused n \<in> set (flEffects fl) \<longrightarrow> n = flCount fl + 1 \<and> givesUp q"
    using e by (cases r) (auto simp: attemptSettled_def b)
  ultimately show ?thesis using e by blast
qed

definition sampleInbound :: inbound where
  "sampleInbound = \<lparr>qShuttingDown = False, qFetchErr = None, qIgnoreWs = None, qMethod = ''POST'',
     qPath = ''/v1/chat/completions'', qAccept = [], qUpgrade = False, qStreaming = False, qSendLoading = False,
     qPreemptible = True, qModel = ''m'', qMetadata = [], qBody = [], qRate = None, qStall = 0, qSlotStall = 0, qName = ''group''\<rparr>"

definition sampleParked :: attemptInput where
  "sampleParked = \<lparr>atIO = cleanIO 271, atDeadline = 0, atEligible = 0, atHand = Taken, atAdmit = [Answered None], atReady = True,
     atLoading = \<lparr>liIO = cleanIO 0, liAlive = ([], []), liNext = 0, liSteps = []\<rparr>, atParked = [], atGrant = [BudgetOver],
     atCut = False, atGone = False, atResend = True, atRounds = []\<rparr>"

definition sampleParams :: params where
  "sampleParams = \<lparr>encJSON = (\<lambda>e. []), encDelta = id\<rparr>"

lemma sampleInbound_facts:
  "\<not> keepaliveArmed sampleInbound" "qPreemptible sampleInbound" "\<not> qShuttingDown sampleInbound" "qFetchErr sampleInbound = None"
  "qIgnoreWs sampleInbound = None" "sessionExemptID8 (qMetadata sampleInbound) = None"
  "\<not> deadlineRefuse sampleInbound False 0"
  by (simp_all add: sampleInbound_def keepaliveArmed_def sessionExemptID8_def deadlineRefuse_def EstimateTokens_def
      prefillRate_def defaultPrefillRate_def deadlineBudget_def maxReplayHeld_def)

lemma sampleParked_run:
  "\<exists>fl. ServeHTTP sampleParams sampleInbound (cleanIO 0) [] False (sampleParked # ais) newServerWriter = Some (Finished, fl) \<and>
     flEffects fl = [Handed 1, CtxCancelled 1, GaveUp 1, Pruned 1] \<and> flCount fl = 0"
  by (simp add: ServeHTTP_loop sampleInbound_facts serveAttempt_def Let_def sampleParked_def awaitGrant_def parkTimer_def
      sessionExempt_def shouldShowLoading_def giveUpParked_effects finishLoading_def
      sampleInbound_facts[unfolded keepaliveArmed_def])

lemma handed_requests_settled_witness:
  "\<exists>fl. ServeHTTP sampleParams sampleInbound (cleanIO 0) [] False [sampleParked] newServerWriter = Some (Finished, fl) \<and>
     GaveUp 1 \<in> set (flEffects fl) \<and> givesUp sampleInbound"
proof -
  obtain fl where f: "ServeHTTP sampleParams sampleInbound (cleanIO 0) [] False [sampleParked] newServerWriter = Some (Finished, fl)"
    "flEffects fl = [Handed 1, CtxCancelled 1, GaveUp 1, Pruned 1]"
    using sampleParked_run by blast
  show ?thesis using handed_requests_settled[OF f(1)] f by auto
qed

text \<open>C24. A request on a fresh connection that is given up on or refused at its first attempt reads the retryable
  503 with its header and body, and nothing else, whatever happened while it waited.\<close>

theorem given_up_reads_503:
  assumes "ServeHTTP P q io ws gone (ai # ais) newServerWriter = Some (r, fl)" "iofail (atIO ai) = None"
    and "GaveUp 1 \<in> set (flEffects fl) \<or> Refused 1 \<in> set (flEffects fl)"
  shows "r = Finished \<and> cstatus (connOf (snd (flW fl))) = Some (503, giveUpHeader []) \<and>
    cbody (connOf (snd (flW fl))) = preemptGiveUpBody"
proof -
  let ?fl = "\<lparr>flCount = 0, flW = (newPingWriter (ionow io) (\<not> qPreemptible q) (newPeerStallGuard (qStall q) (qSlotStall q)),
      newServerWriter), flEffects = []\<rparr>"
  obtain es where e: "attemptSettled q (flCount fl + 1) r es" "flEffects fl = servedBefore 0 (flCount fl) @ es"
    using served_flow[OF assms(1)] by blast
  have c: "flCount fl = 0 \<and> r = Finished \<and> givesUp q"
    using e assms(3) by (cases r) (auto simp: attemptSettled_def servedBefore_def)
  have early: "\<not> qShuttingDown q" "qFetchErr q = None" "qIgnoreWs q = None"
    using ServeHTTP_early[of q P io ws gone "ai # ais" newServerWriter] assms(1,3) by fastforce+
  have l: "serveLoop P q (ai # ais) ?fl = Some (r, fl)"
    using assms(1) c by (auto simp: ServeHTTP_loop early givesUp_def split: if_splits)
  obtain r1 fl1 where s: "serveAttempt P q ai ?fl = (r1, fl1)" by (cases "serveAttempt P q ai ?fl")
  have "r1 \<noteq> Again"
  proof
    assume a: "r1 = Again"
    then have "serveLoop P q ais fl1 = Some (r, fl)" using l s by simp
    then show False using loop_settled attempt_outcome(1)[OF s] a c by (fastforce simp: attemptOutcome_def)
  qed
  then have "r1 = r" "fl1 = fl" using l s by (cases r1; simp)+
  then have w: "flW fl = (fst (flW ?fl), writePreemptGiveUp serverOps (atIO ai) newServerWriter)"
    using attempt_given_up[OF s] c assms(3) by (simp add: givesUp_def)
  show ?thesis using c given_up_answer[OF _ assms(2), of "snd (flW fl)"] w by simp
qed

lemma given_up_reads_503_witness:
  "\<exists>fl. ServeHTTP sampleParams sampleInbound (cleanIO 0) [] False [sampleParked] newServerWriter = Some (Finished, fl) \<and>
     cbody (connOf (snd (flW fl))) = preemptGiveUpBody"
proof -
  obtain fl where f: "ServeHTTP sampleParams sampleInbound (cleanIO 0) [] False [sampleParked] newServerWriter = Some (Finished, fl)"
    "flEffects fl = [Handed 1, CtxCancelled 1, GaveUp 1, Pruned 1]"
    using sampleParked_run by blast
  have "iofail (atIO sampleParked) = None" by (simp add: sampleParked_def cleanIO_def)
  then show ?thesis using given_up_reads_503[OF f(1)] f by simp
qed



end
