(* ===== verification/RouterPins.thy ===== *)
theory RouterPins
  imports Scheduler "HOL-Library.Multiset"
begin

text \<open>
  The rest of \<open>internal/router/base.go\<close>: the pins that keep a model from idle eviction, unloading in rounds, and
  the goroutines that swap and shut down. A pin operation takes the lock for one or two critical sections; what
  other goroutines do between two of them is a parameter, a list of critical sections with their times.
\<close>

section \<open>Pins\<close>

text \<open>A model's deadline, the zero time for a pin without end.\<close>

type_synonym pins = "(string, gotime) gomap"

definition PinWithTTL :: "gotime \<Rightarrow> string \<Rightarrow> duration \<Rightarrow> pins \<Rightarrow> gotime \<times> pins" where
  "PinWithTTL clk modelID ttl pins =
     (let deadline = (if ttl > 0 then clk + ttl else zeroTime) in (deadline, mput modelID deadline pins))"

definition Pin :: "gotime \<Rightarrow> string \<Rightarrow> pins \<Rightarrow> pins" where
  "Pin clk modelID pins = snd (PinWithTTL clk modelID 0 pins)"

definition Unpin :: "string \<Rightarrow> pins \<Rightarrow> pins" where
  "Unpin modelID pins = mdel modelID pins"

definition sweepPin :: "gotime \<Rightarrow> string \<Rightarrow> pins \<Rightarrow> pins" where
  "sweepPin clk modelID pins =
     (case map_of pins modelID of
        Some d \<Rightarrow> if d \<noteq> zeroTime \<and> \<not> clk < d then mdel modelID pins else pins
      | None \<Rightarrow> pins)"

datatype pinOp = OpPin string duration | OpUnpin string | OpSweep string

fun pinStep :: "gotime \<times> pinOp \<Rightarrow> pins \<Rightarrow> pins" where
  "pinStep (clk, OpPin modelID ttl) pins = snd (PinWithTTL clk modelID ttl pins)"
| "pinStep (clk, OpUnpin modelID) pins = Unpin modelID pins"
| "pinStep (clk, OpSweep modelID) pins = sweepPin clk modelID pins"

definition runPins :: "(gotime \<times> pinOp) list \<Rightarrow> pins \<Rightarrow> pins" where
  "runPins ops pins = fold pinStep ops pins"

text \<open>\<open>between\<close>: what others did after the read lock was given back, \<open>clk'\<close>: the time of the sweep.\<close>

definition IsPinned :: "gotime \<Rightarrow> string \<Rightarrow> (gotime \<times> pinOp) list \<Rightarrow> gotime \<Rightarrow> pins \<Rightarrow> bool \<times> pins" where
  "IsPinned clk modelID between clk' pins =
     (case map_of pins modelID of
        None \<Rightarrow> (False, pins)
      | Some deadline \<Rightarrow>
          if deadline = zeroTime \<or> clk < deadline then (True, pins)
          else (False, sweepPin clk' modelID (runPins between pins)))"

definition PinExpiry ::
    "gotime \<Rightarrow> string \<Rightarrow> (gotime \<times> pinOp) list \<Rightarrow> gotime \<Rightarrow> (gotime \<times> pinOp) list \<Rightarrow> pins \<Rightarrow> (gotime \<times> bool) \<times> pins" where
  "PinExpiry clk modelID between clk' between' pins =
     (case IsPinned clk modelID between clk' pins of
        (False, pins') \<Rightarrow> ((zeroTime, False), pins')
      | (True, pins') \<Rightarrow>
          (let pins'' = runPins between' pins'
           in ((case map_of pins'' modelID of None \<Rightarrow> zeroTime | Some d \<Rightarrow> d, True), pins'')))"

text \<open>\<open>wirePinCallbacks\<close>: the idle timer of a process may evict it.\<close>

definition allowIdleEvict :: "gotime \<Rightarrow> string \<Rightarrow> (gotime \<times> pinOp) list \<Rightarrow> gotime \<Rightarrow> pins \<Rightarrow> bool \<times> pins" where
  "allowIdleEvict clk modelID between clk' pins =
     (case IsPinned clk modelID between clk' pins of (pinned, pins') \<Rightarrow> (\<not> pinned, pins'))"

section \<open>Unloading\<close>

record unloadConf =
  ucModels :: "(string, int) gomap"
  ucDefault :: int

definition unloadTimeout :: "unloadConf \<Rightarrow> string \<Rightarrow> duration" where
  "unloadTimeout c modelID =
     (case map_of (ucModels c) modelID of Some t \<Rightarrow> t * Second | None \<Rightarrow> ucDefault c * Second)"

definition unloadBuckets :: "unloadConf \<Rightarrow> string list \<Rightarrow> (duration, string list) gomap" where
  "unloadBuckets c targets =
     foldl (\<lambda>b id. let t = unloadTimeout c id in mput t (mlist b t @ [id]) b) [] targets"

text \<open>The unload requests it sends to the run loop, one after the other.\<close>

definition Unload :: "unloadConf \<Rightarrow> string list \<Rightarrow> duration \<Rightarrow> string list \<Rightarrow> (duration \<times> string list) list" where
  "Unload c procs timeout models =
     (let targets = (if models = [] then procs else models)
      in if targets = [] then []
         else if timeout > 0 then [(timeout, targets)]
         else let buckets = unloadBuckets c targets
              in map (\<lambda>t. (t, mlist buckets t)) (sort (mkeys buckets)))"

section \<open>Swaps and shutdown\<close>

definition healthCheckTimeout :: "int \<Rightarrow> duration" where
  "healthCheckTimeout configured = (let t = configured * Second in if t \<le> 0 then 30 * Second else t)"

text \<open>What a goroutine does, in order; \<open>PStop\<close>: stops in parallel, waited for.\<close>

datatype routerAct =
    PStop "string list" duration
  | HoldWait string
  | PEnsureReady string duration
  | SendSwapDone string "sched_error option"
  | CancelRequests
  | SchedulerShutdown string
  | CancelProcesses
  | ShutdownDone

text \<open>\<open>doSwap\<close>: \<open>ready\<close>, the state it reads after the evictions, \<open>hold\<close>, how the wait at the memory gate ended,
  \<open>ensure\<close>, how the start ended, \<open>down\<close>, whether the router went down first.\<close>

definition doSwap ::
    "int \<Rightarrow> string \<Rightarrow> string list \<Rightarrow> bool \<Rightarrow> sched_error option \<Rightarrow> sched_error option \<Rightarrow> bool \<Rightarrow> routerAct list" where
  "doSwap health modelID toStop ready hold ensure down =
     (let timeout = healthCheckTimeout health;
          err0 = (if ready then None else hold);
          err = (if err0 = None then ensure else err0)
      in [PStop toStop timeout] @ (if ready then [] else [HoldWait modelID])
         @ (if err0 = None then [PEnsureReady modelID timeout] else [])
         @ (if down then [] else [SendSwapDone modelID err]))"

definition handleShutdown :: "int \<Rightarrow> string \<Rightarrow> string list \<Rightarrow> duration \<Rightarrow> routerAct list" where
  "handleShutdown health name procs timeout =
     [CancelRequests, SchedulerShutdown (name @ '' is shutting down''),
      PStop procs (if timeout \<le> 0 then healthCheckTimeout health else timeout), CancelProcesses, ShutdownDone]"

text \<open>\<open>Shutdown\<close>: the first caller shuts down, every other is told so. \<open>over\<close>: the run loop has ended.\<close>

definition Shutdown :: "string \<Rightarrow> bool \<Rightarrow> bool \<Rightarrow> bool \<times> string option \<times> bool" where
  "Shutdown name over shuttingDown =
     (if shuttingDown then (True, Some (name @ '' shutdown already in progress''), False)
      else (True, None, \<not> over))"

text \<open>The tick of the run loop: one second when some hold or grace can only end by the clock.\<close>

record tickConf =
  tcGraces :: "int list"
  tcLoopGuard :: bool
  tcPools :: "int list"
  tcUnloadAfter :: "int list"

definition graceTick :: "tickConf \<Rightarrow> duration" where
  "graceTick c =
     (if list_ex (\<lambda>s. s > 0) (tcGraces c) \<or> tcLoopGuard c \<or> list_ex (\<lambda>p. p > 0) (tcPools c)
        \<or> list_ex (\<lambda>u. u > 0) (tcUnloadAfter c)
      then Second else 0)"

section \<open>Pins hold to their deadline\<close>

definition touches :: "string \<Rightarrow> pinOp \<Rightarrow> bool" where
  "touches modelID op = (case op of OpPin m ttl \<Rightarrow> m = modelID | OpUnpin m \<Rightarrow> m = modelID | OpSweep m \<Rightarrow> False)"

lemma run_keeps_live:
  assumes "map_of pins m = Some d" "d = zeroTime \<or> t < d" "\<forall>(u, op) \<in> set ops. u \<le> t \<and> \<not> touches m op"
  shows "map_of (runPins ops pins) m = Some d"
  using assms
proof (induction ops arbitrary: pins)
  case (Cons o' ops)
  obtain u op where o: "o' = (u, op)" by (cases o')
  have "map_of (pinStep (u, op) pins) m = Some d"
    using Cons.prems by (cases op) (auto simp: o PinWithTTL_def Unpin_def sweepPin_def touches_def Let_def split: option.splits)
  then show ?case using Cons by (simp add: runPins_def o)
qed (simp add: runPins_def)

lemma run_never_revives:
  assumes "map_of pins m = Some d \<or> map_of pins m = None" "\<forall>(u, op) \<in> set ops. \<not> touches m op"
  shows "map_of (runPins ops pins) m = Some d \<or> map_of (runPins ops pins) m = None"
  using assms
proof (induction ops arbitrary: pins)
  case (Cons o' ops)
  obtain u op where o: "o' = (u, op)" by (cases o')
  have "map_of (pinStep (u, op) pins) m = Some d \<or> map_of (pinStep (u, op) pins) m = None"
    using Cons.prems by (cases op) (auto simp: o PinWithTTL_def Unpin_def sweepPin_def touches_def Let_def split: option.splits)
  then show ?case using Cons by (simp add: runPins_def o)
qed (simp add: runPins_def)

lemma pin_after:
  assumes "\<forall>(u, op) \<in> set ops. u \<le> t \<and> \<not> touches m op" "0 < t0"
  shows "fst (IsPinned t m between t' (runPins ops (snd (PinWithTTL t0 m ttl pins)))) \<longleftrightarrow> ttl \<le> 0 \<or> t < t0 + ttl"
proof -
  let ?d = "if ttl > 0 then t0 + ttl else zeroTime" and ?pins = "snd (PinWithTTL t0 m ttl pins)"
  have d: "map_of ?pins m = Some ?d" by (simp add: PinWithTTL_def Let_def)
  have n: "\<forall>(u, op) \<in> set ops. \<not> touches m op" using assms(1) by auto
  show ?thesis
  proof (cases "?d = zeroTime \<or> t < ?d")
    case True
    have r: "map_of (runPins ops ?pins) m = Some ?d" using run_keeps_live[OF d True assms(1)] .
    show ?thesis using True assms(2) unfolding IsPinned_def r by (simp split: if_splits)
  next
    case False
    have "map_of (runPins ops ?pins) m = Some ?d \<or> map_of (runPins ops ?pins) m = None"
      by (rule run_never_revives[OF disjI1[OF d] n])
    then have "\<not> fst (IsPinned t m between t' (runPins ops ?pins))" using False by (auto simp: IsPinned_def)
    then show ?thesis using False by (auto split: if_splits)
  qed
qed

text \<open>A pin holds exactly to its deadline, or for ever: whatever the other goroutines do with other models and
  however often expired pins are swept, the model is pinned until its lease runs out, when it is no longer.\<close>

theorem pin_holds_to_deadline:
  assumes "0 < t0" "\<forall>(u, op) \<in> set ops. u \<le> t \<and> \<not> touches m op"
  shows "fst (allowIdleEvict t m between t' (runPins ops (snd (PinWithTTL t0 m ttl pins)))) \<longleftrightarrow> 0 < ttl \<and> t0 + ttl \<le> t"
  using pin_after[OF assms(2,1), of between t' ttl pins] by (auto simp: allowIdleEvict_def split: prod.splits)

lemma pin_holds_to_deadline_witness:
  "\<not> fst (allowIdleEvict 14 ''a'' [] 14 (runPins [(11, OpPin ''b'' 1), (13, OpSweep ''b''), (14, OpSweep ''a'')] (snd (PinWithTTL 10 ''a'' 5 []))))
   \<and> fst (allowIdleEvict 15 ''a'' [] 15 (runPins [(11, OpPin ''b'' 1), (13, OpSweep ''b''), (14, OpSweep ''a'')] (snd (PinWithTTL 10 ''a'' 5 []))))"
  using pin_holds_to_deadline[of 10 "[(11, OpPin ''b'' 1), (13, OpSweep ''b''), (14, OpSweep ''a'')]" 14 "''a''" "[]" 14 5 "[]"]
    pin_holds_to_deadline[of 10 "[(11, OpPin ''b'' 1), (13, OpSweep ''b''), (14, OpSweep ''a'')]" 15 "''a''" "[]" 15 5 "[]"]
  by (simp add: touches_def)

text \<open>\<open>PinExpiry\<close> reads the map a second time: a model unpinned in between is reported pinned without end.\<close>

lemma pin_expiry_torn:
  "fst (PinExpiry 11 ''a'' [] 11 [(11, OpUnpin ''a'')] (snd (PinWithTTL 10 ''a'' 5 []))) = (zeroTime, True)"
  by (simp add: PinExpiry_def IsPinned_def PinWithTTL_def runPins_def Unpin_def)

section \<open>Unloads are complete\<close>

lemma buckets_get: "mlist (unloadBuckets c targets) t = filter (\<lambda>id. unloadTimeout c id = t) targets"
  by (induction targets rule: rev_induct) (auto simp: unloadBuckets_def Let_def)

lemma buckets_keys: "set (mkeys (unloadBuckets c targets)) = unloadTimeout c ` set targets"
  by (induction targets rule: rev_induct) (auto simp: unloadBuckets_def Let_def)

lemma mset_by_key:
  "distinct ks \<Longrightarrow> f ` set xs \<subseteq> set ks \<Longrightarrow> mset (concat (map (\<lambda>k. filter (\<lambda>x. f x = k) xs) ks)) = mset xs"
proof (induction xs)
  case (Cons x xs)
  have "mset (concat (map (\<lambda>k. filter (\<lambda>y. f y = k) (x # xs)) ks)) =
      mset (concat (map (\<lambda>k. if k = f x then [x] else []) ks)) + mset (concat (map (\<lambda>k. filter (\<lambda>y. f y = k) xs) ks))"
    by (induction ks) (auto simp: ac_simps)
  moreover have "f x \<in> set ks" using Cons.prems by simp
  then have "mset (concat (map (\<lambda>k. if k = f x then [x] else []) ks)) = {#x#}"
    using Cons.prems(1) by (induction ks) (auto simp: concat_eq_Nil_conv split: if_splits)
  ultimately show ?case using Cons by simp
qed simp

text \<open>\<open>Unload\<close> asks for every target once, by its own timeout when none is given, the shortest timeouts first.\<close>

theorem unload_rounds:
  "mset (concat (map snd (Unload c procs timeout models))) = mset (if models = [] then procs else models) \<and>
   sorted (map fst (Unload c procs timeout models)) \<and> distinct (map fst (Unload c procs timeout models)) \<and>
   list_all (\<lambda>(t, ids). ids \<noteq> [] \<and> (if timeout > 0 then t = timeout else list_all (\<lambda>id. unloadTimeout c id = t) ids))
     (Unload c procs timeout models)"
proof -
  define ts where "ts = (if models = [] then procs else models)"
  let ?b = "unloadBuckets c ts"
  have e: "Unload c procs timeout models =
      (if ts = [] then [] else if timeout > 0 then [(timeout, ts)] else map (\<lambda>t. (t, mlist ?b t)) (sort (mkeys ?b)))"
    by (simp add: Unload_def Let_def ts_def)
  have k: "set (sort (mkeys ?b)) = unloadTimeout c ` set ts" using buckets_keys[of c ts] by simp
  have m: "mset (concat (map (mlist ?b) (sort (mkeys ?b)))) = mset ts"
    unfolding buckets_get using k by (intro mset_by_key) auto
  have "mset (concat (map snd (Unload c procs timeout models))) = mset ts"
    unfolding e using m by (simp add: comp_def)
  moreover have "sorted (map fst (Unload c procs timeout models)) \<and> distinct (map fst (Unload c procs timeout models))"
    unfolding e by (simp add: comp_def)
  moreover have "list_all (\<lambda>(t, ids). ids \<noteq> [] \<and> (if timeout > 0 then t = timeout else list_all (\<lambda>id. unloadTimeout c id = t) ids))
     (Unload c procs timeout models)"
    unfolding e using k by (auto simp: list_all_iff buckets_get filter_empty_conv)
  ultimately show ?thesis by (simp add: ts_def)
qed

end
