(* ===== verification/ConfigMacros.thy ===== *)
theory ConfigMacros
  imports GoStrings
begin

text \<open>
  Macros and environment variables of the configuration, \<open>internal/config/macros.go\<close>, and the comments of commands,
  \<open>commands.go\<close>. The yaml package is left out: what it decodes, the declarations and the untyped value tree, is
  input. A mapping is a Go map, its declarations an ordered list.
\<close>

section \<open>Values\<close>

text \<open>A decoded value; a float is kept as the text \<open>%v\<close> prints. \<open>YOther\<close>: what is neither scalar nor container, such
  as a time.\<close>

datatype yval = YNull | YStr string | YInt int | YFloat string | YBool bool | YOther string
  | YMap "(string \<times> yval) list" | YSeq "yval list"

type_synonym macros = "(string \<times> yval) list"

definition itoaInt :: "int \<Rightarrow> string" where
  "itoaInt n = (if n < 0 then ''-'' @ itoa (nat (- n)) else itoa (nat n))"

text \<open>\<open>%v\<close> of the values a macro can have; \<open>validateMacro\<close> keeps the others out.\<close>

fun fmtV :: "yval \<Rightarrow> string" where
  "fmtV (YStr s) = s"
| "fmtV (YInt n) = itoaInt n"
| "fmtV (YFloat s) = s"
| "fmtV (YBool b) = (if b then ''true'' else ''false'')"
| "fmtV YNull = ''<nil>''"
| "fmtV (YOther s) = s"
| "fmtV (YMap m) = []"
| "fmtV (YSeq xs) = []"

datatype macroError =
    NameTooLong string
  | NameInvalid string
  | SelfReference string
  | NotScalar string
  | NameReserved string
  | InModel string macroError
  | BadStartPort
  | StartPortLow int
  | ProxyWithoutCmd string
  | SameKey string string
  | UnknownInKey string string
  | ShouldBeSubstituted string string
  | UnknownMacro string string
  | EnvUnresolved string string
  | EnvNotSet string
  | EnvControl string

section \<open>References\<close>

definition charBetween :: "char \<Rightarrow> char \<Rightarrow> char \<Rightarrow> bool" where
  "charBetween lo hi c \<longleftrightarrow> lo \<le> c \<and> c \<le> hi"

definition isAlnum :: "char \<Rightarrow> bool" where
  "isAlnum c \<longleftrightarrow> charBetween (CHR ''a'') (CHR ''z'') c \<or> charBetween (CHR ''A'') (CHR ''Z'') c \<or> charBetween (CHR ''0'') (CHR ''9'') c"

definition isNameChar :: "char \<Rightarrow> bool" where
  "isNameChar c \<longleftrightarrow> isAlnum c \<or> c = CHR ''_'' \<or> c = CHR ''-''"

definition macroName :: "string \<Rightarrow> bool" where
  "macroName s \<longleftrightarrow> s \<noteq> [] \<and> list_all isNameChar s"

definition slug :: "string \<Rightarrow> string" where
  "slug name = ''${'' @ name @ ''}''"

text \<open>The match of a pattern \<open>${prefix name}\<close> at the start of a string: no name holds a closing brace, so the
  greedy match is the only one.\<close>

definition matchAt :: "string \<Rightarrow> (string \<Rightarrow> bool) \<Rightarrow> (char \<Rightarrow> bool) \<Rightarrow> string \<Rightarrow> string option" where
  "matchAt opening good nameChar s =
     (if hasPrefix s opening
      then let name = takeWhile nameChar (drop (length opening) s)
           in if good name \<and> hasPrefix (drop (length opening + length name) s) ''}'' then Some name else None
      else None)"

fun findAll :: "string \<Rightarrow> (string \<Rightarrow> bool) \<Rightarrow> (char \<Rightarrow> bool) \<Rightarrow> nat \<Rightarrow> string \<Rightarrow> string list" where
  "findAll opening good nameChar 0 s = []"
| "findAll opening good nameChar (Suc n) [] = []"
| "findAll opening good nameChar (Suc n) (c # s) =
     (case matchAt opening good nameChar (c # s) of
        Some name \<Rightarrow> name # findAll opening good nameChar n (drop (length opening + length name + 1) (c # s))
      | None \<Rightarrow> findAll opening good nameChar n s)"

definition macroPattern :: "string \<Rightarrow> string list" where
  "macroPattern s = findAll ''${'' (\<lambda>name. name \<noteq> []) isNameChar (length s) s"

definition envChar :: "char \<Rightarrow> bool" where
  "envChar c \<longleftrightarrow> isAlnum c \<or> c = CHR ''_''"

definition envName :: "string \<Rightarrow> bool" where
  "envName s \<longleftrightarrow> s \<noteq> [] \<and> \<not> (CHR ''0'' \<le> hd s \<and> hd s \<le> CHR ''9'')"

definition envPattern :: "string \<Rightarrow> string list" where
  "envPattern s = findAll ''${env.'' envName envChar (length s) s"

text \<open>\<open>strings.ReplaceAll\<close> of a pattern that is not empty.\<close>

function ReplaceAll :: "string \<Rightarrow> string \<Rightarrow> string \<Rightarrow> string" where
  "ReplaceAll old new [] = []"
| "ReplaceAll old new (c # s) =
     (if old \<noteq> [] \<and> hasPrefix (c # s) old then new @ ReplaceAll old new (drop (length old) (c # s))
      else c # ReplaceAll old new s)"
  by pat_completeness auto
termination by (relation "measure (\<lambda>(old, new, s). length s)") auto

section \<open>Declarations\<close>

definition reservedMacros :: "string list" where
  "reservedMacros = [''PID'', ''PORT'', ''MODEL_ID'']"

definition validateMacro :: "string \<Rightarrow> yval \<Rightarrow> macroError option" where
  "validateMacro name value =
     (if length name \<ge> 64 then Some (NameTooLong name)
      else if \<not> macroName name then Some (NameInvalid name)
      else case (case value of
             YStr v \<Rightarrow> if containsSub (slug name) v then Some (SelfReference name) else None
           | YInt n \<Rightarrow> None | YFloat s \<Rightarrow> None | YBool b \<Rightarrow> None
           | _ \<Rightarrow> Some (NotScalar name)) of
        Some e \<Rightarrow> Some e
      | None \<Rightarrow> if name \<in> set reservedMacros then Some (NameReserved name) else None)"

fun validateMacros :: "macros \<Rightarrow> macroError option" where
  "validateMacros [] = None"
| "validateMacros ((name, value) # ms) = (case validateMacro name value of Some e \<Rightarrow> Some e | None \<Rightarrow> validateMacros ms)"

text \<open>A model's own macros take the place of global ones with their name.\<close>

fun overlay :: "string \<times> yval \<Rightarrow> macros \<Rightarrow> macros" where
  "overlay e [] = [e]"
| "overlay e (m # ms) = (if fst m = fst e then e # ms else m # overlay e ms)"

definition mergeModelMacros :: "string \<Rightarrow> macros \<Rightarrow> macros \<Rightarrow> macros" where
  "mergeModelMacros modelID global local = foldl (\<lambda>ms e. overlay e ms) ((''MODEL_ID'', YStr modelID) # global) local"

section \<open>Substitution\<close>

primrec substituteMacroInValue :: "yval \<Rightarrow> string \<Rightarrow> yval \<Rightarrow> yval" where
  "substituteMacroInValue (YStr v) name value =
     (if v = slug name then value
      else if containsSub (slug name) v then YStr (ReplaceAll (slug name) (fmtV value) v)
      else YStr v)"
| "substituteMacroInValue (YMap m) name value = YMap (map (map_prod id (\<lambda>v. substituteMacroInValue v name value)) m)"
| "substituteMacroInValue (YSeq xs) name value = YSeq (map (\<lambda>v. substituteMacroInValue v name value) xs)"
| "substituteMacroInValue YNull name value = YNull"
| "substituteMacroInValue (YInt n) name value = YInt n"
| "substituteMacroInValue (YFloat s) name value = YFloat s"
| "substituteMacroInValue (YBool b) name value = YBool b"
| "substituteMacroInValue (YOther s) name value = YOther s"

definition substituteMacroList :: "yval \<Rightarrow> macros \<Rightarrow> yval" where
  "substituteMacroList resolved macros = foldr (\<lambda>(name, value) v. substituteMacroInValue v name value) macros resolved"

definition ymap :: "yval option \<Rightarrow> (string \<times> yval) list option" where
  "ymap v = (case v of Some (YMap m) \<Rightarrow> Some m | _ \<Rightarrow> None)"

definition setParamsByID :: "(string \<times> yval) list \<Rightarrow> ((string \<times> yval) list \<times> (string \<times> yval) list) option" where
  "setParamsByID model =
     (case ymap (map_of model ''filters'') of
        None \<Rightarrow> None
      | Some filters \<Rightarrow> map_option (Pair filters) (ymap (map_of filters ''setParamsByID'')))"

fun substituteKeys :: "macros \<Rightarrow> (string \<times> yval) list \<Rightarrow> (string \<times> yval) list \<Rightarrow> macroError + (string \<times> yval) list" where
  "substituteKeys macros [] resolved = Inr resolved"
| "substituteKeys macros ((key, value) # params) resolved =
     (let newKey = foldr (\<lambda>(name, v) k. ReplaceAll (slug name) (fmtV v) k) macros key
      in if map_of resolved newKey \<noteq> None then Inl (SameKey key newKey)
         else substituteKeys macros params (resolved @ [(newKey, value)]))"

definition substituteSetParamsByIDKeys :: "(string \<times> yval) list \<Rightarrow> macros \<Rightarrow> macroError + (string \<times> yval) list" where
  "substituteSetParamsByIDKeys model macros =
     (case setParamsByID model of
        None \<Rightarrow> Inr model
      | Some (filters, params) \<Rightarrow>
          (case substituteKeys macros params [] of
             Inl e \<Rightarrow> Inl e
           | Inr resolved \<Rightarrow> Inr (mput ''filters'' (YMap (mput ''setParamsByID'' (YMap resolved) filters)) model)))"

definition validateSetParamsByIDKeys :: "(string \<times> yval) list \<Rightarrow> string \<Rightarrow> macroError option" where
  "validateSetParamsByIDKeys model modelID =
     (case setParamsByID model of
        None \<Rightarrow> None
      | Some (filters, params) \<Rightarrow>
          (case concat (map (macroPattern \<circ> fst) params) of [] \<Rightarrow> None | m # ms \<Rightarrow> Some (UnknownInKey m modelID)))"

section \<open>Uses\<close>

definition substitutedFields :: "string list" where
  "substitutedFields = [''cmd'', ''cmdStop'', ''proxy'', ''checkEndpoint'', ''filters.stripParams'', ''name'', ''description'']"

fun checkUses :: "string \<Rightarrow> string \<Rightarrow> string \<Rightarrow> bool \<Rightarrow> string list \<Rightarrow> macroError option" where
  "checkUses path modelID field allowPID [] = None"
| "checkUses path modelID field allowPID (m # ms) =
     (if m = ''PID'' \<and> allowPID then checkUses path modelID field allowPID ms
      else if modelID \<noteq> [] \<and> field \<in> set substitutedFields \<and> (m = ''PORT'' \<or> m = ''MODEL_ID'')
        then Some (ShouldBeSubstituted m (modelID @ ''.'' @ field))
      else Some (UnknownMacro m (if modelID = [] then path else modelID @ ''.'' @ field)))"

definition validateString :: "string \<Rightarrow> string \<Rightarrow> string \<Rightarrow> bool \<Rightarrow> string \<Rightarrow> macroError option" where
  "validateString path modelID field allowPID v =
     (case checkUses path modelID field allowPID (macroPattern v) of
        Some e \<Rightarrow> Some e
      | None \<Rightarrow> (case envPattern v of [] \<Rightarrow> None | name # _ \<Rightarrow> Some (EnvUnresolved name path)))"

text \<open>The first error of a row of checks.\<close>

fun firstError :: "'e option list \<Rightarrow> 'e option" where
  "firstError [] = None"
| "firstError (e # es) = (if e = None then firstError es else e)"

primrec validateMacroUses :: "yval \<Rightarrow> string \<Rightarrow> string \<Rightarrow> string \<Rightarrow> bool \<Rightarrow> macroError option" where
  "validateMacroUses (YStr v) path modelID field allowPID = validateString path modelID field allowPID v"
| "validateMacroUses (YMap m) path modelID field allowPID =
     firstError (map (\<lambda>(key, check). check (path @ ''.'' @ key) modelID (if modelID \<noteq> [] then field @ ''.'' @ key else field) allowPID)
       (map (map_prod (\<lambda>key. key) validateMacroUses) m))"
| "validateMacroUses (YSeq xs) path modelID field allowPID =
     firstError (map (\<lambda>(i, check). check (path @ ''['' @ itoa i @ '']'') modelID field allowPID)
       (enumerate 0 (map validateMacroUses xs)))"
| "validateMacroUses YNull path modelID field allowPID = None"
| "validateMacroUses (YInt n) path modelID field allowPID = None"
| "validateMacroUses (YFloat s) path modelID field allowPID = None"
| "validateMacroUses (YBool b) path modelID field allowPID = None"
| "validateMacroUses (YOther s) path modelID field allowPID = None"

text \<open>The yaml names of the exported fields of \<open>Config\<close>.\<close>

definition knownFields :: "string list" where
  "knownFields = [''tailcat'', ''healthCheckTimeout'', ''logRequests'', ''logLevel'', ''logTimeFormat'', ''logToStdout'',
     ''metricsMaxInMemory'', ''captureBuffer'', ''store'', ''ui'', ''performance'', ''globalTTL'', ''unloadTimeout'',
     ''swapGraceSeconds'', ''swapStarvationSeconds'', ''memoryBrake'', ''debugHistory'', ''loopGuard'', ''sessions'',
     ''models'', ''profiles'', ''selectors'', ''globalConcurrencyLimit'', ''routing'', ''groups'', ''matrix'',
     ''transcriptionEndpoint'', ''transcriptionModel'', ''macros'', ''startPort'', ''hooks'', ''sendLoadingState'',
     ''includeAliasesInList'', ''residentAliases'', ''residentAliasGraceSeconds'', ''menu_bar'', ''apiKeys'', ''peers'',
     ''upstream'', ''peerStall'', ''slotStall'', ''prefillStall'', ''tiers'']"

definition validateFields :: "string \<Rightarrow> (string \<times> yval) list \<Rightarrow> macroError option" where
  "validateFields modelID model =
     firstError (map (\<lambda>(field, v). validateMacroUses v (''models.'' @ modelID @ ''.'' @ field) modelID field (field = ''cmdStop'')) model)"

definition validateModelUses :: "(string \<times> yval) list \<Rightarrow> macroError option" where
  "validateModelUses models =
     firstError (map (\<lambda>(modelID, v). case v of YMap model \<Rightarrow> validateFields modelID model | _ \<Rightarrow> None) models)"

definition validateConfigMacroUses :: "(string \<times> yval) list \<Rightarrow> macroError option" where
  "validateConfigMacroUses raw =
     firstError (map (\<lambda>(key, v).
       if key \<notin> set knownFields then None
       else if key \<noteq> ''models'' then validateMacroUses v key [] [] False
       else case v of YMap models \<Rightarrow> validateModelUses models | _ \<Rightarrow> None) raw)"

section \<open>Comments\<close>

definition joinLines :: "string list \<Rightarrow> string" where
  "joinLines ls = (case ls of [] \<Rightarrow> [] | l # rest \<Rightarrow> l @ concat (map (\<lambda>x. CHR 10 # x) rest))"

definition isComment :: "string \<Rightarrow> bool" where
  "isComment l \<longleftrightarrow> hasPrefix (TrimSpaceUTF8 l) ''#''"

definition StripComments :: "string \<Rightarrow> string" where
  "StripComments cmdStr = joinLines (filter (\<lambda>l. \<not> isComment l) (splitByte (CHR 10) cmdStr))"

text \<open>\<open>split\<close> is the shlex package's.\<close>

definition cleanLine :: "string \<Rightarrow> string" where
  "cleanLine l = (let t = TrimSpaceUTF8 l in if hasSuffix t [CHR 92] then butlast t @ '' '' else l)"

definition SanitizeCommand :: "(string \<Rightarrow> string list) \<Rightarrow> string \<Rightarrow> string list option" where
  "SanitizeCommand split cmdStr =
     (let args = split (joinLines (map cleanLine (filter (\<lambda>l. \<not> isComment l) (splitByte (CHR 10) cmdStr))))
      in if args = [] then None else Some args)"

section \<open>Resolving\<close>

definition andThen :: "'e + 'a \<Rightarrow> ('a \<Rightarrow> 'e + 'b) \<Rightarrow> 'e + 'b" where
  "andThen x f = (case x of Inl e \<Rightarrow> Inl e | Inr a \<Rightarrow> f a)"

definition failIf :: "'e option \<Rightarrow> 'e + 'a \<Rightarrow> 'e + 'a" where
  "failIf e x = (case e of Some e' \<Rightarrow> Inl e' | None \<Rightarrow> x)"

definition ystr :: "yval option \<Rightarrow> string" where
  "ystr v = (case v of Some (YStr s) \<Rightarrow> s | _ \<Rightarrow> [])"

definition defaultProxy :: string where
  "defaultProxy = ''http://localhost:${PORT}''"

definition stripField :: "string \<Rightarrow> (string \<times> yval) list \<Rightarrow> (string \<times> yval) list" where
  "stripField field model = (case map_of model field of Some (YStr s) \<Rightarrow> mput field (YStr (StripComments s)) model | _ \<Rightarrow> model)"

definition stripRawCommandComments :: "(string \<times> yval) list \<Rightarrow> (string \<times> yval) list" where
  "stripRawCommandComments model = stripField ''cmdStop'' (stripField ''cmd'' model)"

definition prepareModel :: "(string \<times> yval) list \<Rightarrow> (string \<times> yval) list" where
  "prepareModel model =
     (let m = stripRawCommandComments (mdel ''macros'' model)
      in if map_of m ''proxy'' = None \<or> map_of m ''proxy'' = Some YNull then mput ''proxy'' (YStr defaultProxy) m else m)"

text \<open>\<open>decodeInt\<close> is yaml's: the value before, the node.\<close>

definition rawStartPort :: "(int \<Rightarrow> yval \<Rightarrow> int option) \<Rightarrow> (string \<times> yval) list \<Rightarrow> macroError + int" where
  "rawStartPort decodeInt raw =
     (case (case map_of raw ''startPort'' of None \<Rightarrow> Some 5800 | Some v \<Rightarrow> decodeInt 5800 v) of
        None \<Rightarrow> Inl BadStartPort
      | Some p \<Rightarrow> if p < 1 then Inl (StartPortLow p) else Inr p)"

definition wantsPort :: "string \<Rightarrow> (string \<times> yval) list \<Rightarrow> bool" where
  "wantsPort field model \<longleftrightarrow> containsSub (slug ''PORT'') (ystr (map_of model field))"

definition applyMacros :: "macros \<Rightarrow> (string \<times> yval) list \<Rightarrow> macroError + (string \<times> yval) list" where
  "applyMacros macros model =
     substituteSetParamsByIDKeys (case substituteMacroList (YMap model) macros of YMap m \<Rightarrow> m | _ \<Rightarrow> []) macros"

definition resolveModel :: "string \<Rightarrow> macros \<Rightarrow> int \<Rightarrow> (string \<times> yval) list \<Rightarrow> macroError + (string \<times> yval) list \<times> int" where
  "resolveModel modelID macros nextPort model =
     andThen (applyMacros macros model) (\<lambda>m.
       andThen (if wantsPort ''cmd'' m then andThen (applyMacros [(''PORT'', YInt nextPort)] m) (\<lambda>m'. Inr (m', nextPort + 1))
                else if wantsPort ''proxy'' m then Inl (ProxyWithoutCmd modelID)
                else Inr (m, nextPort)) (\<lambda>(m', port').
         failIf (validateSetParamsByIDKeys m' modelID) (Inr (m', port'))))"

fun resolveModels ::
    "macros \<Rightarrow> (string, macros) gomap \<Rightarrow> string list \<Rightarrow> int \<Rightarrow> (string \<times> yval) list \<Rightarrow> macroError + (string \<times> yval) list" where
  "resolveModels global locals [] nextPort models = Inr models"
| "resolveModels global locals (modelID # ids) nextPort models =
     (case map_of models modelID of
        Some (YMap model) \<Rightarrow>
          andThen (resolveModel modelID (mergeModelMacros modelID global (mlist locals modelID)) nextPort model)
            (\<lambda>(m, port). resolveModels global locals ids port (mput modelID (YMap m) models))
      | _ \<Rightarrow> resolveModels global locals ids nextPort models)"

fun validateLocals :: "(string, macros) gomap \<Rightarrow> macroError option" where
  "validateLocals [] = None"
| "validateLocals ((modelID, ms) # rest) =
     (case validateMacros ms of Some e \<Rightarrow> Some (InModel modelID e) | None \<Rightarrow> validateLocals rest)"

definition resolveConfigMacros ::
    "(int \<Rightarrow> yval \<Rightarrow> int option) \<Rightarrow> macros \<Rightarrow> (string, macros) gomap \<Rightarrow> (string \<times> yval) list \<Rightarrow> macroError + (string \<times> yval) list" where
  "resolveConfigMacros decodeInt global locals raw0 =
     failIf (validateMacros global) (failIf (validateLocals locals)
       (let raw1 = mdel ''macros'' raw0;
            models = (case ymap (map_of raw1 ''models'') of
                None \<Rightarrow> []
              | Some ms \<Rightarrow> map (\<lambda>(id, v). (id, case v of YMap m \<Rightarrow> YMap (prepareModel m) | _ \<Rightarrow> v)) ms);
            raw2 = map (\<lambda>(k, v). (k, if k = ''models'' then v else substituteMacroList v global)) raw1
        in andThen (rawStartPort decodeInt raw2) (\<lambda>port.
             andThen (resolveModels global locals (sort (mkeys models)) port models) (\<lambda>models'.
               let raw3 = mput ''models'' (YMap models') raw2
               in failIf (validateConfigMacroUses raw3) (Inr raw3)))))"

section \<open>Environment\<close>

definition sanitizeEnvValueForYAML :: "string \<Rightarrow> string \<Rightarrow> macroError + string" where
  "sanitizeEnvValueForYAML value name =
     (if list_ex (\<lambda>c. c = CHR 10 \<or> c = CHR 13 \<or> c = char_of (0 :: nat)) value then Inl (EnvControl name)
      else Inr (ReplaceAll [CHR 34] [CHR 92, CHR 34] (ReplaceAll [CHR 92] [CHR 92, CHR 92] value)))"

fun substituteEnv :: "(string \<Rightarrow> string option) \<Rightarrow> string list \<Rightarrow> string \<Rightarrow> macroError + string" where
  "substituteEnv env [] result = Inr result"
| "substituteEnv env (name # names) result =
     (case env name of
        None \<Rightarrow> Inl (EnvNotSet name)
      | Some value \<Rightarrow>
          andThen (sanitizeEnvValueForYAML value name) (\<lambda>v. substituteEnv env names (ReplaceAll (''${env.'' @ name @ ''}'') v result)))"

definition substituteEnvMacrosInString :: "(string \<Rightarrow> string option) \<Rightarrow> string \<Rightarrow> string \<Rightarrow> macroError + string" where
  "substituteEnvMacrosInString env target scanStr = substituteEnv env (envPattern scanStr) target"

text \<open>\<open>clean\<close>: the document decoded and encoded again, if it decodes.\<close>

definition substituteEnvMacros :: "(string \<Rightarrow> string option) \<Rightarrow> (string \<Rightarrow> string option) \<Rightarrow> string \<Rightarrow> macroError + string" where
  "substituteEnvMacros clean env s = substituteEnvMacrosInString env s (case clean s of None \<Rightarrow> s | Some c \<Rightarrow> c)"

section \<open>Substitution is expansion\<close>

text \<open>Text with references, and its expansion by macros, the last declared first: the value of a reference is that
  of the last macro of its name, expanded by the macros declared before it.\<close>

datatype seg = Lit string | Ref string

definition wfSeg :: "seg \<Rightarrow> bool" where
  "wfSeg x = (case x of Lit s \<Rightarrow> CHR ''$'' \<notin> set s | Ref n \<Rightarrow> macroName n)"

definition renderSegs :: "seg list \<Rightarrow> string" where
  "renderSegs xs = concat (map (case_seg id slug) xs)"

fun expand :: "(string \<times> seg list) list \<Rightarrow> seg list \<Rightarrow> string" where
  "expand [] xs = renderSegs xs"
| "expand ((n, t) # ms) xs =
     concat (map (\<lambda>x. case x of Lit s \<Rightarrow> s | Ref m \<Rightarrow> if m = n then expand ms t else expand ms [Ref m]) xs)"

fun resolves :: "(string \<times> seg list) list \<Rightarrow> seg list \<Rightarrow> bool" where
  "resolves [] xs = list_all (\<lambda>x. case x of Lit s \<Rightarrow> True | Ref m \<Rightarrow> False) xs"
| "resolves ((n, t) # ms) xs =
     list_all (\<lambda>x. case x of Lit s \<Rightarrow> True | Ref m \<Rightarrow> if m = n then resolves ms t else resolves ms [Ref m]) xs"

lemma ReplaceAll_plain: "c \<notin> set s \<Longrightarrow> ReplaceAll (c # old) new (s @ t) = s @ ReplaceAll (c # old) new t"
  by (induction s) (auto simp: hasPrefix_def)

lemma ReplaceAll_pattern: "old \<noteq> [] \<Longrightarrow> ReplaceAll old new (old @ t) = new @ ReplaceAll old new t"
  by (cases old) (simp_all add: hasPrefix_def)

lemma not_contains_ReplaceAll: "old \<noteq> [] \<Longrightarrow> \<not> containsSub old s \<Longrightarrow> ReplaceAll old new s = s"
  by (induction s) (auto simp: hasPrefix_def)

lemma nameChar_no_brace: "macroName n \<Longrightarrow> CHR ''}'' \<notin> set n \<and> CHR ''$'' \<notin> set n"
  by (auto simp: macroName_def list_all_iff isNameChar_def isAlnum_def charBetween_def less_eq_char_def)

lemma brace_prefix:
  "take (length n + 1) (m @ CHR ''}'' # t) = n @ ''}'' \<Longrightarrow> CHR ''}'' \<notin> set n \<Longrightarrow> CHR ''}'' \<notin> set m \<Longrightarrow> m = n"
proof (induction n arbitrary: m)
  case Nil
  then show ?case by (cases m) auto
next
  case (Cons c n)
  then show ?case by (cases m) auto
qed

lemma ReplaceAll_other:
  assumes "macroName n" "macroName m" "m \<noteq> n"
  shows "ReplaceAll (slug n) new (slug m @ t) = slug m @ ReplaceAll (slug n) new t"
proof -
  have "take (length n + 1) (m @ CHR ''}'' # t) \<noteq> n @ ''}''"
    using brace_prefix[of n m t] assms nameChar_no_brace by blast
  then have np: "\<not> hasPrefix (slug m @ t) (slug n)" by (simp add: hasPrefix_def slug_def)
  have "ReplaceAll (slug n) new (slug m @ t) = CHR ''$'' # ReplaceAll (slug n) new ((''{'' @ m @ ''}'') @ t)"
    using np by (simp add: slug_def)
  also have "ReplaceAll (slug n) new ((''{'' @ m @ ''}'') @ t) = (''{'' @ m @ ''}'') @ ReplaceAll (slug n) new t"
    using ReplaceAll_plain[of "CHR ''$''" "''{'' @ m @ ''}''" "''{'' @ n @ ''}''" new t] nameChar_no_brace[OF assms(2)]
    by (simp add: slug_def)
  finally show ?thesis by (simp add: slug_def)
qed

lemma ReplaceAll_render:
  assumes "macroName n" "list_all wfSeg xs"
  shows "ReplaceAll (slug n) v (renderSegs xs) = concat (map (\<lambda>x. case x of Lit s \<Rightarrow> s | Ref m \<Rightarrow> if m = n then v else slug m) xs)"
  using assms(2)
proof (induction xs)
  case (Cons x xs)
  have ne: "slug n \<noteq> []" by (simp add: slug_def)
  show ?case
  proof (cases x)
    case (Lit s)
    then have "ReplaceAll (slug n) v (s @ renderSegs xs) = s @ ReplaceAll (slug n) v (renderSegs xs)"
      using Cons.prems unfolding slug_def by (simp add: wfSeg_def ReplaceAll_plain)
    then show ?thesis using Cons Lit by (simp add: renderSegs_def)
  next
    case (Ref m)
    then show ?thesis
      using Cons ReplaceAll_other[OF assms(1), of m v "renderSegs xs"] ReplaceAll_pattern[OF ne, of v "renderSegs xs"]
      by (cases "m = n") (auto simp: renderSegs_def wfSeg_def)
  qed
qed (simp add: renderSegs_def)

text \<open>Scalars, and what a step does to the text of one.\<close>

definition plainScalar :: "yval \<Rightarrow> bool" where
  "plainScalar v = (case v of YStr s \<Rightarrow> True | YMap m \<Rightarrow> False | YSeq xs \<Rightarrow> False | _ \<Rightarrow> CHR ''$'' \<notin> set (fmtV v))"

lemma subst_text:
  assumes "plainScalar x"
  shows "fmtV (substituteMacroInValue x n v) = ReplaceAll (slug n) (fmtV v) (fmtV x)"
    "plainScalar v \<Longrightarrow> plainScalar (substituteMacroInValue x n v)"
proof -
  have ne: "slug n \<noteq> []" by (simp add: slug_def)
  have plain: "ReplaceAll (slug n) (fmtV v) s = s" if "CHR ''$'' \<notin> set s" for s
    using ReplaceAll_plain[OF that, of "tl (slug n)" "fmtV v" "[]"] by (simp add: slug_def)
  show "fmtV (substituteMacroInValue x n v) = ReplaceAll (slug n) (fmtV v) (fmtV x)"
  proof (cases x)
    case (YStr s)
    then show ?thesis using not_contains_ReplaceAll[OF ne, of s "fmtV v"] ReplaceAll_pattern[OF ne, of "fmtV v" "[]"]
      by auto
  qed (use assms in \<open>simp_all add: plainScalar_def plain del: fmtV.simps ReplaceAll.simps\<close>)
  show "plainScalar (substituteMacroInValue x n v)" if "plainScalar v"
    using that assms by (cases x) (auto simp: plainScalar_def)
qed

definition templated :: "string \<times> yval \<Rightarrow> string \<times> seg list \<Rightarrow> bool" where
  "templated m t \<longleftrightarrow> fst m = fst t \<and> macroName (fst m) \<and> plainScalar (snd m) \<and> list_all wfSeg (snd t) \<and> fmtV (snd m) = renderSegs (snd t)"

lemma expand_append: "expand ms (xs @ ys) = expand ms xs @ expand ms ys"
  by (cases "(ms, xs)" rule: expand.cases) (simp_all add: renderSegs_def)

definition substSegs :: "string \<Rightarrow> seg list \<Rightarrow> seg list \<Rightarrow> seg list" where
  "substSegs n t xs = concat (map (\<lambda>x. case x of Lit s \<Rightarrow> [Lit s] | Ref m \<Rightarrow> if m = n then t else [Ref m]) xs)"

lemma expand_Lit: "expand ms [Lit s] = s"
  by (cases "(ms, [Lit s])" rule: expand.cases) (auto simp: renderSegs_def)

lemma expand_Cons: "expand ((n, t) # ms) xs = expand ms (substSegs n t xs)"
proof -
  have e: "expand ms [] = []" by (cases "(ms, [] :: seg list)" rule: expand.cases) (auto simp: renderSegs_def)
  show ?thesis
    by (induction xs) (auto simp: substSegs_def expand_append e expand_Lit split: seg.splits)
qed

lemma render_substSegs:
  "renderSegs (substSegs n t xs) = concat (map (\<lambda>x. case x of Lit s \<Rightarrow> s | Ref m \<Rightarrow> if m = n then renderSegs t else slug m) xs)"
  by (induction xs) (auto simp: renderSegs_def substSegs_def split: seg.splits)

lemma wf_substSegs: "list_all wfSeg xs \<Longrightarrow> list_all wfSeg t \<Longrightarrow> list_all wfSeg (substSegs n t xs)"
  by (induction xs) (auto simp: substSegs_def wfSeg_def split: seg.splits)

lemma resolves_append: "resolves ms (xs @ ys) \<longleftrightarrow> resolves ms xs \<and> resolves ms ys"
  by (cases "(ms, xs)" rule: resolves.cases) simp_all

lemma resolves_Lit: "resolves ms [Lit s]"
  by (cases "(ms, [Lit s])" rule: resolves.cases) auto

lemma resolves_Cons: "resolves ((n, t) # ms) xs \<longleftrightarrow> resolves ms (substSegs n t xs)"
proof -
  have e: "resolves ms []" by (cases "(ms, [] :: seg list)" rule: resolves.cases) auto
  show ?thesis
    by (induction xs) (auto simp: substSegs_def resolves_append e resolves_Lit split: seg.splits)
qed

lemma fold_expand:
  assumes "list_all2 templated ms ts" "plainScalar x" "list_all wfSeg xs" "fmtV x = renderSegs xs"
  shows "fmtV (fold (\<lambda>(n, v) x. substituteMacroInValue x n v) ms x) = expand ts xs
    \<and> (resolves ts xs \<longrightarrow> CHR ''$'' \<notin> set (expand ts xs))"
  using assms
proof (induction ms ts arbitrary: x xs rule: list_all2_induct)
  case Nil
  have "CHR ''$'' \<notin> set (renderSegs xs)" if "resolves [] xs" using that Nil(2)
    by (induction xs) (auto simp: renderSegs_def wfSeg_def split: seg.splits)
  then show ?case using Nil by simp
next
  case (Cons m ms t ts)
  obtain n v where m: "m = (n, v)" by (cases m)
  obtain u where t: "t = (n, u)" using Cons.hyps(1) m by (cases t) (simp add: templated_def)
  have h: "macroName n" "plainScalar v" "list_all wfSeg u" "fmtV v = renderSegs u"
    using Cons.hyps(1) m t by (simp_all add: templated_def)
  let ?x = "substituteMacroInValue x n v"
  have "fmtV ?x = renderSegs (substSegs n u xs)"
    using subst_text(1)[OF Cons.prems(1), of n v] ReplaceAll_render[OF h(1) Cons.prems(2)]
    by (simp add: Cons.prems(3) render_substSegs h(4))
  then show ?case
    using Cons.IH[OF subst_text(2)[OF Cons.prems(1) h(2)] wf_substSegs[OF Cons.prems(2) h(3)]]
    by (simp add: m t expand_Cons resolves_Cons del: expand.simps resolves.simps)
qed

text \<open>C30. Substitution is expansion: in text of literal parts and references, by macros that are such text or scalars,
  each reference becomes the value of the last macro of its name, itself expanded by the macros declared before
  it; when every reference met on the way is to an earlier macro, none is left.\<close>

theorem substitution_is_expansion:
  assumes "list_all2 templated macros ts" "list_all wfSeg xs"
  shows "fmtV (substituteMacroList (YStr (renderSegs xs)) macros) = expand (rev ts) xs
    \<and> (resolves (rev ts) xs \<longrightarrow> CHR ''$'' \<notin> set (fmtV (substituteMacroList (YStr (renderSegs xs)) macros)))"
proof -
  have f: "substituteMacroList x macros = fold (\<lambda>(n, v) x. substituteMacroInValue x n v) (rev macros) x" for x
    by (simp add: substituteMacroList_def foldr_conv_fold)
  have "list_all2 templated (rev macros) (rev ts)" using assms(1) by simp
  from fold_expand[OF this, of "YStr (renderSegs xs)" xs] assms(2) show ?thesis
    by (simp add: f plainScalar_def)
qed

lemma itoa_one: "itoa (Suc 0) = ''1''"
  by code_simp

lemma substitution_is_expansion_witness:
  "fmtV (substituteMacroList (YStr ''${b}/${a}'') [(''a'', YInt 1), (''b'', YStr ''x${a}'')]) = ''x1/1''"
proof -
  let ?ts = "[(''a'', [Lit ''1'']), (''b'', [Lit ''x'', Ref ''a''])]" and ?xs = "[Ref ''b'', Lit ''/'', Ref ''a'']"
  have "list_all2 templated [(''a'', YInt 1), (''b'', YStr ''x${a}'')] ?ts" "list_all wfSeg ?xs"
    by (simp_all add: templated_def macroName_def isNameChar_def isAlnum_def charBetween_def less_eq_char_def plainScalar_def wfSeg_def
        renderSegs_def slug_def itoaInt_def itoa_one)
  from substitution_is_expansion[OF this] show ?thesis by (simp add: renderSegs_def slug_def)
qed

section \<open>Ports\<close>

definition macrosOf :: "macros \<Rightarrow> (string, macros) gomap \<Rightarrow> string \<Rightarrow> macros" where
  "macrosOf global locals modelID = mergeModelMacros modelID global (mlist locals modelID)"

definition takesPort :: "macros \<Rightarrow> (string, macros) gomap \<Rightarrow> (string \<times> yval) list \<Rightarrow> string \<Rightarrow> bool" where
  "takesPort global locals models modelID \<longleftrightarrow>
     (case map_of models modelID of
        Some (YMap model) \<Rightarrow>
          (case applyMacros (macrosOf global locals modelID) model of Inr m \<Rightarrow> wantsPort ''cmd'' m | Inl e \<Rightarrow> False)
      | _ \<Rightarrow> False)"

lemma resolveModel_port:
  assumes "resolveModel modelID ms port model = Inr (m', port')"
  shows "\<exists>m. applyMacros ms model = Inr m \<and> port' = (if wantsPort ''cmd'' m then port + 1 else port) \<and>
    (if wantsPort ''cmd'' m then applyMacros [(''PORT'', YInt port)] m = Inr m' else m' = m \<and> \<not> wantsPort ''proxy'' m)"
proof (cases "applyMacros ms model")
  case (Inr m)
  show ?thesis
  proof (cases "wantsPort ''cmd'' m")
    case True
    then show ?thesis using assms Inr
      by (cases "applyMacros [(''PORT'', YInt port)] m") (auto simp: resolveModel_def andThen_def failIf_def split: option.splits)
  next
    case False
    then show ?thesis using assms Inr
      by (cases "wantsPort ''proxy'' m") (auto simp: resolveModel_def andThen_def failIf_def split: option.splits)
  qed
qed (use assms in \<open>simp add: resolveModel_def andThen_def\<close>)

text \<open>A model that is no mapping is passed over; another is resolved and put back.\<close>

lemma resolveModels_skip:
  "\<nexists>model. map_of models i = Some (YMap model) \<Longrightarrow>
     resolveModels global locals (i # ids) port models = resolveModels global locals ids port models"
  by (simp split: option.split yval.split)

lemma resolveModels_step:
  assumes "map_of models i = Some (YMap model)" "resolveModels global locals (i # ids) port models = Inr models'"
  obtains m port' where "resolveModel i (macrosOf global locals i) port model = Inr (m, port')"
    "resolveModels global locals ids port' (mput i (YMap m) models) = Inr models'"
  using assms by (auto simp: andThen_def macrosOf_def split: sum.splits)

lemma resolveModels_other:
  "resolveModels global locals ids port models = Inr models' \<Longrightarrow> mid \<notin> set ids \<Longrightarrow> map_of models' mid = map_of models mid"
proof (induction ids arbitrary: port models)
  case (Cons i ids)
  have ni: "mid \<noteq> i" "mid \<notin> set ids" using Cons.prems(2) by auto
  show ?case
  proof (cases "\<exists>model. map_of models i = Some (YMap model)")
    case True
    then obtain model where m: "map_of models i = Some (YMap model)" by blast
    from resolveModels_step[OF m Cons.prems(1)] obtain m' port' where
      "resolveModels global locals ids port' (mput i (YMap m') models) = Inr models'" by metis
    then show ?thesis using Cons.IH ni by fastforce
  next
    case False
    then show ?thesis using Cons.IH Cons.prems(1) ni unfolding resolveModels_skip[OF False] by blast
  qed
qed simp

lemma resolveModels_ports:
  assumes "distinct (pre @ mid # post)"
  shows "resolveModels global locals (pre @ mid # post) port models = Inr models' \<Longrightarrow> takesPort global locals models mid \<Longrightarrow>
    \<exists>model m m'. map_of models mid = Some (YMap model) \<and> applyMacros (macrosOf global locals mid) model = Inr m \<and>
      applyMacros [(''PORT'', YInt (port + int (length (filter (takesPort global locals models) pre))))] m = Inr m' \<and>
      map_of models' mid = Some (YMap m')"
  using assms
proof (induction pre arbitrary: port models)
  case Nil
  obtain model m where m: "map_of models mid = Some (YMap model)" "applyMacros (macrosOf global locals mid) model = Inr m"
    "wantsPort ''cmd'' m"
    using Nil.prems(2) by (auto simp: takesPort_def split: option.splits yval.splits sum.splits)
  obtain m' port' where r: "resolveModel mid (macrosOf global locals mid) port model = Inr (m', port')"
    and rest: "resolveModels global locals post port' (mput mid (YMap m') models) = Inr models'"
    using resolveModels_step[OF m(1) Nil.prems(1)[unfolded append_Nil]] by metis
  have "map_of models' mid = Some (YMap m')"
    using resolveModels_other[OF rest, of mid] Nil.prems(3) by simp
  then show ?case using resolveModel_port[OF r] m by simp
next
  case (Cons i pre)
  have ni: "mid \<noteq> i" using Cons.prems(3) by auto
  show ?case
  proof (cases "\<exists>model. map_of models i = Some (YMap model)")
    case True
    then obtain model where model: "map_of models i = Some (YMap model)" by blast
    obtain m1 port1 where r: "resolveModel i (macrosOf global locals i) port model = Inr (m1, port1)"
      and rest: "resolveModels global locals (pre @ mid # post) port1 (mput i (YMap m1) models) = Inr models'"
      using resolveModels_step[OF model Cons.prems(1)[unfolded append_Cons]] by metis
    obtain m where m: "applyMacros (macrosOf global locals i) model = Inr m"
      "port1 = (if wantsPort ''cmd'' m then port + 1 else port)"
      using resolveModel_port[OF r] by blast
    have same: "takesPort global locals (mput i (YMap m1) models) j = takesPort global locals models j" if "j \<noteq> i" for j
      using that by (simp add: takesPort_def)
    have f: "filter (takesPort global locals (mput i (YMap m1) models)) pre = filter (takesPort global locals models) pre"
    proof (rule filter_cong[OF refl])
      fix j assume "j \<in> set pre"
      then have "j \<noteq> i" using Cons.prems(3) by auto
      then show "takesPort global locals (mput i (YMap m1) models) j = takesPort global locals models j" by (rule same)
    qed
    have i: "takesPort global locals models i = wantsPort ''cmd'' m" using model m(1) by (simp add: takesPort_def)
    show ?thesis
      using Cons.IH[OF rest] Cons.prems(2,3) same[OF ni] ni f i m(2) by (auto simp: algebra_simps)
  next
    case False
    then have "resolveModels global locals (pre @ mid # post) port models = Inr models'"
      using Cons.prems(1) resolveModels_skip[OF False] by simp
    moreover have "\<not> takesPort global locals models i" using False by (auto simp: takesPort_def split: option.splits yval.splits)
    ultimately show ?thesis using Cons by simp
  qed
qed

lemma sorted_pre:
  assumes "sorted ids" "distinct ids" "ids = pre @ mid # post"
  shows "set pre = {j \<in> set ids. j < mid}"
  using assms by (auto simp: sorted_append less_le)


definition twoServers :: "(string \<times> yval) list" where
  "twoServers = [(''b'', YMap [(''cmd'', YStr ''${PORT}'')]), (''a'', YMap [(''cmd'', YStr ''${PORT}'')])]"


end
