(* ===== verification/ConfigMerge.thy ===== *)
theory ConfigMerge
  imports ConfigMacros
begin

text \<open>
  Merging the sources of a configuration, \<open>internal/config/merge.go\<close>. A source is a parsed document: scalars with
  their tags, mappings and sequences; an alias stands for itself. Reading and parsing the files, and the file's
  name in a message, are left out.
\<close>

section \<open>Nodes\<close>

datatype ynode = NScalar string string | NMapping "(string \<times> ynode) list" | NSequence "ynode list" | NAlias string

datatype mergeError =
    Conflict string
  | IncompatibleKinds string
  | DuplicateEntry string string
  | MappingExpected string
  | NoSourceGiven
  | NoSourceFound
  | AlsoInDir string
  | NotAMapping

definition identityMapPaths :: "string list" where
  "identityMapPaths = [''models'', ''groups'', ''profiles'', ''selectors'', ''peers'', ''matrix'',
     ''routing.router.settings.groups'', ''routing.router.settings.matrix'']"

definition isNullScalar :: "ynode \<Rightarrow> bool" where
  "isNullScalar n = (case n of NScalar tag v \<Rightarrow> (tag = ''!!null'' \<or> tag = []) \<and> v = [] | _ \<Rightarrow> False)"

text \<open>\<open>indexMapping\<close>: of equal keys the last counts.\<close>

definition indexMapping :: "(string \<times> ynode) list \<Rightarrow> string \<Rightarrow> ynode option" where
  "indexMapping content = map_of (rev content)"

definition joinPath :: "string \<Rightarrow> string \<Rightarrow> string" where
  "joinPath parent key = (if parent = [] then key else parent @ ''.'' @ key)"

section \<open>Merging\<close>

fun appendEntries :: "string \<Rightarrow> (string \<Rightarrow> ynode option) \<Rightarrow> (string \<times> ynode) list \<Rightarrow> mergeError + (string \<times> ynode) list" where
  "appendEntries mapName dstIdx [] = Inr []"
| "appendEntries mapName dstIdx ((key, v) # src) =
     (if dstIdx key \<noteq> None then Inl (DuplicateEntry mapName key)
      else andThen (appendEntries mapName dstIdx src) (\<lambda>rest. Inr ((key, v) # rest)))"

definition mergeIdentityMap :: "ynode \<Rightarrow> ynode \<Rightarrow> string \<Rightarrow> string \<Rightarrow> mergeError + ynode" where
  "mergeIdentityMap dst src path mapName =
     (case (dst, src) of
        (NMapping d, NMapping s) \<Rightarrow> andThen (appendEntries mapName (indexMapping d) s) (\<lambda>new. Inr (NMapping (d @ new)))
      | _ \<Rightarrow> Inl (MappingExpected path))"

text \<open>The first pass over the entries of the destination, each with what merges its value. \<open>merge\<close> is \<open>mergeValue\<close>.\<close>

definition mergeEntry ::
    "string \<Rightarrow> (string \<times> ynode) list \<Rightarrow> string \<times> ynode \<Rightarrow> (ynode \<Rightarrow> string \<Rightarrow> mergeError + ynode) \<Rightarrow> mergeError + string \<times> ynode" where
  "mergeEntry path src kv merge =
     (case kv of (key, v) \<Rightarrow>
        (case indexMapping src key of
           None \<Rightarrow> Inr (key, v)
         | Some sv \<Rightarrow>
             (let child = joinPath path key
              in andThen (if child \<in> set identityMapPaths then mergeIdentityMap v sv child key else merge sv child)
                   (\<lambda>v'. Inr (key, v')))))"

fun sequenceE :: "('e + 'a) list \<Rightarrow> 'e + 'a list" where
  "sequenceE [] = Inr []"
| "sequenceE (x # xs) = andThen x (\<lambda>a. andThen (sequenceE xs) (\<lambda>as. Inr (a # as)))"

definition mergeEntries ::
    "string \<Rightarrow> (string \<times> ynode) list \<Rightarrow> (string \<times> ynode) list \<Rightarrow> (ynode \<Rightarrow> string \<Rightarrow> mergeError + ynode) list \<Rightarrow> mergeError + ynode" where
  "mergeEntries path dst src merges =
     andThen (sequenceE (map2 (mergeEntry path src) dst merges))
       (\<lambda>merged. Inr (NMapping (merged @ filter (\<lambda>(key, v). indexMapping dst key = None) src)))"

definition orNull :: "ynode \<Rightarrow> ynode \<Rightarrow> string \<Rightarrow> mergeError + ynode" where
  "orNull dst src path = (if isNullScalar src then Inr dst else Inl (IncompatibleKinds path))"

primrec mergeValue :: "ynode \<Rightarrow> ynode \<Rightarrow> string \<Rightarrow> mergeError + ynode" where
  "mergeValue (NMapping d) src path =
     (case src of NMapping s \<Rightarrow> mergeEntries path d s (map (\<lambda>kv. snd kv) (map (map_prod (\<lambda>k. k) mergeValue) d))
      | _ \<Rightarrow> orNull (NMapping d) src path)"
| "mergeValue (NSequence d) src path =
     (case src of NSequence s \<Rightarrow> Inr (NSequence (d @ s)) | _ \<Rightarrow> orNull (NSequence d) src path)"
| "mergeValue (NScalar tag v) src path =
     (if isNullScalar (NScalar tag v) then Inr src
      else case src of
        NScalar tag' v' \<Rightarrow>
          if isNullScalar src \<or> v = v' \<and> tag = tag' then Inr (NScalar tag v) else Inl (Conflict path)
      | _ \<Rightarrow> orNull (NScalar tag v) src path)"
| "mergeValue (NAlias a) src path = orNull (NAlias a) src path"

definition mergeNodes :: "(string \<times> ynode) list \<Rightarrow> (string \<times> ynode) list \<Rightarrow> mergeError + ynode" where
  "mergeNodes dst src = mergeEntries [] dst src (map (mergeValue \<circ> snd) dst)"

section \<open>Sources\<close>

definition listYAMLFiles :: "(string \<times> bool) list \<Rightarrow> string list" where
  "listYAMLFiles entries =
     sort (map fst (filter (\<lambda>(name, isDir). \<not> isDir \<and> (hasSuffix name ''.yml'' \<or> hasSuffix name ''.yaml'')) entries))"

text \<open>\<open>parseSource\<close>: the root of the document, if it has one with content.\<close>

definition parseSource :: "ynode option \<Rightarrow> mergeError + ynode option" where
  "parseSource root =
     (case root of
        None \<Rightarrow> Inr None
      | Some (NMapping m) \<Rightarrow> Inr (if m = [] then None else Some (NMapping m))
      | Some (NSequence s) \<Rightarrow> if s = [] then Inr None else Inl NotAMapping
      | Some _ \<Rightarrow> Inr None)"

fun mergeSources :: "ynode option \<Rightarrow> ynode option list \<Rightarrow> mergeError + ynode option" where
  "mergeSources merged [] = Inr merged"
| "mergeSources merged (doc # docs) =
     andThen (parseSource doc) (\<lambda>node.
       case node of
         None \<Rightarrow> mergeSources merged docs
       | Some n \<Rightarrow>
           (case merged of
              None \<Rightarrow> mergeSources node docs
            | Some m \<Rightarrow>
                (case (m, n) of
                   (NMapping d, NMapping s) \<Rightarrow> andThen (mergeNodes d s) (\<lambda>m'. mergeSources (Some m') docs)
                 | _ \<Rightarrow> Inl NotAMapping)))"

text \<open>\<open>LoadConfigSources\<close>, up to the merged document: the file named on the command line first, then those of the
  directory in the order of their names.\<close>

definition LoadConfigSources ::
    "(string \<Rightarrow> string) \<Rightarrow> (string \<Rightarrow> ynode option) \<Rightarrow> string \<Rightarrow> string option \<Rightarrow> (string \<times> bool) list \<Rightarrow> mergeError + ynode option" where
  "LoadConfigSources absolute doc configPath configDir entries =
     (if configPath = [] \<and> configDir = None then Inl NoSourceGiven
      else let dirFiles = (case configDir of None \<Rightarrow> [] | Some dir \<Rightarrow> map (\<lambda>f. dir @ ''/'' @ f) (listYAMLFiles entries))
           in if configPath \<noteq> [] \<and> absolute configPath \<in> absolute ` set dirFiles then Inl (AlsoInDir configPath)
              else let paths = (if configPath = [] then [] else [configPath]) @ dirFiles
                   in if paths = [] then Inl NoSourceFound else mergeSources None (map doc paths))"

section \<open>Nothing is lost\<close>

text \<open>Descent through mappings.\<close>

fun nodeAt :: "string list \<Rightarrow> ynode \<Rightarrow> ynode option" where
  "nodeAt [] n = Some n"
| "nodeAt (k # p) (NMapping m) = (case map_of m k of None \<Rightarrow> None | Some n \<Rightarrow> nodeAt p n)"
| "nodeAt (k # p) n = None"

definition setsTo :: "string list \<Rightarrow> ynode \<Rightarrow> string \<times> string \<Rightarrow> bool" where
  "setsTo p n x \<longleftrightarrow> nodeAt p n = Some (NScalar (fst x) (snd x)) \<and> \<not> isNullScalar (NScalar (fst x) (snd x))"

primrec uniqueKeys :: "ynode \<Rightarrow> bool" where
  "uniqueKeys (NMapping m) = (distinct (map fst m) \<and> list_all snd (map (map_prod (\<lambda>k. k) uniqueKeys) m))"
| "uniqueKeys (NSequence s) = True"
| "uniqueKeys (NScalar tag v) = True"
| "uniqueKeys (NAlias a) = True"

lemma uniqueKeys_Mapping: "uniqueKeys (NMapping m) \<longleftrightarrow> distinct (map fst m) \<and> (\<forall>(k, n) \<in> set m. uniqueKeys n)"
  by (auto simp: list_all_iff)

lemma index_distinct:
  assumes "distinct (map fst m)"
  shows "indexMapping m k = map_of m k"
proof -
  have "distinct (map fst (rev m))" using assms by (simp add: rev_map[symmetric])
  then have "map_of (rev m) k = Some v \<longleftrightarrow> map_of m k = Some v" for v
    using assms by (simp add: map_of_eq_Some_iff)
  then show ?thesis unfolding indexMapping_def by (metis not_Some_eq)
qed

lemma sequence_rel:
  "sequenceE (map2 f xs ys) = Inr zs \<Longrightarrow> length xs = length ys \<Longrightarrow>
     list_all2 (\<lambda>(x, y) z. f x y = Inr z) (zip xs ys) zs"
proof (induction xs arbitrary: ys zs)
  case (Cons x xs)
  then obtain y ys' where "ys = y # ys'" by (cases ys) auto
  then show ?case using Cons by (auto simp: andThen_def split: sum.splits)
qed simp

lemma lookup_rel:
  "list_all2 (\<lambda>kv kv'. fst kv' = fst kv \<and> R (fst kv) (snd kv) (snd kv')) xs ys \<Longrightarrow>
     (case map_of xs k of None \<Rightarrow> map_of ys k = None | Some v \<Rightarrow> \<exists>v'. map_of ys k = Some v' \<and> R k v v')"
  by (induction rule: list_all2_induct) (auto split: option.splits)

definition mergedChild :: "string \<Rightarrow> ynode \<Rightarrow> ynode \<Rightarrow> string \<Rightarrow> ynode \<Rightarrow> bool" where
  "mergedChild child v sv key v' \<longleftrightarrow>
     (if child \<in> set identityMapPaths then mergeIdentityMap v sv child key else mergeValue v sv child) = Inr v'"

text \<open>The entries of a merged mapping.\<close>

lemma mergeEntries_lookup:
  assumes "mergeEntries path d s (map (mergeValue \<circ> snd) d) = Inr r" "distinct (map fst d)" "distinct (map fst s)"
  obtains m where "r = NMapping m" "distinct (map fst m)" "\<And>k. map_of m k =
      (case map_of d k of None \<Rightarrow> map_of s k | Some v \<Rightarrow> map_of m k)"
    "\<And>k v. map_of d k = Some v \<Longrightarrow> map_of s k = None \<Longrightarrow> map_of m k = Some v"
    "\<And>k v sv. map_of d k = Some v \<Longrightarrow> map_of s k = Some sv \<Longrightarrow> \<exists>v'. map_of m k = Some v' \<and> mergedChild (joinPath path k) v sv k v'"
proof -
  let ?R = "\<lambda>k v v'. case map_of s k of None \<Rightarrow> v' = v | Some sv \<Rightarrow> mergedChild (joinPath path k) v sv k v'"
  obtain ms where ms: "sequenceE (map2 (mergeEntry path s) d (map (mergeValue \<circ> snd) d)) = Inr ms"
    and r: "r = NMapping (ms @ filter (\<lambda>(key, v). indexMapping d key = None) s)"
    using assms(1) by (auto simp: mergeEntries_def andThen_def split: sum.splits)
  have "list_all2 (\<lambda>(kv, f) kv'. mergeEntry path s kv f = Inr kv') (zip d (map (mergeValue \<circ> snd) d)) ms"
    using sequence_rel[OF ms] by simp
  then have "list_all2 (\<lambda>kv kv'. mergeEntry path s kv (mergeValue (snd kv)) = Inr kv') d ms"
    by (auto simp: list_all2_conv_all_nth)
  then have rel: "list_all2 (\<lambda>kv kv'. fst kv' = fst kv \<and> ?R (fst kv) (snd kv) (snd kv')) d ms"
    by (rule list_all2_mono)
      (auto simp: mergeEntry_def index_distinct[OF assms(3)] mergedChild_def Let_def andThen_def
        split: option.splits sum.splits if_splits)
  note look = lookup_rel[OF rel]
  have none: "map_of (ms @ xs) k = (if map_of d k = None then map_of xs k else map_of ms k)" for xs k
    using look[of k] by (auto simp: map_add_def split: option.splits)
  have fil: "map_of (filter (\<lambda>(key, v). indexMapping d key = None) s) k = map_of s k" if "map_of d k = None" for k
    using that by (induction s) (auto simp: index_distinct[OF assms(2)])
  have keys: "map fst ms = map fst d"
    using rel by (induction rule: list_all2_induct) auto
  have dm: "distinct (map fst (ms @ filter (\<lambda>(key, v). indexMapping d key = None) s))"
  proof -
    have "distinct (map fst (filter (\<lambda>(key, v). indexMapping d key = None) s))" using assms(3) by (rule distinct_map_filter)
    moreover have "set (map fst d) \<inter> set (map fst (filter (\<lambda>(key, v). indexMapping d key = None) s)) = {}"
      using index_distinct[OF assms(2)] by (force simp: map_of_eq_None_iff)
    ultimately show ?thesis using assms(2) by (simp add: keys)
  qed
  show ?thesis
  proof (rule that[OF r dm])
    fix k
    show "map_of (ms @ filter (\<lambda>(key, v). indexMapping d key = None) s) k =
        (case map_of d k of None \<Rightarrow> map_of s k | Some v \<Rightarrow> map_of (ms @ filter (\<lambda>(key, v). indexMapping d key = None) s) k)"
      using none fil by (auto split: option.splits)
    show "map_of (ms @ filter (\<lambda>(key, v). indexMapping d key = None) s) k = Some v"
      if "map_of d k = Some v" "map_of s k = None" for v
      using that look[of k] by (auto simp: none)
    show "\<exists>v'. map_of (ms @ filter (\<lambda>(key, v). indexMapping d key = None) s) k = Some v' \<and> mergedChild (joinPath path k) v sv k v'"
      if "map_of d k = Some v" "map_of s k = Some sv" for v sv
      using that look[of k] by (auto simp: none)
  qed
qed

lemma setsTo_Cons: "setsTo (k # p) (NMapping m) x \<longleftrightarrow> (\<exists>n. map_of m k = Some n \<and> setsTo p n x)"
  by (auto simp: setsTo_def split: option.splits)

lemma setsTo_container [simp]:
  "\<not> setsTo [] (NMapping m) x" "\<not> setsTo p (NSequence xs) x" "\<not> setsTo p (NAlias a) x" "\<not> setsTo (k # p) (NScalar t v) x"
  by (cases p; simp add: setsTo_def)+

lemma setsTo_null [simp]: "isNullScalar n \<Longrightarrow> \<not> setsTo p n x"
  by (cases p; cases n) (auto simp: setsTo_def isNullScalar_def)

lemma appended:
  "appendEntries mapName idx src = Inr new \<Longrightarrow> new = src \<and> (\<forall>k \<in> set (map fst src). idx k = None)"
proof (induction src arbitrary: new)
  case (Cons kv src)
  then show ?case by (cases kv) (auto simp: andThen_def split: sum.splits if_splits)
qed simp

lemma identity_sets:
  assumes "mergeIdentityMap v sv path name = Inr r" "uniqueKeys v" "uniqueKeys sv"
  shows "uniqueKeys r \<and> (setsTo p r x \<longleftrightarrow> setsTo p v x \<or> setsTo p sv x)"
proof -
  obtain d s where ds: "v = NMapping d" "sv = NMapping s"
    using assms(1) by (auto simp: mergeIdentityMap_def split: ynode.splits)
  then obtain new where n: "appendEntries name (indexMapping d) s = Inr new" and r: "r = NMapping (d @ new)"
    using assms(1) by (auto simp: mergeIdentityMap_def andThen_def split: sum.splits)
  have dist: "distinct (map fst d)" using assms(2) ds by simp
  have disj: "new = s" "k \<in> set (map fst s) \<Longrightarrow> map_of d k = None" for k
    using appended[OF n] index_distinct[OF dist] by auto
  have "set (map fst d) \<inter> set (map fst s) = {}"
    using disj(2) by (metis disjoint_iff image_set map_of_eq_None_iff)
  then have "uniqueKeys r" using assms(2,3) unfolding r ds disj(1) uniqueKeys_Mapping by auto
  moreover have "setsTo p r x \<longleftrightarrow> setsTo p v x \<or> setsTo p sv x"
  proof (cases p)
    case (Cons k p')
    have "map_of (d @ s) k = (case map_of d k of None \<Rightarrow> map_of s k | Some n \<Rightarrow> Some n)"
      by (auto simp: map_add_def map_of_eq_None_iff dest: disj(2) split: option.splits)
    moreover have "map_of s k = None \<or> map_of d k = None"
      using disj(2)[of k] by (metis image_set map_of_eq_None_iff)
    ultimately show ?thesis using Cons by (auto simp: ds r disj(1) setsTo_Cons split: option.splits)
  qed (simp add: ds r)
  ultimately show ?thesis by blast
qed

lemma mergeValue_sets:
  "mergeValue d s path = Inr r \<Longrightarrow> uniqueKeys d \<Longrightarrow> uniqueKeys s \<Longrightarrow>
     uniqueKeys r \<and> (setsTo p r x \<longleftrightarrow> setsTo p d x \<or> setsTo p s x)"
proof (induction d arbitrary: s path r p)
  case (NScalar tag v)
  show ?case
  proof (cases "isNullScalar (NScalar tag v)")
    case False
    then show ?thesis using NScalar.prems(1) by (auto simp: orNull_def isNullScalar_def split: ynode.splits if_splits)
  qed (use NScalar in simp)
next
  case (NSequence d)
  then show ?case by (cases s) (auto simp: orNull_def split: if_splits)
next
  case (NAlias a)
  then show ?case by (auto simp: orNull_def split: if_splits)
next
  case (NMapping d)
  show ?case
  proof (cases "\<exists>sm. s = NMapping sm")
    case False
    then show ?thesis using NMapping.prems(1,2) by (cases s) (auto simp: orNull_def split: if_splits)
  next
    case True
    then obtain sm where sm: "s = NMapping sm" by blast
    have e: "mergeEntries path d sm (map (mergeValue \<circ> snd) d) = Inr r"
      using NMapping.prems(1) by (simp add: sm comp_def)
    have u: "distinct (map fst d)" "distinct (map fst sm)" "\<forall>(k, n) \<in> set d. uniqueKeys n" "\<forall>(k, n) \<in> set sm. uniqueKeys n"
      using NMapping.prems(2,3) unfolding sm uniqueKeys_Mapping by auto
    obtain m where m: "r = NMapping m" "distinct (map fst m)"
      "\<And>k. map_of d k = None \<Longrightarrow> map_of m k = map_of sm k"
      "\<And>k v. map_of d k = Some v \<Longrightarrow> map_of sm k = None \<Longrightarrow> map_of m k = Some v"
      "\<And>k v sv. map_of d k = Some v \<Longrightarrow> map_of sm k = Some sv \<Longrightarrow>
         \<exists>v'. map_of m k = Some v' \<and> mergedChild (joinPath path k) v sv k v'"
      by (rule mergeEntries_lookup[OF e u(1,2)]) (metis option.case(1))
    have child: "uniqueKeys v' \<and> (setsTo q v' x \<longleftrightarrow> setsTo q v x \<or> setsTo q sv x)"
      if "map_of d k = Some v" "map_of sm k = Some sv" "mergedChild (joinPath path k) v sv k v'" for k v sv v' q
    proof -
      have in_d: "(k, v) \<in> set d" and un: "uniqueKeys v" "uniqueKeys sv"
        using u(3,4) map_of_SomeD[OF that(1)] map_of_SomeD[OF that(2)] by auto
      show ?thesis
      proof (cases "joinPath path k \<in> set identityMapPaths")
        case True
        then show ?thesis using that(3) identity_sets[OF _ un] by (simp add: mergedChild_def)
      next
        case False
        then have "mergeValue v sv (joinPath path k) = Inr v'" using that(3) by (simp add: mergedChild_def)
        then show ?thesis using NMapping.IH[OF in_d, of v] un by (simp add: snds.simps)
      qed
    qed
    have "uniqueKeys n" if "(k, n) \<in> set m" for k n
    proof -
      have mk: "map_of m k = Some n" using that m(2) by simp
      show ?thesis
      proof (cases "map_of d k")
        case None
        then show ?thesis using m(3) mk u(4) map_of_SomeD[of sm k n] by auto
      next
        case (Some v)
        then show ?thesis
          using m(4)[OF Some] m(5)[OF Some] mk child[OF Some] u(3) map_of_SomeD[OF Some]
          by (cases "map_of sm k") fastforce+
      qed
    qed
    then have "uniqueKeys r" unfolding m(1) uniqueKeys_Mapping using m(2) by blast
    moreover have "setsTo p r x \<longleftrightarrow> setsTo p (NMapping d) x \<or> setsTo p s x"
    proof (cases p)
      case (Cons k p')
      show ?thesis
      proof (cases "map_of d k")
        case None
        then show ?thesis using m(3) by (simp add: Cons m(1) sm setsTo_Cons)
      next
        case (Some v)
        note dk = Some
        show ?thesis
        proof (cases "map_of sm k")
          case None
          then show ?thesis using m(4)[OF dk] dk by (simp add: Cons m(1) sm setsTo_Cons)
        next
          case (Some sv)
          obtain v' where v': "map_of m k = Some v'" "mergedChild (joinPath path k) v sv k v'" using m(5)[OF dk Some] by blast
          then show ?thesis using child[OF dk Some v'(2)] dk Some by (simp add: Cons m(1) sm setsTo_Cons)
        qed
      qed
    qed (simp add: m(1) sm)
    ultimately show ?thesis by blast
  qed
qed

definition docSets :: "string list \<Rightarrow> string \<times> string \<Rightarrow> ynode option \<Rightarrow> bool" where
  "docSets p x doc \<longleftrightarrow> (case doc of None \<Rightarrow> False | Some n \<Rightarrow> setsTo p n x)"

definition docUnique :: "ynode option \<Rightarrow> bool" where
  "docUnique doc \<longleftrightarrow> (case doc of Some (NMapping m) \<Rightarrow> uniqueKeys (NMapping m) | None \<Rightarrow> True | _ \<Rightarrow> False)"

lemma parsed:
  "parseSource doc = Inr node \<Longrightarrow> docUnique doc \<Longrightarrow>
     (node = None \<or> node = doc) \<and> docUnique node \<and> docSets (k # p) x node = docSets (k # p) x doc"
  by (auto simp: parseSource_def docUnique_def docSets_def setsTo_Cons split: option.splits ynode.splits if_splits)

lemma sources_sets:
  "mergeSources merged docs = Inr r \<Longrightarrow> docUnique merged \<Longrightarrow> \<forall>doc \<in> set docs. docUnique doc \<Longrightarrow>
     docSets (k # p) x r \<longleftrightarrow> docSets (k # p) x merged \<or> (\<exists>doc \<in> set docs. docSets (k # p) x doc)"
proof (induction docs arbitrary: merged)
  case (Cons doc docs)
  obtain node where n: "parseSource doc = Inr node" using Cons.prems(1) by (auto simp: andThen_def split: sum.splits)
  note pn = parsed[OF n, of k p x]
  have du: "docUnique doc" "docUnique node" "docSets (k # p) x node = docSets (k # p) x doc"
    using pn Cons.prems(3) by auto
  have noneSets: "\<not> docSets (k # p) x None" by (simp add: docSets_def)
  consider "node = None" | s where "node = Some (NMapping s)" using du(2) by (auto simp: docUnique_def split: option.splits ynode.splits)
  then show ?case
  proof cases
    case 1
    then have "mergeSources merged docs = Inr r" using Cons.prems(1) n by (simp add: andThen_def)
    then show ?thesis using Cons.IH Cons.prems(2,3) du(3) 1 noneSets by auto
  next
    case (2 s)
    show ?thesis
    proof (cases merged)
      case None
      then have "mergeSources node docs = Inr r" using Cons.prems(1) n 2 by (simp add: andThen_def)
      then show ?thesis using Cons.IH du Cons.prems(3) None noneSets by auto
    next
      case (Some d0)
      then obtain d where d: "merged = Some (NMapping d)" using Cons.prems(2) by (cases d0) (auto simp: docUnique_def)
      then obtain m where m: "mergeNodes d s = Inr m" and rest: "mergeSources (Some m) docs = Inr r"
        using Cons.prems(1) n 2 by (auto simp: andThen_def split: sum.splits)
      have mv: "mergeValue (NMapping d) (NMapping s) [] = Inr m" using m by (simp add: mergeNodes_def comp_def)
      have "uniqueKeys (NMapping d)" "uniqueKeys (NMapping s)" using Cons.prems(2) d du(2) 2 by (simp_all add: docUnique_def)
      note ms = mergeValue_sets[OF mv this]
      obtain m' where "m = NMapping m'" using m by (auto simp: mergeNodes_def mergeEntries_def andThen_def split: sum.splits)
      then have "docUnique (Some m)" using ms by (simp add: docUnique_def)
      then show ?thesis using Cons.IH[OF rest] Cons.prems(3) ms du(3) 2 d by (auto simp: docSets_def)
    qed
  qed
qed simp



text \<open>A null written out is no null here: it conflicts with what another source says.\<close>

lemma explicit_null_conflicts:
  "mergeNodes [(''store'', NScalar ''!!null'' ''null'')] [(''store'', NMapping [(''path'', NScalar ''!!str'' ''x'')])]
     = Inl (IncompatibleKinds ''store'')"
  "mergeNodes [(''store'', NScalar ''!!null'' [])] [(''store'', NMapping [(''path'', NScalar ''!!str'' ''x'')])]
     = Inr (NMapping [(''store'', NMapping [(''path'', NScalar ''!!str'' ''x'')])])"
  by (simp_all add: mergeNodes_def mergeEntries_def mergeEntry_def indexMapping_def andThen_def joinPath_def
      identityMapPaths_def isNullScalar_def orNull_def)

end
