(* ===== verification/ConfigLoad.thy ===== *)
theory ConfigLoad
  imports ConfigMacros MatrixConfig Swapper MemBrake LoopTrack
begin

text \<open>
  Loading a configuration: what \<open>LoadConfigFromReader\<close> of \<open>internal/config/load.go\<close> does with a decoded
  configuration, the validations of \<open>selectors.go\<close>, \<open>peer.go\<close>, \<open>model_config.go\<close> and \<open>menubar.go\<close>, the defaults
  and the lookups of \<open>config.go\<close>. Decoding is the yaml package's. What the operating system, the URL parser, the
  pattern matcher and the tailcat library say is a record of parameters. A Go map is an association list in its
  iteration order.
\<close>

section \<open>The configuration\<close>

record ModelConf =
  mcAliases :: "string list"
  mcProxy :: string
  mcTTL :: int
  mcSwapGrace :: int
  mcUnloadTimeout :: int
  mcConcurrency :: int
  mcLargePrefill :: int
  mcSlotGrace :: int
  mcCapIn :: "string list"
  mcCapOut :: "string list"
  mcCapContext :: int
  mcSetParamsByID :: "string list"
  mcSendLoading :: "bool option"
  mcIgnoreWebsockets :: bool
  mcHealthTimeout :: int

record SelectorConf =
  scStrategy :: string
  scTargets :: "string list"
  scSpillover :: int

text \<open>\<open>pcTailcat\<close>: the client key, the connection token and the identity of the loaded private key.\<close>

record PeerConf =
  pcModels :: "string list"
  pcTailcat :: "(string \<times> string \<times> string) option"

record TailcatConf =
  tcAllow :: "string list"
  tcModels :: "string list"
  tcAllowedClients :: "string list"

record Config =
  cHealthCheckTimeout :: int
  cEvery :: duration
  cStartPort :: int
  cGlobalTTL :: int
  cSwapGrace :: int
  cResidentGrace :: int
  cDecodeRetention :: int
  cFifoRetention :: int
  cStarvation :: int
  cBrake :: MemoryBrakeConfig
  cReleaseBelow :: rat
  cPurgeCommand :: "string list"
  cDebugEnabled :: bool
  cDebugInterval :: int
  cDebugRetain :: int
  cLoop :: LoopGuard
  cUnloadTimeout :: int
  cGlobalConcurrency :: int
  cSessionHeaders :: "string list"
  cStore :: "string option"
  cIgnorePaths :: "string list"
  cBars :: "string list"
  cTiers :: "(string, string) gomap"
  cLogTo :: string
  cModels :: "(string, ModelConf) gomap"
  cAliases :: "(string, string) gomap"
  cResidentAliases :: "string list"
  cSendLoading :: bool
  cMatrix :: "MatrixConfig option"
  cProgram :: "program option"
  cGroups :: "(string, GroupConfig) gomap"
  cUse :: string
  cRouterMatrix :: "MatrixConfig option"
  cRouterGroups :: "(string, GroupConfig) gomap"
  cScheduler :: string
  cPriority :: "(string, int) gomap"
  cPreload :: "string list"
  cHookProfile :: string
  cKeys :: "string list"
  cPeers :: "(string, PeerConf) gomap"
  cSelectors :: "(string, SelectorConf) gomap"
  cProfiles :: "(string, (string, string) gomap) gomap"
  cTailcat :: "TailcatConf option"

record ConfigEnv =
  ceStoreError :: "string \<Rightarrow> bool"
  ceBadPattern :: "string \<Rightarrow> bool"
  ceBadURL :: "string \<Rightarrow> bool"
  ceNodeKey :: "string \<Rightarrow> string option"
  ceDestination :: "string \<Rightarrow> string"

text \<open>An error by the setting it blames, and the name it quotes.\<close>

datatype configError = ConfigErr string string | MatrixErr matrix_error

definition bad :: "string \<Rightarrow> configError" where "bad setting = ConfigErr setting []"

definition firstFailing :: "(bool \<times> 'e) list \<Rightarrow> 'e option" where
  "firstFailing checks = map_option snd (List.find fst checks)"

section \<open>Lookups\<close>

definition RealModelName :: "Config \<Rightarrow> string \<Rightarrow> string option" where
  "RealModelName c search = (if map_of (cModels c) search \<noteq> None then Some search else map_of (cAliases c) search)"

definition FindConfig :: "Config \<Rightarrow> string \<Rightarrow> (ModelConf \<times> string) option" where
  "FindConfig c modelName =
     (case RealModelName c modelName of
        None \<Rightarrow> None
      | Some realName \<Rightarrow> map_option (\<lambda>mc. (mc, realName)) (map_of (cModels c) realName))"

definition PeerModelFQN :: "string \<Rightarrow> string \<Rightarrow> string" where
  "PeerModelFQN peerID modelID = peerID @ ''/'' @ modelID"

text \<open>One of the two passes of \<open>ResolvePeerModel\<close>: \<open>None\<close>, ambiguous.\<close>

fun resolvePass :: "(string \<Rightarrow> string \<Rightarrow> bool) \<Rightarrow> (string \<times> string) list \<Rightarrow> (string \<times> string) option \<Rightarrow> (string \<times> string) option option" where
  "resolvePass matches [] found = Some found"
| "resolvePass matches ((peerID, m) # rest) found =
     (if \<not> matches peerID m then resolvePass matches rest found
      else if found \<noteq> None \<and> found \<noteq> Some (peerID, m) then None
      else resolvePass matches rest (Some (peerID, m)))"

definition peerModels :: "Config \<Rightarrow> (string \<times> string) list" where
  "peerModels c = concat (map (\<lambda>(peerID, p). map (Pair peerID) (remdups (pcModels p))) (cPeers c))"

definition ResolvePeerModel :: "Config \<Rightarrow> string \<Rightarrow> (string \<times> string) option" where
  "ResolvePeerModel c search =
     (case resolvePass (\<lambda>p m. PeerModelFQN p m = search) (peerModels c) None of
        None \<Rightarrow> None
      | Some (Some r) \<Rightarrow> Some r
      | Some None \<Rightarrow>
          (case resolvePass (\<lambda>p m. m = search) (peerModels c) None of None \<Rightarrow> None | Some r \<Rightarrow> r))"

definition ResolveBaseModel :: "Config \<Rightarrow> string \<Rightarrow> string option" where
  "ResolveBaseModel c search =
     (case RealModelName c search of
        Some realName \<Rightarrow> Some realName
      | None \<Rightarrow> if ResolvePeerModel c search \<noteq> None then Some search else None)"

section \<open>Plain settings\<close>

definition brakeCheck :: "Config \<Rightarrow> configError option" where
  "brakeCheck c =
     (let mb = cBrake c in firstFailing
       [(SampleIntervalMs mb \<le> 0 \<or> WindowMinutes mb \<le> 0 \<or> GrowthGB mb \<le> 0 \<or> ArmAfterMinutes mb < 0
           \<or> ConfirmSamples mb < 1 \<or> DrainBelowGB mb < 0, bad ''memoryBrake''),
        (cReleaseBelow c \<noteq> 0, bad ''memoryBrake.releaseWhenModelsEvictedBelowGB''),
        (PurgeAfterMinutes mb < 0, bad ''memoryBrake.purgeAfterMinutes''),
        (PurgeAfterMinutes mb > 0 \<and> cPurgeCommand c = [], bad ''memoryBrake.purgeCommand'')])"

definition loopCheck :: "LoopGuard \<Rightarrow> configError option" where
  "loopCheck lg = firstFailing
     [(RunBar lg < 2 \<or> ToleranceTokens lg < 0, bad ''loopGuard.runBar''),
      (Strikes lg < 1 \<or> ClearRequests lg < 1, bad ''loopGuard.strikes''),
      (MaxLoopTokens lg < 1, bad ''loopGuard.maxLoopTokens''),
      (MaxPeriod lg < 1 \<or> MaxPeriod lg * 4 > RunBar lg, bad ''loopGuard.maxPeriod''),
      (int (length (PenaltySeconds lg)) \<noteq> Strikes lg, bad ''loopGuard.penaltySeconds''),
      (list_ex (\<lambda>p. p < -1) (PenaltySeconds lg), bad ''loopGuard.penaltySeconds'')]"

fun normalizeNames :: "string list \<Rightarrow> string list \<Rightarrow> string list" where
  "normalizeNames seenKeys [] = []"
| "normalizeNames seenKeys (n # ns) =
     (let name = TrimSpaceUTF8 n; key = ToLower name in
      if name = [] \<or> key \<in> set seenKeys then normalizeNames seenKeys ns
      else name # normalizeNames (key # seenKeys) ns)"

definition normalizeHeaderNames :: "string list \<Rightarrow> string list" where
  "normalizeHeaderNames names = normalizeNames [] names"

definition MenuBarMetrics :: "string list" where
  "MenuBarMetrics = [''gpu'', ''vram'', ''cpu'', ''ram'']"

fun barsLoop :: "string list \<Rightarrow> string list \<Rightarrow> configError + string list" where
  "barsLoop seenBars [] = Inr []"
| "barsLoop seenBars (b # bs) =
     (let normalized = ToLower (TrimSpaceUTF8 b) in
      if normalized \<notin> set MenuBarMetrics then Inl (ConfigErr ''menu_bar'' b)
      else if normalized \<in> set seenBars then Inl (ConfigErr ''menu_bar'' normalized)
      else andThen (barsLoop (normalized # seenBars) bs) (\<lambda>rest. Inr (normalized # rest)))"

definition menuBarValidate :: "string list \<Rightarrow> configError + string list" where
  "menuBarValidate bars =
     (if length bars < 1 \<or> length bars > 2 then Inl (bad ''menu_bar.bars'') else barsLoop [] bars)"

fun tiersLoop :: "(string \<times> string) list \<Rightarrow> string list \<Rightarrow> configError option" where
  "tiersLoop [] seenListen = None"
| "tiersLoop ((name, listen) # ts) seenListen =
     (if TrimSpaceUTF8 listen = [] then Some (ConfigErr ''tiers'' name)
      else if listen \<in> set seenListen then Some (ConfigErr ''tiers.listen'' name)
      else tiersLoop ts (listen # seenListen))"

definition tiersCheck :: "(string, string) gomap \<Rightarrow> configError option" where
  "tiersCheck tiers = tiersLoop (map (\<lambda>n. (n, case map_of tiers n of Some l \<Rightarrow> l | None \<Rightarrow> [])) (sort (mkeys tiers))) []"

definition logTargets :: "string list" where
  "logTargets = [''proxy'', ''upstream'', ''both'', ''none'']"

definition DefaultUpstreamIgnorePathsPattern :: string where
  "DefaultUpstreamIgnorePathsPattern = ''.*'' @ [CHR 92] @ ''.(js|json|css|png|gif|jpg|jpeg|ico|txt)$''"

definition DEFAULT_UNLOAD_TIMEOUT :: int where "DEFAULT_UNLOAD_TIMEOUT = 10"

text \<open>Loading is a row of steps: a check of the configuration as it is by then, or an assignment.\<close>

definition need :: "(Config \<Rightarrow> configError option) \<Rightarrow> Config \<Rightarrow> configError + Config" where
  "need check c = failIf (check c) (Inr c)"

definition settle :: "(Config \<Rightarrow> Config) \<Rightarrow> Config \<Rightarrow> configError + Config" where
  "settle f c = Inr (f c)"

primrec runSteps :: "(Config \<Rightarrow> configError + Config) list \<Rightarrow> Config \<Rightarrow> configError + Config" where
  "runSteps [] c = Inr c"
| "runSteps (s # ss) c = andThen (s c) (runSteps ss)"

definition loadPlain :: "ConfigEnv \<Rightarrow> (Config \<Rightarrow> configError + Config) list" where
  "loadPlain env =
     [settle (cHealthCheckTimeout_update (max 15)),
      settle (cEvery_update (\<lambda>every. if every = 0 then 5 * Second else every)),
      need (\<lambda>c. firstFailing
        [(cEvery c < 5 * Second, bad ''performance''), (cStartPort c < 1, bad ''startPort''), (cGlobalTTL c < 0, bad ''globalTTL''),
         (cSwapGrace c < 0, bad ''swapGraceSeconds''), (cResidentGrace c < 0, bad ''residentAliasGraceSeconds''),
         (cDecodeRetention c < 0, bad ''sessions.decodeRetentionSeconds'')]),
      settle (\<lambda>c. c\<lparr>cFifoRetention := cDecodeRetention c\<rparr>),
      need (\<lambda>c. firstFailing [(cStarvation c > 0 \<or> cStarvation c < -1, bad ''swapStarvationSeconds'')]),
      need brakeCheck,
      need (\<lambda>c. firstFailing [(cDebugEnabled c \<and> (cDebugInterval c \<le> 0 \<or> cDebugRetain c \<le> 0), bad ''debugHistory'')]),
      settle (cDebugInterval_update (max 1000)),
      need (\<lambda>c. loopCheck (cLoop c)),
      need (\<lambda>c. firstFailing [(cUnloadTimeout c < 0, bad ''unloadTimeout'')]),
      settle (cUnloadTimeout_update (\<lambda>secs. if secs = 0 then DEFAULT_UNLOAD_TIMEOUT else secs)),
      need (\<lambda>c. firstFailing [(cGlobalConcurrency c < 0, bad ''globalConcurrencyLimit'')]),
      settle (cSessionHeaders_update normalizeHeaderNames),
      need (\<lambda>c. case cStore c of
          None \<Rightarrow> None | Some path \<Rightarrow> firstFailing [(TrimSpaceUTF8 path = [] \<or> ceStoreError env path, bad ''store.path'')]),
      settle (cIgnorePaths_update (\<lambda>paths. if paths = [] then [DefaultUpstreamIgnorePathsPattern] else paths)),
      (\<lambda>c. andThen (menuBarValidate (cBars c)) (\<lambda>bars. Inr (c\<lparr>cBars := bars\<rparr>))),
      need (\<lambda>c. tiersCheck (cTiers c)),
      need (\<lambda>c. firstFailing [(cLogTo c \<notin> set logTargets, bad ''logToStdout'')])]"

section \<open>Models and aliases\<close>

fun addAliases :: "string \<Rightarrow> string list \<Rightarrow> (string, string) gomap \<Rightarrow> configError + (string, string) gomap" where
  "addAliases modelName [] aliases = Inr aliases"
| "addAliases modelName (alias # as) aliases =
     (if map_of aliases alias \<noteq> None then Inl (ConfigErr ''duplicate alias'' alias)
      else addAliases modelName as (mput alias modelName aliases))"

fun collectAliases :: "(string \<times> ModelConf) list \<Rightarrow> (string, string) gomap \<Rightarrow> configError + (string, string) gomap" where
  "collectAliases [] aliases = Inr aliases"
| "collectAliases ((modelName, mc) # ms) aliases =
     andThen (addAliases modelName (mcAliases mc) aliases) (collectAliases ms)"

definition residentCheck :: "ConfigEnv \<Rightarrow> Config \<Rightarrow> configError option" where
  "residentCheck env c = firstFailing (concat (map (\<lambda>pattern.
     [(ceBadPattern env pattern, ConfigErr ''residentAliases'' pattern),
      (RealModelName c pattern \<noteq> None, ConfigErr ''residentAliases'' pattern)]) (cResidentAliases c)))"

definition ComfyUIModelID :: string where "ComfyUIModelID = ''comfyui_auto''"
definition comfyUIConcurrencyLimit :: int where "comfyUIConcurrencyLimit = 50"

definition validModalities :: "string list" where
  "validModalities = [''text'', ''audio'', ''image'', ''video'']"

definition capabilitiesCheck :: "ModelConf \<Rightarrow> configError option" where
  "capabilitiesCheck mc = firstFailing
     [(\<not> set (mcCapIn mc) \<subseteq> set validModalities, bad ''capabilities.in''),
      (\<not> set (mcCapOut mc) \<subseteq> set validModalities, bad ''capabilities.out''),
      (mcCapContext mc < 0, bad ''capabilities.context'')]"

text \<open>The names of \<open>setParamsByID\<close> become aliases of their model.\<close>

fun registerKeys ::
    "string \<Rightarrow> (string, ModelConf) gomap \<Rightarrow> string list \<Rightarrow> (string, string) gomap \<Rightarrow> string list \<Rightarrow>
      configError + (string, string) gomap \<times> string list" where
  "registerKeys modelId models [] aliases own = Inr (aliases, own)"
| "registerKeys modelId models (key # keys) aliases own =
     (if key = modelId then registerKeys modelId models keys aliases own
      else if map_of models key \<noteq> None then Inl (ConfigErr ''setParamsByID'' key)
      else case map_of aliases key of
        Some existingModel \<Rightarrow>
          if existingModel \<noteq> modelId then Inl (ConfigErr ''duplicate alias'' key) else registerKeys modelId models keys aliases own
      | None \<Rightarrow> registerKeys modelId models keys (mput key modelId aliases) (own @ [key]))"

definition modelDefaults :: "Config \<Rightarrow> string \<Rightarrow> ModelConf \<Rightarrow> ModelConf" where
  "modelDefaults c modelId mc0 =
     (let mc = mc0\<lparr>mcHealthTimeout := cHealthCheckTimeout c\<rparr>;
          mc = (if modelId = ComfyUIModelID
                then mc\<lparr>mcConcurrency := max comfyUIConcurrencyLimit (mcConcurrency mc), mcIgnoreWebsockets := True\<rparr> else mc)
      in mc\<lparr>mcTTL := (if mcTTL mc = -1 then cGlobalTTL c else mcTTL mc),
            mcSwapGrace := (if mcSwapGrace mc = -1 then cSwapGrace c else mcSwapGrace mc)\<rparr>)"

definition modelCheck :: "ModelConf \<Rightarrow> configError option" where
  "modelCheck mc = firstFailing
     [(mcTTL mc < 0, bad ''ttl''), (mcSwapGrace mc < 0, bad ''model.swapGraceSeconds''),
      (mcUnloadTimeout mc < 0, bad ''model.unloadTimeout''), (mcLargePrefill mc < 0, bad ''maxParallelLargePrefill''),
      (mcSlotGrace mc \<noteq> 0, bad ''slotGraceSeconds'')]"

definition loadModel :: "ConfigEnv \<Rightarrow> string \<Rightarrow> Config \<Rightarrow> configError + Config" where
  "loadModel env modelId c =
     (case map_of (cModels c) modelId of
        None \<Rightarrow> Inr c
      | Some mc0 \<Rightarrow>
          (let mc = modelDefaults c modelId mc0 in
           failIf (modelCheck mc)
             (let mc1 = mc\<lparr>mcUnloadTimeout := (if mcUnloadTimeout mc = 0 then cUnloadTimeout c else mcUnloadTimeout mc)\<rparr> in
              failIf (capabilitiesCheck mc1)
                (andThen (registerKeys modelId (cModels c) (mcSetParamsByID mc1) (cAliases c) []) (\<lambda>(aliases, own).
                   failIf (if ceBadURL env (mcProxy mc1) then Some (ConfigErr ''proxy'' modelId) else None)
                     (let mc2 = mc1\<lparr>mcAliases := mcAliases mc1 @ own,
                              mcSendLoading := (if mcSendLoading mc1 = None then Some (cSendLoading c) else mcSendLoading mc1)\<rparr>
                      in Inr (c\<lparr>cAliases := aliases, cModels := mput modelId mc2 (cModels c)\<rparr>)))))))"

definition loadModels :: "ConfigEnv \<Rightarrow> (Config \<Rightarrow> configError + Config) list" where
  "loadModels env =
     [(\<lambda>c. andThen (collectAliases (cModels c) []) (\<lambda>aliases. Inr (c\<lparr>cAliases := aliases\<rparr>))),
      need (residentCheck env),
      (\<lambda>c. runSteps (map (loadModel env) (sort (mkeys (cModels c)))) c)]"

section \<open>Routing\<close>

definition DEFAULT_GROUP_ID :: string where "DEFAULT_GROUP_ID = ''(default)''"

definition AddDefaultGroupToConfig :: "Config \<Rightarrow> Config" where
  "AddDefaultGroupToConfig c =
     (let names = mkeys (cModels c);
          members = (if cGroups c = [] then names
                     else filter (\<lambda>m. \<not> list_ex (\<lambda>(gid, g). m \<in> set (gMembers g)) (cGroups c)) names)
      in c\<lparr>cGroups := mput DEFAULT_GROUP_ID
             \<lparr>gSwap = True, gExclusive = True, gPersistent = False, gMembers = sort members\<rparr> (cGroups c)\<rparr>)"

fun memberLoop :: "string \<Rightarrow> string list \<Rightarrow> string list \<Rightarrow> (string, string) gomap \<Rightarrow> configError + (string, string) gomap" where
  "memberLoop groupID [] prevSet usage = Inr usage"
| "memberLoop groupID (member # ms) prevSet usage =
     (if member \<in> set prevSet then Inl (ConfigErr ''duplicate member'' member)
      else if map_of usage member \<noteq> None then Inl (ConfigErr ''multiple groups'' member)
      else memberLoop groupID ms (member # prevSet) (mput member groupID usage))"

fun groupsLoop :: "(string \<times> GroupConfig) list \<Rightarrow> (string, string) gomap \<Rightarrow> configError option" where
  "groupsLoop [] usage = None"
| "groupsLoop ((groupID, g) # gs) usage =
     (case memberLoop groupID (gMembers g) [] usage of Inl e \<Rightarrow> Some e | Inr usage' \<Rightarrow> groupsLoop gs usage')"

definition normalizeRouting :: "Config \<Rightarrow> configError + Config" where
  "normalizeRouting c =
     (let hasTopLevel = (cMatrix c \<noteq> None \<or> cGroups c \<noteq> []);
          hasRouting = (cUse c \<noteq> [] \<or> cRouterMatrix c \<noteq> None \<or> cRouterGroups c \<noteq> [])
      in if hasTopLevel \<and> hasRouting then Inl (bad ''routing.router'')
         else if hasTopLevel then Inr c
         else if cUse c = ''matrix'' then
           (if cRouterMatrix c = None then Inl (bad ''routing.router.settings.matrix'') else Inr (c\<lparr>cMatrix := cRouterMatrix c\<rparr>))
         else if cUse c = ''group'' \<or> cUse c = [] then Inr (c\<lparr>cGroups := cRouterGroups c\<rparr>)
         else Inl (ConfigErr ''routing.router.use'' (cUse c)))"

definition checkRouting :: "Config \<Rightarrow> configError + Config" where
  "checkRouting c =
     (case cMatrix c of
        Some matrix \<Rightarrow>
          (case ValidateMatrix matrix (cModels c) of Inl e \<Rightarrow> Inl (MatrixErr e) | Inr program \<Rightarrow> Inr (c\<lparr>cProgram := Some program\<rparr>))
      | None \<Rightarrow> (let c' = AddDefaultGroupToConfig c in failIf (groupsLoop (cGroups c') []) (Inr c')))"

definition canonicalRouting :: "Config \<Rightarrow> Config" where
  "canonicalRouting c = c\<lparr>cUse := (if cMatrix c \<noteq> None then ''matrix'' else ''group''),
     cRouterMatrix := cMatrix c, cRouterGroups := cGroups c,
     cScheduler := (if cScheduler c = [] then ''fifo'' else cScheduler c)\<rparr>"

definition loadRouting :: "(Config \<Rightarrow> configError + Config) list" where
  "loadRouting =
     [normalizeRouting,
      need (\<lambda>c. firstFailing [(cMatrix c \<noteq> None \<and> cGroups c \<noteq> [], bad ''groups and matrix'')]),
      checkRouting,
      settle canonicalRouting,
      need (\<lambda>c. firstFailing [(cScheduler c \<noteq> ''fifo'', ConfigErr ''routing.scheduler.use'' (cScheduler c))]),
      need (\<lambda>c. firstFailing (map (\<lambda>(m, p). (RealModelName c m = None, ConfigErr ''priority'' m)) (cPriority c)))]"

section \<open>Hooks, keys, peers\<close>

definition loadPreload :: "Config \<Rightarrow> Config" where
  "loadPreload c = c\<lparr>cPreload := List.map_filter (\<lambda>m. let name = TrimSpaceUTF8 m in if name = [] then None else RealModelName c name) (cPreload c)\<rparr>"

definition keysCheck :: "string list \<Rightarrow> configError option" where
  "keysCheck keys = firstFailing (concat (map (\<lambda>k. [(k = [], bad ''apiKeys''), (containsSub '' '' k, bad ''apiKeys'')]) keys))"

text \<open>\<open>ValidatePeerNamespace\<close>: first that no two peer models have one full name, then that nothing else bears it.\<close>

fun fqnLoop :: "(string \<times> string) list \<Rightarrow> string list \<Rightarrow> configError + string list" where
  "fqnLoop [] fqns = Inr fqns"
| "fqnLoop ((peerID, m) # rest) fqns =
     (let fqn = PeerModelFQN peerID m in
      if fqn \<in> set fqns then Inl (ConfigErr ''ambiguous peer model'' fqn) else fqnLoop rest (fqn # fqns))"

definition sortedPeerModels :: "Config \<Rightarrow> (string \<times> string) list" where
  "sortedPeerModels c =
     concat (map (\<lambda>id. map (Pair id) (case map_of (cPeers c) id of Some p \<Rightarrow> remdups (pcModels p) | None \<Rightarrow> [])) (sort (mkeys (cPeers c))))"

definition reservedCheck :: "Config \<Rightarrow> string \<Rightarrow> configError option" where
  "reservedCheck c fqn = firstFailing
     [(map_of (cModels c) fqn \<noteq> None, ConfigErr ''model ID conflicts with peer model'' fqn),
      (list_ex (\<lambda>(m, mc). fqn \<in> set (mcAliases mc)) (cModels c), ConfigErr ''alias conflicts with peer model'' fqn),
      (map_of (cAliases c) fqn \<noteq> None, ConfigErr ''alias conflicts with peer model'' fqn),
      (map_of (cSelectors c) fqn \<noteq> None, ConfigErr ''selector conflicts with peer model'' fqn),
      (list_ex (\<lambda>(id, pins). map_of pins fqn \<noteq> None) (cProfiles c), ConfigErr ''pin conflicts with peer model'' fqn)]"

definition ValidatePeerNamespace :: "Config \<Rightarrow> configError option" where
  "ValidatePeerNamespace c =
     (case fqnLoop (sortedPeerModels c) [] of
        Inl e \<Rightarrow> Some e
      | Inr fqns \<Rightarrow> firstError (map (reservedCheck c) (sort fqns)))"

section \<open>Selectors and profiles\<close>

definition memberGroup :: "Config \<Rightarrow> (string, string) gomap" where
  "memberGroup c = foldl (\<lambda>m (groupID, g). foldl (\<lambda>m member. mput member groupID m) m (gMembers g)) [] (cRouterGroups c)"

definition validateSpilloverCoexistence :: "Config \<Rightarrow> string \<Rightarrow> string list \<Rightarrow> configError option" where
  "validateSpilloverCoexistence c selectorID targets =
     (case targets of
        [] \<Rightarrow> None
      | [t] \<Rightarrow> None
      | t # rest \<Rightarrow>
          if cUse c = ''matrix'' then
            (case cProgram c of
               Some program \<Rightarrow> if CanContainAll program targets then None else Some (ConfigErr ''selector matrix'' selectorID)
             | None \<Rightarrow> Some (ConfigErr ''selector matrix'' selectorID))
          else
            (let get = (\<lambda>m. case map_of (memberGroup c) m of Some g \<Rightarrow> g | None \<Rightarrow> []); groupID = get t in
             firstFailing
               [(groupID = [], ConfigErr ''selector target in no group'' selectorID),
                ((case map_of (cRouterGroups c) groupID of Some g \<Rightarrow> gSwap g | None \<Rightarrow> False), ConfigErr ''selector group swaps'' selectorID),
                (list_ex (\<lambda>m. get m \<noteq> groupID) rest, ConfigErr ''selector targets in two groups'' selectorID)]))"

definition targetCheck :: "Config \<Rightarrow> string \<Rightarrow> SelectorConf \<Rightarrow> string \<Rightarrow> configError option" where
  "targetCheck c selectorID sc target = firstFailing
     [(map_of (cSelectors c) target \<noteq> None, ConfigErr ''selector chaining'' selectorID),
      (ResolveBaseModel c target = None, ConfigErr ''selector target unknown'' selectorID),
      (scStrategy sc = ''warm'' \<and> RealModelName c target = None, ConfigErr ''selector target not local'' selectorID)]"

definition resolvedTarget :: "Config \<Rightarrow> string \<Rightarrow> string" where
  "resolvedTarget c target =
     (case RealModelName c target of
        Some realName \<Rightarrow> realName
      | None \<Rightarrow> (case ResolvePeerModel c target of Some (p, m) \<Rightarrow> PeerModelFQN p m | None \<Rightarrow> PeerModelFQN [] []))"

definition selectorCheck :: "Config \<Rightarrow> string \<times> SelectorConf \<Rightarrow> configError option" where
  "selectorCheck c x =
     (case x of (selectorID, sc) \<Rightarrow>
        let resolved = map (resolvedTarget c) (scTargets sc);
            local = map (resolvedTarget c) (filter (\<lambda>t. RealModelName c t \<noteq> None) (scTargets sc))
        in firstError
          (firstFailing
            [(TrimSpaceUTF8 selectorID = [], bad ''selectors''),
             (map_of (cModels c) selectorID \<noteq> None, ConfigErr ''selector is a model'' selectorID),
             (map_of (cAliases c) selectorID \<noteq> None, ConfigErr ''selector is an alias'' selectorID),
             (scStrategy sc \<notin> {''pin'', ''warm'', ''spillover''}, ConfigErr ''selector strategy'' selectorID),
             (scTargets sc = [], ConfigErr ''selector targets'' selectorID)]
           # map (targetCheck c selectorID sc) (scTargets sc)
           @ (if scStrategy sc \<noteq> ''spillover'' then []
              else [firstFailing [(scSpillover sc < 1, ConfigErr ''spillover'' selectorID),
                      (\<not> distinct resolved, ConfigErr ''selector targets repeated'' selectorID)],
                    validateSpilloverCoexistence c selectorID local])))"

definition validateSelectors :: "Config \<Rightarrow> configError option" where
  "validateSelectors c = firstError (map (selectorCheck c) (cSelectors c))"

definition profileCheck :: "Config \<Rightarrow> string \<times> (string, string) gomap \<Rightarrow> configError option" where
  "profileCheck c x =
     (case x of (profileName, pins) \<Rightarrow>
        firstFailing ((TrimSpaceUTF8 profileName = [], bad ''profiles'') # (pins = [], ConfigErr ''profile pins'' profileName)
          # concat (map (\<lambda>(pin, target).
              [(TrimSpaceUTF8 pin = [], ConfigErr ''profile pin'' profileName),
               (target \<noteq> [] \<and> ResolveBaseModel c target = None \<and> map_of (cSelectors c) target = None, ConfigErr ''profile target'' target)]) pins)))"

definition validateProfiles :: "Config \<Rightarrow> configError option" where
  "validateProfiles c =
     firstError (map (profileCheck c) (cProfiles c)
       @ [firstFailing [(cHookProfile c \<noteq> [] \<and> map_of (cProfiles c) (cHookProfile c) = None, ConfigErr ''hooks profile'' (cHookProfile c))]])"

section \<open>Tailcat\<close>

fun allowLoop :: "ConfigEnv \<Rightarrow> string list \<Rightarrow> string list \<Rightarrow> configError + string list" where
  "allowLoop env [] seenKeys = Inr []"
| "allowLoop env (raw # rs) seenKeys =
     (if ceNodeKey env raw \<noteq> Some raw then Inl (ConfigErr ''tailcat.allow'' raw)
      else if raw \<in> set seenKeys then allowLoop env rs seenKeys
      else andThen (allowLoop env rs (raw # seenKeys)) (\<lambda>rest. Inr (raw # rest)))"

definition publicTailcatModelIDs :: "Config \<Rightarrow> string list" where
  "publicTailcatModelIDs c =
     map fst (cModels c) @ concat (map (mcAliases \<circ> snd) (cModels c)) @ map fst (cSelectors c)
     @ concat (map (map fst \<circ> snd) (cProfiles c)) @ map (\<lambda>(p, m). PeerModelFQN p m) (peerModels c)"

fun tailcatModels :: "string list \<Rightarrow> string list \<Rightarrow> string list \<Rightarrow> configError + string list" where
  "tailcatModels valid [] seenModels = Inr []"
| "tailcatModels valid (m # ms) seenModels =
     (if m = [] \<or> m \<noteq> ''*'' \<and> m \<notin> set valid then Inl (ConfigErr ''tailcat.models'' m)
      else if m \<in> set seenModels then tailcatModels valid ms seenModels
      else andThen (tailcatModels valid ms (m # seenModels)) (\<lambda>rest. Inr (m # rest)))"

fun identityLoop :: "ConfigEnv \<Rightarrow> (string \<times> PeerConf) list \<Rightarrow> (string, string) gomap \<Rightarrow> configError option" where
  "identityLoop env [] used = None"
| "identityLoop env ((peerID, p) # ps) used =
     (case pcTailcat p of
        None \<Rightarrow> identityLoop env ps used
      | Some (key, blob, client) \<Rightarrow>
          if key = [] \<or> key = ''ephemeral'' then identityLoop env ps used
          else let server = ceDestination env blob in
            if map_of used client \<noteq> None \<and> map_of used client \<noteq> Some server then Some (ConfigErr ''tailcatKey'' peerID)
            else identityLoop env ps (mput client server used))"

definition validateTailcatConfig :: "ConfigEnv \<Rightarrow> Config \<Rightarrow> configError + Config" where
  "validateTailcatConfig env c =
     andThen (case cTailcat c of
         None \<Rightarrow> Inr c
       | Some tc \<Rightarrow>
           andThen (allowLoop env (tcAllow tc) []) (\<lambda>allow.
             andThen (tailcatModels (publicTailcatModelIDs c) (tcModels tc) []) (\<lambda>ms.
               Inr (c\<lparr>cTailcat := Some (tc\<lparr>tcAllow := allow, tcAllowedClients := allow, tcModels := ms\<rparr>)\<rparr>))))
       (\<lambda>c'. failIf (identityLoop env (cPeers c') []) (Inr c'))"

section \<open>Loading\<close>

definition loadRest :: "ConfigEnv \<Rightarrow> (Config \<Rightarrow> configError + Config) list" where
  "loadRest env = [settle loadPreload, need (\<lambda>c. keysCheck (cKeys c)), need ValidatePeerNamespace, need validateSelectors,
     need validateProfiles, validateTailcatConfig env]"

definition finishLoad :: "ConfigEnv \<Rightarrow> Config \<Rightarrow> configError + Config" where
  "finishLoad env = runSteps (loadPlain env @ loadModels env @ loadRouting @ loadRest env)"

datatype loadError = EnvOrMacro macroError | Undecodable string | BadConfig configError

text \<open>\<open>LoadConfigFromReader\<close>: \<open>parse\<close> gives the macro declarations and the untyped document, \<open>decode\<close> the typed one
  with its defaults, \<open>clean\<close> and \<open>decodeInt\<close> are as for the macros.\<close>

definition LoadConfigFromReader ::
    "ConfigEnv \<Rightarrow> (string \<Rightarrow> string option) \<Rightarrow> (string \<Rightarrow> string option) \<Rightarrow> (int \<Rightarrow> yval \<Rightarrow> int option) \<Rightarrow>
     (string \<Rightarrow> string + macros \<times> (string, macros) gomap \<times> (string \<times> yval) list) \<Rightarrow>
     ((string \<times> yval) list \<Rightarrow> string + Config) \<Rightarrow> string \<Rightarrow> loadError + Config" where
  "LoadConfigFromReader cenv clean getenv decodeInt parse decode txt =
     andThen (map_sum EnvOrMacro (\<lambda>x. x) (substituteEnvMacros clean getenv txt)) (\<lambda>yamlStr.
     andThen (map_sum Undecodable (\<lambda>x. x) (parse yamlStr)) (\<lambda>(global, locals, raw).
     andThen (map_sum EnvOrMacro (\<lambda>x. x) (resolveConfigMacros decodeInt global locals raw)) (\<lambda>resolved.
     andThen (map_sum Undecodable (\<lambda>x. x) (decode resolved)) (\<lambda>c. map_sum BadConfig (\<lambda>x. x) (finishLoad cenv c)))))"

end
