(* ===== verification/Selector.thy ===== *)
theory Selector
  imports ConfigLoad Scheduler "HOL-Library.Word"
begin

text \<open>
  Selectors (\<open>internal/server/selector.go\<close>): a virtual model whose requests go to one of several targets. A \<open>pin\<close>
  takes the first, \<open>warm\<close> the first that runs, \<open>spillover\<close> spreads requests over the running ones up to a limit and
  only then wakes another. The spillover state counts the requests it has placed; its mutex makes each operation one
  step. \<open>RunningModels\<close> (\<open>internal/router/base.go\<close>) is what it is told of the processes.
\<close>

section \<open>State\<close>

record spilloverTarget =
  stTarget :: string
  stModelID :: string
  stLocal :: bool

record spilloverState =
  stSpillover :: int
  stTargets :: "spilloverTarget list"
  stInflight :: "(string, int) gomap"
  stRR :: "64 word"

type_synonym spilloverTracker = "(string, spilloverState) gomap"

definition newTarget :: "Config \<Rightarrow> string \<Rightarrow> spilloverTarget" where
  "newTarget conf target = \<lparr>stTarget = target, stModelID = resolvedTarget conf target, stLocal = (RealModelName conf target \<noteq> None)\<rparr>"

definition newSelectorSpilloverTracker :: "Config \<Rightarrow> spilloverTracker" where
  "newSelectorSpilloverTracker conf =
     foldl (\<lambda>tracker (selectorID, sc).
       if scStrategy sc \<noteq> ''spillover'' then tracker
       else mput selectorID \<lparr>stSpillover = scSpillover sc, stTargets = map (newTarget conf) (scTargets sc), stInflight = [], stRR = 0\<rparr> tracker)
       [] (cSelectors conf)"

text \<open>\<open>RunningModels\<close> of the base router, over the processes and their states.\<close>

definition RunningModels :: "(string, ProcessState) gomap \<Rightarrow> (string, ProcessState) gomap" where
  "RunningModels procs = filter (\<lambda>(mid, st). st \<noteq> StateStopped \<and> st \<noteq> StateShutdown) procs"

section \<open>Strategies\<close>

datatype selectorError = NoTargets | NotConfigured string | NoneAvailable string | UnknownStrategy string

definition strategyPin :: "SelectorConf \<Rightarrow> selectorError + string" where
  "strategyPin sc = (case scTargets sc of [] \<Rightarrow> Inl NoTargets | t # ts \<Rightarrow> Inr t)"

text \<open>A target that is no local model reads as the empty model name.\<close>

definition runsIn :: "Config \<Rightarrow> (string, ProcessState) gomap \<Rightarrow> ProcessState \<Rightarrow> string \<Rightarrow> bool" where
  "runsIn conf running st target = (map_of running (case RealModelName conf target of Some m \<Rightarrow> m | None \<Rightarrow> []) = Some st)"

definition strategyWarm :: "Config \<Rightarrow> SelectorConf \<Rightarrow> (string, ProcessState) gomap \<Rightarrow> selectorError + string" where
  "strategyWarm conf sc running =
     (case scTargets sc of
        [] \<Rightarrow> Inl NoTargets
      | t # ts \<Rightarrow>
          (case List.find (runsIn conf running StateReady) (scTargets sc) of
             Some target \<Rightarrow> Inr target
           | None \<Rightarrow>
               (case List.find (runsIn conf running StateStarting) (scTargets sc) of
                  Some target \<Rightarrow> Inr target
                | None \<Rightarrow> Inr t)))"

text \<open>The lowest number of placed requests; \<open>-1\<close> when there are no targets.\<close>

definition minimumBusy :: "spilloverState \<Rightarrow> spilloverTarget list \<Rightarrow> int" where
  "minimumBusy s targets =
     foldl (\<lambda>least t. let n = mint (stInflight s) (stModelID t) in if least < 0 \<or> n < least then n else least) (-1) targets"

definition reserve :: "spilloverTarget \<Rightarrow> spilloverState \<Rightarrow> string \<times> spilloverState" where
  "reserve t s = (stTarget t, s\<lparr>stInflight := mput (stModelID t) (mint (stInflight s) (stModelID t) + 1) (stInflight s)\<rparr>)"

definition reserveLeastBusy :: "spilloverTarget list \<Rightarrow> spilloverState \<Rightarrow> string \<times> spilloverState" where
  "reserveLeastBusy targets s =
     (let least = minimumBusy s targets;
          tied = filter (\<lambda>t. mint (stInflight s) (stModelID t) = least) targets;
          t = tied ! (unat (stRR s mod of_nat (length tied)))
      in reserve t (s\<lparr>stRR := stRR s + 1\<rparr>))"

text \<open>Where the loop of \<open>strategySpillover\<close> puts a target.\<close>

datatype standing = Active | Cold | Passed

definition standingOf :: "spilloverState \<Rightarrow> (string, ProcessState) gomap \<Rightarrow> spilloverTarget \<Rightarrow> standing" where
  "standingOf s running t =
     (if \<not> stLocal t then (if mint (stInflight s) (stModelID t) > 0 then Active else Cold)
      else case map_of running (stModelID t) of
        Some StateStopping \<Rightarrow> Passed
      | Some StateShutdown \<Rightarrow> Passed
      | Some StateReady \<Rightarrow> Active
      | Some StateStarting \<Rightarrow> Active
      | st \<Rightarrow> if mint (stInflight s) (stModelID t) > 0 then Active else Cold)"

definition activeTargets :: "spilloverState \<Rightarrow> (string, ProcessState) gomap \<Rightarrow> spilloverTarget list" where
  "activeTargets s running = filter (\<lambda>t. standingOf s running t = Active) (stTargets s)"

definition coldTargets :: "spilloverState \<Rightarrow> (string, ProcessState) gomap \<Rightarrow> spilloverTarget list" where
  "coldTargets s running = filter (\<lambda>t. standingOf s running t = Cold) (stTargets s)"

definition chooseSpillover ::
    "string \<Rightarrow> (string, ProcessState) gomap \<Rightarrow> spilloverState \<Rightarrow> selectorError + string \<times> spilloverState" where
  "chooseSpillover selectorID running s =
     (let busyOnes = activeTargets s running; coldOnes = coldTargets s running in
      if busyOnes = [] then (if coldOnes = [] then Inl (NoneAvailable selectorID) else Inr (reserve (hd coldOnes) s))
      else if minimumBusy s busyOnes < stSpillover s then Inr (reserveLeastBusy busyOnes s)
      else if coldOnes \<noteq> [] then Inr (reserve (hd coldOnes) s)
      else Inr (reserveLeastBusy busyOnes s))"

definition strategySpillover ::
    "string \<Rightarrow> spilloverTracker \<Rightarrow> (string, ProcessState) gomap \<Rightarrow> selectorError + string \<times> spilloverTracker" where
  "strategySpillover selectorID tracker running =
     (case map_of tracker selectorID of
        None \<Rightarrow> Inl (NotConfigured selectorID)
      | Some s \<Rightarrow> map_sum (\<lambda>e. e) (\<lambda>(target, s'). (target, mput selectorID s' tracker)) (chooseSpillover selectorID running s))"

definition releaseTarget :: "string \<Rightarrow> spilloverState \<Rightarrow> spilloverState" where
  "releaseTarget target s =
     (case List.find (\<lambda>t. stTarget t = target \<and> mint (stInflight s) (stModelID t) > 0) (stTargets s) of
        None \<Rightarrow> s
      | Some t \<Rightarrow> s\<lparr>stInflight := mput (stModelID t) (mint (stInflight s) (stModelID t) - 1) (stInflight s)\<rparr>)"

definition releaseSpillover :: "string \<Rightarrow> string \<Rightarrow> spilloverTracker \<Rightarrow> spilloverTracker" where
  "releaseSpillover selectorID target tracker =
     (case map_of tracker selectorID of None \<Rightarrow> tracker | Some s \<Rightarrow> mput selectorID (releaseTarget target s) tracker)"

section \<open>The middleware\<close>

text \<open>What happens to a request: it passes unchanged, it is answered, or it goes on with another model, and then with a
  reservation that is given back when it returns. \<open>model\<close> is the model the request names (empty when none can be read),
  \<open>replaced\<close> whether the body could be rewritten.\<close>

datatype selectorOutcome = Untouched | Answered int | Forwarded string bool

definition selectorEnter ::
    "Config \<Rightarrow> spilloverTracker \<Rightarrow> (string, ProcessState) gomap \<Rightarrow> string \<Rightarrow> bool \<Rightarrow> bool \<Rightarrow> selectorOutcome \<times> spilloverTracker" where
  "selectorEnter conf tracker running model replaced websocket =
     (if cSelectors conf = [] \<or> model = [] then (Untouched, tracker)
      else case map_of (cSelectors conf) model of
        None \<Rightarrow> (Untouched, tracker)
      | Some sc \<Rightarrow>
          let choice = (if scStrategy sc = ''pin'' then map_sum (\<lambda>e. e) (\<lambda>t. (t, tracker)) (strategyPin sc)
                        else if scStrategy sc = ''warm'' then map_sum (\<lambda>e. e) (\<lambda>t. (t, tracker)) (strategyWarm conf sc running)
                        else if scStrategy sc = ''spillover'' then strategySpillover model tracker running
                        else Inl (UnknownStrategy (scStrategy sc)))
          in case choice of
            Inl e \<Rightarrow> (Answered 503, tracker)
          | Inr (target, tracker') \<Rightarrow>
              if \<not> replaced
              then (Answered 400, if scStrategy sc = ''spillover'' then releaseSpillover model target tracker' else tracker')
              else if scStrategy sc \<noteq> ''spillover'' then (Forwarded target False, tracker')
              else case FindConfig conf target of
                Some (mc, m) \<Rightarrow>
                  if mcIgnoreWebsockets mc \<and> websocket then (Forwarded target False, releaseSpillover model target tracker')
                  else (Forwarded target True, tracker')
              | None \<Rightarrow> (Forwarded target True, tracker'))"

text \<open>The request returns.\<close>

definition selectorLeave :: "string \<Rightarrow> selectorOutcome \<Rightarrow> spilloverTracker \<Rightarrow> spilloverTracker" where
  "selectorLeave model outcome tracker =
     (case outcome of Forwarded target True \<Rightarrow> releaseSpillover model target tracker | _ \<Rightarrow> tracker)"

end
