(* ===== verification/ConfigValid.thy ===== *)
theory ConfigValid
  imports ConfigLoad BrakeSafety
begin

text \<open>
  What a configuration promises once \<open>LoadConfigFromReader\<close> has accepted it: its numbers lie where the scheduler, the
  loop tracker and the memory brake need them, its alias table is exact, every name it refers to resolves, its groups
  are what the group planner accepts with every model in exactly one, and the local targets of a spillover selector can
  run together. And what the checks miss.
\<close>

section \<open>Rows of steps\<close>

named_theorems steps \<open>when a step, a row of steps or a check succeeds\<close>

lemma andThen_Inr [steps]: "andThen x f = Inr b \<longleftrightarrow> (\<exists>a. x = Inr a \<and> f a = Inr b)"
  by (cases x) (simp_all add: andThen_def)

lemma failIf_Inr [steps]: "failIf e x = Inr b \<longleftrightarrow> e = None \<and> x = Inr b"
  by (cases e) (simp_all add: failIf_def)

lemma need_Inr [steps]: "need check c = Inr d \<longleftrightarrow> check c = None \<and> d = c"
  by (auto simp: need_def failIf_Inr)

lemma settle_Inr [steps]: "settle f c = Inr d \<longleftrightarrow> d = f c"
  by (auto simp: settle_def)

lemma runSteps_Nil_Inr [steps]: "runSteps [] c = Inr d \<longleftrightarrow> d = c"
  by auto

lemma runSteps_Cons_Inr [steps]: "runSteps (s # ss) c = Inr d \<longleftrightarrow> (\<exists>m. s c = Inr m \<and> runSteps ss m = Inr d)"
  by (simp add: andThen_Inr)

lemma runSteps_append_Inr [steps]:
  "runSteps (xs @ ys) c = Inr d \<longleftrightarrow> (\<exists>m. runSteps xs c = Inr m \<and> runSteps ys m = Inr d)"
  by (induction xs arbitrary: c) (auto simp: andThen_Inr)

lemma firstFailing_None [steps]: "firstFailing checks = None \<longleftrightarrow> (\<forall>(b, e) \<in> set checks. \<not> b)"
  unfolding firstFailing_def by (induction checks) auto

lemma firstError_None [steps]: "firstError es = None \<longleftrightarrow> (\<forall>e \<in> set es. e = None)"
  by (induction es) auto

lemma firstFailing_Cons [simp]: "firstFailing ((b, e) # xs) = None \<longleftrightarrow> \<not> b \<and> firstFailing xs = None"
  by (simp add: firstFailing_None)

lemma firstFailing_Nil [simp]: "firstFailing [] = None"
  by (simp add: firstFailing_def)

declare runSteps.simps(2) [simp del]
declare firstError.simps(2) [simp del]

section \<open>Plain settings\<close>

definition bars_ok :: "string list \<Rightarrow> bool" where
  "bars_ok bars \<longleftrightarrow> bars \<noteq> [] \<and> length bars \<le> 2 \<and> distinct bars \<and> set bars \<subseteq> set MenuBarMetrics"

lemma barsLoop_Inr:
  "barsLoop seenBars bs = Inr r \<Longrightarrow> distinct r \<and> set r \<subseteq> set MenuBarMetrics \<and> set r \<inter> set seenBars = {} \<and> length r = length bs"
proof (induction seenBars bs arbitrary: r rule: barsLoop.induct)
  case (2 seenBars b bs)
  from "2.prems" obtain a where "barsLoop (ToLower (TrimSpaceUTF8 b) # seenBars) bs = Inr a" "r = ToLower (TrimSpaceUTF8 b) # a"
    "ToLower (TrimSpaceUTF8 b) \<in> set MenuBarMetrics" "ToLower (TrimSpaceUTF8 b) \<notin> set seenBars"
    by (auto simp: Let_def andThen_Inr split: if_splits)
  with "2.IH"[OF refl _ _ this(1)] show ?case by auto
qed simp

lemma menuBarValidate_ok: "menuBarValidate bars = Inr r \<Longrightarrow> bars_ok r"
  using barsLoop_Inr[of "[]" bars r] by (auto simp: menuBarValidate_def bars_ok_def split: if_splits)

lemma normalizeNames_set:
  "set (map ToLower (normalizeNames seenKeys ns)) \<inter> set seenKeys = {} \<and>
     distinct (map ToLower (normalizeNames seenKeys ns)) \<and> [] \<notin> set (normalizeNames seenKeys ns)"
  by (induction seenKeys ns rule: normalizeNames.induct) (auto simp: Let_def)

definition brake_ok :: "Config \<Rightarrow> bool" where
  "brake_ok c \<longleftrightarrow> cfg_ok (cBrake c) \<and> 0 < GrowthGB (cBrake c) \<and> 1 \<le> ConfirmSamples (cBrake c) \<and> 0 \<le> DrainBelowGB (cBrake c) \<and>
     0 \<le> PurgeAfterMinutes (cBrake c) \<and> (0 < PurgeAfterMinutes (cBrake c) \<longrightarrow> cPurgeCommand c \<noteq> []) \<and> cReleaseBelow c = 0"

text \<open>The guard is one that the tracker takes as it is, with one penalty per strike.\<close>

definition loop_ok :: "LoopGuard \<Rightarrow> bool" where
  "loop_ok g \<longleftrightarrow> guard_ok g \<and> normalizeGuard g = g \<and> int (length (PenaltySeconds g)) = Strikes g \<and>
     (\<forall>p \<in> set (PenaltySeconds g). -1 \<le> p) \<and> 4 * MaxPeriod g \<le> RunBar g"

definition plain_ok :: "Config \<Rightarrow> bool" where
  "plain_ok c \<longleftrightarrow>
     15 \<le> cHealthCheckTimeout c \<and> 5 * Second \<le> cEvery c \<and> 1 \<le> cStartPort c \<and> 0 \<le> cGlobalTTL c \<and> 0 \<le> cSwapGrace c \<and>
     0 \<le> cResidentGrace c \<and> 0 \<le> cDecodeRetention c \<and> cFifoRetention c = cDecodeRetention c \<and> cStarvation c \<in> {-1, 0} \<and>
     brake_ok c \<and> 1000 \<le> cDebugInterval c \<and> loop_ok (cLoop c) \<and> 1 \<le> cUnloadTimeout c \<and> 0 \<le> cGlobalConcurrency c \<and>
     distinct (map ToLower (cSessionHeaders c)) \<and> cIgnorePaths c \<noteq> [] \<and> bars_ok (cBars c) \<and> cLogTo c \<in> set logTargets"

lemma brakeCheck_ok: "brakeCheck c = None \<Longrightarrow> brake_ok c"
  by (auto simp: brakeCheck_def brake_ok_def cfg_ok_def Let_def)

lemma loopCheck_ok: "loopCheck g = None \<Longrightarrow> loop_ok g"
  by (auto simp: loopCheck_def loop_ok_def guard_ok_def normalizeGuard_def Let_def list_ex_iff not_less)

lemma unloadTimeout_ok: "0 \<le> u \<Longrightarrow> 1 \<le> (if u = 0 then DEFAULT_UNLOAD_TIMEOUT else u)"
  by (simp add: DEFAULT_UNLOAD_TIMEOUT_def)

lemma ignorePaths_ok: "(if ps = [] then [DefaultUpstreamIgnorePathsPattern] else ps) \<noteq> []"
  by simp

lemma headerNames_ok: "distinct (map ToLower (normalizeHeaderNames ns))"
  using normalizeNames_set[of "[]" ns] by (simp add: normalizeHeaderNames_def)

lemma brakeCheck_fields:
  "brakeCheck (cEvery_update e c) = brakeCheck c" "brakeCheck (cHealthCheckTimeout_update h c) = brakeCheck c"
  "brakeCheck (cFifoRetention_update r c) = brakeCheck c"
  by (simp_all add: brakeCheck_def)

lemma loadPlain_run:
  assumes "runSteps (loadPlain env) c = Inr d"
  obtains bars where "menuBarValidate (cBars c) = Inr bars" "brakeCheck c = None" "loopCheck (cLoop c) = None"
    "5 * Second \<le> (if cEvery c = 0 then 5 * Second else cEvery c)" "1 \<le> cStartPort c" "0 \<le> cGlobalTTL c" "0 \<le> cSwapGrace c"
    "0 \<le> cResidentGrace c" "0 \<le> cDecodeRetention c" "-1 \<le> cStarvation c" "cStarvation c \<le> 0" "0 \<le> cUnloadTimeout c"
    "0 \<le> cGlobalConcurrency c" "cLogTo d \<in> set logTargets"
    "d = cIgnorePaths_update (\<lambda>paths. if paths = [] then [DefaultUpstreamIgnorePathsPattern] else paths)
      (cSessionHeaders_update normalizeHeaderNames
      (cUnloadTimeout_update (\<lambda>secs. if secs = 0 then DEFAULT_UNLOAD_TIMEOUT else secs)
      (cDebugInterval_update (max 1000)
      (cEvery_update (\<lambda>every. if every = 0 then 5 * Second else every)
      (cHealthCheckTimeout_update (max 15) c)\<lparr>cFifoRetention := cDecodeRetention c\<rparr>))))\<lparr>cBars := bars\<rparr>"
  using assms unfolding loadPlain_def steps
  apply (elim exE conjE)
  apply hypsubst
  apply (simp split del: if_split del: Product_Type.split_paired_All add: brakeCheck_fields not_less)
  apply (elim conjE)
  apply (rule that)
  apply (assumption | (simp split del: if_split; fail))+
  done

lemma loadPlain_ok:
  assumes "runSteps (loadPlain env) c = Inr d"
  shows "plain_ok d" "cModels d = cModels c" "cGroups d = cGroups c" "cRouterGroups d = cRouterGroups c"
proof -
  obtain bars where b: "menuBarValidate (cBars c) = Inr bars" "brakeCheck c = None" "loopCheck (cLoop c) = None"
    "5 * Second \<le> (if cEvery c = 0 then 5 * Second else cEvery c)" "1 \<le> cStartPort c" "0 \<le> cGlobalTTL c" "0 \<le> cSwapGrace c"
    "0 \<le> cResidentGrace c" "0 \<le> cDecodeRetention c" "-1 \<le> cStarvation c" "cStarvation c \<le> 0" "0 \<le> cUnloadTimeout c"
    "0 \<le> cGlobalConcurrency c" "cLogTo d \<in> set logTargets"
    and d: "d = cIgnorePaths_update (\<lambda>paths. if paths = [] then [DefaultUpstreamIgnorePathsPattern] else paths)
      (cSessionHeaders_update normalizeHeaderNames
      (cUnloadTimeout_update (\<lambda>secs. if secs = 0 then DEFAULT_UNLOAD_TIMEOUT else secs)
      (cDebugInterval_update (max 1000)
      (cEvery_update (\<lambda>every. if every = 0 then 5 * Second else every)
      (cHealthCheckTimeout_update (max 15) c)\<lparr>cFifoRetention := cDecodeRetention c\<rparr>))))\<lparr>cBars := bars\<rparr>"
    using assms by (rule loadPlain_run)
  have "bars_ok bars" "brake_ok c" "loop_ok (cLoop c)" using b(1-3) by (simp_all add: menuBarValidate_ok loopCheck_ok brakeCheck_ok)
  moreover have "cStarvation c \<in> {-1, 0}" using b(10,11) by auto
  moreover have "cLogTo c \<in> set logTargets" using b(14) by (simp add: d split del: if_split)
  ultimately show "plain_ok d" using b(4-9,12,13)
    by (simp add: plain_ok_def brake_ok_def d unloadTimeout_ok ignorePaths_ok headerNames_ok split del: if_split)
  show "cModels d = cModels c" "cGroups d = cGroups c" "cRouterGroups d = cRouterGroups c"
    by (simp_all add: d split del: if_split)
qed

section \<open>Models and aliases\<close>

lemma addAliases_Inr:
  "addAliases m as al = Inr al' \<Longrightarrow> map_of al' = (\<lambda>a. if a \<in> set as then Some m else map_of al a) \<and> set as \<inter> dom (map_of al) = {}"
  by (induction m as al arbitrary: al' rule: addAliases.induct) (auto simp: fun_eq_iff split: if_splits)

lemma collectAliases_Inr:
  assumes "collectAliases ms al = Inr al'" "distinct (map fst ms)"
  shows "map_of al' a = Some m \<longleftrightarrow> map_of al a = Some m \<or> (\<exists>mc. map_of ms m = Some mc \<and> a \<in> set (mcAliases mc))"
  using assms
proof (induction ms al arbitrary: al' rule: collectAliases.induct)
  case (2 name mc ms al)
  from "2.prems"(1) obtain al1 where al1: "addAliases name (mcAliases mc) al = Inr al1" "collectAliases ms al1 = Inr al'"
    by (auto simp: andThen_Inr)
  have "map_of ms name = None" using "2.prems"(2) by (simp add: map_of_eq_None_iff)
  moreover have "map_of al' a = Some m \<longleftrightarrow> map_of al1 a = Some m \<or> (\<exists>mc. map_of ms m = Some mc \<and> a \<in> set (mcAliases mc))"
    using "2.IH"[OF al1(2)] "2.prems"(2) by simp
  ultimately show ?case using addAliases_Inr[OF al1(1)] by auto
qed simp

lemma registerKeys_Inr:
  assumes "registerKeys modelId models keys al own = Inr (al', own')"
  obtains new where "own' = own @ new" "\<And>a. map_of al' a = (if a \<in> set new then Some modelId else map_of al a)"
    "\<And>a. a \<in> set new \<Longrightarrow> map_of al a = None \<and> map_of models a = None"
    "\<And>k. k \<in> set keys \<Longrightarrow> k = modelId \<or> map_of al' k = Some modelId"
proof -
  have "\<exists>new. own' = own @ new \<and> (\<forall>a. map_of al' a = (if a \<in> set new then Some modelId else map_of al a)) \<and>
      (\<forall>a \<in> set new. map_of al a = None \<and> map_of models a = None) \<and> (\<forall>k \<in> set keys. k = modelId \<or> map_of al' k = Some modelId)"
    using assms
  proof (induction modelId models keys al own rule: registerKeys.induct)
    case (2 modelId models key keys al own)
    consider "key = modelId" | "key \<noteq> modelId" "map_of models key = None" "map_of al key = Some modelId"
      | "key \<noteq> modelId" "map_of models key = None" "map_of al key = None"
      using "2.prems" by (auto split: if_splits option.splits)
    then show ?case
    proof cases
      case 1 then show ?thesis using "2.IH"(1) "2.prems" by auto
    next
      case 2 then obtain new where "own' = own @ new" "\<forall>a. map_of al' a = (if a \<in> set new then Some modelId else map_of al a)"
        "\<forall>a \<in> set new. map_of al a = None \<and> map_of models a = None" "\<forall>k \<in> set keys. k = modelId \<or> map_of al' k = Some modelId"
        using "2.IH"(3) "2.prems" by auto
      with 2 show ?thesis by (intro exI[of _ new]) auto
    next
      case 3 then obtain new where "own' = (own @ [key]) @ new"
        "\<forall>a. map_of al' a = (if a \<in> set new then Some modelId else map_of (mput key modelId al) a)"
        "\<forall>a \<in> set new. map_of (mput key modelId al) a = None \<and> map_of models a = None"
        "\<forall>k \<in> set keys. k = modelId \<or> map_of al' k = Some modelId"
        using "2.IH"(2) "2.prems" by auto
      with 3 show ?thesis by (intro exI[of _ "key # new"]) (auto split: if_splits)
    qed
  qed simp
  then show ?thesis using that by blast
qed

definition model_ok :: "Config \<Rightarrow> ModelConf \<Rightarrow> bool" where
  "model_ok c mc \<longleftrightarrow> 0 \<le> mcTTL mc \<and> 0 \<le> mcSwapGrace mc \<and> 1 \<le> mcUnloadTimeout mc \<and> 0 \<le> mcLargePrefill mc \<and> mcSlotGrace mc = 0 \<and>
     set (mcCapIn mc) \<subseteq> set validModalities \<and> set (mcCapOut mc) \<subseteq> set validModalities \<and> 0 \<le> mcCapContext mc \<and>
     mcHealthTimeout mc = cHealthCheckTimeout c \<and> mcSendLoading mc \<noteq> None"

lemma model_ok_cong [simp]: "model_ok (c\<lparr>cAliases := al, cModels := ms\<rparr>) mc \<longleftrightarrow> model_ok c mc"
  by (simp add: model_ok_def)

definition alias_exact :: "Config \<Rightarrow> bool" where
  "alias_exact c \<longleftrightarrow> (\<forall>a m. map_of (cAliases c) a = Some m \<longleftrightarrow> (\<exists>mc. map_of (cModels c) m = Some mc \<and> a \<in> set (mcAliases mc)))"

text \<open>Every name a model answers to with its own parameters leads to that model.\<close>

definition keys_reach :: "Config \<Rightarrow> string \<Rightarrow> ModelConf \<Rightarrow> bool" where
  "keys_reach c m mc \<longleftrightarrow> (\<forall>k \<in> set (mcSetParamsByID mc). k = m \<or> map_of (cAliases c) k = Some m)"

lemma modelDefaults_keeps [simp]:
  "mcAliases (modelDefaults c m mc) = mcAliases mc" "mcSetParamsByID (modelDefaults c m mc) = mcSetParamsByID mc"
  "mcHealthTimeout (modelDefaults c m mc) = cHealthCheckTimeout c"
  by (simp_all add: modelDefaults_def Let_def)

lemma loadModel_Inr:
  assumes "loadModel env m c = Inr d" "map_of (cModels c) m = Some mc0" "1 \<le> cUnloadTimeout c"
  obtains mc al own where "d = c\<lparr>cAliases := al, cModels := mput m mc (cModels c)\<rparr>" "model_ok c mc"
    "mcSetParamsByID mc = mcSetParamsByID mc0" "mcAliases mc = mcAliases mc0 @ own"
    "registerKeys m (cModels c) (mcSetParamsByID mc0) (cAliases c) [] = Inr (al, own)"
proof -
  let ?mc = "modelDefaults c m mc0"
  let ?mc1 = "?mc\<lparr>mcUnloadTimeout := (if mcUnloadTimeout ?mc = 0 then cUnloadTimeout c else mcUnloadTimeout ?mc)\<rparr>"
  from assms(1,2) obtain al own where
    k: "modelCheck ?mc = None" "capabilitiesCheck ?mc1 = None"
    "registerKeys m (cModels c) (mcSetParamsByID ?mc1) (cAliases c) [] = Inr (al, own)"
    and d: "d = c\<lparr>cAliases := al, cModels := mput m (?mc1\<lparr>mcAliases := mcAliases ?mc1 @ own,
      mcSendLoading := (if mcSendLoading ?mc1 = None then Some (cSendLoading c) else mcSendLoading ?mc1)\<rparr>) (cModels c)\<rparr>"
    by (auto simp: loadModel_def Let_def failIf_Inr andThen_Inr)
  show ?thesis
  proof (rule that[OF d])
    show "model_ok c (?mc1\<lparr>mcAliases := mcAliases ?mc1 @ own,
        mcSendLoading := (if mcSendLoading ?mc1 = None then Some (cSendLoading c) else mcSendLoading ?mc1)\<rparr>)"
      using k(1,2) assms(3) by (auto simp: model_ok_def modelCheck_def capabilitiesCheck_def not_less)
  qed (use k(3) in simp_all)
qed

definition settled :: "Config \<Rightarrow> string \<Rightarrow> bool" where
  "settled c m \<longleftrightarrow> (\<forall>mc. map_of (cModels c) m = Some mc \<longrightarrow> model_ok c mc \<and> keys_reach c m mc)"

text \<open>What a step of the loop over the models keeps.\<close>

definition models_inv :: "Config \<Rightarrow> Config \<Rightarrow> bool" where
  "models_inv c d \<longleftrightarrow> (\<exists>al ms. d = c\<lparr>cAliases := al, cModels := ms\<rparr>) \<and> dom (map_of (cModels d)) = dom (map_of (cModels c)) \<and>
     distinct (map fst (cModels d)) \<and> alias_exact d \<and> (\<forall>k. settled c k \<longrightarrow> settled d k)"

lemma loadModel_step:
  assumes "loadModel env m c = Inr d" "map_of (cModels c) m \<noteq> None" "1 \<le> cUnloadTimeout c"
    and "distinct (map fst (cModels c))" "alias_exact c"
  shows "models_inv c d" "settled d m"
proof -
  obtain mc0 where mc0: "map_of (cModels c) m = Some mc0" using assms(2) by auto
  obtain mc al own where d: "d = c\<lparr>cAliases := al, cModels := mput m mc (cModels c)\<rparr>" and ok: "model_ok c mc"
    and mc: "mcSetParamsByID mc = mcSetParamsByID mc0" "mcAliases mc = mcAliases mc0 @ own"
    and r: "registerKeys m (cModels c) (mcSetParamsByID mc0) (cAliases c) [] = Inr (al, own)"
    using loadModel_Inr[OF assms(1) mc0 assms(3)] .
  obtain new where own: "own = [] @ new" and al: "\<And>a. map_of al a = (if a \<in> set new then Some m else map_of (cAliases c) a)"
    and fresh: "\<And>a. a \<in> set new \<Longrightarrow> map_of (cAliases c) a = None \<and> map_of (cModels c) a = None"
    and reach: "\<And>k. k \<in> set (mcSetParamsByID mc0) \<Longrightarrow> k = m \<or> map_of al k = Some m"
    using registerKeys_Inr[OF r] by blast
  show s: "settled d m" using ok reach mc(1) by (auto simp: settled_def keys_reach_def d)
  have exact: "map_of (cAliases c) a = Some x \<longleftrightarrow> (\<exists>mc. map_of (cModels c) x = Some mc \<and> a \<in> set (mcAliases mc))" for a x
    using assms(5) by (simp add: alias_exact_def)
  have "map_of (cAliases d) a = Some x \<longleftrightarrow> (\<exists>mc. map_of (cModels d) x = Some mc \<and> a \<in> set (mcAliases mc))" for a x
    using exact[of a x] exact[of a] fresh[of a] mc(2) mc0 own by (auto simp: d al)
  then have "alias_exact d" by (simp add: alias_exact_def)
  moreover have "settled d k" if "settled c k" for k
  proof (cases "k = m")
    case False
    have "map_of al n = Some k" if "map_of (cAliases c) n = Some k" for n using that fresh[of n] by (auto simp: al)
    with False \<open>settled c k\<close> show ?thesis by (auto simp: settled_def keys_reach_def d)
  qed (use s in simp)
  moreover have "\<exists>al ms. d = c\<lparr>cAliases := al, cModels := ms\<rparr>" using d by blast
  moreover have "dom (map_of (cModels d)) = dom (map_of (cModels c))" "distinct (map fst (cModels d))"
    using mc0 assms(4) by (auto simp: d)
  ultimately show "models_inv c d" by (simp add: models_inv_def)
qed

lemma models_inv_trans:
  assumes "models_inv c d" "models_inv d e"
  shows "models_inv c e"
proof -
  obtain al ms al' ms' where "d = c\<lparr>cAliases := al, cModels := ms\<rparr>" "e = d\<lparr>cAliases := al', cModels := ms'\<rparr>"
    using assms by (auto simp: models_inv_def)
  then have "e = c\<lparr>cAliases := al', cModels := ms'\<rparr>" by simp
  then show ?thesis using assms unfolding models_inv_def by blast
qed

lemma loadModels_loop:
  assumes "runSteps (map (loadModel env) ids) c = Inr d" "set ids \<subseteq> dom (map_of (cModels c))" "1 \<le> cUnloadTimeout c"
    and "distinct (map fst (cModels c))" "alias_exact c"
  shows "models_inv c d \<and> (\<forall>m \<in> set ids. settled d m)"
  using assms
proof (induction ids arbitrary: c)
  case Nil
  then have "d = c" by simp
  moreover have "c = c\<lparr>cAliases := cAliases c, cModels := cModels c\<rparr>" by simp
  then have "\<exists>al ms. c = c\<lparr>cAliases := al, cModels := ms\<rparr>" by blast
  ultimately show ?case using Nil.prems(4,5) by (simp add: models_inv_def)
next
  case (Cons m ids)
  from Cons.prems(1) obtain e where e: "loadModel env m c = Inr e" "runSteps (map (loadModel env) ids) e = Inr d"
    by (auto simp: runSteps_Cons_Inr)
  have I: "models_inv c e" "settled e m" using loadModel_step[OF e(1) _ Cons.prems(3-5)] Cons.prems(2) by auto
  then have "cUnloadTimeout e = cUnloadTimeout c" by (auto simp: models_inv_def)
  with Cons.IH[OF e(2)] I(1) Cons.prems(2,3) have J: "models_inv e d \<and> (\<forall>m \<in> set ids. settled d m)"
    by (simp add: models_inv_def)
  moreover have "settled d m" using J I(2) by (auto simp: models_inv_def)
  ultimately show ?case using models_inv_trans[OF I(1)] by auto
qed

lemma loadModels_ok:
  assumes "runSteps (loadModels env) c = Inr d" "distinct (map fst (cModels c))" "1 \<le> cUnloadTimeout c"
  shows "\<exists>al ms. d = c\<lparr>cAliases := al, cModels := ms\<rparr>" "dom (map_of (cModels d)) = dom (map_of (cModels c))"
    "distinct (map fst (cModels d))" "alias_exact d" "\<And>m. settled d m"
proof -
  from assms(1) obtain al where al: "collectAliases (cModels c) [] = Inr al"
    and r: "runSteps (map (loadModel env) (sort (mkeys (cModels c)))) (c\<lparr>cAliases := al\<rparr>) = Inr d"
    by (auto simp: loadModels_def steps)
  have "alias_exact (c\<lparr>cAliases := al\<rparr>)" using collectAliases_Inr[OF al assms(2)] by (simp add: alias_exact_def)
  with loadModels_loop[OF r] assms(2,3)
  have I: "models_inv (c\<lparr>cAliases := al\<rparr>) d" and m: "\<forall>m \<in> dom (map_of (cModels c)). settled d m"
    by simp_all
  then show "\<exists>al ms. d = c\<lparr>cAliases := al, cModels := ms\<rparr>" by (auto simp: models_inv_def)
  show e: "dom (map_of (cModels d)) = dom (map_of (cModels c))" "distinct (map fst (cModels d))" "alias_exact d"
    using I by (simp_all add: models_inv_def)
  show "settled d m" for m
    using m e(1) by (cases "m \<in> dom (map_of (cModels c))") (auto simp: settled_def)
qed

section \<open>Routing\<close>

lemma memberLoop_addMembers:
  "memberLoop g ms seenMembers usage = Inr u \<Longrightarrow> addMembers g ms usage = Inr u"
  by (induction g ms seenMembers usage rule: memberLoop.induct) (auto split: if_splits)

lemma groupsLoop_addGroups: "groupsLoop gs usage = None \<Longrightarrow> \<exists>u. addGroups gs usage = Inr u"
  by (induction gs usage rule: groupsLoop.induct) (auto split: sum.splits dest: memberLoop_addMembers)

lemma groupsLoop_planner: "groupsLoop gs [] = None \<Longrightarrow> \<exists>p. newGroupSwapper gs = Inr p"
  by (auto simp: newGroupSwapper_def dest!: groupsLoop_addGroups)

lemma normalizeRouting_cases:
  assumes "normalizeRouting c = Inr d"
  obtains "d = c" "cMatrix c \<noteq> None \<or> cGroups c \<noteq> []" | "d = c\<lparr>cMatrix := cRouterMatrix c\<rparr>" "cGroups c = []"
    | "d = c\<lparr>cGroups := cRouterGroups c\<rparr>" "cMatrix c = None"
proof (cases "cMatrix c \<noteq> None \<or> cGroups c \<noteq> []")
  case True
  with assms have "d = c" by (simp add: normalizeRouting_def Let_def split: if_splits)
  then show ?thesis using True by (rule that(1))
next
  case False
  then have n: "cMatrix c = None" "cGroups c = []" by simp_all
  show ?thesis
  proof (cases "cUse c = ''matrix''")
    case True
    then have "d = c\<lparr>cMatrix := cRouterMatrix c\<rparr>" using assms n by (simp add: normalizeRouting_def split: if_splits)
    then show ?thesis using n(2) by (rule that(2))
  next
    case False
    then have "d = c\<lparr>cGroups := cRouterGroups c\<rparr>" using assms n by (simp add: normalizeRouting_def split: if_splits)
    then show ?thesis using n(1) by (rule that(3))
  qed
qed

lemma AddDefaultGroup_fields [simp]:
  "cMatrix (AddDefaultGroupToConfig c) = cMatrix c" "cModels (AddDefaultGroupToConfig c) = cModels c"
  by (simp_all add: AddDefaultGroupToConfig_def Let_def)

text \<open>With no group of the default's name, the default takes exactly the models no group has.\<close>

lemma AddDefaultGroup_members:
  assumes "map_of (cGroups c) DEFAULT_GROUP_ID = None" "distinct (map fst (cGroups c))"
  shows "map_of (cGroups (AddDefaultGroupToConfig c)) g = (if g = DEFAULT_GROUP_ID
      then Some (gMembers_update (\<lambda>_. sort (filter (\<lambda>m. \<forall>(g, x) \<in> set (cGroups c). m \<notin> set (gMembers x)) (mkeys (cModels c))))
        \<lparr>gSwap = True, gExclusive = True, gPersistent = False, gMembers = []\<rparr>)
      else map_of (cGroups c) g)"
proof -
  have "(if cGroups c = [] then mkeys (cModels c)
       else filter (\<lambda>m. \<not> list_ex (\<lambda>(gid, g). m \<in> set (gMembers g)) (cGroups c)) (mkeys (cModels c)))
     = filter (\<lambda>m. \<forall>(g, x) \<in> set (cGroups c). m \<notin> set (gMembers x)) (mkeys (cModels c))"
    by (auto simp: list_ex_iff case_prod_beta intro!: filter_cong)
  then show ?thesis by (simp add: AddDefaultGroupToConfig_def Let_def del: filter_True)
qed

lemma default_group_partition:
  assumes "map_of (cGroups c) DEFAULT_GROUP_ID = None" "distinct (map fst (cGroups c))"
    and "newGroupSwapper (cGroups (AddDefaultGroupToConfig c)) = Inr p" "map_of (cModels c) m \<noteq> None"
  shows "\<exists>!g. \<exists>x. map_of (cGroups (AddDefaultGroupToConfig c)) g = Some x \<and> m \<in> set (gMembers x)"
proof -
  let ?gs = "cGroups (AddDefaultGroupToConfig c)"
  note members = AddDefaultGroup_members[OF assms(1,2)]
  have "distinct (map fst ?gs)" using assms(2) by (simp add: AddDefaultGroupToConfig_def Let_def)
  moreover obtain u where "addGroups ?gs [] = Inr u"
    using assms(3) by (cases "addGroups ?gs []") (auto simp: newGroupSwapper_def)
  ultimately have u: "(\<exists>x. map_of ?gs g = Some x \<and> m \<in> set (gMembers x)) \<longleftrightarrow> map_of u m = Some g" for g
    using addGroups_map[of ?gs "[]" u m g] by simp
  have "\<exists>g x. map_of ?gs g = Some x \<and> m \<in> set (gMembers x)"
  proof (cases "\<exists>(g, x) \<in> set (cGroups c). m \<in> set (gMembers x)")
    case True
    then obtain g x where "map_of (cGroups c) g = Some x" "m \<in> set (gMembers x)" using assms(2) by auto
    moreover from this have "g \<noteq> DEFAULT_GROUP_ID" using assms(1) by auto
    ultimately show ?thesis using members[of g] by auto
  next
    case False
    then show ?thesis using members[of DEFAULT_GROUP_ID] assms(4)
      by (intro exI[of _ DEFAULT_GROUP_ID]) (auto simp: case_prod_beta)
  qed
  then show ?thesis unfolding u by auto
qed

section \<open>The tail of the load keeps what is settled\<close>

definition frame :: "Config \<Rightarrow> Config \<Rightarrow> bool" where
  "frame c d \<longleftrightarrow> (plain_ok c \<longrightarrow> plain_ok d) \<and> cHealthCheckTimeout d = cHealthCheckTimeout c \<and> cModels d = cModels c \<and>
     cAliases d = cAliases c \<and> cSelectors d = cSelectors c \<and> cProfiles d = cProfiles c \<and> cPeers d = cPeers c \<and>
     cPriority d = cPriority c \<and> cHookProfile d = cHookProfile c"

lemma frame_refl [simp]: "frame c c"
  by (simp add: frame_def)

lemma frame_trans: "frame c d \<Longrightarrow> frame d e \<Longrightarrow> frame c e"
  by (simp add: frame_def)

lemma frame_updates [simp]:
  "frame c (cMatrix_update f c)" "frame c (cGroups_update g c)" "frame c (cProgram_update h c)" "frame c (cPreload_update p c)"
  "frame c (cTailcat_update t c)"
  by (simp_all add: frame_def plain_ok_def brake_ok_def)

lemma frame_canonical [simp]: "frame c (canonicalRouting c)"
  by (simp add: canonicalRouting_def frame_def plain_ok_def brake_ok_def)

lemma frame_AddDefault [simp]: "frame c (AddDefaultGroupToConfig c)"
  by (simp add: AddDefaultGroupToConfig_def Let_def)

lemma RealModelName_frame: "frame c d \<Longrightarrow> RealModelName d x = RealModelName c x"
  by (simp add: frame_def RealModelName_def)

lemma ResolvePeerModel_frame: "frame c d \<Longrightarrow> ResolvePeerModel d x = ResolvePeerModel c x"
  unfolding ResolvePeerModel_def peerModels_def frame_def by (simp only:)

lemma ResolveBaseModel_frame: "frame c d \<Longrightarrow> ResolveBaseModel d x = ResolveBaseModel c x"
  unfolding ResolveBaseModel_def by (simp only: RealModelName_frame ResolvePeerModel_frame)

lemma settled_frame: "frame c d \<Longrightarrow> settled c m \<Longrightarrow> settled d m"
  by (simp add: frame_def settled_def model_ok_def keys_reach_def)

lemma alias_exact_frame: "frame c d \<Longrightarrow> alias_exact c \<Longrightarrow> alias_exact d"
  by (simp add: frame_def alias_exact_def)

lemma normalizeRouting_frame: "normalizeRouting c = Inr d \<Longrightarrow> frame c d"
  by (erule normalizeRouting_cases) simp_all

lemma checkRouting_Inr:
  assumes "checkRouting c = Inr d"
  shows "frame c d" "cMatrix d = cMatrix c"
    "cMatrix c = None \<Longrightarrow> d = AddDefaultGroupToConfig c \<and> groupsLoop (cGroups d) [] = None"
    "cMatrix c = Some mx \<Longrightarrow> \<exists>prog. ValidateMatrix mx (cModels c) = Inr prog \<and> cProgram d = Some prog \<and> cGroups d = cGroups c"
  using assms by (auto simp: checkRouting_def Let_def failIf_Inr split: option.splits sum.splits)

lemma loadRouting_run:
  assumes "runSteps loadRouting c = Inr d"
  obtains c1 c2 where "normalizeRouting c = Inr c1" "cMatrix c1 = None \<or> cGroups c1 = []" "checkRouting c1 = Inr c2"
    "d = canonicalRouting c2" "\<forall>(m, p) \<in> set (cPriority d). RealModelName d m \<noteq> None"
proof -
  from assms obtain c1 c2 where r: "normalizeRouting c = Inr c1" "\<not> (cMatrix c1 \<noteq> None \<and> cGroups c1 \<noteq> [])" "checkRouting c1 = Inr c2"
    and d: "d = canonicalRouting c2"
    and "firstFailing (map (\<lambda>(m, p). (RealModelName d m = None, ConfigErr ''priority'' m)) (cPriority d)) = None"
    unfolding loadRouting_def runSteps_Cons_Inr runSteps_Nil_Inr need_Inr settle_Inr firstFailing_Cons
    by (elim exE conjE) (hypsubst, blast)
  then have "\<forall>(m, p) \<in> set (cPriority d). RealModelName d m \<noteq> None" by (auto simp: firstFailing_None)
  moreover have "cMatrix c1 = None \<or> cGroups c1 = []" using r(2) by blast
  ultimately show ?thesis using that r(1,3) d by blast
qed

lemma loadRouting_frame: "runSteps loadRouting c = Inr d \<Longrightarrow> frame c d"
  by (erule loadRouting_run) (metis frame_trans normalizeRouting_frame checkRouting_Inr(1) frame_canonical)

lemma loadRouting_groups:
  assumes "runSteps loadRouting c = Inr d" "cMatrix d = None"
  obtains c1 where "normalizeRouting c = Inr c1" "cGroups c1 \<in> {cGroups c, cRouterGroups c}" "cModels c1 = cModels c"
    "cRouterGroups d = cGroups (AddDefaultGroupToConfig c1)" "groupsLoop (cRouterGroups d) [] = None" "cUse d = ''group''"
proof -
  obtain c1 c2 where c: "normalizeRouting c = Inr c1" "checkRouting c1 = Inr c2" "d = canonicalRouting c2"
    using loadRouting_run[OF assms(1)] by metis
  have n: "cMatrix c1 = None" using checkRouting_Inr(2)[OF c(2)] assms(2) by (simp add: c(3) canonicalRouting_def)
  have g: "c2 = AddDefaultGroupToConfig c1" "groupsLoop (cGroups c2) [] = None" using checkRouting_Inr(3)[OF c(2) n] by blast+
  have "cGroups c1 \<in> {cGroups c, cRouterGroups c}" using c(1) by (rule normalizeRouting_cases) simp_all
  moreover have "cModels c1 = cModels c" using normalizeRouting_frame[OF c(1)] by (simp add: frame_def)
  moreover have "cRouterGroups d = cGroups c2" "cUse d = ''group''" using n g(1) by (simp_all add: c(3) canonicalRouting_def)
  ultimately show ?thesis using that c(1) g by simp
qed

section \<open>The rest\<close>

lemma validateTailcat_frame: "validateTailcatConfig env c = Inr d \<Longrightarrow> \<exists>t. d = c\<lparr>cTailcat := t\<rparr>"
proof -
  assume "validateTailcatConfig env c = Inr d"
  then consider "d = c" | t where "d = c\<lparr>cTailcat := t\<rparr>"
    unfolding validateTailcatConfig_def andThen_Inr failIf_Inr by (cases "cTailcat c") (auto simp: andThen_Inr)
  then show ?thesis
  proof cases
    case 1
    have "c = c\<lparr>cTailcat := cTailcat c\<rparr>" by simp
    with 1 show ?thesis by blast
  qed blast
qed

lemma loadRest_run:
  assumes "runSteps (loadRest env) c = Inr d"
  obtains e t where "e = loadPreload c" "keysCheck (cKeys e) = None" "ValidatePeerNamespace e = None" "validateSelectors e = None"
    "validateProfiles e = None" "d = e\<lparr>cTailcat := t\<rparr>"
proof -
  from assms obtain e where e: "e = loadPreload c" "keysCheck (cKeys e) = None" "ValidatePeerNamespace e = None"
    "validateSelectors e = None" "validateProfiles e = None" and t: "validateTailcatConfig env e = Inr d"
    unfolding loadRest_def runSteps_Cons_Inr runSteps_Nil_Inr need_Inr settle_Inr by (elim exE conjE) (hypsubst, blast)
  from validateTailcat_frame[OF t] obtain u where "d = e\<lparr>cTailcat := u\<rparr>" by blast
  with e show ?thesis by (rule that)
qed

lemma loadPreload_models:
  "\<forall>m \<in> set (cPreload (loadPreload c)). \<exists>n. RealModelName c n = Some m"
  by (auto simp: loadPreload_def set_map_filter Let_def split: if_splits)

lemma loadPreload_frame [simp]: "frame c (loadPreload c)"
  by (simp add: loadPreload_def)

section \<open>The whole load\<close>

lemma finishLoad_run:
  assumes "finishLoad env c = Inr d"
  obtains a b e where "runSteps (loadPlain env) c = Inr a" "runSteps (loadModels env) a = Inr b" "runSteps loadRouting b = Inr e"
    "runSteps (loadRest env) e = Inr d"
  using assms unfolding finishLoad_def runSteps_append_Inr by blast

lemma loadRest_frame: "runSteps (loadRest env) c = Inr d \<Longrightarrow> frame c d"
  by (erule loadRest_run) (metis frame_trans loadPreload_frame frame_updates(5))

lemma plain_ok_cong: "plain_ok (c\<lparr>cAliases := al, cModels := ms\<rparr>) = plain_ok c"
  by (simp add: plain_ok_def brake_ok_def)

lemma finishLoad_ok:
  assumes "finishLoad env c = Inr d" "distinct (map fst (cModels c))"
  shows "plain_ok d" "\<And>m. settled d m" "alias_exact d" "dom (map_of (cModels d)) = dom (map_of (cModels c))"
proof -
  obtain a b e where r: "runSteps (loadPlain env) c = Inr a" "runSteps (loadModels env) a = Inr b" "runSteps loadRouting b = Inr e"
    "runSteps (loadRest env) e = Inr d" using assms(1) by (rule finishLoad_run)
  have p: "plain_ok a" and ma: "cModels a = cModels c" using loadPlain_ok[OF r(1)] by simp_all
  then have "1 \<le> cUnloadTimeout a" "distinct (map fst (cModels a))" using assms(2) by (simp_all add: plain_ok_def)
  note b = loadModels_ok[OF r(2) this(2,1)]
  have pb: "plain_ok b" using b(1) p by (auto simp: plain_ok_cong)
  have f: "frame b d" using loadRouting_frame[OF r(3)] loadRest_frame[OF r(4)] by (rule frame_trans)
  show "plain_ok d" using pb f by (simp add: frame_def)
  show "settled d m" for m using b(5) f by (rule settled_frame[rotated])
  show "alias_exact d" using f b(4) by (rule alias_exact_frame)
  show "dom (map_of (cModels d)) = dom (map_of (cModels c))" using b(2) ma f by (simp add: frame_def)
qed


section \<open>Names\<close>

lemma RealModelName_model: "alias_exact c \<Longrightarrow> RealModelName c n = Some r \<Longrightarrow> map_of (cModels c) r \<noteq> None"
  by (auto simp: RealModelName_def alias_exact_def split: if_splits)

definition selector_refs :: "Config \<Rightarrow> string \<Rightarrow> SelectorConf \<Rightarrow> bool" where
  "selector_refs c s sc \<longleftrightarrow> RealModelName c s = None \<and> scTargets sc \<noteq> [] \<and>
     (\<forall>t \<in> set (scTargets sc). map_of (cSelectors c) t = None \<and> ResolveBaseModel c t \<noteq> None)"

lemma selectorCheck_None:
  assumes "selectorCheck c (s, sc) = None"
  shows "map_of (cModels c) s = None" "map_of (cAliases c) s = None" "scTargets sc \<noteq> []"
    "\<And>t. t \<in> set (scTargets sc) \<Longrightarrow> targetCheck c s sc t = None"
    "scStrategy sc = ''spillover'' \<Longrightarrow> distinct (map (resolvedTarget c) (scTargets sc)) \<and>
       validateSpilloverCoexistence c s (map (resolvedTarget c) (filter (\<lambda>t. RealModelName c t \<noteq> None) (scTargets sc))) = None"
  using assms by (simp_all add: selectorCheck_def Let_def firstError_None)

lemma validateSelectors_refs:
  assumes "validateSelectors c = None" "(s, sc) \<in> set (cSelectors c)"
  shows "selector_refs c s sc"
proof -
  have "selectorCheck c (s, sc) = None" using assms by (auto simp: validateSelectors_def firstError_None)
  note n = selectorCheck_None[OF this]
  have "map_of (cSelectors c) t = None \<and> ResolveBaseModel c t \<noteq> None" if "t \<in> set (scTargets sc)" for t
    using n(4)[OF that] by (simp add: targetCheck_def)
  with n(1-3) show ?thesis by (simp add: selector_refs_def RealModelName_def)
qed

definition profile_refs :: "Config \<Rightarrow> bool" where
  "profile_refs c \<longleftrightarrow> (\<forall>(name, pins) \<in> set (cProfiles c). \<forall>(pin, t) \<in> set pins.
       t = [] \<or> ResolveBaseModel c t \<noteq> None \<or> map_of (cSelectors c) t \<noteq> None) \<and>
     (cHookProfile c = [] \<or> map_of (cProfiles c) (cHookProfile c) \<noteq> None)"

lemma validateProfiles_refs: "validateProfiles c = None \<Longrightarrow> profile_refs c"
  by (fastforce simp: validateProfiles_def profile_refs_def firstError_None profileCheck_def firstFailing_None)

text \<open>The full name of a peer's model is no other name.\<close>

definition peer_names_free :: "Config \<Rightarrow> bool" where
  "peer_names_free c \<longleftrightarrow> (\<forall>p x m. map_of (cPeers c) p = Some x \<longrightarrow> m \<in> set (pcModels x) \<longrightarrow>
     RealModelName c (PeerModelFQN p m) = None \<and> map_of (cSelectors c) (PeerModelFQN p m) = None)"

lemma fqnLoop_Inr: "fqnLoop xs fs = Inr r \<Longrightarrow> set r = set fs \<union> {PeerModelFQN p m | p m. (p, m) \<in> set xs}"
  by (induction xs fs rule: fqnLoop.induct) (auto simp: Let_def split: if_splits)

lemma ValidatePeerNamespace_free:
  assumes "ValidatePeerNamespace c = None"
  shows "peer_names_free c"
  unfolding peer_names_free_def
proof (intro allI impI)
  fix p x m assume p: "map_of (cPeers c) p = Some x" "m \<in> set (pcModels x)"
  from assms obtain r where r: "fqnLoop (sortedPeerModels c) [] = Inr r" "\<forall>f \<in> set r. reservedCheck c f = None"
    by (auto simp: ValidatePeerNamespace_def firstError_None split: sum.splits)
  have "(p, m) \<in> set (sortedPeerModels c)" using p by (auto simp: sortedPeerModels_def intro!: bexI[of _ p])
  then have "reservedCheck c (PeerModelFQN p m) = None" using r(2) fqnLoop_Inr[OF r(1)] by auto
  then show "RealModelName c (PeerModelFQN p m) = None \<and> map_of (cSelectors c) (PeerModelFQN p m) = None"
    by (simp add: reservedCheck_def RealModelName_def)
qed

lemma finishLoad_names:
  assumes "finishLoad env c = Inr d" "distinct (map fst (cModels c))"
  shows "\<forall>m \<in> set (cPreload d). map_of (cModels d) m \<noteq> None"
    "\<forall>(n, prio) \<in> set (cPriority d). RealModelName d n \<noteq> None"
    "\<forall>(s, sc) \<in> set (cSelectors d). selector_refs d s sc" "profile_refs d" "peer_names_free d"
proof -
  obtain a b e where r: "runSteps (loadPlain env) c = Inr a" "runSteps (loadModels env) a = Inr b" "runSteps loadRouting b = Inr e"
    "runSteps (loadRest env) e = Inr d" using assms(1) by (rule finishLoad_run)
  obtain x t where x: "x = loadPreload e" "ValidatePeerNamespace x = None" "validateSelectors x = None"
    "validateProfiles x = None" "d = x\<lparr>cTailcat := t\<rparr>" using r(4) by (rule loadRest_run)
  have f: "frame x d" "frame e d" using x(5) loadRest_frame[OF r(4)] by simp_all
  note res = RealModelName_frame[OF f(1)] ResolveBaseModel_frame[OF f(1)]
  have sel: "cSelectors d = cSelectors x" "cProfiles d = cProfiles x" "cHookProfile d = cHookProfile x" "cPeers d = cPeers x"
    using f(1) by (simp_all add: frame_def)
  show "\<forall>m \<in> set (cPreload d). map_of (cModels d) m \<noteq> None"
  proof
    fix m assume "m \<in> set (cPreload d)"
    then obtain n where "RealModelName e n = Some m" using loadPreload_models[of e] x(1,5) by auto
    then have "RealModelName d n = Some m" using f(2) by (simp add: RealModelName_frame)
    then show "map_of (cModels d) m \<noteq> None" by (rule RealModelName_model[OF finishLoad_ok(3)[OF assms]])
  qed
  show "\<forall>(n, prio) \<in> set (cPriority d). RealModelName d n \<noteq> None"
  proof -
    have "\<forall>(n, prio) \<in> set (cPriority e). RealModelName e n \<noteq> None" using r(3) by (rule loadRouting_run)
    moreover have "cPriority d = cPriority e" using f(2) by (simp add: frame_def)
    ultimately show ?thesis by (simp add: RealModelName_frame[OF f(2)])
  qed
  show "\<forall>(s, sc) \<in> set (cSelectors d). selector_refs d s sc"
    using validateSelectors_refs[OF x(3)] unfolding selector_refs_def res sel by blast
  show "profile_refs d" using validateProfiles_refs[OF x(4)] unfolding profile_refs_def res sel .
  show "peer_names_free d" using ValidatePeerNamespace_free[OF x(2)] unfolding peer_names_free_def res sel .
qed


section \<open>Groups\<close>

lemma finishLoad_groups:
  assumes "finishLoad env c = Inr d" "distinct (map fst (cModels c))" "cMatrix d = None"
  obtains c1 where "cGroups c1 \<in> {cGroups c, cRouterGroups c}" "dom (map_of (cModels c1)) = dom (map_of (cModels d))"
    "cRouterGroups d = cGroups (AddDefaultGroupToConfig c1)" "groupsLoop (cRouterGroups d) [] = None" "cUse d = ''group''"
proof -
  obtain a b e where r: "runSteps (loadPlain env) c = Inr a" "runSteps (loadModels env) a = Inr b" "runSteps loadRouting b = Inr e"
    "runSteps (loadRest env) e = Inr d" using assms(1) by (rule finishLoad_run)
  obtain t where t: "d = (loadPreload e)\<lparr>cTailcat := t\<rparr>" using r(4) by (rule loadRest_run) blast
  then have e: "cMatrix e = None" "cRouterGroups d = cRouterGroups e" "cUse d = cUse e" "cModels d = cModels e"
    using assms(3) by (simp_all add: loadPreload_def)
  note p = loadPlain_ok[OF r(1)]
  have "1 \<le> cUnloadTimeout a" "distinct (map fst (cModels a))" using p(1,2) assms(2) by (simp_all add: plain_ok_def)
  then have "\<exists>al ms. b = a\<lparr>cAliases := al, cModels := ms\<rparr>" using loadModels_ok(1)[OF r(2)] by blast
  then have b: "cGroups b = cGroups c" "cRouterGroups b = cRouterGroups c" using p(3,4) by auto
  obtain c1 where c1: "cGroups c1 \<in> {cGroups b, cRouterGroups b}" "cModels c1 = cModels b"
    "cRouterGroups e = cGroups (AddDefaultGroupToConfig c1)" "groupsLoop (cRouterGroups e) [] = None" "cUse e = ''group''"
    using r(3) e(1) by (rule loadRouting_groups)
  have "cModels e = cModels b" using loadRouting_frame[OF r(3)] by (simp add: frame_def)
  with c1 b e show ?thesis by (intro that[of c1]) simp_all
qed


section \<open>Spillover\<close>

lemma memberGroup_addMembers:
  "addMembers g ms u = Inr v \<Longrightarrow> foldl (\<lambda>m member. mput member g m) u ms = v"
  by (induction g ms u rule: addMembers.induct) (auto split: option.splits)

lemma memberGroup_addGroups:
  "addGroups gs u = Inr v \<Longrightarrow> foldl (\<lambda>m (groupID, g). foldl (\<lambda>m member. mput member groupID m) m (gMembers g)) u gs = v"
  by (induction gs u rule: addGroups.induct) (auto split: sum.splits dest: memberGroup_addMembers)

lemma memberGroup_groupOf:
  assumes "newGroupSwapper (cRouterGroups c) = Inr p"
  shows "(case map_of (memberGroup c) m of Some g \<Rightarrow> g | None \<Rightarrow> []) = groupOf p m" "groups p = cRouterGroups c"
proof -
  obtain u where "addGroups (cRouterGroups c) [] = Inr u" and p: "p = \<lparr>groups = cRouterGroups c, modelToGroup = u\<rparr>"
    using assms by (cases "addGroups (cRouterGroups c) []") (auto simp: newGroupSwapper_def)
  then show "(case map_of (memberGroup c) m of Some g \<Rightarrow> g | None \<Rightarrow> []) = groupOf p m" "groups p = cRouterGroups c"
    using memberGroup_addGroups[of "cRouterGroups c" "[]" u] by (simp_all add: memberGroup_def groupOf_def)
qed

lemma coexistence_groups:
  assumes "validateSpilloverCoexistence c s ts = None" "cUse c \<noteq> ''matrix''" "newGroupSwapper (cRouterGroups c) = Inr p"
    and "m \<in> set ts" "n \<in> set ts"
  shows "n \<notin> set (groupEvictionFor p m running)"
proof (cases "m = n")
  case False
  then obtain t u rest where ts: "ts = t # u # rest" using assms(4,5) by (cases ts rule: remdups_adj.cases) auto
  note g = memberGroup_groupOf[OF assms(3)]
  have all: "\<forall>x \<in> set ts. groupOf p x = groupOf p t" and swap: "\<not> (case map_of (groups p) (groupOf p t) of Some g \<Rightarrow> gSwap g | None \<Rightarrow> False)"
    using assms(1,2) by (simp_all add: ts validateSpilloverCoexistence_def Let_def g list_ex_iff)
  have "\<not> gSwap (groupCfg p (groupOf p t))"
    using swap by (auto simp: groupCfg_def zeroGroup_def split: option.splits)
  then show ?thesis using all assms(4,5) by (simp add: groupEvictionFor_set groupEvicts_def)
qed (use group.not_target in simp)

lemma coexistence_matrix:
  assumes "validateSpilloverCoexistence c s ts = None" "cUse c = ''matrix''" "1 < length ts"
  shows "\<exists>prog. cProgram c = Some prog \<and> CanContainAll prog ts"
  using assms by (auto simp: validateSpilloverCoexistence_def split: list.splits option.splits if_splits)

lemma finishLoad_matrix:
  assumes "finishLoad env c = Inr d" "cMatrix d = Some mx"
  obtains prog and ms :: "(string, ModelConf) gomap" where "ValidateMatrix mx ms = Inr prog" "cProgram d = Some prog" "cUse d = ''matrix''"
proof -
  obtain a b e where r: "runSteps loadRouting b = Inr e" "runSteps (loadRest env) e = Inr d"
    using assms(1) by (rule finishLoad_run)
  obtain t where t: "d = (loadPreload e)\<lparr>cTailcat := t\<rparr>" using r(2) by (rule loadRest_run) blast
  then have e: "cMatrix e = Some mx" "cProgram d = cProgram e" "cUse d = cUse e" using assms(2) by (simp_all add: loadPreload_def)
  obtain c1 c2 where c: "checkRouting c1 = Inr c2" "e = canonicalRouting c2" using r(1) by (rule loadRouting_run)
  have m: "cMatrix c1 = Some mx" "cMatrix c2 = Some mx"
    using checkRouting_Inr(2)[OF c(1)] e(1) by (simp_all add: c(2) canonicalRouting_def)
  obtain prog where "ValidateMatrix mx (cModels c1) = Inr prog" "cProgram c2 = Some prog"
    using checkRouting_Inr(4)[OF c(1) m(1)] by blast
  then show ?thesis using that[of "cModels c1" prog] e m(2) by (simp add: c(2) canonicalRouting_def)
qed

definition localTargets :: "Config \<Rightarrow> SelectorConf \<Rightarrow> string list" where
  "localTargets c sc = map (resolvedTarget c) (filter (\<lambda>t. RealModelName c t \<noteq> None) (scTargets sc))"

lemma finishLoad_spillover:
  assumes "finishLoad env c = Inr d" "(s, sc) \<in> set (cSelectors d)" "scStrategy sc = ''spillover''"
  shows "validateSpilloverCoexistence d s (localTargets d sc) = None"
proof -
  obtain e where "runSteps (loadRest env) e = Inr d" using assms(1) by (rule finishLoad_run)
  then obtain x t where x: "validateSelectors x = None" "d = x\<lparr>cTailcat := t\<rparr>" by (rule loadRest_run)
  have f: "frame x d" using x(2) by simp
  have "selectorCheck x (s, sc) = None"
    using x assms(2) by (auto simp: validateSelectors_def firstError_None)
  then have "validateSpilloverCoexistence x s (localTargets x sc) = None"
    using selectorCheck_None(5) assms(3) by (simp add: localTargets_def)
  moreover have "localTargets d sc = localTargets x sc"
    unfolding localTargets_def resolvedTarget_def by (simp only: RealModelName_frame[OF f] ResolvePeerModel_frame[OF f])
  moreover have "validateSpilloverCoexistence d s ts = validateSpilloverCoexistence x s ts" for ts
  proof -
    have "cUse d = cUse x" "cProgram d = cProgram x" "cRouterGroups d = cRouterGroups x" "memberGroup d = memberGroup x"
      by (simp_all add: x(2) memberGroup_def)
    then show ?thesis unfolding validateSpilloverCoexistence_def by (simp only:)
  qed
  ultimately show ?thesis by simp
qed

text \<open>C36. The local targets of an accepted spillover selector can run together. Under the group planner loading one never
  evicts another, whatever runs; under a matrix, if there are several, some set of the program holds them all.\<close>

theorem spillover_targets_coexist:
  assumes "finishLoad env c = Inr d" "distinct (map fst (cModels c))" "(s, sc) \<in> set (cSelectors d)" "scStrategy sc = ''spillover''"
  shows "(cMatrix d = None \<longrightarrow> (\<exists>p. newGroupSwapper (cRouterGroups d) = Inr p \<and>
      (\<forall>m \<in> set (localTargets d sc). \<forall>n \<in> set (localTargets d sc). \<forall>running. n \<notin> set (groupEvictionFor p m running)))) \<and>
    (cMatrix d \<noteq> None \<and> 1 < length (localTargets d sc) \<longrightarrow> (\<exists>prog. cProgram d = Some prog \<and>
      (\<exists>cs \<in> set (p_sets prog). \<exists>S \<in> expand (cs_root cs). set (localTargets d sc) \<subseteq> S)))"
proof (intro conjI impI)
  note v = finishLoad_spillover[OF assms(1,3,4)]
  show "\<exists>p. newGroupSwapper (cRouterGroups d) = Inr p \<and>
      (\<forall>m \<in> set (localTargets d sc). \<forall>n \<in> set (localTargets d sc). \<forall>running. n \<notin> set (groupEvictionFor p m running))"
    if m: "cMatrix d = None"
  proof -
    have g: "groupsLoop (cRouterGroups d) [] = None" using assms(1,2) m by (rule finishLoad_groups)
    have u: "cUse d = ''group''" using assms(1,2) m by (rule finishLoad_groups)
    obtain p where "newGroupSwapper (cRouterGroups d) = Inr p" using groupsLoop_planner[OF g] by blast
    then show ?thesis using coexistence_groups[OF v] u by auto
  qed
  show "\<exists>prog. cProgram d = Some prog \<and> (\<exists>cs \<in> set (p_sets prog). \<exists>S \<in> expand (cs_root cs). set (localTargets d sc) \<subseteq> S)"
    if m: "cMatrix d \<noteq> None \<and> 1 < length (localTargets d sc)"
  proof -
    obtain mx where "cMatrix d = Some mx" using m by blast
    with assms(1) obtain prog and ms :: "(string, ModelConf) gomap" where p: "ValidateMatrix mx ms = Inr prog" "cProgram d = Some prog" "cUse d = ''matrix''"
      by (rule finishLoad_matrix)
    have "CanContainAll prog (localTargets d sc)" using coexistence_matrix[OF v p(3)] m p(2) by simp
    moreover have "localTargets d sc \<noteq> []" using m by auto
    ultimately show ?thesis using CanContainAll_iff[OF Validated_wf[OF p(1)]] p(2) by blast
  qed
qed

section \<open>An example\<close>

definition exModel :: ModelConf where
  "exModel = \<lparr>mcAliases = [], mcProxy = ''http'', mcTTL = -1, mcSwapGrace = -1, mcUnloadTimeout = 0, mcConcurrency = 0,
     mcLargePrefill = 0, mcSlotGrace = 0, mcCapIn = [''text''], mcCapOut = [''text''], mcCapContext = 0, mcSetParamsByID = [],
     mcSendLoading = None, mcIgnoreWebsockets = False, mcHealthTimeout = 0\<rparr>"

definition exConfig :: Config where
  "exConfig = \<lparr>cHealthCheckTimeout = 1, cEvery = 0, cStartPort = 1, cGlobalTTL = 0, cSwapGrace = 2, cResidentGrace = 15,
     cDecodeRetention = 10, cFifoRetention = 0, cStarvation = -1,
     cBrake = \<lparr>SampleIntervalMs = 1, WindowMinutes = 1, GrowthGB = 1, ArmAfterMinutes = 0, ConfirmSamples = 1, DrainBelowGB = 1,
       SplashGrowthGB = 1, PurgeAfterMinutes = 0, HoldStatePath = []\<rparr>,
     cReleaseBelow = 0, cPurgeCommand = [], cDebugEnabled = True, cDebugInterval = 5, cDebugRetain = 5,
     cLoop = \<lparr>RunBar = 8, ToleranceTokens = 2, Strikes = 2, PenaltySeconds = [5, -1], ClearRequests = 1, MaxLoopTokens = 9,
       MaxPeriod = 2, gYieldFloorTokPerMin = 0, gYieldFloorMinutes = 0\<rparr>,
     cUnloadTimeout = 0, cGlobalConcurrency = 0, cSessionHeaders = [''X'', '' x''], cStore = None, cIgnorePaths = [],
     cBars = ['' gpu''], cTiers = [(''t'', ''p'')], cLogTo = ''both'',
     cModels = [(''m'', exModel\<lparr>mcAliases := [''x''], mcSetParamsByID := [''m'', ''y'']\<rparr>), (''n'', exModel), (''o'', exModel)],
     cAliases = [], cResidentAliases = [''y''], cSendLoading = True, cMatrix = None, cProgram = None,
     cGroups = [(''g'', \<lparr>gSwap = False, gExclusive = True, gPersistent = False, gMembers = [''m'', ''n'']\<rparr>)],
     cUse = [], cRouterMatrix = None, cRouterGroups = [], cScheduler = [], cPriority = [(''x'', 3)], cPreload = ['' y '', ''z''],
     cHookProfile = [], cKeys = [''k''], cPeers = [(''p'', \<lparr>pcModels = [''q''], pcTailcat = None\<rparr>)],
     cSelectors = [(''s'', \<lparr>scStrategy = ''spillover'', scTargets = [''x'', ''n'', ''q''], scSpillover = 1\<rparr>)],
     cProfiles = [(''f'', [(''m'', ''s'')])], cTailcat = None\<rparr>"

definition exEnv :: ConfigEnv where
  "exEnv = \<lparr>ceStoreError = (\<lambda>_. False), ceBadPattern = (\<lambda>_. False), ceBadURL = (\<lambda>_. False), ceNodeKey = Some, ceDestination = (\<lambda>s. s)\<rparr>"

text \<open>Running a load by rewriting: the checks that pass, and the computations on names that the rewriting leaves alone.\<close>

named_theorems running \<open>rewriting a load that succeeds\<close>

lemma need_ok [running]: "check c = None \<Longrightarrow> need check c = Inr c"
  by (simp add: need_def failIf_def)

lemma runSteps_go [running]: "s c = Inr m \<Longrightarrow> runSteps (s # ss) c = runSteps ss m"
  by (simp add: andThen_def runSteps.simps)

lemma runSteps_loop: "runSteps ((\<lambda>c. runSteps (map f (g c)) c) # ss) c = runSteps (map f (g c) @ ss) c"
proof -
  have "runSteps (xs @ ss) c = andThen (runSteps xs c) (runSteps ss)" for xs
    by (induction xs arbitrary: c) (simp_all add: andThen_def runSteps.simps split: sum.splits)
  then show ?thesis by (simp add: runSteps.simps)
qed

lemma running_checks [running]:
  "andThen (Inr a) f = f a" "failIf None x = x" "firstFailing ((False, e) # xs) = firstFailing xs"
  "firstFailing ((True, e) # xs) = Some e" "firstError (None # es) = firstError es" "settle h c = Inr (h c)"
  by (simp_all add: andThen_def failIf_def firstFailing_def firstError.simps settle_def)

lemma running_names [running]:
  "menuBarValidate ['' gpu''] = Inr [''gpu'']" "tiersCheck [(''t'', ''p'')] = None" "''both'' \<in> set logTargets"
  "sort [''m'', ''n'', ''o''] = [''m'', ''n'', ''o'']" "TrimSpaceUTF8 '' y '' = ''y''" "TrimSpaceUTF8 ''z'' = ''z''"
  "TrimSpaceUTF8 ''s'' = ''s''" "TrimSpaceUTF8 ''f'' = ''f''" "TrimSpaceUTF8 ''m'' = ''m''" "containsSub '' '' ''k'' = False"
  "sort [''p''] = [''p'']" "PeerModelFQN ''p'' ''q'' = ''p/q''" "sort [''p/q''] = [''p/q'']" "sort [''o''] = [''o'']"
  by code_simp+

lemma running_keys [running]: "mkeys [(''m'', a), (''n'', b), (''o'', c)] = [''m'', ''n'', ''o'']" "mkeys [(''p'', x)] = [''p'']"
  by (simp_all add: mkeys_def)

lemma exConfig_runs:
  "\<exists>d. finishLoad exEnv exConfig = Inr d \<and> cMatrix d = None \<and> cPreload d = [''m''] \<and> cSelectors d = cSelectors exConfig \<and>
     map fst (cModels d) = [''m'', ''n'', ''o''] \<and> cAliases d = [(''x'', ''m''), (''y'', ''m'')] \<and>
     cResidentAliases d = [''y''] \<and> cPriority d = [(''x'', 3)]"
  unfolding finishLoad_def loadPlain_def loadModels_def loadRouting_def loadRest_def append.simps
  apply (simp add: running brakeCheck_def loopCheck_def exConfig_def bad_def DEFAULT_UNLOAD_TIMEOUT_def)
  apply (simp add: running runSteps_loop residentCheck_def RealModelName_def loadModel_def Let_def exEnv_def exModel_def modelDefaults_def
    ComfyUIModelID_def modelCheck_def capabilitiesCheck_def validModalities_def bad_def mput_def)
  apply (simp add: running normalizeRouting_def Let_def checkRouting_def AddDefaultGroupToConfig_def mput_def canonicalRouting_def
    DEFAULT_GROUP_ID_def RealModelName_def)
  apply (simp add: running loadPreload_def List.map_filter_simps Let_def RealModelName_def keysCheck_def ValidatePeerNamespace_def
    sortedPeerModels_def reservedCheck_def)
  apply (subst runSteps_go, rule need_ok)
   apply (simp add: running validateSelectors_def selectorCheck_def Let_def RealModelName_def targetCheck_def ResolveBaseModel_def
    ResolvePeerModel_def peerModels_def resolvedTarget_def validateSpilloverCoexistence_def memberGroup_def mput_def)
  apply (subst runSteps_go, rule need_ok)
   apply (simp add: running validateProfiles_def profileCheck_def Let_def RealModelName_def ResolveBaseModel_def)
  apply (simp add: running validateTailcatConfig_def)
  done

lemma exConfig_loads:
  "\<exists>d. finishLoad exEnv exConfig = Inr d \<and> cMatrix d = None \<and> cPreload d = [''m''] \<and> cSelectors d = cSelectors exConfig \<and>
     map_of (cModels d) ''n'' \<noteq> None \<and> RealModelName d ''x'' = Some ''m'' \<and> RealModelName d ''y'' = Some ''m'' \<and>
     RealModelName d ''n'' = Some ''n'' \<and> RealModelName d ''q'' = None \<and> cResidentAliases d = [''y''] \<and> cPriority d = [(''x'', 3)]"
proof -
  obtain d where d: "finishLoad exEnv exConfig = Inr d" "cMatrix d = None" "cPreload d = [''m'']" "cSelectors d = cSelectors exConfig"
    "cResidentAliases d = [''y'']" "cPriority d = [(''x'', 3)]"
    and keys: "map fst (cModels d) = [''m'', ''n'', ''o'']" and al: "cAliases d = [(''x'', ''m''), (''y'', ''m'')]"
    using exConfig_runs by (elim exE conjE) (rule that)
  have "map_of (cModels d) n = None \<longleftrightarrow> n \<notin> set (map fst (cModels d))" for n
    by (simp add: map_of_eq_None_iff)
  then have n: "map_of (cModels d) n = None \<longleftrightarrow> n \<notin> {''m'', ''n'', ''o''}" for n by (simp add: keys)
  have "map_of (cModels d) ''n'' \<noteq> None" by (simp add: n del: not_None_eq)
  moreover have "RealModelName d ''x'' = Some ''m''" "RealModelName d ''y'' = Some ''m''" "RealModelName d ''n'' = Some ''n''"
    "RealModelName d ''q'' = None"
    by (simp_all add: RealModelName_def n al del: not_None_eq)
  ultimately show ?thesis using d by (intro exI[of _ d] conjI)
qed

lemma exConfig_keys: "distinct (map fst (cModels exConfig))" "distinct (map fst (cGroups exConfig))" "distinct (map fst (cRouterGroups exConfig))"
  "map_of (cGroups exConfig) DEFAULT_GROUP_ID = None" "map_of (cRouterGroups exConfig) DEFAULT_GROUP_ID = None"
  by (simp_all add: exConfig_def DEFAULT_GROUP_ID_def)




theorem spillover_targets_coexist_witness:
  "\<exists>d p sc. finishLoad exEnv exConfig = Inr d \<and> newGroupSwapper (cRouterGroups d) = Inr p \<and> localTargets d sc = [''m'', ''n''] \<and>
     ''n'' \<notin> set (groupEvictionFor p ''m'' [''n''])"
proof -
  let ?sc = "\<lparr>scStrategy = ''spillover'', scTargets = [''x'', ''n'', ''q''], scSpillover = 1\<rparr>"
  obtain d where d: "finishLoad exEnv exConfig = Inr d" "cMatrix d = None" "cSelectors d = cSelectors exConfig"
    and r: "RealModelName d ''x'' = Some ''m''" "RealModelName d ''n'' = Some ''n''" "RealModelName d ''q'' = None"
    using exConfig_loads by (elim exE conjE) (rule that)
  have l: "localTargets d ?sc = [''m'', ''n'']" using r by (simp add: localTargets_def resolvedTarget_def)
  have "(''s'', ?sc) \<in> set (cSelectors d)" by (simp add: d(3) exConfig_def)
  with spillover_targets_coexist[OF d(1) exConfig_keys(1), of "''s''" ?sc] d(1,2) l
  show ?thesis by (intro exI[of _ d]) auto
qed

section \<open>What the checks miss\<close>

text \<open>A group of the configuration that bears the default group's name is replaced: its members, if no other group has
  them, end up in no group, and the group router makes no process for them.\<close>

lemma default_group_orphans:
  assumes "map_of (cGroups c) DEFAULT_GROUP_ID = Some x" "m \<in> set (gMembers x)"
    and "\<And>g y. map_of (cGroups c) g = Some y \<Longrightarrow> g \<noteq> DEFAULT_GROUP_ID \<Longrightarrow> m \<notin> set (gMembers y)"
  shows "\<not> (\<exists>g y. map_of (cGroups (AddDefaultGroupToConfig c)) g = Some y \<and> m \<in> set (gMembers y))"
proof -
  have "(DEFAULT_GROUP_ID, x) \<in> set (cGroups c)" using assms(1) by (rule map_of_SomeD)
  then have "list_ex (\<lambda>(gid, g). m \<in> set (gMembers g)) (cGroups c)" "cGroups c \<noteq> []"
    using assms(2) by (force simp: list_ex_iff)+
  then show ?thesis using assms(3) by (auto simp: AddDefaultGroupToConfig_def Let_def)
qed

text \<open>Literal resident aliases are checked before the names of \<open>setParamsByID\<close> become aliases: one that such a name
  shadows is accepted. A priority may be given by an alias, which the scheduler never asks for.\<close>

lemma shadowed_resident_alias_accepted:
  "\<exists>d. finishLoad exEnv exConfig = Inr d \<and> ''y'' \<in> set (cResidentAliases d) \<and> RealModelName d ''y'' = Some ''m'' \<and>
     (''x'', 3) \<in> set (cPriority d) \<and> RealModelName d ''x'' = Some ''m''"
  using exConfig_loads by auto

end
