(* ===== verification/SelectorSafety.thy ===== *)
theory SelectorSafety
  imports Selector ConfigValid "HOL-Library.Multiset"
begin

text \<open>
  What selectors promise: which target a spillover selector chooses, that its counts are exactly the requests it holds,
  whatever comes and goes, and that equally busy targets take turns.
\<close>

section \<open>The least busy\<close>

abbreviation busy :: "spilloverState \<Rightarrow> spilloverTarget \<Rightarrow> int" where
  "busy s t \<equiv> mint (stInflight s) (stModelID t)"

lemma minimumBusy_from:
  assumes "\<forall>t \<in> set ts. 0 \<le> busy s t" "0 \<le> least"
  shows "let r = foldl (\<lambda>least t. let n = busy s t in if least < 0 \<or> n < least then n else least) least ts in
    r \<le> least \<and> (\<forall>t \<in> set ts. r \<le> busy s t) \<and> (r = least \<or> (\<exists>t \<in> set ts. r = busy s t))"
  using assms
proof (induction ts arbitrary: least)
  case (Cons t ts)
  let ?l = "if busy s t < least then busy s t else least"
  have "0 \<le> ?l" "\<forall>t \<in> set ts. 0 \<le> busy s t" using Cons.prems by simp_all
  note IH = Cons.IH[OF this(2,1)]
  have "foldl (\<lambda>least t. let n = busy s t in if least < 0 \<or> n < least then n else least) least (t # ts)
      = foldl (\<lambda>least t. let n = busy s t in if least < 0 \<or> n < least then n else least) ?l ts"
    using Cons.prems(2) by (simp add: Let_def)
  with IH show ?case by (simp only: Let_def) (auto split: if_splits)
qed simp

lemma minimumBusy_least:
  assumes "\<forall>t \<in> set ts. 0 \<le> busy s t" "ts \<noteq> []"
  shows "\<exists>t \<in> set ts. busy s t = minimumBusy s ts" "t \<in> set ts \<Longrightarrow> minimumBusy s ts \<le> busy s t"
proof -
  obtain u us where ts: "ts = u # us" using assms(2) by (cases ts) auto
  have "minimumBusy s ts = foldl (\<lambda>least t. let n = busy s t in if least < 0 \<or> n < least then n else least) (busy s u) us"
    by (simp add: minimumBusy_def ts Let_def)
  moreover have "0 \<le> busy s u" "\<forall>t \<in> set us. 0 \<le> busy s t" using assms(1) by (simp_all add: ts)
  note minimumBusy_from[OF this(2,1)]
  ultimately have "minimumBusy s ts \<le> busy s u \<and> (\<forall>t \<in> set us. minimumBusy s ts \<le> busy s t) \<and>
      (minimumBusy s ts = busy s u \<or> (\<exists>t \<in> set us. minimumBusy s ts = busy s t))"
    unfolding Let_def by metis
  then show "\<exists>t \<in> set ts. busy s t = minimumBusy s ts" "t \<in> set ts \<Longrightarrow> minimumBusy s ts \<le> busy s t"
    by (auto simp: ts)
qed

text \<open>The target that \<open>reserveLeastBusy\<close> takes, by the turn.\<close>

definition tiedTargets :: "spilloverState \<Rightarrow> spilloverTarget list \<Rightarrow> spilloverTarget list" where
  "tiedTargets s ts = filter (\<lambda>t. busy s t = minimumBusy s ts) ts"

definition turn :: "spilloverState \<Rightarrow> spilloverTarget list \<Rightarrow> spilloverTarget" where
  "turn s ts = tiedTargets s ts ! (unat (stRR s mod of_nat (length (tiedTargets s ts))))"

lemma unat_mod_length: "0 < n \<Longrightarrow> n < 2 ^ 64 \<Longrightarrow> unat ((w :: 64 word) mod of_nat n) = unat w mod n"
  by (simp add: unat_mod_distrib unat_of_nat)

lemma turn_tied:
  assumes "\<forall>t \<in> set ts. 0 \<le> busy s t" "ts \<noteq> []" "length ts < 2 ^ 64"
  shows "turn s ts \<in> set (tiedTargets s ts)"
proof -
  have "tiedTargets s ts \<noteq> []" using minimumBusy_least(1)[OF assms(1,2)] by (auto simp: tiedTargets_def filter_empty_conv)
  moreover have "length (tiedTargets s ts) \<le> length ts" by (simp add: tiedTargets_def)
  ultimately show ?thesis using assms(3) by (simp add: turn_def unat_mod_length)
qed

lemma reserveLeastBusy_turn: "reserveLeastBusy ts s = reserve (turn s ts) (s\<lparr>stRR := stRR s + 1\<rparr>)"
  by (simp add: reserveLeastBusy_def turn_def tiedTargets_def Let_def)

section \<open>The choice\<close>

lemma chooseSpillover_cases:
  assumes "\<forall>t \<in> set (stTargets s). 0 \<le> busy s t" "length (stTargets s) < 2 ^ 64"
  obtains "activeTargets s running = []" "coldTargets s running = []" "chooseSpillover sid running s = Inl (NoneAvailable sid)"
  | t where "coldTargets s running \<noteq> []" "t = hd (coldTargets s running)"
      "\<forall>u \<in> set (activeTargets s running). stSpillover s \<le> busy s u" "chooseSpillover sid running s = Inr (reserve t s)"
  | t where "t \<in> set (activeTargets s running)" "\<forall>u \<in> set (activeTargets s running). busy s t \<le> busy s u"
      "busy s t < stSpillover s \<or> coldTargets s running = []" "t = turn s (activeTargets s running)"
      "chooseSpillover sid running s = Inr (reserve t (s\<lparr>stRR := stRR s + 1\<rparr>))"
proof (cases "activeTargets s running = []")
  case True
  show ?thesis
  proof (cases "coldTargets s running = []")
    case False
    then show ?thesis using True that(2)[of "hd (coldTargets s running)"] by (simp add: chooseSpillover_def)
  qed (use True that(1) in \<open>simp add: chooseSpillover_def\<close>)
next
  case False
  let ?as = "activeTargets s running" and ?cs = "coldTargets s running"
  have nn: "\<forall>t \<in> set ?as. 0 \<le> busy s t" using assms(1) by (simp add: activeTargets_def)
  have "length ?as \<le> length (stTargets s)" by (simp add: activeTargets_def)
  then have "turn s ?as \<in> set (tiedTargets s ?as)" using assms(2) by (intro turn_tied nn False) simp
  then have t: "turn s ?as \<in> set ?as" "busy s (turn s ?as) = minimumBusy s ?as" by (simp_all add: tiedTargets_def)
  have least: "\<forall>u \<in> set ?as. busy s (turn s ?as) \<le> busy s u" using minimumBusy_least(2)[OF nn False] t(2) by simp
  show ?thesis
  proof (cases "minimumBusy s ?as < stSpillover s \<or> ?cs = []")
    case True
    then have "chooseSpillover sid running s = Inr (reserveLeastBusy ?as s)" using False by (auto simp: chooseSpillover_def Let_def)
    with that(3)[OF t(1) least] t(2) True show ?thesis by (auto simp: reserveLeastBusy_turn)
  next
    case sat: False
    then have "chooseSpillover sid running s = Inr (reserve (hd ?cs) s)" using False by (simp add: chooseSpillover_def Let_def)
    moreover have "\<forall>u \<in> set ?as. stSpillover s \<le> busy s u" using sat least t(2) by force
    ultimately show ?thesis using that(2)[of "hd ?cs"] sat by simp
  qed
qed


definition exState :: spilloverState where
  "exState = \<lparr>stSpillover = 1, stTargets = [\<lparr>stTarget = ''a'', stModelID = ''a'', stLocal = True\<rparr>, \<lparr>stTarget = ''b'', stModelID = ''b'', stLocal = True\<rparr>],
     stInflight = [], stRR = 0\<rparr>"


section \<open>Requests that come and go\<close>

text \<open>A request arrives, told what runs, or one that holds a reservation returns. \<open>held\<close>: the reservations held, by
  selector and target.\<close>

datatype selectorEvent = Arrive "(string, ProcessState) gomap" string bool bool | Return string string

type_synonym selectorWorld = "spilloverTracker \<times> (string \<times> string) multiset"

fun selectorStep :: "Config \<Rightarrow> selectorWorld \<Rightarrow> selectorEvent \<Rightarrow> selectorWorld" where
  "selectorStep conf (tracker, held) (Arrive running model replaced websocket) =
     (case selectorEnter conf tracker running model replaced websocket of (outcome, tracker') \<Rightarrow>
        (tracker', case outcome of Forwarded target True \<Rightarrow> add_mset (model, target) held | _ \<Rightarrow> held))"
| "selectorStep conf (tracker, held) (Return model target) =
     (if (model, target) \<in># held
      then (selectorLeave model (Forwarded target True) tracker, held - {#(model, target)#}) else (tracker, held))"

definition selectorRun :: "Config \<Rightarrow> selectorEvent list \<Rightarrow> selectorWorld" where
  "selectorRun conf evs = foldl (selectorStep conf) (newSelectorSpilloverTracker conf, {#}) evs"

text \<open>The books of one selector: its targets are told apart by their model, and each count is what is held.\<close>

definition books :: "Config \<Rightarrow> (string \<times> string) multiset \<Rightarrow> string \<Rightarrow> spilloverState \<Rightarrow> bool" where
  "books conf held sid s \<longleftrightarrow> inj_on stModelID (set (stTargets s)) \<and> length (stTargets s) < 2 ^ 64 \<and>
     (\<forall>t \<in> set (stTargets s). stModelID t = resolvedTarget conf (stTarget t) \<and> busy s t = int (count held (sid, stTarget t))) \<and>
     (\<forall>x. (sid, x) \<in># held \<longrightarrow> x \<in> stTarget ` set (stTargets s))"

definition world_ok :: "Config \<Rightarrow> selectorWorld \<Rightarrow> bool" where
  "world_ok conf w \<longleftrightarrow> (\<forall>sid s. map_of (fst w) sid = Some s \<longrightarrow> books conf (snd w) sid s) \<and>
     (\<forall>sid x. (sid, x) \<in># snd w \<longrightarrow> map_of (fst w) sid \<noteq> None)"

lemma books_count: "books conf held sid s \<Longrightarrow> t \<in> set (stTargets s) \<Longrightarrow> busy s t = int (count held (sid, stTarget t))"
  unfolding books_def by (elim conjE) (drule (1) bspec, elim conjE)

text \<open>The counts after a reservation, and after one is given back.\<close>

lemma books_reserve:
  assumes "books conf held sid s" "t \<in> set (stTargets s)" "stTargets s' = stTargets s"
    and "\<forall>m. mint (stInflight s') m = mint (stInflight s) m + (if m = stModelID t then 1 else 0)"
  shows "books conf (add_mset (sid, stTarget t) held) sid s'"
proof -
  have "stModelID u = stModelID t \<longleftrightarrow> stTarget u = stTarget t" if "u \<in> set (stTargets s)" for u
    using assms(1,2) that by (metis books_def inj_onD)
  then show ?thesis using assms by (auto simp: books_def)
qed

lemma find_only: "t \<in> set xs \<Longrightarrow> (\<And>x. x \<in> set xs \<Longrightarrow> P x \<longleftrightarrow> x = t) \<Longrightarrow> List.find P xs = Some t"
  by (induction xs) auto

lemma releaseTarget_books:
  assumes "books conf held sid s" "(sid, x) \<in># held"
  shows "books conf (held - {#(sid, x)#}) sid (releaseTarget x s)"
proof -
  obtain t where t: "t \<in> set (stTargets s)" "x = stTarget t" using assms by (auto simp: books_def)
  have inj: "stTarget u = stTarget t \<longleftrightarrow> u = t" "stModelID u = stModelID t \<longleftrightarrow> u = t" if "u \<in> set (stTargets s)" for u
    using assms(1) t(1) that by (metis books_def inj_onD)+
  have "0 < busy s t" using books_count[OF assms(1) t(1)] assms(2) t(2) by simp
  then have "List.find (\<lambda>t. stTarget t = x \<and> mint (stInflight s) (stModelID t) > 0) (stTargets s) = Some t"
    using inj t by (intro find_only) auto
  then have r: "releaseTarget x s = s\<lparr>stInflight := mput (stModelID t) (busy s t - 1) (stInflight s)\<rparr>"
    by (simp add: releaseTarget_def)
  have pos: "0 < count held (sid, x)" using assms(2) by simp
  have "busy (releaseTarget x s) u = int (count (held - {#(sid, x)#}) (sid, stTarget u))" if u: "u \<in> set (stTargets s)" for u
  proof -
    have "busy (releaseTarget x s) u = (if u = t then busy s t - 1 else busy s u)" unfolding r using inj(2)[OF u] by simp
    moreover have "busy s u = int (count held (sid, stTarget u))" using assms(1) u by (rule books_count)
    moreover have "int (count held (sid, x)) - 1 = int (count held (sid, x) - 1)" using pos by linarith
    moreover have "stTarget t \<noteq> stTarget u" if "u \<noteq> t" using inj(1)[OF u] that by metis
    ultimately show ?thesis using books_count[OF assms(1) t(1)] unfolding t(2)
      by (cases "u = t") (simp_all only: count_diff count_single prod.inject if_True if_False simp_thms diff_zero refl)
  qed
  then show ?thesis using assms(1) unfolding books_def r by (auto dest: in_diffD)
qed

lemma chooseSpillover_books:
  assumes "books conf held sid s" "chooseSpillover sid running s = Inr (x, s')"
  shows "books conf (add_mset (sid, x) held) sid s'"
proof -
  have nn: "\<forall>t \<in> set (stTargets s). 0 \<le> busy s t" using books_count[OF assms(1)] by simp
  have len: "length (stTargets s) < 2 ^ 64" using assms(1) by (simp add: books_def)
  obtain t where "t \<in> set (stTargets s)" "x = stTarget t" "stTargets s' = stTargets s"
    "\<forall>m. mint (stInflight s') m = mint (stInflight s) m + (if m = stModelID t then 1 else 0)"
    using nn len
  proof (cases rule: chooseSpillover_cases[of s running sid])
    case (2 t)
    then have "t \<in> set (coldTargets s running)" by simp
    then show ?thesis using that[of t] 2(4) assms(2) by (auto simp: coldTargets_def reserve_def)
  next
    case (3 t)
    then show ?thesis using that[of t] assms(2) by (auto simp: activeTargets_def reserve_def)
  qed (use assms(2) in simp)
  with books_reserve[OF assms(1)] show ?thesis by simp
qed

lemma books_other: "books conf held sid s \<Longrightarrow> sid' \<noteq> sid \<Longrightarrow> books conf (add_mset (sid', x) held) sid s"
  by (auto simp: books_def)

lemma books_other_less: "books conf held sid s \<Longrightarrow> sid' \<noteq> sid \<Longrightarrow> books conf (held - {#(sid', x)#}) sid s"
  by (auto simp: books_def dest: in_diffD)

lemma releaseSpillover_ok:
  assumes "world_ok conf (tracker, held)" "(sid, x) \<in># held"
  shows "world_ok conf (releaseSpillover sid x tracker, held - {#(sid, x)#})"
proof -
  obtain s where s: "map_of tracker sid = Some s" using assms by (auto simp: world_ok_def)
  then have b: "books conf held sid s" using assms(1) by (simp add: world_ok_def)
  have "map_of (releaseSpillover sid x tracker) = (map_of tracker)(sid \<mapsto> releaseTarget x s)"
    using s by (simp add: releaseSpillover_def)
  moreover have "map_of tracker k \<noteq> None" if "(k, y) \<in># held - {#(sid, x)#}" for k y
    using assms(1) in_diffD[OF that] unfolding world_ok_def snd_conv fst_conv by blast
  ultimately show ?thesis using assms(1) releaseTarget_books[OF b assms(2)] unfolding world_ok_def
    by (auto intro: books_other_less)
qed

lemma strategySpillover_ok:
  assumes "world_ok conf (tracker, held)" "strategySpillover sid tracker running = Inr (x, tracker')"
  shows "world_ok conf (tracker', add_mset (sid, x) held)"
proof -
  obtain s s' where s: "map_of tracker sid = Some s" "chooseSpillover sid running s = Inr (x, s')" "tracker' = mput sid s' tracker"
    using assms(2) by (cases "map_of tracker sid"; cases "chooseSpillover sid running (the (map_of tracker sid))")
      (auto simp: strategySpillover_def)
  then have "books conf held sid s" using assms(1) by (simp add: world_ok_def)
  with chooseSpillover_books[OF this s(2)] s assms(1) show ?thesis
    by (auto simp: world_ok_def intro: books_other)
qed

lemma selectorStep_ok:
  assumes "world_ok conf w"
  shows "world_ok conf (selectorStep conf w ev)"
proof (cases ev)
  case (Return model target)
  then show ?thesis using assms releaseSpillover_ok[of conf "fst w" "snd w" model target]
    by (cases w) (auto simp: selectorLeave_def)
next
  case (Arrive running model replaced websocket)
  obtain tracker held where w: "w = (tracker, held)" by (cases w)
  show ?thesis
  proof (cases "cSelectors conf = [] \<or> model = []")
    case n: False
    show ?thesis
    proof (cases "map_of (cSelectors conf) model")
      case (Some sc)
      show ?thesis
      proof (cases "scStrategy sc = ''spillover''")
        case spill: True
        show ?thesis
        proof (cases "strategySpillover model tracker running")
          case (Inr r)
          obtain x tracker' where r: "r = (x, tracker')" by (cases r)
          have ok: "world_ok conf (tracker', add_mset (model, x) held)"
            using strategySpillover_ok[of conf tracker held model running x tracker'] assms Inr by (simp add: w r)
          then have given: "world_ok conf (releaseSpillover model x tracker', held)"
            using releaseSpillover_ok[OF ok, of model x] by simp
          show ?thesis using ok given n Some spill Inr by (auto simp: Arrive w r selectorEnter_def split: option.splits)
        qed (use assms n Some spill in \<open>simp add: Arrive w selectorEnter_def\<close>)
      next
        case False
        then show ?thesis using assms n Some
          by (cases "strategyPin sc"; cases "strategyWarm conf sc running") (simp_all add: Arrive w selectorEnter_def)
      qed
    qed (use assms n in \<open>simp add: Arrive w selectorEnter_def\<close>)
  qed (use assms in \<open>simp add: Arrive w selectorEnter_def\<close>)
qed

lemma newTracker_some:
  assumes "map_of (newSelectorSpilloverTracker conf) sid = Some s"
  shows "\<exists>sc. (sid, sc) \<in> set (cSelectors conf) \<and> scStrategy sc = ''spillover'' \<and> stInflight s = [] \<and>
    stTargets s = map (newTarget conf) (scTargets sc)"
proof -
  let ?step = "\<lambda>tracker (selectorID, sc).
    if scStrategy sc \<noteq> ''spillover'' then tracker
    else mput selectorID \<lparr>stSpillover = scSpillover sc, stTargets = map (newTarget conf) (scTargets sc), stInflight = [], stRR = 0\<rparr> tracker"
  have "map_of (foldl ?step [] xs) sid = Some s \<Longrightarrow> \<exists>sc. (sid, sc) \<in> set xs \<and> scStrategy sc = ''spillover'' \<and> stInflight s = [] \<and>
      stTargets s = map (newTarget conf) (scTargets sc)" for xs
  proof (induction xs rule: rev_induct)
    case (snoc x xs)
    obtain k sc where x: "x = (k, sc)" by (cases x)
    show ?case
    proof (cases "scStrategy sc = ''spillover'' \<and> k = sid")
      case True
      with snoc.prems show ?thesis by (intro exI[of _ sc]) (auto simp: x)
    next
      case False
      with snoc.prems have "map_of (foldl ?step [] xs) sid = Some s" by (simp add: x split: if_splits)
      with snoc.IH show ?thesis by auto
    qed
  qed simp
  with assms show ?thesis by (simp add: newSelectorSpilloverTracker_def)
qed

lemma finishLoad_distinct_targets:
  assumes "finishLoad env c = Inr d" "(s, sc) \<in> set (cSelectors d)" "scStrategy sc = ''spillover''"
  shows "distinct (map (resolvedTarget d) (scTargets sc))"
proof -
  obtain e where "runSteps (loadRest env) e = Inr d" using assms(1) by (rule finishLoad_run)
  then obtain x t where x: "validateSelectors x = None" "d = x\<lparr>cTailcat := t\<rparr>" by (rule loadRest_run)
  have f: "frame x d" using x(2) by simp
  have "selectorCheck x (s, sc) = None" using x assms(2) by (auto simp: validateSelectors_def firstError_None)
  then have "distinct (map (resolvedTarget x) (scTargets sc))" using selectorCheck_None(5) assms(3) by simp
  moreover have "resolvedTarget d = resolvedTarget x"
    unfolding resolvedTarget_def by (simp only: RealModelName_frame[OF f] ResolvePeerModel_frame[OF f])
  ultimately show ?thesis by simp
qed

lemma newTracker_ok:
  assumes "finishLoad env c = Inr conf" "\<forall>(sid, sc) \<in> set (cSelectors conf). length (scTargets sc) < 2 ^ 64"
  shows "world_ok conf (newSelectorSpilloverTracker conf, {#})"
  unfolding world_ok_def
proof (intro conjI allI impI)
  fix sid s assume "map_of (fst (newSelectorSpilloverTracker conf, {#})) sid = Some s"
  then obtain sc where sc: "(sid, sc) \<in> set (cSelectors conf)" "scStrategy sc = ''spillover''" "stInflight s = []"
    "stTargets s = map (newTarget conf) (scTargets sc)" using newTracker_some by fastforce
  have "inj_on (resolvedTarget conf) (set (scTargets sc))"
    using finishLoad_distinct_targets[OF assms(1) sc(1,2)] by (simp add: distinct_map)
  then have "inj_on stModelID (set (stTargets s))" by (auto simp: sc(4) inj_on_def newTarget_def)
  then show "books conf (snd (newSelectorSpilloverTracker conf, {#})) sid s"
    using assms(2) sc by (auto simp: books_def newTarget_def)
qed simp

text \<open>C40. The counts of a spillover selector are exactly the requests it holds. After any sequence of requests arriving,
  being refused, failing to be rewritten, upgrading to an ignored websocket and returning, the count of each target is the
  number of its reservations that have not been given back; so none leaks, and once all have returned all are zero.\<close>

theorem reservations_exact:
  assumes "finishLoad env c = Inr conf" "\<forall>(sid, sc) \<in> set (cSelectors conf). length (scTargets sc) < 2 ^ 64"
    and "map_of (fst (selectorRun conf evs)) sid = Some s" "t \<in> set (stTargets s)"
  shows "busy s t = int (count (snd (selectorRun conf evs)) (sid, stTarget t))"
proof -
  have "world_ok conf w \<Longrightarrow> world_ok conf (foldl (selectorStep conf) w evs)" for w
    by (induction evs arbitrary: w) (simp_all add: selectorStep_ok del: split_paired_All)
  then have "world_ok conf (selectorRun conf evs)" unfolding selectorRun_def using newTracker_ok[OF assms(1,2)] by simp
  then have "books conf (snd (selectorRun conf evs)) sid s" using assms(3) by (simp add: world_ok_def)
  then show ?thesis using assms(4) by (rule books_count)
qed

section \<open>Turns\<close>

text \<open>Requests that come one after the other, each returning before the next.\<close>

primrec turns :: "nat \<Rightarrow> string \<Rightarrow> (string, ProcessState) gomap \<Rightarrow> spilloverState \<Rightarrow> string list" where
  "turns 0 sid running s = []"
| "turns (Suc n) sid running s =
     (case chooseSpillover sid running s of
        Inl e \<Rightarrow> []
      | Inr (x, s') \<Rightarrow> x # turns n sid running (releaseTarget x s'))"

text \<open>States that differ only in how the counts are stored behave alike.\<close>

definition alike :: "spilloverState \<Rightarrow> spilloverState \<Rightarrow> bool" where
  "alike s s' \<longleftrightarrow> stSpillover s' = stSpillover s \<and> stTargets s' = stTargets s \<and> mint (stInflight s') = mint (stInflight s)"

lemma alike_targets: "alike s s' \<Longrightarrow> activeTargets s' running = activeTargets s running"
  by (simp add: alike_def activeTargets_def standingOf_def)

lemma reserve_release:
  assumes "inj_on stModelID (set (stTargets s))" "inj_on stTarget (set (stTargets s))" "t \<in> set (stTargets s)" "0 \<le> busy s t"
    and "reserve t (s\<lparr>stRR := r\<rparr>) = (x, s')"
  shows "x = stTarget t" "alike s (releaseTarget x s')" "stRR (releaseTarget x s') = r"
proof -
  let ?n = "busy s t + 1"
  have x: "x = stTarget t" and s': "s' = s\<lparr>stRR := r, stInflight := mput (stModelID t) ?n (stInflight s)\<rparr>"
    using assms(5) by (simp_all add: reserve_def)
  have "List.find (\<lambda>t. stTarget t = x \<and> mint (stInflight s') (stModelID t) > 0) (stTargets s') = Some t"
    using assms(2-4) by (intro find_only) (auto simp: x s' inj_on_def)
  then have rel: "releaseTarget x s' = s'\<lparr>stInflight := mput (stModelID t) (mint (stInflight s') (stModelID t) - 1) (stInflight s')\<rparr>"
    by (simp add: releaseTarget_def)
  show "x = stTarget t" by (rule x)
  show "stRR (releaseTarget x s') = r" unfolding rel by (simp add: s')
  show "alike s (releaseTarget x s')" unfolding rel alike_def by (auto simp: s' fun_eq_iff)
qed

lemma turn_in_turn:
  assumes "\<forall>t \<in> set ts. busy s t = b" "ts \<noteq> []" "length ts < 2 ^ 64" "0 \<le> b"
  shows "turn s ts = ts ! (unat (stRR s) mod length ts)" "minimumBusy s ts = b"
proof -
  have nn: "\<forall>t \<in> set ts. 0 \<le> busy s t" using assms(1,4) by simp
  show m: "minimumBusy s ts = b" using minimumBusy_least(1)[OF nn assms(2)] assms(1) by auto
  then have "tiedTargets s ts = ts" using assms(1) by (simp add: tiedTargets_def)
  then show "turn s ts = ts ! (unat (stRR s) mod length ts)" using assms(2,3) by (simp add: turn_def unat_mod_length)
qed

lemma turns_nth:
  assumes "inj_on stModelID (set (stTargets s))" "inj_on stTarget (set (stTargets s))" "length (stTargets s) < 2 ^ 64"
    and "activeTargets s running = ts" "ts \<noteq> []" "\<forall>t \<in> set ts. busy s t = b" "0 \<le> b" "b < stSpillover s"
    and "unat (stRR s) + n \<le> 2 ^ 64"
  shows "turns n sid running s = map (\<lambda>i. stTarget (ts ! ((unat (stRR s) + i) mod length ts))) [0 ..< n]"
  using assms
proof (induction n arbitrary: s)
  case (Suc n)
  let ?t = "turn s ts"
  have sub: "set ts \<subseteq> set (stTargets s)" and len: "length ts < 2 ^ 64"
    using Suc.prems(3,4) by (auto simp: activeTargets_def intro: le_less_trans[OF length_filter_le])
  note T = turn_in_turn[OF Suc.prems(6,5) len Suc.prems(7)]
  have t: "?t \<in> set ts" unfolding T(1) using Suc.prems(5) by simp
  obtain x s' where r: "reserve ?t (s\<lparr>stRR := stRR s + 1\<rparr>) = (x, s')" by (cases "reserve ?t (s\<lparr>stRR := stRR s + 1\<rparr>)")
  have "chooseSpillover sid running s = Inr (reserveLeastBusy ts s)"
    using Suc.prems(4,5,8) T(2) by (simp add: chooseSpillover_def Let_def)
  then have c: "chooseSpillover sid running s = Inr (x, s')" by (simp add: reserveLeastBusy_turn r)
  have "?t \<in> set (stTargets s)" "0 \<le> busy s ?t" using t sub Suc.prems(6,7) by auto
  note R = reserve_release[OF Suc.prems(1,2) this r]
  let ?s = "releaseTarget x s'"
  have a: "stTargets ?s = stTargets s" "stSpillover ?s = stSpillover s" "\<forall>t \<in> set ts. busy ?s t = b" "activeTargets ?s running = ts"
    using R(2) Suc.prems(4,6) alike_targets[OF R(2)] by (simp_all add: alike_def)
  have rr: "unat (stRR ?s) + n \<le> 2 ^ 64 \<and> (n > 0 \<longrightarrow> unat (stRR ?s) = unat (stRR s) + 1)"
  proof (cases "n = 0")
    case False
    then have "unat (stRR s) + 1 < 2 ^ 64" using Suc.prems(9) by simp
    then have "unat (stRR s + 1) = unat (stRR s) + 1" by (simp add: unat_word_ariths)
    then show ?thesis using R(3) Suc.prems(9) by simp
  next
    case True
    have "unat (stRR ?s) < 2 ^ 64" by (rule order_less_le_trans[OF unsigned_less]) simp
    then show ?thesis using True by simp
  qed
  have "turns n sid running ?s = map (\<lambda>i. stTarget (ts ! ((unat (stRR ?s) + i) mod length ts))) [0 ..< n]"
    by (rule Suc.IH) (use a Suc.prems rr in simp_all)
  also have "\<dots> = map (\<lambda>i. stTarget (ts ! ((unat (stRR s) + Suc i) mod length ts))) [0 ..< n]"
    using rr by (cases "n = 0") simp_all
  finally show ?case using c R(1) T(1) by (simp add: upt_conv_Cons map_Suc_upt[symmetric] del: upt_Suc)
qed simp

text \<open>Equally busy targets below the limit take turns: of as many requests as there are such active targets, each returned
  before the next comes, every target serves exactly one, from wherever the turn stands (short of its wrap-around).\<close>

theorem idle_targets_take_turns:
  assumes "inj_on stModelID (set (stTargets s))" "inj_on stTarget (set (stTargets s))" "length (stTargets s) < 2 ^ 64"
    and "activeTargets s running = ts" "ts \<noteq> []" "\<forall>t \<in> set ts. busy s t = b" "0 \<le> b" "b < stSpillover s"
    and "unat (stRR s) + length ts \<le> 2 ^ 64"
  shows "mset (turns (length ts) sid running s) = mset (map stTarget ts)"
proof -
  have "turns (length ts) sid running s = map (\<lambda>i. stTarget (ts ! ((unat (stRR s) + i) mod length ts))) [0 ..< length ts]"
    using assms by (rule turns_nth)
  also have "\<dots> = rotate (unat (stRR s)) (map stTarget ts)"
    using assms(5) by (intro nth_equalityI) (simp_all add: nth_rotate)
  also have "mset \<dots> = mset (map stTarget ts)"
    unfolding rotate_drop_take mset_append by (metis add.commute append_take_drop_id mset_append)
  finally show ?thesis .
qed

theorem idle_targets_take_turns_witness:
  "mset (turns 2 ''s'' [(''a'', StateReady), (''b'', StateReady)] exState) = {#''a'', ''b''#}"
proof -
  let ?r = "[(''a'', StateReady), (''b'', StateReady)]"
  have "activeTargets exState ?r = stTargets exState" by (simp add: exState_def activeTargets_def standingOf_def)
  then have "mset (turns (length (stTargets exState)) ''s'' ?r exState) = mset (map stTarget (stTargets exState))"
    by (rule idle_targets_take_turns[rotated 3, of _ _ _ 0]) (simp_all add: exState_def)
  then show ?thesis by (simp add: exState_def numeral_2_eq_2)
qed

theorem reservations_exact_witness:
  "\<exists>d s. finishLoad exEnv exConfig = Inr d \<and> map_of (fst (selectorRun d [Arrive [] ''s'' True False])) ''s'' = Some s \<and>
     busy s (newTarget d ''x'') = 1 \<and> snd (selectorRun d [Arrive [] ''s'' True False]) = {#(''s'', ''x'')#}"
proof -
  let ?sc = "\<lparr>scStrategy = ''spillover'', scTargets = [''x'', ''n'', ''q''], scSpillover = 1\<rparr>" and ?evs = "[Arrive [] ''s'' True False]"
  obtain d where d: "finishLoad exEnv exConfig = Inr d" "cSelectors d = cSelectors exConfig"
    and r: "RealModelName d ''x'' = Some ''m''" "RealModelName d ''n'' = Some ''n''" "RealModelName d ''q'' = None"
    using exConfig_loads by (elim exE conjE) (rule that)
  have sel: "cSelectors d = [(''s'', ?sc)]" by (simp add: d(2) exConfig_def)
  let ?ts = "map (newTarget d) [''x'', ''n'', ''q'']"
  let ?s = "\<lparr>stSpillover = 1, stTargets = ?ts, stInflight = [], stRR = 0\<rparr>"
  have new: "newSelectorSpilloverTracker d = [(''s'', ?s)]" by (simp add: newSelectorSpilloverTracker_def sel mput_def)
  have x: "newTarget d ''x'' = \<lparr>stTarget = ''x'', stModelID = ''m'', stLocal = True\<rparr>"
    by (simp add: newTarget_def resolvedTarget_def r(1))
  have "coldTargets ?s [] = ?ts" "activeTargets ?s [] = []" by (simp_all add: coldTargets_def activeTargets_def standingOf_def)
  then have "chooseSpillover ''s'' [] ?s = Inr (''x'', ?s\<lparr>stInflight := [(''m'', 1)]\<rparr>)"
    by (simp add: chooseSpillover_def reserve_def x mput_def)
  then have "strategySpillover ''s'' [(''s'', ?s)] [] = Inr (''x'', [(''s'', ?s\<lparr>stInflight := [(''m'', 1)]\<rparr>)])"
    by (simp add: strategySpillover_def mput_def)
  then have "selectorRun d ?evs = ([(''s'', ?s\<lparr>stInflight := [(''m'', 1)]\<rparr>)], {#(''s'', ''x'')#})"
    by (simp add: selectorRun_def new selectorEnter_def sel split: option.split)
  then have run: "map_of (fst (selectorRun d ?evs)) ''s'' = Some (?s\<lparr>stInflight := [(''m'', 1)]\<rparr>)"
    "snd (selectorRun d ?evs) = {#(''s'', ''x'')#}" by simp_all
  have "\<forall>(sid, sc) \<in> set (cSelectors d). length (scTargets sc) < 2 ^ 64" by (simp add: sel)
  from reservations_exact[OF d(1) this run(1), of "newTarget d ''x''"]
  have "busy (?s\<lparr>stInflight := [(''m'', 1)]\<rparr>) (newTarget d ''x'') = 1" by (simp add: run(2) x)
  with d(1) run show ?thesis by blast
qed

text \<open>\<open>RunningModels\<close> leaves out the processes that are shut down, so \<open>strategySpillover\<close> takes such a target for a cold
  one: its own check for \<open>StateShutdown\<close> never applies.\<close>

lemma shut_down_target_is_cold:
  assumes "distinct (map fst procs)" "map_of procs (stModelID t) = Some StateShutdown" "busy s t = 0"
  shows "standingOf s (RunningModels procs) t = Cold"
proof -
  have "(stModelID t, v) \<notin> set (RunningModels procs)" for v
    using map_of_SomeD[OF assms(2)] eq_key_imp_eq_value[OF assms(1)] by (fastforce simp: RunningModels_def)
  then have "map_of (RunningModels procs) (stModelID t) = None" by (meson not_None_eq map_of_SomeD)
  then show ?thesis using assms(3) by (simp add: standingOf_def)
qed

end
