(* ===== verification/RequestFilters.thy ===== *)
theory RequestFilters
  imports ConfigLoad
begin

text \<open>
  What is done to a request's body before it is sent on: the parameters a configuration strips and sets
  (\<open>internal/config/filters.go\<close>, \<open>internal/server/filters.go\<close>), the images a text model cannot read
  (\<open>server/filters_image.go\<close>), the sampling headers (\<open>server/sampling_headers.go\<close>). The JSON packages are a record of
  parameters: read a field, set it, delete it, each by path.
\<close>

section \<open>Sanitized parameters\<close>

definition ProtectedParams :: "string list" where "ProtectedParams = [''model'']"

record Filters =
  fStripParams :: string
  fSetParams :: "(string, yval) gomap"
  fSetParamsByID :: "(string, (string, yval) gomap) gomap"

definition zeroFilters :: Filters where
  "zeroFilters = \<lparr>fStripParams = [], fSetParams = [], fSetParamsByID = []\<rparr>"

fun stripLoop :: "string list \<Rightarrow> string list \<Rightarrow> string list" where
  "stripLoop seenParams [] = []"
| "stripLoop seenParams (param # ps) =
     (let trimmed = TrimSpaceUTF8 param in
      if trimmed \<in> set ProtectedParams \<or> trimmed = [] \<or> trimmed \<in> set seenParams then stripLoop seenParams ps
      else trimmed # stripLoop (trimmed # seenParams) ps)"

definition SanitizedStripParams :: "Filters \<Rightarrow> string list" where
  "SanitizedStripParams f = (if fStripParams f = [] then [] else sort (stripLoop [] (splitByte CHR '','' (fStripParams f))))"

text \<open>The two passes of \<open>sanitizeParams\<close>: the hard keys, then those with a question mark.\<close>

definition hardStep :: "(string, yval) gomap \<Rightarrow> string \<times> yval \<Rightarrow> (string, yval) gomap" where
  "hardStep result = (\<lambda>(key, v). if hasSuffix key ''?'' \<or> key \<in> set ProtectedParams then result else mput key v result)"

definition softStep ::
    "(string, yval) gomap \<times> string list \<Rightarrow> string \<times> yval \<Rightarrow> (string, yval) gomap \<times> string list" where
  "softStep = (\<lambda>(result, soft) (key, v).
     if \<not> hasSuffix key ''?'' then (result, soft)
     else let k = butlast key in
       if k = [] \<or> k \<in> set ProtectedParams then (result, soft)
       else if map_of result k \<noteq> None then (result, soft)
       else (mput k v result, soft @ [k]))"

definition sanitizeParams :: "(string, yval) gomap \<Rightarrow> (string, yval) gomap \<times> string list \<times> string list" where
  "sanitizeParams raw =
     (case foldl softStep (foldl hardStep [] raw, []) raw of (result, soft) \<Rightarrow> (result, sort (mkeys result), soft))"

definition SanitizedSetParams :: "Filters \<Rightarrow> (string, yval) gomap \<times> string list \<times> string list" where
  "SanitizedSetParams f = (if fSetParams f = [] then ([], [], []) else sanitizeParams (fSetParams f))"

definition SanitizedSetParamsByID :: "Filters \<Rightarrow> string \<Rightarrow> (string, yval) gomap \<times> string list \<times> string list" where
  "SanitizedSetParamsByID f requested =
     (case map_of (fSetParamsByID f) requested of
        None \<Rightarrow> ([], [], [])
      | Some params \<Rightarrow> if params = [] then ([], [], []) else sanitizeParams params)"

section \<open>Rewriting a body\<close>

text \<open>What is written into a body: a name, a value of the configuration, a number of a header.\<close>

datatype jparam = PName string | PValue yval | PNumber rat

record 'b JsonOps =
  jGet :: "'b \<Rightarrow> string \<Rightarrow> jparam option"
  jSet :: "string \<Rightarrow> jparam \<Rightarrow> 'b \<Rightarrow> 'b option"
  jDel :: "string \<Rightarrow> 'b \<Rightarrow> 'b option"
  jValid :: "'b \<Rightarrow> bool"

fun stripAll :: "'b JsonOps \<Rightarrow> string list \<Rightarrow> 'b \<Rightarrow> 'b option" where
  "stripAll J [] body = Some body"
| "stripAll J (param # ps) body = (case jDel J param body of None \<Rightarrow> None | Some body' \<Rightarrow> stripAll J ps body')"

fun setAll :: "'b JsonOps \<Rightarrow> (string, yval) gomap \<Rightarrow> string list \<Rightarrow> string list \<Rightarrow> 'b \<Rightarrow> 'b option" where
  "setAll J params soft [] body = Some body"
| "setAll J params soft (key # ks) body =
     (if key \<in> set soft \<and> jGet J body key \<noteq> None then setAll J params soft ks body
      else case jSet J key (PValue (case map_of params key of Some v \<Rightarrow> v | None \<Rightarrow> YNull)) body of
        None \<Rightarrow> None
      | Some body' \<Rightarrow> setAll J params soft ks body')"

definition applyFilters :: "'b JsonOps \<Rightarrow> 'b \<Rightarrow> string \<Rightarrow> string \<Rightarrow> Filters \<Rightarrow> 'b option" where
  "applyFilters J body requested useModelName f =
     (case (if useModelName = [] then Some body else jSet J ''model'' (PName useModelName) body) of
        None \<Rightarrow> None
      | Some b1 \<Rightarrow>
          (case stripAll J (SanitizedStripParams f) b1 of
             None \<Rightarrow> None
           | Some b2 \<Rightarrow>
               (case SanitizedSetParams f of (setParams, setKeys, setSoft) \<Rightarrow>
                (case SanitizedSetParamsByID f requested of (byID, byIDKeys, byIDSoft) \<Rightarrow>
                 (case setAll J setParams setSoft setKeys b2 of
                    None \<Rightarrow> None
                  | Some b3 \<Rightarrow> setAll J byID byIDSoft byIDKeys b3)))))"

text \<open>The filter settings of the models and the peers, kept beside the rest of the configuration: the name sent upstream
  with the filters, whether the model opts in to sampling headers, and whether it declares what it reads.\<close>

record FilterConf =
  fcModels :: "(string, string \<times> Filters) gomap"
  fcPeers :: "(string, Filters) gomap"
  fcSampling :: "string list"
  fcDeclares :: "string list"

definition resolveFilters :: "Config \<Rightarrow> FilterConf \<Rightarrow> string \<Rightarrow> (string \<times> Filters) option" where
  "resolveFilters conf fc requested =
     (case RealModelName conf requested of
        Some realName \<Rightarrow> Some (case map_of (fcModels fc) realName of Some x \<Rightarrow> x | None \<Rightarrow> ([], zeroFilters))
      | None \<Rightarrow>
          (case ResolvePeerModel conf requested of
             Some (peerID, m) \<Rightarrow> Some ([], case map_of (fcPeers fc) peerID of Some f \<Rightarrow> f | None \<Rightarrow> zeroFilters)
           | None \<Rightarrow> None))"

definition modelRejectsImages :: "Config \<Rightarrow> FilterConf \<Rightarrow> string \<Rightarrow> bool" where
  "modelRejectsImages conf fc requested =
     (case RealModelName conf requested of
        None \<Rightarrow> False
      | Some realName \<Rightarrow>
          realName \<in> set (fcDeclares fc) \<and>
          (case map_of (cModels conf) realName of Some mc \<Rightarrow> ''image'' \<notin> set (mcCapIn mc) | None \<Rightarrow> True))"

section \<open>Sampling headers\<close>

text \<open>\<open>parseFloat\<close> is \<open>strconv.ParseFloat\<close> with NaN and infinities left out; \<open>h\<close> is \<open>Header.Get\<close>.\<close>

definition parseSamplingHeaderValue ::
    "(string \<Rightarrow> rat option) \<Rightarrow> (string \<Rightarrow> string) \<Rightarrow> string \<Rightarrow> rat \<Rightarrow> rat \<Rightarrow> bool \<Rightarrow> rat option" where
  "parseSamplingHeaderValue parseFloat h name lo hi minInclusive =
     (if h name = [] then None
      else case parseFloat (h name) of
        None \<Rightarrow> None
      | Some v \<Rightarrow>
          if v > hi then None
          else if minInclusive then (if v < lo then None else Some v)
          else if v \<le> lo then None else Some v)"

definition setFrom :: "'b JsonOps \<Rightarrow> bool \<Rightarrow> string \<Rightarrow> rat option \<Rightarrow> 'b \<Rightarrow> 'b option" where
  "setFrom J fillOnly field v body =
     (case v of
        None \<Rightarrow> Some body
      | Some x \<Rightarrow> if fillOnly \<and> jGet J body field \<noteq> None then Some body else jSet J field (PNumber x) body)"

definition applySamplingHeadersForModel ::
    "(string \<Rightarrow> rat option) \<Rightarrow> 'b JsonOps \<Rightarrow> Config \<Rightarrow> FilterConf \<Rightarrow> string \<Rightarrow> (string \<Rightarrow> string) \<Rightarrow> bool \<Rightarrow> 'b \<Rightarrow> 'b option" where
  "applySamplingHeadersForModel parseFloat J conf fc requested h emptyBody body =
     (if requested = [] \<or> emptyBody then Some body
      else case RealModelName conf requested of
        None \<Rightarrow> Some body
      | Some realName \<Rightarrow>
          if map_of (cModels conf) realName = None \<or> realName \<notin> set (fcSampling fc) then Some body
          else if \<not> jValid J body then Some body
          else Option.bind (setFrom J False ''temperature'' (parseSamplingHeaderValue parseFloat h ''X-Temperature'' 0 2 False) body)
            (\<lambda>b1. Option.bind (setFrom J True ''presence_penalty'' (parseSamplingHeaderValue parseFloat h ''X-Presence-Penalty'' (-2) 2 True) b1)
            (setFrom J True ''repeat_penalty'' (parseSamplingHeaderValue parseFloat h ''X-Repetition-Penalty'' 0 3 False))))"

definition samplingEndpoints :: "string list" where
  "samplingEndpoints = [''/v1/chat/completions'', ''/v1/completions'', ''/v1/messages'']"

section \<open>Images\<close>

text \<open>Decoded JSON. The fields of an object are a Go map.\<close>

datatype json = JNull | JBool bool | JNum string | JStr string | JArr "json list" | JObj "(string \<times> json) list"

definition typeField :: "(string \<times> json) list \<Rightarrow> string" where
  "typeField fs = (case map_of fs ''type'' of Some (JStr t) \<Rightarrow> t | _ \<Rightarrow> [])"

text \<open>\<open>replaceImageBlocksIn\<close>, and whether it changed anything.\<close>

fun replaceBlock :: "string \<Rightarrow> json \<Rightarrow> json \<times> bool" and replaceImageBlocksIn :: "string \<Rightarrow> json \<Rightarrow> json \<times> bool"
  and replaceList :: "string \<Rightarrow> json list \<Rightarrow> json list \<times> bool" and replaceFields :: "string \<Rightarrow> (string \<times> json) list \<Rightarrow> (string \<times> json) list \<times> bool"
where
  "replaceBlock ph b =
     (case b of
        JObj fs \<Rightarrow>
          if typeField fs = ''image'' \<or> typeField fs = ''image_url'' then (JObj [(''type'', JStr ''text''), (''text'', JStr ph)], True)
          else if typeField fs = ''tool_result'' then (case replaceFields ph fs of (fs', ch) \<Rightarrow> (JObj fs', ch))
          else (b, False)
      | _ \<Rightarrow> (b, False))"
| "replaceImageBlocksIn ph content =
     (case content of JArr blocks \<Rightarrow> (case replaceList ph blocks of (bs, ch) \<Rightarrow> (JArr bs, ch)) | _ \<Rightarrow> (content, False))"
| "replaceList ph [] = ([], False)"
| "replaceList ph (b # bs) =
     (case replaceBlock ph b of (b', ch) \<Rightarrow> (case replaceList ph bs of (bs', ch') \<Rightarrow> (b' # bs', ch \<or> ch')))"
| "replaceFields ph [] = ([], False)"
| "replaceFields ph ((k, v) # fs) =
     (if k = ''content'' then (case replaceImageBlocksIn ph v of (v', ch) \<Rightarrow> ((k, v') # fs, ch))
      else (case replaceFields ph fs of (fs', ch) \<Rightarrow> ((k, v) # fs', ch)))"

definition imageOmittedText :: "string \<Rightarrow> string" where
  "imageOmittedText m = ''[image omitted: model '' @ m @ '' accepts text only, so llama-swap replaced an image block with this note. Do not send images to this model; describe the content in text instead.]''"

text \<open>The loop over the messages: only their contents are walked.\<close>

fun replaceMessages :: "string \<Rightarrow> json list \<Rightarrow> json list \<times> bool" where
  "replaceMessages ph [] = ([], False)"
| "replaceMessages ph (m # ms) =
     (case (case m of JObj fs \<Rightarrow> (case replaceFields ph fs of (fs', ch) \<Rightarrow> (JObj fs', ch)) | _ \<Rightarrow> (m, False)) of (m', ch) \<Rightarrow>
      (case replaceMessages ph ms of (ms', ch') \<Rightarrow> (m' # ms', ch \<or> ch')))"

text \<open>\<open>imMessages\<close> is \<open>messages\<close> of the body if that is an array that decodes, \<open>imMentions\<close> the byte check, \<open>imSet\<close>
  writes the messages back.\<close>

record 'b ImageOps =
  imMentions :: "'b \<Rightarrow> bool"
  imMessages :: "'b \<Rightarrow> json list option"
  imSet :: "json list \<Rightarrow> 'b \<Rightarrow> 'b option"

definition replaceImageBlocks :: "'b ImageOps \<Rightarrow> 'b \<Rightarrow> string \<Rightarrow> 'b option" where
  "replaceImageBlocks I body model =
     (if \<not> imMentions I body then Some body
      else case imMessages I body of
        None \<Rightarrow> Some body
      | Some msgs \<Rightarrow>
          (case replaceMessages (imageOmittedText model) msgs of (msgs', changed) \<Rightarrow>
             if changed then imSet I msgs' body else Some body))"

section \<open>The middleware\<close>

text \<open>The request passes untouched, is answered with a status, or goes on with a new body. \<open>model\<close> is the model of its
  context, \<open>None\<close> when there is none.\<close>

datatype 'b filterOutcome = FilterPass | FilterAnswer int | FilterBody 'b

definition filterRequest ::
    "(string \<Rightarrow> rat option) \<Rightarrow> 'b JsonOps \<Rightarrow> 'b ImageOps \<Rightarrow> Config \<Rightarrow> FilterConf \<Rightarrow> string \<Rightarrow> string \<Rightarrow> string option \<Rightarrow>
      (string \<Rightarrow> string) \<Rightarrow> ('b \<Rightarrow> bool) \<Rightarrow> 'b \<Rightarrow> 'b filterOutcome" where
  "filterRequest parseFloat J I conf fc contentType path model h isEmpty body =
     (if \<not> containsSub ''application/json'' contentType then FilterPass
      else case model of
        None \<Rightarrow> FilterAnswer 404
      | Some m \<Rightarrow>
          (case resolveFilters conf fc m of
             None \<Rightarrow> FilterPass
           | Some (useModelName, f) \<Rightarrow>
               (case Option.bind (applyFilters J body m useModelName f) (\<lambda>b1.
                       Option.bind (if modelRejectsImages conf fc m then replaceImageBlocks I b1 m else Some b1) (\<lambda>b2.
                         if path \<in> set samplingEndpoints then applySamplingHeadersForModel parseFloat J conf fc m h (isEmpty b2) b2
                         else Some b2)) of
                  None \<Rightarrow> FilterAnswer 500
                | Some b \<Rightarrow> FilterBody b)))"

text \<open>A resident alias gets the name its model is sent under, and nothing else.\<close>

definition residentAliasModelName :: "'b JsonOps \<Rightarrow> FilterConf \<Rightarrow> string \<Rightarrow> string \<Rightarrow> ('b \<Rightarrow> bool) \<Rightarrow> 'b \<Rightarrow> ('b \<times> bool) option" where
  "residentAliasModelName J fc resolved contentType isEmpty body =
     (let useModelName = (case map_of (fcModels fc) resolved of Some (u, f) \<Rightarrow> u | None \<Rightarrow> []) in
      if useModelName = [] \<or> isEmpty body \<or> \<not> containsSub ''application/json'' contentType then Some (body, False)
      else map_option (\<lambda>b. (b, True)) (jSet J ''model'' (PName useModelName) body))"

end
