(* ===== verification/FilterSafety.thy ===== *)
theory FilterSafety
  imports RequestFilters
begin

text \<open>
  What the request filters promise: which value each parameter of the body ends with, whatever the configuration strips,
  sets and sets if undefined; that the model is never theirs to change; and that no image reaches a model that has
  declared it reads none.
\<close>

section \<open>Sanitized parameters\<close>

text \<open>The value a configuration gives a parameter, and whether only if undefined: spelled plainly it is set, spelled with
  a question mark it fills, plain before question mark, and the model never.\<close>

definition configured :: "(string, yval) gomap \<Rightarrow> string \<Rightarrow> (yval \<times> bool) option" where
  "configured raw p =
     (if p \<in> set ProtectedParams then None
      else if \<not> hasSuffix p ''?'' \<and> map_of raw p \<noteq> None then map_option (\<lambda>v. (v, False)) (map_of raw p)
      else if p = [] then None
      else map_option (\<lambda>v. (v, True)) (map_of raw (p @ ''?'')))"

lemma hasSuffix_question: "hasSuffix k ''?'' \<longleftrightarrow> k \<noteq> [] \<and> last k = CHR ''?''"
  by (cases k rule: rev_cases) (auto simp: hasSuffix_def)

lemma hard_fold:
  assumes "distinct (map fst raw)"
  shows "map_of (foldl hardStep acc raw) p =
    (if \<not> hasSuffix p ''?'' \<and> p \<notin> set ProtectedParams \<and> map_of raw p \<noteq> None then map_of raw p else map_of acc p)"
  using assms
proof (induction raw arbitrary: acc)
  case (Cons x raw)
  obtain k v where x: "x = (k, v)" by (cases x)
  have "map_of raw k = None" using Cons.prems by (simp add: x map_of_eq_None_iff)
  then show ?case using Cons.IH[of "hardStep acc x"] Cons.prems by (auto simp: x hardStep_def)
qed simp

lemma soft_fold:
  assumes "distinct (map fst raw)" "foldl softStep (res, soft) raw = (res', soft')"
    and "\<forall>k \<in> set soft. map_of res k \<noteq> None"
  shows "map_of res' p = (if map_of res p \<noteq> None then map_of res p
      else if p \<noteq> [] \<and> p \<notin> set ProtectedParams then map_of raw (p @ ''?'') else None) \<and>
    (p \<in> set soft' \<longleftrightarrow> p \<in> set soft \<or> map_of res p = None \<and> map_of res' p \<noteq> None)"
  using assms
proof (induction raw arbitrary: res soft)
  case (Cons x raw)
  obtain k v where x: "x = (k, v)" by (cases x)
  obtain r1 s1 where r1: "softStep (res, soft) x = (r1, s1)" by (cases "softStep (res, soft) x")
  have none: "map_of raw k = None" using Cons.prems(1) by (simp add: x map_of_eq_None_iff)
  have "foldl softStep (r1, s1) raw = (res', soft')" using Cons.prems(2) r1 by simp
  moreover have inv: "\<forall>k \<in> set s1. map_of r1 k \<noteq> None"
    using r1 Cons.prems(3) by (auto simp: softStep_def x Let_def split: if_splits)
  ultimately have IH: "map_of res' p = (if map_of r1 p \<noteq> None then map_of r1 p
      else if p \<noteq> [] \<and> p \<notin> set ProtectedParams then map_of raw (p @ ''?'') else None) \<and>
    (p \<in> set soft' \<longleftrightarrow> p \<in> set s1 \<or> map_of r1 p = None \<and> map_of res' p \<noteq> None)"
    using Cons.IH[of r1 s1] Cons.prems(1) by (simp add: x)
  show ?case
  proof (cases "hasSuffix k ''?'' \<and> butlast k \<noteq> [] \<and> butlast k \<notin> set ProtectedParams \<and> map_of res (butlast k) = None")
    case True
    then have k: "k = butlast k @ ''?''" by (cases k rule: rev_cases) (auto simp: hasSuffix_question)
    have r: "r1 = mput (butlast k) v res" "s1 = soft @ [butlast k]" using r1 True by (simp_all add: softStep_def x Let_def)
    show ?thesis
    proof (cases "p = butlast k")
      case True
      then have "p @ ''?'' = k" using k by simp
      then show ?thesis using IH \<open>hasSuffix k ''?'' \<and> _\<close> True by (simp add: r x)
    next
      case False
      then have "p @ ''?'' \<noteq> k" using k by (metis append_eq_append_conv length_append_singleton append1_eq_conv)
      then show ?thesis using IH False by (simp add: r x)
    qed
  next
    case False
    then have r: "r1 = res" "s1 = soft" using r1 by (auto simp: softStep_def x Let_def split: if_splits)
    have "p @ ''?'' = k \<Longrightarrow> p = butlast k \<and> hasSuffix k ''?''" by (auto simp: hasSuffix_question)
    with False have "map_of res p = None \<Longrightarrow> p \<noteq> [] \<Longrightarrow> p \<notin> set ProtectedParams \<Longrightarrow> p @ ''?'' \<noteq> k" by auto
    then show ?thesis using IH by (auto simp: r x)
  qed
qed auto

lemma sanitizeParams_ok:
  assumes "distinct (map fst raw)" "sanitizeParams raw = (params, keys, soft)"
  shows "map_of params p = map_option fst (configured raw p)" "p \<in> set soft \<longleftrightarrow> (\<exists>v. configured raw p = Some (v, True))"
    "set keys = dom (map_of params)" "distinct keys"
proof -
  have f: "foldl softStep (foldl hardStep [] raw, []) raw = (params, soft)" and k: "keys = sort (mkeys params)"
    using assms(2) by (auto simp: sanitizeParams_def split: prod.splits)
  have S: "map_of params p = (if map_of (foldl hardStep [] raw) p \<noteq> None then map_of (foldl hardStep [] raw) p
      else if p \<noteq> [] \<and> p \<notin> set ProtectedParams then map_of raw (p @ ''?'') else None)"
    "p \<in> set soft \<longleftrightarrow> map_of (foldl hardStep [] raw) p = None \<and> map_of params p \<noteq> None"
    using soft_fold[OF assms(1) f, of p] by simp_all
  note H = hard_fold[OF assms(1), of "[]" p]
  show "map_of params p = map_option fst (configured raw p)"
    using S(1) H by (auto simp: configured_def option.map_comp o_def option.map_ident)
  show "p \<in> set soft \<longleftrightarrow> (\<exists>v. configured raw p = Some (v, True))"
    using S H by (auto simp: configured_def)
  show "set keys = dom (map_of params)" "distinct keys" by (simp_all add: k)
qed

lemma stripLoop_set:
  "set (stripLoop seenParams ps) = {p. p \<in> TrimSpaceUTF8 ` set ps \<and> p \<notin> set ProtectedParams \<and> p \<noteq> [] \<and> p \<notin> set seenParams}"
  by (induction seenParams ps rule: stripLoop.induct) (auto simp: Let_def)

definition stripped :: "Filters \<Rightarrow> string \<Rightarrow> bool" where
  "stripped f p \<longleftrightarrow> fStripParams f \<noteq> [] \<and> p \<in> TrimSpaceUTF8 ` set (splitByte CHR '','' (fStripParams f)) \<and> p \<noteq> [] \<and> p \<noteq> ''model''"

lemma SanitizedStripParams_set: "set (SanitizedStripParams f) = {p. stripped f p}"
  by (auto simp: SanitizedStripParams_def stripped_def stripLoop_set ProtectedParams_def)

section \<open>What the body ends with\<close>

text \<open>A name without the signs that the JSON packages read as a path.\<close>

definition plainKey :: "string \<Rightarrow> bool" where
  "plainKey k \<longleftrightarrow> k \<noteq> [] \<and> (\<forall>c \<in> set k. let n = (of_char c :: nat) in 97 \<le> n \<and> n \<le> 122 \<or> 65 \<le> n \<and> n \<le> 90 \<or> n = 95)"

text \<open>The documented behaviour of setting and deleting a field: it reads back, the others stay.\<close>

definition json_laws :: "'b JsonOps \<Rightarrow> bool" where
  "json_laws J \<longleftrightarrow>
     (\<forall>k v b b' p. plainKey k \<longrightarrow> plainKey p \<longrightarrow> jSet J k v b = Some b' \<longrightarrow> jGet J b' p = (if p = k then Some v else jGet J b p)) \<and>
     (\<forall>k b b' p. plainKey k \<longrightarrow> plainKey p \<longrightarrow> jDel J k b = Some b' \<longrightarrow> jGet J b' p = (if p = k then None else jGet J b p))"

lemma json_set: "json_laws J \<Longrightarrow> jSet J k v b = Some b' \<Longrightarrow> plainKey k \<Longrightarrow> plainKey p \<Longrightarrow>
    jGet J b' p = (if p = k then Some v else jGet J b p)"
  unfolding json_laws_def by blast

lemma json_del: "json_laws J \<Longrightarrow> jDel J k b = Some b' \<Longrightarrow> plainKey k \<Longrightarrow> plainKey p \<Longrightarrow>
    jGet J b' p = (if p = k then None else jGet J b p)"
  unfolding json_laws_def by blast

text \<open>What a value configured for a parameter makes of what the body has by then.\<close>

definition filled :: "(yval \<times> bool) option \<Rightarrow> jparam option \<Rightarrow> jparam option" where
  "filled c old = (case c of None \<Rightarrow> old | Some (v, soft) \<Rightarrow> if soft \<and> old \<noteq> None then old else Some (PValue v))"

lemma stripAll_get:
  assumes "json_laws J" "stripAll J ps b = Some b'" "\<forall>k \<in> set ps. plainKey k" "plainKey p"
  shows "jGet J b' p = (if p \<in> set ps then None else jGet J b p)"
  using assms(2,3)
proof (induction ps arbitrary: b)
  case (Cons k ps)
  then obtain b1 where b1: "jDel J k b = Some b1" "stripAll J ps b1 = Some b'" by (auto split: option.splits)
  with Cons.IH[OF b1(2)] Cons.prems(2) json_del[OF assms(1) b1(1) _ assms(4)] show ?case by auto
qed simp

lemma setAll_get:
  assumes "json_laws J" "setAll J params soft keys b = Some b'" "\<forall>k \<in> set keys. plainKey k" "distinct keys" "plainKey p"
  shows "jGet J b' p = (if p \<in> set keys \<and> \<not> (p \<in> set soft \<and> jGet J b p \<noteq> None)
    then Some (PValue (case map_of params p of Some v \<Rightarrow> v | None \<Rightarrow> YNull)) else jGet J b p)"
  using assms(2-4)
proof (induction keys arbitrary: b)
  case (Cons k ks)
  show ?case
  proof (cases "k \<in> set soft \<and> jGet J b k \<noteq> None")
    case True
    with Cons.prems have "setAll J params soft ks b = Some b'" by simp
    with Cons.IH[OF this] Cons.prems(2,3) True show ?thesis by auto
  next
    case False
    with Cons.prems obtain b1 where b1: "jSet J k (PValue (case map_of params k of Some v \<Rightarrow> v | None \<Rightarrow> YNull)) b = Some b1"
      "setAll J params soft ks b1 = Some b'" by (auto split: option.splits if_splits)
    have k: "plainKey k" using Cons.prems(2) by simp
    show ?thesis using Cons.IH[OF b1(2)] Cons.prems(2,3) json_set[OF assms(1) b1(1) k assms(5)] False by auto
  qed
qed simp

lemma setAll_filled:
  assumes "json_laws J" "distinct (map fst raw)" "sanitizeParams raw = (params, keys, soft)" "\<forall>k \<in> set keys. plainKey k"
    and "setAll J params soft keys b = Some b'" "plainKey p"
  shows "jGet J b' p = filled (configured raw p) (jGet J b p)"
proof -
  note S = sanitizeParams_ok[OF assms(2,3)]
  note G = setAll_get[OF assms(1,5,4) S(4) assms(6)]
  have "p \<in> set keys \<longleftrightarrow> configured raw p \<noteq> None" using S(1,3) by auto
  then show ?thesis
    using G S(1)[of p] S(2)[of p] by (cases "configured raw p") (auto simp: filled_def)
qed

lemma setStage:
  assumes "json_laws J" "distinct (map fst raw)" "(if raw = [] then ([], [], []) else sanitizeParams raw) = (params, keys, soft)"
    and "\<forall>k. configured raw k \<noteq> None \<longrightarrow> plainKey k" "setAll J params soft keys b = Some b'" "plainKey p"
  shows "jGet J b' p = filled (configured raw p) (jGet J b p)"
proof (cases "raw = []")
  case True
  with assms(3,5) show ?thesis by (simp add: configured_def filled_def)
next
  case False
  then have s: "sanitizeParams raw = (params, keys, soft)" using assms(3) by simp
  have "\<forall>k \<in> set keys. plainKey k" using sanitizeParams_ok(1,3)[OF assms(2) s] assms(4) by fastforce
  then show ?thesis by (rule setAll_filled[OF assms(1,2) s _ assms(5,6)])
qed

text \<open>The settings of an id, none when it has no entry.\<close>

definition byID :: "Filters \<Rightarrow> string \<Rightarrow> (string, yval) gomap" where
  "byID f requested = (case map_of (fSetParamsByID f) requested of None \<Rightarrow> [] | Some params \<Rightarrow> params)"

lemma SanitizedSetParamsByID_byID:
  "SanitizedSetParamsByID f requested = (if byID f requested = [] then ([], [], []) else sanitizeParams (byID f requested))"
  by (simp add: SanitizedSetParamsByID_def byID_def split: option.splits)


text \<open>A body as a list of its fields.\<close>

definition exJson :: "(string \<times> jparam) list JsonOps" where
  "exJson = \<lparr>jGet = map_of, jSet = (\<lambda>k v b. Some (mput k v b)), jDel = (\<lambda>k b. Some (mdel k b)), jValid = (\<lambda>_. True)\<rparr>"

definition exFilters :: Filters where
  "exFilters = \<lparr>fStripParams = ''seed, model'', fSetParams = [(''top?'', YInt 1), (''n'', YInt 2)], fSetParamsByID = [(''a'', [(''n'', YInt 3)])]\<rparr>"


lemma exJson_laws: "json_laws exJson"
  by (auto simp: json_laws_def exJson_def)


section \<open>Images\<close>

text \<open>A content carries an image if it is a list of blocks with an image among them, or with the result of a tool whose
  content carries one.\<close>

inductive carries :: "json \<Rightarrow> bool" where
  carries_image: "JObj fs \<in> set bs \<Longrightarrow> typeField fs \<in> {''image'', ''image_url''} \<Longrightarrow> carries (JArr bs)"
| carries_result: "JObj fs \<in> set bs \<Longrightarrow> typeField fs = ''tool_result'' \<Longrightarrow> map_of fs ''content'' = Some c \<Longrightarrow> carries c \<Longrightarrow>
    carries (JArr bs)"

inductive_simps carries_JArr: "carries (JArr bs)"

lemma not_carries [simp]: "\<not> carries JNull" "\<not> carries (JBool b)" "\<not> carries (JNum s)" "\<not> carries (JStr s)" "\<not> carries (JObj fs)"
  by (auto elim: carries.cases)

definition messageCarries :: "json \<Rightarrow> bool" where
  "messageCarries m \<longleftrightarrow> (case m of JObj fs \<Rightarrow> (case map_of fs ''content'' of Some c \<Rightarrow> carries c | None \<Rightarrow> False) | _ \<Rightarrow> False)"

text \<open>The same of a single block.\<close>

definition blockCarries :: "json \<Rightarrow> bool" where
  "blockCarries b \<longleftrightarrow> carries (JArr [b])"

definition fieldsCarry :: "(string \<times> json) list \<Rightarrow> bool" where
  "fieldsCarry fs \<longleftrightarrow> (case map_of fs ''content'' of Some c \<Rightarrow> carries c | None \<Rightarrow> False)"

lemma carries_blocks: "carries (JArr bs) \<longleftrightarrow> (\<exists>b \<in> set bs. blockCarries b)"
  unfolding blockCarries_def carries_JArr by auto

lemma blockCarries_simps [simp]:
  "\<not> blockCarries JNull" "\<not> blockCarries (JBool q)" "\<not> blockCarries (JNum s)" "\<not> blockCarries (JStr s)" "\<not> blockCarries (JArr bs)"
  "blockCarries (JObj fs) \<longleftrightarrow> typeField fs \<in> {''image'', ''image_url''} \<or> typeField fs = ''tool_result'' \<and> fieldsCarry fs"
  by (auto simp: blockCarries_def carries_JArr fieldsCarry_def split: option.splits)

text \<open>What a replacement promises of a thing that may carry an image: afterwards it carries none, it reports whether it did
  before, and without one it leaves the thing alone.\<close>

definition clears :: "('a \<Rightarrow> bool) \<Rightarrow> 'a \<Rightarrow> 'a \<times> bool \<Rightarrow> bool" where
  "clears P x r \<longleftrightarrow> \<not> P (fst r) \<and> snd r = P x \<and> (\<not> P x \<longrightarrow> fst r = x)"

lemma typeField_replaceFields: "typeField (fst (replaceFields ph fs)) = typeField fs"
proof -
  have "map_of (fst (replaceFields ph fs)) ''type'' = map_of fs ''type''"
    by (induction fs) (auto split: prod.splits)
  then show ?thesis by (simp add: typeField_def)
qed

lemma replaces_clear:
  shows "clears blockCarries b (replaceBlock ph b)"
    and "clears carries c (replaceImageBlocksIn ph c)"
    and "clears (\<lambda>bs. carries (JArr bs)) bs (replaceList ph bs)"
    and "clears fieldsCarry fs (replaceFields ph fs)"
proof (induction ph b and ph c and ph bs and ph fs rule: replaceBlock_replaceImageBlocksIn_replaceList_replaceFields.induct)
  case (1 ph b)
  show ?case
  proof (cases b)
    case (JObj fs)
    then show ?thesis using 1[OF JObj] typeField_replaceFields[of ph fs]
      by (auto simp: clears_def typeField_def[of "[_, _]"] split: prod.splits)
  qed (simp_all add: clears_def)
next
  case (2 ph content)
  then show ?case by (cases content) (auto simp: clears_def split: prod.splits)
next
  case (4 ph b bs)
  obtain b' ch bs' ch' where r: "replaceBlock ph b = (b', ch)" "replaceList ph bs = (bs', ch')"
    by (cases "replaceBlock ph b"; cases "replaceList ph bs")
  have l: "replaceList ph (b # bs) = (b' # bs', ch \<or> ch')" by (simp only: replaceList.simps r prod.case)
  have "clears blockCarries b (b', ch)" "clears (\<lambda>bs. carries (JArr bs)) bs (bs', ch')"
    using 4(1) 4(2)[OF r(1)[symmetric]] unfolding r by this+
  then show ?case unfolding l by (auto simp: clears_def carries_blocks)
next
  case (6 ph k v fs)
  then show ?case by (auto simp: clears_def fieldsCarry_def split: prod.splits)
qed (auto simp: clears_def carries_blocks fieldsCarry_def)

lemma replaceMessages_clears:
  "replaceMessages ph ms = (ms', changed) \<Longrightarrow>
    list_all2 (\<lambda>m m'. \<not> messageCarries m' \<and> (\<not> messageCarries m \<longrightarrow> m' = m)) ms ms' \<and> changed = (\<exists>m \<in> set ms. messageCarries m)"
proof (induction ms arbitrary: ms' changed)
  case (Cons m ms)
  obtain m1 ch where m1: "(case m of JObj fs \<Rightarrow> (case replaceFields ph fs of (fs', ch) \<Rightarrow> (JObj fs', ch)) | _ \<Rightarrow> (m, False)) = (m1, ch)"
    by (rule prod.exhaust)
  have "clears messageCarries m (m1, ch)"
  proof (cases m)
    case (JObj fs)
    with m1 replaces_clear(4)[of fs ph] show ?thesis
      by (cases "replaceFields ph fs") (auto simp: clears_def messageCarries_def fieldsCarry_def)
  qed (use m1 in \<open>auto simp: clears_def messageCarries_def\<close>)
  then have c: "\<not> messageCarries m1" "ch = messageCarries m" "\<not> messageCarries m \<longrightarrow> m1 = m" by (simp_all add: clears_def)
  obtain ms1 ch1 where ms1: "replaceMessages ph ms = (ms1, ch1)" by fastforce
  from Cons.prems have "ms' = m1 # ms1" "changed = (ch \<or> ch1)" by (simp_all only: replaceMessages.simps m1 ms1 prod.case prod.inject)
  with Cons.IH[OF ms1] c show ?case by auto
qed simp


definition exImages :: "json list ImageOps" where
  "exImages = \<lparr>imMentions = (\<lambda>_. True), imMessages = Some, imSet = (\<lambda>ms _. Some ms)\<rparr>"

definition exShot :: json where
  "exShot = JObj [(''role'', JStr ''user''), (''content'', JArr [JObj [(''type'', JStr ''tool_result''),
     (''content'', JArr [JObj [(''type'', JStr ''image''), (''source'', JNull)]])]])]"


end
