(* ===== verification/Spec2Isabelle.thy ===== *)
theory Spec2Isabelle
  imports FifoConserve FifoFair FifoBounds LoopHold BrakeGate ProcessSafety SlotBind AffinitySafety PrefillStall RequestFlow RouterPins ConfigMerge SelectorSafety FilterSafety
begin

text \<open>
  A verification development for llama-swap (macOS extended fork), a Go proxy that starts and stops local
  model servers on demand. This theory imports the others and says what they hold.

  The program. A request names a model. The router (\<open>src/internal/router/base.go\<close>) hands it to a scheduler
  that runs on one goroutine (\<open>router/scheduler/fifo.go\<close>), which decides whether it is served, queued, or
  starts a swap: it asks a planner (\<open>router/group.go\<close>, \<open>router/matrix.go\<close>) which running models must go, and
  acts on the processes (\<open>process/process_command.go\<close>) through an \<open>Effects\<close> interface. The matrix planner
  solves a small set language (\<open>matrix/dsl.go\<close>, \<open>matrix/program.go\<close>) given in the configuration
  (\<open>config/matrix.go\<close>). A loop tracker (\<open>swaputil/looptrack.go\<close>) holds sessions that repeat themselves, and
  the scheduler leaves their requests out while it does. A memory brake (\<open>membrake/brake.go\<close>) kills every
  model server when file-backed memory runs up, and holds back loads until the cache has drained.

  The theories, and the code they model.

  \<^item> \<open>Prelude\<close>: Go maps, times and slice helpers shared by all.
  \<^item> \<open>MatrixDSL\<close> (\<open>matrix/dsl.go\<close>), \<open>BitMask\<close>, \<open>MatrixCompile\<close>, \<open>MatrixSolve\<close> (\<open>matrix/program.go\<close>),
    \<open>MatrixConfig\<close> (\<open>config/matrix.go\<close>): tokenizer and parser with its round trip; the bit masks as sets; the
    depth-first order, linking and support masks; the branch-and-bound solver, against the family of sets an
    expression describes (\<open>expand\<close>); validation and resolved costs.
  \<^item> \<open>Swapper\<close>: both planners, their contract as the locale \<open>swapper\<close>, and the matrix planner's one-entry
    cache, shown transparent.
  \<^item> \<open>Scheduler\<close> (its data, \<open>swaputil/tier.go\<close>, \<open>preempt.go\<close>), \<open>Fifo\<close> (\<open>fifo.go\<close>, \<open>kvwarm.go\<close>, \<open>grace.go\<close>,
    \<open>capacity.go\<close>): every handler. \<open>FifoQueue\<close> holds the frame facts and the queue order, \<open>FifoSafety\<close> the
    event loop, its reachable states and the swap and queue invariants, \<open>FifoConserve\<close> the books of
    requests, \<open>FifoFair\<close> rank, progress, preemption, unload and shutdown, \<open>FifoBounds\<close> limits, the KV pool
    and the published snapshots.
  \<^item> \<open>LoopTrack\<close> (the code), \<open>LoopHold\<close> (reachable trackers, how strikes and holds come and go).
  \<^item> \<open>MinWindow\<close> (the monotonic deque, a refinement through the locale \<open>min_window\<close>), \<open>MemBrake\<close> (the code),
    \<open>BrakeSafety\<close> (when it trips), \<open>BrakeGate\<close> (when the gate opens, the quiet window, parked loads, purges).
  \<^item> \<open>ProcessCommand\<close> (\<open>process_command.go\<close>, \<open>reclaim.go\<close>, \<open>reclaim_unix.go\<close>, \<open>live_registry.go\<close>),
    \<open>ProcessSafety\<close>: one upstream process, what its callers are told, what a start may kill, when compute
    errors restart it.
  \<^item> \<open>SlotBind\<close> (\<open>router/slotbind.go\<close> and the places \<open>base.go\<close> gives back): which slot of its child a granted
    request gets; \<open>SlotAffinity\<close> (\<open>server/slot_affinity.go\<close>) and \<open>AffinitySafety\<close>: which slot a session
    prefers, and how two sessions on one slot are pulled apart; \<open>PrefillStall\<close> (\<open>router/prefillstall.go\<close>):
    when a standing prompt costs a request its slot, and the child its life.

  How the code is translated. A goroutine that owns its state is a function from event and state to state;
  channels, contexts, callbacks and commands are identities, and what is sent on them is recorded. Errors are
  values. Clocks, process states, polls and system answers are inputs of the step that reads them. Go maps are
  association lists: their order stands for the iteration order, which Go leaves open, and the theorems hold
  for each. Structural recursion is \<open>fun\<close>; the others carry a measure. No loop runs on fuel: the health check
  and the port wait follow a script of rounds, and their theorem says which scripts are long enough.

  Bounds. Counters declared \<open>int\<close> are integers. The 64-bit shift of the brake's quiet window is bounded
  explicitly. Token rates, \<open>float64\<close> in the code, are rationals.

  Not modelled: YAML decoding and the rest of the configuration, HTTP serving and response writers, the
  watchers of a client that stops reading, session and status bookkeeping of the server, persistence, log and marker texts, probes of the
  operating system, locks. The base router is modelled as far as the scheduler's \<open>Effects\<close> and run loop.
\<close>

end
